(* ===== verification/Prelude.thy ===== *)
theory Prelude
  imports Main "HOL-Library.Word" "HOL-Library.Multiset"
begin

section \<open>Prelude: results, words, lists and maps shared by the components\<close>

text \<open>
  Vocabulary every component theory uses: the error values that stand for the
  exceptions, failed \<^verbatim>\<open>CHECK\<close>s and undefined accesses of the C++ code, the
  result type of the operations that can fail, the machine-integer types, and
  generic facts on lists, finite maps and words.  Three collections of rewrite
  rules are declared here and filled by the components: \<open>result_simps\<close>,
  \<open>map_upd_simps\<close> and \<open>model_defs\<close>.
\<close>

named_theorems result_simps \<open>unfolding of the result monad\<close>
named_theorems map_upd_simps \<open>facts on updated and restricted finite maps\<close>
named_theorems model_defs \<open>definitions of the small operations of the model\<close>

subsection \<open>Machine integers\<close>

type_synonym uint8 = "8 word"
type_synonym uint16 = "16 word"
type_synonym uint32 = "32 word"
type_synonym uint64 = "64 word"

subsection \<open>Errors and results\<close>

text \<open>
  \<open>RuntimeError\<close> is a thrown \<^verbatim>\<open>std::runtime_error\<close>, \<open>CheckFailed\<close> a failed
  \<^verbatim>\<open>CHECK\<close> or \<^verbatim>\<open>LOG(FATAL)\<close> (both abort the process), \<open>OutOfRange\<close> a thrown
  \<^verbatim>\<open>std::out_of_range\<close> (\<^verbatim>\<open>at\<close> on a missing key) and \<open>Undefined\<close> an access the
  language leaves undefined (dereferencing \<^verbatim>\<open>end()\<close>, an index past the end).
\<close>

datatype err = RuntimeError string | CheckFailed string | OutOfRange string | Undefined string

type_synonym 'a result = "err + 'a"

definition rbind :: "'a result \<Rightarrow> ('a \<Rightarrow> 'b result) \<Rightarrow> 'b result" where
  "rbind r f = (case r of Inl e \<Rightarrow> Inl e | Inr x \<Rightarrow> f x)"

lemma rbind_Inr [simp, result_simps]: "rbind (Inr x) f = f x"
  by (simp add: rbind_def)

lemma rbind_Inl [simp, result_simps]: "rbind (Inl e) f = Inl e"
  by (simp add: rbind_def)

lemma rbind_eq_Inr [result_simps]: "rbind r f = Inr y \<longleftrightarrow> (\<exists>x. r = Inr x \<and> f x = Inr y)"
  by (cases r) auto

lemma rbind_assoc [result_simps]: "rbind (rbind r f) g = rbind r (\<lambda>x. rbind (f x) g)"
  by (cases r) auto

lemma rbind_cong [fundef_cong]:
  "r = r' \<Longrightarrow> (\<And>x. r' = Inr x \<Longrightarrow> f x = g x) \<Longrightarrow> rbind r f = rbind r' g"
  by (cases r') auto

text \<open>Running a list of operations, each of which may fail, and collecting outputs.\<close>

fun run_ops :: "('s \<Rightarrow> 'op \<Rightarrow> ('s \<times> 'o list) result) \<Rightarrow> 's \<Rightarrow> 'op list \<Rightarrow> ('s \<times> 'o list) result" where
  "run_ops f s [] = Inr (s, [])"
| "run_ops f s (op # ops) =
     rbind (f s op) (\<lambda>(s1, o1). rbind (run_ops f s1 ops) (\<lambda>(s2, o2). Inr (s2, o1 @ o2)))"

lemma run_ops_ConsE:
  assumes "run_ops f s (op # ops) = Inr (t, outs)"
  obtains s1 o1 o2 where "f s op = Inr (s1, o1)" "run_ops f s1 ops = Inr (t, o2)" "outs = o1 @ o2"
  using assms by (auto simp: rbind_eq_Inr)

lemma run_ops_append:
  "run_ops f s (xs @ ys) = rbind (run_ops f s xs) (\<lambda>(s1, o1). rbind (run_ops f s1 ys) (\<lambda>(s2, o2). Inr (s2, o1 @ o2)))"
  by (induction xs arbitrary: s) (auto simp: rbind_def split: sum.splits prod.splits)

lemma run_ops_snoc:
  "run_ops f s (ops @ [op]) = rbind (run_ops f s ops) (\<lambda>(s1, o1). rbind (f s1 op) (\<lambda>(s2, o2). Inr (s2, o1 @ o2)))"
  by (induction ops arbitrary: s) (auto simp: rbind_def split: sum.splits prod.splits)

lemma run_ops_invariant:
  assumes "run_ops f s ops = Inr (t, outs)" and "P s"
    and "\<And>s op t outs. P s \<Longrightarrow> op \<in> set ops \<Longrightarrow> f s op = Inr (t, outs) \<Longrightarrow> P t"
  shows "P t"
  using assms
proof (induction ops arbitrary: s outs)
  case Nil
  then show ?case by simp
next
  case (Cons op ops)
  then show ?case by (elim run_ops_ConsE) (metis list.set_intros)
qed

text \<open>
  Invariants over the operations performed so far: \<open>P h s\<close> relates the history \<open>h\<close>
  to the state, \<open>Q h x\<close> is what an output guarantees and \<open>ok\<close> a condition on whole
  histories that is closed under prefixes.
\<close>

lemma run_ops_history:
  assumes "run_ops f s ops = Inr (t, outs)" and "P h s" and "ok (h @ ops)"
    and step: "\<And>h s op t outs. P h s \<Longrightarrow> ok (h @ [op]) \<Longrightarrow> f s op = Inr (t, outs) \<Longrightarrow>
      P (h @ [op]) t \<and> (\<forall>x\<in>set outs. Q (h @ [op]) x)"
    and mono: "\<And>h h' x. Q h x \<Longrightarrow> Q (h @ h') x"
    and prefix: "\<And>h h'. ok (h @ h') \<Longrightarrow> ok h"
  shows "P (h @ ops) t \<and> (\<forall>x\<in>set outs. Q (h @ ops) x)"
  using assms(1-3)
proof (induction ops arbitrary: s h outs)
  case Nil
  then show ?case by simp
next
  case (Cons op ops)
  from Cons.prems(1) obtain s1 o1 o2 where
    st: "f s op = Inr (s1, o1)" and rest: "run_ops f s1 ops = Inr (t, o2)"
    and outs: "outs = o1 @ o2" by (rule run_ops_ConsE)
  have ok1: "ok (h @ [op])" using Cons.prems(3) prefix [of "h @ [op]" ops] by simp
  note now = step [OF Cons.prems(2) ok1 st]
  then have "P ((h @ [op]) @ ops) t \<and> (\<forall>x\<in>set o2. Q ((h @ [op]) @ ops) x)"
    using Cons.IH [OF rest, of "h @ [op]"] Cons.prems(3) by simp
  moreover have "\<forall>x\<in>set o1. Q ((h @ [op]) @ ops) x" using now mono by blast
  ultimately show ?case using outs by auto
qed

text \<open>Deterministic runs without failure: a condition that holds at every step.\<close>

fun all_steps :: "('s \<Rightarrow> 'op \<Rightarrow> 's) \<Rightarrow> ('s \<Rightarrow> 'op \<Rightarrow> bool) \<Rightarrow> 's \<Rightarrow> 'op list \<Rightarrow> bool" where
  "all_steps f P s [] \<longleftrightarrow> True"
| "all_steps f P s (op # ops) \<longleftrightarrow> P s op \<and> all_steps f P (f s op) ops"

lemma all_steps_invariant:
  assumes "all_steps f P s ops" and "I s" and "\<And>s op. I s \<Longrightarrow> P s op \<Longrightarrow> I (f s op)"
  shows "I (foldl f s ops)"
  using assms(1,2) by (induction ops arbitrary: s) (auto intro: assms(3))

lemma all_steps_mono:
  assumes "all_steps f P s ops" and "\<And>s op. P s op \<Longrightarrow> Q s op"
  shows "all_steps f Q s ops"
  using assms(1) by (induction ops arbitrary: s) (auto intro: assms(2))

subsection \<open>Consecutive positions\<close>

text \<open>The positions \<open>a, a + 1, ...\<close> of \<open>n\<close> consecutive log entries, wrapping at the word size.\<close>

definition consecutive :: "'a::len word \<Rightarrow> nat \<Rightarrow> 'a word list" where
  "consecutive a n = map (\<lambda>i. a + of_nat i) [0..<n]"

lemma length_consecutive [simp]: "length (consecutive a n) = n"
  by (simp add: consecutive_def)

lemma consecutive_0 [simp]: "consecutive a 0 = []"
  by (simp add: consecutive_def)

lemma consecutive_snoc: "consecutive a (Suc n) = consecutive a n @ [a + of_nat n]"
  by (simp add: consecutive_def)

lemma consecutive_add:
  "consecutive a (m + n) = consecutive a m @ consecutive (a + of_nat m) n"
  by (induction n) (simp_all add: consecutive_snoc)

lemma consecutive_Suc: "consecutive a (Suc n) = a # consecutive (a + 1) n"
  using consecutive_add [of a 1 n] by (simp add: consecutive_def)

lemma distinct_consecutive:
  assumes "n \<le> 2 ^ LENGTH('a)"
  shows "distinct (consecutive (a :: 'a::len word) n)"
proof -
  have "inj_on (\<lambda>i. a + of_nat i) {0..<n}"
    using assms by (auto intro!: inj_onI simp: of_nat_eq_iff unsigned_of_nat word_of_nat_eq_iff take_bit_nat_eq_self)
  then show ?thesis by (simp add: consecutive_def distinct_map)
qed

subsection \<open>Finite maps\<close>

lemma dom_map_upd_None [map_upd_simps]: "dom (m(k := None)) = dom m - {k}"
  by auto

lemma card_dom_remove:
  "finite (dom m) \<Longrightarrow> m k = Some v \<Longrightarrow> card (dom m - {k}) < card (dom m)"
  by (auto intro!: psubset_card_mono)

lemma finite_dom_finite_type [simp]: "finite (dom (m :: 'a::finite \<rightharpoonup> 'b))"
  by (rule finite)

subsection \<open>Lists\<close>

lemma sum_list_filter_split:
  "(\<Sum>x\<leftarrow>xs. f x) = (\<Sum>x\<leftarrow>filter P xs. f x) + (\<Sum>x\<leftarrow>filter (\<lambda>x. \<not> P x) xs. (f x :: 'a::comm_monoid_add))"
  by (induction xs) (auto simp: ac_simps)

lemma count_list_filter: "count_list (filter P xs) x = (if P x then count_list xs x else 0)"
  by (induction xs) auto

lemma count_list_0_iff': "count_list xs x = 0 \<longleftrightarrow> x \<notin> set xs"
  by (rule count_list_0_iff)

lemma mset_filter_disjoint:
  "(\<And>x. x \<in> set xs \<Longrightarrow> \<not> (P x \<and> Q x)) \<Longrightarrow>
     mset (filter P xs) + mset (filter Q xs) = mset (filter (\<lambda>x. P x \<or> Q x) xs)"
  by (induction xs) auto

lemma mset_concat_partition:
  "distinct ps \<Longrightarrow> mset (concat (map (\<lambda>p. filter (\<lambda>x. f x = p) xs) ps)) = mset (filter (\<lambda>x. f x \<in> set ps) xs)"
proof (induction ps)
  case Nil
  then show ?case by simp
next
  case (Cons p ps)
  then have "mset (filter (\<lambda>x. f x = p) xs) + mset (filter (\<lambda>x. f x \<in> set ps) xs) =
      mset (filter (\<lambda>x. f x = p \<or> f x \<in> set ps) xs)"
    by (intro mset_filter_disjoint) auto
  with Cons show ?case by simp
qed

text \<open>\<^verbatim>\<open>std::sort\<close> followed by \<^verbatim>\<open>std::unique\<close> and \<^verbatim>\<open>erase\<close>.\<close>

definition sort_unique :: "'a::linorder list \<Rightarrow> 'a list" where
  "sort_unique xs = remdups_adj (sort xs)"

lemma distinct_remdups_adj_sorted: "sorted xs \<Longrightarrow> distinct (remdups_adj xs)"
  by (induction xs rule: remdups_adj.induct) (auto split: if_splits)

lemma set_sort_unique [simp]: "set (sort_unique xs) = set xs"
  by (simp add: sort_unique_def)

lemma sorted_sort_unique [simp]: "sorted (sort_unique xs)"
  by (simp add: sort_unique_def sorted_remdups_adj)

lemma distinct_sort_unique [simp]: "distinct (sort_unique xs)"
  by (simp add: sort_unique_def distinct_remdups_adj_sorted)

lemma sort_unique_eqI: "sorted ys \<Longrightarrow> distinct ys \<Longrightarrow> set ys = set xs \<Longrightarrow> ys = sort_unique xs"
  by (simp add: sorted_distinct_set_unique)

text \<open>
  A \<^verbatim>\<open>vector<bool>\<close> used as a set of indices: raising a flag grows the vector when
  needed, and the raised flags are listed in increasing order.
\<close>

definition vector_resize :: "nat \<Rightarrow> bool list \<Rightarrow> bool list" where
  "vector_resize n v = take n v @ replicate (n - length v) False"

definition raise_flag :: "nat \<Rightarrow> bool list \<Rightarrow> bool list" where
  "raise_flag i v = (if length v \<le> i then v @ replicate (i + 1 - length v) False else v)[i := True]"

definition raised :: "bool list \<Rightarrow> nat list" where
  "raised v = filter (\<lambda>i. v ! i) [0..<length v]"

lemma set_raised: "set (raised v) = {i. i < length v \<and> v ! i}"
  by (auto simp: raised_def)

lemma raised_raise_flag: "set (raised (raise_flag i v)) = insert i (set (raised v))"
  by (auto simp: set_raised raise_flag_def nth_list_update nth_append split: if_splits)

lemma raised_sorted [simp]: "sorted (raised v)" "distinct (raised v)"
  by (simp_all add: raised_def sorted_filter [of id, simplified])

lemma raised_replicate [simp]: "raised (replicate n False) = []"
  by (auto simp: raised_def filter_empty_conv)

end
