(* ===== verification/Ids.thy ===== *)
theory Ids
  imports Prelude
begin

section \<open>Identifiers and basic records (\<^verbatim>\<open>common/types.h\<close>)\<close>

text \<open>
  Machine ids pack a region, a replica and a partition into 32 bits; transaction
  and batch ids pack a counter and a machine id into 64 bits.  Both packings are
  kept at their machine width, so the shifts drop what the C++ shifts drop.  The
  theory also holds the record value \<open>Record\<close> of the storage layer, the lock modes
  and the lock-table key \<open>MakeKeyRegion\<close>.
\<close>

unbundle bit_operations_syntax

type_synonym Key = string
type_synonym KeyRegion = string
type_synonym Value = string
type_synonym TxnId = uint64
type_synonym BatchId = uint64
type_synonym SlotId = uint32
type_synonym Channel = uint64
type_synonym MachineId = uint32
type_synonym RegionId = uint8
type_synonym ReplicaId = uint8
type_synonym PartitionId = uint16

definition kRegionIdBits :: nat where "kRegionIdBits = 8"
definition kReplicaIdBits :: nat where "kReplicaIdBits = 8"
definition kPartitionIdBits :: nat where "kPartitionIdBits = 16"
definition kMachineIdBits :: nat where
  "kMachineIdBits = kRegionIdBits + kReplicaIdBits + kPartitionIdBits"

lemmas id_bits_defs [model_defs] =
  kRegionIdBits_def kReplicaIdBits_def kPartitionIdBits_def kMachineIdBits_def

subsection \<open>Machine ids\<close>

definition MakeMachineId :: "RegionId \<Rightarrow> ReplicaId \<Rightarrow> PartitionId \<Rightarrow> MachineId" where
  "MakeMachineId region replica part =
     push_bit (kReplicaIdBits + kPartitionIdBits) (ucast region) OR
     push_bit kPartitionIdBits (ucast replica) OR ucast part"

definition GET_REGION_ID :: "MachineId \<Rightarrow> MachineId" where
  "GET_REGION_ID i = drop_bit (kReplicaIdBits + kPartitionIdBits) i AND (push_bit kRegionIdBits 1 - 1)"

definition GET_REPLICA_ID :: "MachineId \<Rightarrow> MachineId" where
  "GET_REPLICA_ID i = drop_bit kPartitionIdBits i AND (push_bit kReplicaIdBits 1 - 1)"

definition GET_PARTITION_ID :: "MachineId \<Rightarrow> MachineId" where
  "GET_PARTITION_ID i = i AND (push_bit kPartitionIdBits 1 - 1)"

definition UnpackMachineId :: "MachineId \<Rightarrow> RegionId \<times> ReplicaId \<times> PartitionId" where
  "UnpackMachineId i = (ucast (GET_REGION_ID i), ucast (GET_REPLICA_ID i), ucast (GET_PARTITION_ID i))"

lemmas machine_id_defs [model_defs] =
  MakeMachineId_def GET_REGION_ID_def GET_REPLICA_ID_def GET_PARTITION_ID_def

lemma machine_id_fields:
  "GET_REGION_ID i = take_bit 8 (drop_bit 24 i)"
  "GET_REPLICA_ID i = take_bit 8 (drop_bit 16 i)"
  "GET_PARTITION_ID i = take_bit 16 i"
  by (simp_all add: model_defs take_bit_eq_mask mask_eq_exp_minus_1)

lemma unpack_make_machine_id: "UnpackMachineId (MakeMachineId r p q) = (r, p, q)"
proof -
  note defs = machine_id_fields MakeMachineId_def id_bits_defs
  have "ucast (GET_REGION_ID (MakeMachineId r p q)) = r"
    unfolding defs by (rule bit_word_eqI) (auto simp: bit_simps dest: bit_imp_le_length)
  moreover have "ucast (GET_REPLICA_ID (MakeMachineId r p q)) = p"
    unfolding defs by (rule bit_word_eqI) (auto simp: bit_simps dest: bit_imp_le_length)
  moreover have "ucast (GET_PARTITION_ID (MakeMachineId r p q)) = q"
    unfolding defs by (rule bit_word_eqI) (auto simp: bit_simps)
  ultimately show ?thesis by (simp add: UnpackMachineId_def)
qed

lemma make_unpack_machine_id:
  "MakeMachineId (ucast (GET_REGION_ID i)) (ucast (GET_REPLICA_ID i)) (ucast (GET_PARTITION_ID i)) = i"
proof (rule bit_word_eqI)
  fix n assume "n < LENGTH(32)"
  then have n: "n < 32" by simp
  consider "n < 16" | "16 \<le> n" "n < 24" | "24 \<le> n" by linarith
  then show "bit (MakeMachineId (ucast (GET_REGION_ID i)) (ucast (GET_REPLICA_ID i))
      (ucast (GET_PARTITION_ID i))) n = bit i n"
    by cases (use n in \<open>auto simp: MakeMachineId_def id_bits_defs machine_id_fields bit_simps\<close>)
qed

text \<open>
  Packing a region, a replica and a partition into a machine id and unpacking
  it are mutually inverse at full width, so a machine id names exactly one machine
  and every 32-bit id is the id of one.
\<close>
theorem machine_id_roundtrip:
  "UnpackMachineId (MakeMachineId r p q) = (r, p, q) \<and>
   (let (r', p', q') = UnpackMachineId i in MakeMachineId r' p' q') = i"
  by (simp add: unpack_make_machine_id make_unpack_machine_id UnpackMachineId_def [of i])

subsection \<open>Transaction ids\<close>

definition TXN_ID :: "MachineId \<Rightarrow> uint64 \<Rightarrow> TxnId" where
  "TXN_ID machine_id counter = push_bit kMachineIdBits counter OR ucast machine_id"

definition TXN_ID_GET_MACHINE_ID :: "TxnId \<Rightarrow> uint64" where
  "TXN_ID_GET_MACHINE_ID txn_id = txn_id AND (push_bit kMachineIdBits 1 - 1)"

definition TXN_ID_GET_COUNTER :: "TxnId \<Rightarrow> uint64" where
  "TXN_ID_GET_COUNTER txn_id = drop_bit kMachineIdBits txn_id"

lemmas txn_id_defs [model_defs] = TXN_ID_def TXN_ID_GET_MACHINE_ID_def TXN_ID_GET_COUNTER_def

lemma TXN_ID_GET_MACHINE_ID_take: "TXN_ID_GET_MACHINE_ID t = take_bit 32 t"
  by (simp add: model_defs take_bit_eq_mask mask_eq_exp_minus_1)

lemma txn_id_machine [simp]: "TXN_ID_GET_MACHINE_ID (TXN_ID m c) = ucast m"
  unfolding TXN_ID_GET_MACHINE_ID_take TXN_ID_def id_bits_defs
  by (rule bit_word_eqI) (auto simp: bit_simps dest: bit_imp_le_length)

lemma txn_id_counter: "TXN_ID_GET_COUNTER (TXN_ID m c) = take_bit 32 c"
  unfolding TXN_ID_GET_COUNTER_def TXN_ID_def id_bits_defs
  by (rule bit_word_eqI) (auto simp: bit_simps dest: bit_imp_le_length)

lemma txn_id_counter_small:
  assumes "c < 2 ^ 32"
  shows "TXN_ID_GET_COUNTER (TXN_ID m c) = c"
proof -
  have "unat (take_bit 32 c) = unat c"
    using assms by (simp add: word_less_nat_alt unsigned_take_bit_eq take_bit_nat_eq_self)
  then show ?thesis by (simp add: txn_id_counter word_unat_eq_iff)
qed

lemma TXN_ID_inject:
  assumes "TXN_ID m c = TXN_ID m' c'" and "c < 2 ^ 32" and "c' < 2 ^ 32"
  shows "m = m' \<and> c = c'"
proof
  have "ucast m = (ucast m' :: uint64)" using assms(1) by (metis txn_id_machine)
  then have "uint (ucast m :: uint64) = uint (ucast m' :: uint64)" by simp
  then show "m = m'" by (simp add: uint_up_ucast is_up word_uint_eq_iff)
  show "c = c'" using assms by (metis txn_id_counter_small)
qed

subsection \<open>Records and lock modes\<close>

record Metadata =
  md_master :: uint32
  md_counter :: uint32

definition mk_Metadata :: "uint32 \<Rightarrow> uint32 \<Rightarrow> Metadata" where
  "mk_Metadata m c = \<lparr>md_master = m, md_counter = c\<rparr>"

text \<open>A null \<^verbatim>\<open>data_\<close> pointer is \<open>None\<close>; the size is the length of the copied bytes.\<close>

record Record =
  metadata_of :: Metadata
  data_of :: "string option"

definition Record_default :: Record where
  "Record_default = \<lparr>metadata_of = mk_Metadata 0 0, data_of = None\<rparr>"

definition SetValue :: "string \<Rightarrow> Record \<Rightarrow> Record" where
  "SetValue v r = r\<lparr>data_of := Some v\<rparr>"

definition SetMetadata :: "Metadata \<Rightarrow> Record \<Rightarrow> Record" where
  "SetMetadata m r = r\<lparr>metadata_of := m\<rparr>"

definition mk_Record :: "string \<Rightarrow> uint32 \<Rightarrow> uint32 \<Rightarrow> Record" where
  "mk_Record v m c = SetValue v (SetMetadata (mk_Metadata m c) Record_default)"

definition Record_to_string :: "Record \<Rightarrow> string" where
  "Record_to_string r = (case data_of r of None \<Rightarrow> [] | Some d \<Rightarrow> d)"

lemmas record_defs [model_defs] =
  mk_Metadata_def Record_default_def SetValue_def SetMetadata_def mk_Record_def Record_to_string_def

datatype LockMode = UNLOCKED | READ | WRITE
datatype AcquireLocksResult = ACQUIRED | WAITING | ABORT

subsection \<open>Decimal strings and lock-table keys\<close>

text \<open>\<^verbatim>\<open>std::to_string\<close> of an unsigned integer.\<close>

definition digit_char :: "nat \<Rightarrow> char" where
  "digit_char d = char_of (48 + d)"

fun to_string :: "nat \<Rightarrow> string" where
  "to_string n = (if n < 10 then [digit_char n] else to_string (n div 10) @ [digit_char (n mod 10)])"

declare to_string.simps [simp del]

definition MACHINE_ID_STR :: "MachineId \<Rightarrow> string" where
  "MACHINE_ID_STR i = ''['' @ to_string (unat (GET_REGION_ID i)) @ '','' @
     to_string (unat (GET_REPLICA_ID i)) @ '','' @ to_string (unat (GET_PARTITION_ID i)) @ '']''"

definition MakeKeyRegion :: "Key \<Rightarrow> uint32 \<Rightarrow> KeyRegion" where
  "MakeKeyRegion key master = key @ '':'' @ to_string (unat master)"

fun of_digits :: "string \<Rightarrow> nat \<Rightarrow> nat" where
  "of_digits [] acc = acc"
| "of_digits (c # cs) acc = of_digits cs (acc * 10 + (of_char c - 48))"

lemma of_digits_append: "of_digits (xs @ ys) acc = of_digits ys (of_digits xs acc)"
  by (induction xs arbitrary: acc) auto

lemma of_char_digit: "d < 10 \<Longrightarrow> of_char (digit_char d) = 48 + d"
  by (simp add: digit_char_def of_char_of)

lemma of_digits_to_string: "of_digits (to_string n) 0 = n"
proof (induction n rule: to_string.induct)
  case (1 n)
  then show ?case
    by (subst to_string.simps) (auto simp: of_digits_append of_char_digit)
qed

lemma to_string_inject [simp]: "to_string m = to_string n \<longleftrightarrow> m = n"
  by (metis of_digits_to_string)

lemma to_string_digits: "c \<in> set (to_string n) \<Longrightarrow> 48 \<le> (of_char c :: nat) \<and> (of_char c :: nat) \<le> 57"
proof (induction n rule: to_string.induct)
  case (1 n)
  show ?case
  proof (cases "n < 10")
    case True
    with 1(2) show ?thesis by (subst (asm) to_string.simps) (auto simp: of_char_digit)
  next
    case False
    with 1(2) have "c \<in> set (to_string (n div 10)) \<or> c = digit_char (n mod 10)"
      by (subst (asm) to_string.simps) auto
    then show ?thesis using 1(1) False of_char_digit [of "n mod 10"] by auto
  qed
qed

lemma to_string_no_colon: "CHR '':'' \<notin> set (to_string n)"
  using to_string_digits [of "CHR '':''" n] by auto

lemma append_separator_inject:
  assumes "xs @ c # ys = xs' @ c # ys'" and "c \<notin> set ys" and "c \<notin> set ys'"
  shows "xs = xs' \<and> ys = ys'"
proof -
  have "takeWhile (\<lambda>x. x \<noteq> c) (rev (xs @ c # ys)) = rev ys"
    using assms(2) by (simp add: takeWhile_append)
  moreover have "takeWhile (\<lambda>x. x \<noteq> c) (rev (xs' @ c # ys')) = rev ys'"
    using assms(3) by (simp add: takeWhile_append)
  ultimately have "ys = ys'" using assms(1) by simp
  then show ?thesis using assms(1) by simp
qed

text \<open>
  The lock-table key of a key and a home region determines both, whatever
  characters the key contains (also colons and digits), so two different
  key--region pairs never share a lock.
\<close>
theorem key_region_injective:
  "MakeKeyRegion k m = MakeKeyRegion k' m' \<longleftrightarrow> k = k' \<and> m = m'"
proof
  assume "MakeKeyRegion k m = MakeKeyRegion k' m'"
  then have "k @ CHR '':'' # to_string (unat m) = k' @ CHR '':'' # to_string (unat m')"
    by (simp add: MakeKeyRegion_def)
  then show "k = k' \<and> m = m'"
    by (metis append_separator_inject to_string_no_colon to_string_inject unsigned_word_eqI)
qed simp

end
