(* ===== verification/Lock_State.thy ===== *)
theory Lock_State
  imports Ids
begin

section \<open>The state of one lock (\<^verbatim>\<open>LockState\<close> and \<^verbatim>\<open>OldLockState\<close>)\<close>

text \<open>
  Two implementations of a first-come-first-served read/write lock: \<open>LockState\<close> of the
  remaster-aware lock manager keeps a vector of holders and a queue of waiters,
  \<open>OldLockState\<close> of the older manager keeps hash sets beside the queue.  The locale
  \<open>fifo_lock\<close> is their common contract; both are interpretations of it, and
  \<open>OldLockState\<close> is shown to be a refinement of \<open>LockState\<close>.
\<close>

subsection \<open>The contract of a first-come-first-served lock\<close>

text \<open>Two requests are compatible when both only read.\<close>

definition grants_prefix :: "(TxnId \<times> LockMode) list \<Rightarrow> (TxnId \<times> LockMode) list \<Rightarrow> TxnId set \<Rightarrow> bool" where
  "grants_prefix q q' g \<longleftrightarrow> (\<exists>pre. q = pre @ q' \<and> g = fst ` set pre \<and>
     (length pre = 1 \<or> (\<forall>x\<in>set pre. snd x = READ)))"

text \<open>A sequence of requests and releases on one lock, over any implementation.\<close>

datatype lk_op = LkRead TxnId | LkWrite TxnId | LkRelease TxnId

fun lk_step :: "(TxnId \<Rightarrow> 's \<Rightarrow> bool \<times> 's) \<Rightarrow> (TxnId \<Rightarrow> 's \<Rightarrow> bool \<times> 's) \<Rightarrow>
    (TxnId \<Rightarrow> 's \<Rightarrow> TxnId set \<times> 's) \<Rightarrow> 's \<Rightarrow> lk_op \<Rightarrow> 's" where
  "lk_step ar aw rel s (LkRead t) = snd (ar t s)"
| "lk_step ar aw rel s (LkWrite t) = snd (aw t s)"
| "lk_step ar aw rel s (LkRelease t) = snd (rel t s)"

fun requester :: "lk_op \<Rightarrow> TxnId option" where
  "requester (LkRead t) = Some t"
| "requester (LkWrite t) = Some t"
| "requester (LkRelease t) = None"

text \<open>
  What the history of a lock says by itself: the mode in which each transaction has
  asked for the lock and not yet released it.
\<close>

fun request_step :: "(TxnId \<rightharpoonup> LockMode) \<Rightarrow> lk_op \<Rightarrow> (TxnId \<rightharpoonup> LockMode)" where
  "request_step R (LkRead t) = R(t \<mapsto> READ)"
| "request_step R (LkWrite t) = R(t \<mapsto> WRITE)"
| "request_step R (LkRelease t) = R(t := None)"

definition requested :: "lk_op list \<Rightarrow> (TxnId \<rightharpoonup> LockMode)" where
  "requested ops = foldl request_step Map.empty ops"

locale fifo_lock =
  fixes acquire_read :: "TxnId \<Rightarrow> 's \<Rightarrow> bool \<times> 's"
    and acquire_write :: "TxnId \<Rightarrow> 's \<Rightarrow> bool \<times> 's"
    and release :: "TxnId \<Rightarrow> 's \<Rightarrow> TxnId set \<times> 's"
    and mode_of :: "'s \<Rightarrow> LockMode"
    and holders_of :: "'s \<Rightarrow> TxnId set"
    and queue_of :: "'s \<Rightarrow> (TxnId \<times> LockMode) list"
    and wf :: "'s \<Rightarrow> bool"
  assumes wf_distinct: "wf s \<Longrightarrow> distinct (map fst (queue_of s))"
    and wf_disjoint: "wf s \<Longrightarrow> holders_of s \<inter> fst ` set (queue_of s) = {}"
    and wf_exclusive: "wf s \<Longrightarrow> mode_of s = WRITE \<Longrightarrow> \<exists>t. holders_of s = {t}"
    and acquire_read_spec: "wf s \<Longrightarrow> t \<notin> holders_of s \<union> fst ` set (queue_of s) \<Longrightarrow>
      acquire_read t s = (b, s') \<Longrightarrow> wf s' \<and>
      (if b then mode_of s' = READ \<and> queue_of s = [] \<and> queue_of s' = [] \<and> holders_of s' = insert t (holders_of s)
       else mode_of s' = mode_of s \<and> queue_of s' = queue_of s @ [(t, READ)] \<and> holders_of s' = holders_of s)"
    and acquire_write_spec: "wf s \<Longrightarrow> t \<notin> holders_of s \<union> fst ` set (queue_of s) \<Longrightarrow>
      acquire_write t s = (b, s') \<Longrightarrow> wf s' \<and>
      (if b then mode_of s' = WRITE \<and> queue_of s = [] \<and> queue_of s' = [] \<and> holders_of s = {} \<and> holders_of s' = {t}
       else mode_of s' = mode_of s \<and> queue_of s' = queue_of s @ [(t, WRITE)] \<and> holders_of s' = holders_of s)"
    and release_waiter_spec: "wf s \<Longrightarrow> t \<notin> holders_of s \<Longrightarrow> release t s = (g, s') \<Longrightarrow>
      wf s' \<and> g = {} \<and> mode_of s' = mode_of s \<and> holders_of s' = holders_of s \<and>
      queue_of s' = filter (\<lambda>x. fst x \<noteq> t) (queue_of s)"
    and release_holder_spec: "wf s \<Longrightarrow> t \<in> holders_of s \<Longrightarrow> release t s = (g, s') \<Longrightarrow>
      wf s' \<and> holders_of s' = holders_of s - {t} \<union> g \<and> grants_prefix (queue_of s) (queue_of s') g"
    and acquire_read_mode: "wf s \<Longrightarrow> acquire_read t s = (True, s') \<Longrightarrow> holders_of s \<noteq> {} \<Longrightarrow> mode_of s = READ"
    and release_mode: "wf s \<Longrightarrow> t \<in> holders_of s \<Longrightarrow> release t s = (g, s') \<Longrightarrow>
      (holders_of s - {t} \<noteq> {} \<longrightarrow> mode_of s' = mode_of s \<and> g = {}) \<and>
      (\<forall>x\<in>set (queue_of s). fst x \<in> g \<longrightarrow> mode_of s' = snd x)"
begin

definition members :: "'s \<Rightarrow> TxnId set" where
  "members s = holders_of s \<union> fst ` set (queue_of s)"

lemma members_acquire_read:
  assumes "wf s" "t \<notin> members s" "acquire_read t s = (b, s')"
  shows "members s' = insert t (members s)"
  using acquire_read_spec [of s t b s'] assms by (auto simp: members_def split: if_splits)

lemma members_acquire_write:
  assumes "wf s" "t \<notin> members s" "acquire_write t s = (b, s')"
  shows "members s' = insert t (members s)"
  using acquire_write_spec [of s t b s'] assms by (auto simp: members_def split: if_splits)

lemma members_release:
  assumes "wf s" "release t s = (g, s')"
  shows "members s' = members s - {t}"
proof (cases "t \<in> holders_of s")
  case True
  then obtain pre where h: "holders_of s' = holders_of s - {t} \<union> fst ` set pre"
    and q: "queue_of s = pre @ queue_of s'"
    using release_holder_spec [OF assms(1) _ assms(2)] unfolding grants_prefix_def by blast
  have "H - {t} \<union> P \<union> Q = H \<union> (P \<union> Q) - {t}" if "t \<in> H" "H \<inter> (P \<union> Q) = {}" for H P Q :: "TxnId set"
    using that by blast
  then show ?thesis
    using True wf_disjoint [OF assms(1)] unfolding members_def h q by (simp add: image_Un)
next
  case False
  then have "holders_of s' = holders_of s" "queue_of s' = filter (\<lambda>x. fst x \<noteq> t) (queue_of s)"
    using release_waiter_spec [OF assms(1) _ assms(2)] by simp_all
  with False show ?thesis unfolding members_def by auto
qed

text \<open>
  When requests come in the order of the stamps \<open>seq\<close>, holders are older than waiters
  and the queue is ordered.
\<close>

definition ordered :: "(TxnId \<Rightarrow> nat) \<Rightarrow> 's \<Rightarrow> bool" where
  "ordered seq s \<longleftrightarrow> (\<forall>h\<in>holders_of s. \<forall>w\<in>set (queue_of s). seq h < seq (fst w)) \<and>
     sorted_wrt (\<lambda>a b. seq (fst a) < seq (fst b)) (queue_of s)"

lemma ordered_snoc:
  assumes "ordered seq s" "queue_of s' = queue_of s @ [(t, x)]" "holders_of s' = holders_of s"
    and "\<forall>u\<in>members s. seq u < seq t"
  shows "ordered seq s'"
  using assms by (auto simp: ordered_def members_def sorted_wrt_append)

lemma ordered_acquire:
  assumes "wf s" "ordered seq s" "t \<notin> members s" "\<forall>u\<in>members s. seq u < seq t"
    and "acquire_read t s = (b, s') \<or> acquire_write t s = (b, s')"
  shows "ordered seq s'"
proof -
  from assms(3) have t: "t \<notin> holders_of s \<union> fst ` set (queue_of s)" by (simp add: members_def)
  show ?thesis
  proof (cases b)
    case True
    then have "queue_of s' = []"
      using assms(5) acquire_read_spec [OF assms(1) t, of b s'] acquire_write_spec [OF assms(1) t, of b s'] by auto
    then show ?thesis by (simp add: ordered_def)
  next
    case False
    then have "queue_of s' = queue_of s @ [(t, READ)] \<or> queue_of s' = queue_of s @ [(t, WRITE)]"
      "holders_of s' = holders_of s"
      using assms(5) acquire_read_spec [OF assms(1) t, of b s'] acquire_write_spec [OF assms(1) t, of b s'] by auto
    then show ?thesis using ordered_snoc [OF assms(2) _ _ assms(4)] by blast
  qed
qed

lemma ordered_release:
  assumes "wf s" "ordered seq s" "release t s = (g, s')"
  shows "ordered seq s'"
proof (cases "t \<in> holders_of s")
  case True
  then obtain pre where h: "holders_of s' = holders_of s - {t} \<union> fst ` set pre"
    and q: "queue_of s = pre @ queue_of s'"
    using release_holder_spec [OF assms(1) _ assms(3)] unfolding grants_prefix_def by blast
  from assms(2) have "\<forall>h\<in>holders_of s. \<forall>w\<in>set pre \<union> set (queue_of s'). seq h < seq (fst w)"
    "sorted_wrt (\<lambda>a b. seq (fst a) < seq (fst b)) (pre @ queue_of s')"
    unfolding ordered_def q by simp_all
  then show ?thesis unfolding ordered_def h by (auto simp: sorted_wrt_append)
next
  case False
  with release_waiter_spec [OF assms(1) False assms(3)] assms(2) show ?thesis
    by (auto simp: ordered_def intro: sorted_wrt_filter)
qed

text \<open>
  \<open>t'\<close> is behind \<open>t\<close>: \<open>t\<close> still waits, \<open>t'\<close> does not hold the lock and is not queued
  before \<open>t\<close>.  As long as \<open>t\<close> waits, nothing brings \<open>t'\<close> ahead of it.
\<close>

definition behind :: "TxnId \<Rightarrow> TxnId \<Rightarrow> 's \<Rightarrow> bool" where
  "behind t t' s \<longleftrightarrow> t' \<notin> holders_of s \<and>
     (\<exists>q1 m q2. queue_of s = q1 @ (t, m) # q2 \<and> t' \<notin> fst ` set q1)"

lemma behindI:
  "t' \<notin> holders_of s \<Longrightarrow> queue_of s = q1 @ (t, m) # q2 \<Longrightarrow> t' \<notin> fst ` set q1 \<Longrightarrow> behind t t' s"
  unfolding behind_def by blast

lemma behindE:
  assumes "behind t t' s"
  obtains q1 m q2 where "t' \<notin> holders_of s" "queue_of s = q1 @ (t, m) # q2" "t' \<notin> fst ` set q1"
  using assms unfolding behind_def by blast

lemma behind_snoc:
  assumes "behind t t' s" "queue_of s' = queue_of s @ [x]" "holders_of s' = holders_of s"
  shows "behind t t' s'"
  using assms(1)
proof (rule behindE)
  fix q1 m q2
  assume "t' \<notin> holders_of s" "queue_of s = q1 @ (t, m) # q2" "t' \<notin> fst ` set q1"
  then show ?thesis using assms(2,3) by (intro behindI [of t' s' q1 t m "q2 @ [x]"]) simp_all
qed

lemma behind_nonempty: "behind t t' s \<Longrightarrow> queue_of s \<noteq> []"
  unfolding behind_def by auto

lemma behind_acquire:
  assumes "wf s" "behind t t' s" "u \<notin> members s"
    and "acquire_read u s = (b, s') \<or> acquire_write u s = (b, s')"
  shows "behind t t' s'"
proof -
  from assms(3) have u: "u \<notin> holders_of s \<union> fst ` set (queue_of s)" by (simp add: members_def)
  have "queue_of s' = queue_of s @ [(u, READ)] \<or> queue_of s' = queue_of s @ [(u, WRITE)]"
    and "holders_of s' = holders_of s"
    using assms(4) acquire_read_spec [OF assms(1) u, of b s'] acquire_write_spec [OF assms(1) u, of b s']
      behind_nonempty [OF assms(2)] by (auto split: if_splits)
  then show ?thesis using behind_snoc [OF assms(2)] by blast
qed

lemma behind_release_waiter:
  assumes "wf s" "behind t t' s" "u \<notin> holders_of s" "u \<noteq> t" "release u s = (g, s')"
  shows "behind t t' s'"
proof -
  from assms(2) obtain q1 m q2 where q: "queue_of s = q1 @ (t, m) # q2" "t' \<notin> fst ` set q1"
    "t' \<notin> holders_of s" by (rule behindE)
  let ?f = "filter (\<lambda>x. fst x \<noteq> u)"
  have "queue_of s' = ?f q1 @ (t, m) # ?f q2" "holders_of s' = holders_of s"
    using release_waiter_spec [OF assms(1,3,5)] q(1) assms(4) by auto
  moreover have "t' \<notin> fst ` set (?f q1)" using q(2) by auto
  ultimately show ?thesis using q(3) by (intro behindI [of t' s' "?f q1" t m "?f q2"]) auto
qed

lemma behind_release_holder:
  assumes "wf s" "behind t t' s" "u \<in> holders_of s" "release u s = (g, s')" "t \<notin> holders_of s'"
    and "t \<noteq> t'"
  shows "behind t t' s'"
proof -
  from assms(2) obtain q1 m q2 where q: "queue_of s = q1 @ (t, m) # q2" "t' \<notin> fst ` set q1"
    "t' \<notin> holders_of s" by (rule behindE)
  from release_holder_spec [OF assms(1,3,4)] obtain pre where
    h: "holders_of s' = holders_of s - {u} \<union> fst ` set pre" and pre: "queue_of s = pre @ queue_of s'"
    unfolding grants_prefix_def by blast
  have "t \<notin> fst ` set pre" using assms(5) h by auto
  then have "\<exists>us. q1 = pre @ us \<and> queue_of s' = us @ (t, m) # q2"
    using q(1) pre by (auto simp: append_eq_append_conv2 append_eq_Cons_conv)
  then obtain us where us: "q1 = pre @ us" "queue_of s' = us @ (t, m) # q2" by blast
  have "t' \<notin> fst ` set pre" "t' \<notin> fst ` set us" using q(2) us(1) by auto
  then show ?thesis using q(3) h us(2) by (intro behindI [of t' s' us t m q2]) simp_all
qed

abbreviation step :: "'s \<Rightarrow> lk_op \<Rightarrow> 's" where
  "step \<equiv> lk_step acquire_read acquire_write release"

text \<open>Operations are legal when no transaction asks twice.\<close>

definition legal :: "'s \<Rightarrow> lk_op \<Rightarrow> bool" where
  "legal s op \<longleftrightarrow> (case requester op of None \<Rightarrow> True | Some t \<Rightarrow> t \<notin> members s)"

lemma step_wf:
  assumes "wf s" and "legal s op"
  shows "wf (step s op)"
proof (cases op)
  case (LkRead t)
  with assms show ?thesis
    using acquire_read_spec [of s t "fst (acquire_read t s)" "snd (acquire_read t s)"]
    by (simp add: legal_def members_def)
next
  case (LkWrite t)
  with assms show ?thesis
    using acquire_write_spec [of s t "fst (acquire_write t s)" "snd (acquire_write t s)"]
    by (simp add: legal_def members_def)
next
  case (LkRelease t)
  with assms(1) show ?thesis
    using release_holder_spec [of s t "fst (release t s)" "snd (release t s)"]
      release_waiter_spec [of s t "fst (release t s)" "snd (release t s)"]
    by (cases "t \<in> holders_of s") simp_all
qed

lemma step_behind:
  assumes "wf s" "legal s op" "behind t t' s" "t \<noteq> t'" "t \<in> fst ` set (queue_of (step s op))"
  shows "behind t t' (step s op)"
proof (cases op)
  case (LkRead u)
  with assms show ?thesis
    using behind_acquire [OF assms(1,3), of u] by (simp add: legal_def) (metis surjective_pairing)
next
  case (LkWrite u)
  with assms show ?thesis
    using behind_acquire [OF assms(1,3), of u] by (simp add: legal_def) (metis surjective_pairing)
next
  case (LkRelease u)
  obtain g s' where r: "release u s = (g, s')" by fastforce
  have "wf s'" using step_wf [OF assms(1,2)] LkRelease r by simp
  with assms(5) LkRelease r have "t \<notin> holders_of s'" using wf_disjoint by fastforce
  show ?thesis
  proof (cases "u \<in> holders_of s")
    case True
    from behind_release_holder [OF assms(1,3) True r \<open>t \<notin> holders_of s'\<close> assms(4)]
    show ?thesis using LkRelease r by simp
  next
    case False
    from release_waiter_spec [OF assms(1) False r] assms(5) LkRelease r have "u \<noteq> t" by auto
    from behind_release_waiter [OF assms(1,3) False this r] show ?thesis using LkRelease r by simp
  qed
qed

lemma run_behind:
  assumes "wf s" "behind t t' s" "t \<noteq> t'"
    and "all_steps step (\<lambda>s op. legal s op \<and> t \<in> fst ` set (queue_of (step s op))) s ops"
  shows "behind t t' (foldl step s ops)"
proof -
  have "wf (foldl step s ops) \<and> behind t t' (foldl step s ops)"
    by (rule all_steps_invariant [OF assms(4)]) (use assms(1-3) step_wf step_behind in blast)+
  then show ?thesis ..
qed

lemma waiting_behind:
  assumes "t \<in> fst ` set (queue_of s)" "t' \<notin> members s"
  shows "behind t t' s"
proof -
  from assms(1) obtain m where "(t, m) \<in> set (queue_of s)" by auto
  then obtain q1 q2 where q: "queue_of s = q1 @ (t, m) # q2" by (meson split_list)
  show ?thesis
    by (rule behindI [OF _ q]) (use assms(2) q in \<open>auto simp: members_def\<close>)
qed

text \<open>
  The lock agrees with the requests \<open>R\<close>: its members are the transactions that asked
  for it, every waiter is queued in the mode it asked for, and every holder holds
  the lock in the mode it asked for.
\<close>

definition agrees :: "(TxnId \<rightharpoonup> LockMode) \<Rightarrow> 's \<Rightarrow> bool" where
  "agrees R s \<longleftrightarrow> dom R = members s \<and> (\<forall>t\<in>holders_of s. R t = Some (mode_of s)) \<and>
     (\<forall>x\<in>set (queue_of s). R (fst x) = Some (snd x))"

lemma agrees_acquire_read:
  assumes "wf s" "t \<notin> members s" "agrees R s" "acquire_read t s = (b, s')"
  shows "agrees (R(t \<mapsto> READ)) s'"
proof -
  have t: "t \<notin> holders_of s \<union> fst ` set (queue_of s)" using assms(2) by (simp add: members_def)
  have "dom (R(t \<mapsto> READ)) = members s'"
    using members_acquire_read [OF assms(1,2,4)] assms(3) by (simp add: agrees_def)
  then show ?thesis
    using acquire_read_spec [OF assms(1) t assms(4)] acquire_read_mode [of s t s'] assms t
    by (cases b) (auto simp: agrees_def)
qed

lemma agrees_acquire_write:
  assumes "wf s" "t \<notin> members s" "agrees R s" "acquire_write t s = (b, s')"
  shows "agrees (R(t \<mapsto> WRITE)) s'"
proof -
  have t: "t \<notin> holders_of s \<union> fst ` set (queue_of s)" using assms(2) by (simp add: members_def)
  have "dom (R(t \<mapsto> WRITE)) = members s'"
    using members_acquire_write [OF assms(1,2,4)] assms(3) by (simp add: agrees_def)
  then show ?thesis
    using acquire_write_spec [OF assms(1) t assms(4)] assms(3) t
    by (cases b) (auto simp: agrees_def)
qed

lemma agrees_release:
  assumes "wf s" "agrees R s" "release t s = (g, s')"
  shows "agrees (R(t := None)) s'"
proof -
  have d: "dom (R(t := None)) = members s'"
    using members_release [OF assms(1,3)] assms(2) by (simp add: agrees_def)
  have no: "t \<notin> members s'" using d by auto
  show ?thesis
  proof (cases "t \<in> holders_of s")
    case True
    then obtain pre where h: "holders_of s' = holders_of s - {t} \<union> fst ` set pre" "g = fst ` set pre"
      and q: "queue_of s = pre @ queue_of s'"
      using release_holder_spec [OF assms(1) _ assms(3)] unfolding grants_prefix_def by blast
    note m = release_mode [OF assms(1) True assms(3)]
    have "R u = Some (mode_of s')" if u: "u \<in> holders_of s'" for u
    proof (cases "u \<in> g")
      case g: True
      then obtain x where x: "x \<in> set (queue_of s)" "u = fst x" using h(2) q by auto
      with m g have "mode_of s' = snd x" by blast
      with x assms(2) show ?thesis by (simp add: agrees_def)
    next
      case False
      with u h have "u \<in> holders_of s - {t}" by simp
      then show ?thesis using m assms(2) by (auto simp: agrees_def)
    qed
    then show ?thesis using d no assms(2) q by (auto simp: agrees_def members_def)
  next
    case False
    with release_waiter_spec [OF assms(1) False assms(3)] d no assms(2) show ?thesis
      by (auto simp: agrees_def members_def)
  qed
qed

lemma step_agrees:
  assumes "wf s" "legal s op" "agrees R s"
  shows "agrees (request_step R op) (step s op)"
  using assms agrees_acquire_read [OF assms(1) _ assms(3)] agrees_acquire_write [OF assms(1) _ assms(3)]
    agrees_release [OF assms(1,3)]
  by (cases op) (auto simp: legal_def prod_eq_iff)

lemma run_agrees:
  assumes "all_steps step legal s ops" "wf s" "agrees R s"
  shows "wf (foldl step s ops) \<and> agrees (foldl request_step R ops) (foldl step s ops)"
  using assms
proof (induction ops arbitrary: s R)
  case (Cons op ops)
  then show ?case using step_wf [of s op] step_agrees [of s op R] by simp
qed simp

end

subsection \<open>\<^verbatim>\<open>LockState\<close> of the remaster-aware lock manager\<close>

record LockState =
  ls_mode :: LockMode
  ls_holders :: "TxnId list"
  ls_waiters :: "(TxnId \<times> LockMode) list"

definition LockState_new :: LockState where
  "LockState_new = \<lparr>ls_mode = UNLOCKED, ls_holders = [], ls_waiters = []\<rparr>"

definition LockState_AcquireReadLock :: "TxnId \<Rightarrow> LockState \<Rightarrow> bool \<times> LockState" where
  "LockState_AcquireReadLock txn_id s =
     (case ls_mode s of
        UNLOCKED \<Rightarrow> (True, s\<lparr>ls_holders := ls_holders s @ [txn_id], ls_mode := READ\<rparr>)
      | READ \<Rightarrow>
          if ls_waiters s = [] then (True, s\<lparr>ls_holders := ls_holders s @ [txn_id]\<rparr>)
          else (False, s\<lparr>ls_waiters := ls_waiters s @ [(txn_id, READ)]\<rparr>)
      | WRITE \<Rightarrow> (False, s\<lparr>ls_waiters := ls_waiters s @ [(txn_id, READ)]\<rparr>))"

definition LockState_AcquireWriteLock :: "TxnId \<Rightarrow> LockState \<Rightarrow> bool \<times> LockState" where
  "LockState_AcquireWriteLock txn_id s =
     (case ls_mode s of
        UNLOCKED \<Rightarrow> (True, s\<lparr>ls_holders := ls_holders s @ [txn_id], ls_mode := WRITE\<rparr>)
      | READ \<Rightarrow> (False, s\<lparr>ls_waiters := ls_waiters s @ [(txn_id, WRITE)]\<rparr>)
      | WRITE \<Rightarrow> (False, s\<lparr>ls_waiters := ls_waiters s @ [(txn_id, WRITE)]\<rparr>))"

definition LockState_Contains :: "TxnId \<Rightarrow> LockState \<Rightarrow> bool" where
  "LockState_Contains txn_id s \<longleftrightarrow> txn_id \<in> set (ls_holders s) \<or> (\<exists>p\<in>set (ls_waiters s). fst p = txn_id)"

text \<open>
  The do-while loop that moves the read requests at the head of the queue to the
  holders: the first element is moved before the loop condition is tested.
\<close>

fun LockState_grant_readers ::
    "TxnId list \<Rightarrow> (TxnId \<times> LockMode) list \<Rightarrow> TxnId list \<times> (TxnId \<times> LockMode) list" where
  "LockState_grant_readers holders [] = (holders, [])"
| "LockState_grant_readers holders ((txn_id, m) # queue) =
     (if queue \<noteq> [] \<and> snd (hd queue) = READ
      then LockState_grant_readers (holders @ [txn_id]) queue
      else (holders @ [txn_id], queue))"

definition LockState_Release :: "TxnId \<Rightarrow> LockState \<Rightarrow> TxnId list \<times> LockState" where
  "LockState_Release txn_id s =
     (if txn_id \<notin> set (ls_holders s)
      then ([], s\<lparr>ls_waiters := filter (\<lambda>p. fst p \<noteq> txn_id) (ls_waiters s)\<rparr>)
      else let s1 = s\<lparr>ls_holders := remove1 txn_id (ls_holders s)\<rparr> in
        if ls_holders s1 \<noteq> [] then ([], s1)
        else if ls_waiters s1 = [] then ([], s1\<lparr>ls_mode := UNLOCKED\<rparr>)
        else let front = hd (ls_waiters s1) in
          if snd front = READ
          then let (holders, queue) = LockState_grant_readers (ls_holders s1) (ls_waiters s1) in
            (holders, s1\<lparr>ls_holders := holders, ls_waiters := queue, ls_mode := READ\<rparr>)
          else if snd front = WRITE
          then let holders = ls_holders s1 @ [fst front] in
            (holders, s1\<lparr>ls_holders := holders, ls_waiters := tl (ls_waiters s1), ls_mode := WRITE\<rparr>)
          else (ls_holders s1, s1))"

definition ls_inv :: "LockState \<Rightarrow> bool" where
  "ls_inv s \<longleftrightarrow> distinct (ls_holders s) \<and> distinct (map fst (ls_waiters s)) \<and>
     (\<forall>(t, m)\<in>set (ls_waiters s). t \<notin> set (ls_holders s) \<and> m \<noteq> UNLOCKED) \<and>
     (ls_mode s = UNLOCKED \<longleftrightarrow> ls_holders s = []) \<and>
     (ls_mode s = UNLOCKED \<longrightarrow> ls_waiters s = []) \<and>
     (ls_mode s = WRITE \<longrightarrow> length (ls_holders s) = 1)"

lemma LockState_grant_readers_eq:
  assumes "q \<noteq> []" "snd (hd q) = READ"
  shows "LockState_grant_readers hs q =
    (hs @ map fst (takeWhile (\<lambda>p. snd p = READ) q), dropWhile (\<lambda>p. snd p = READ) q)"
  using assms
proof (induction hs q rule: LockState_grant_readers.induct)
  case (2 hs t m q)
  show ?case
  proof (cases "q \<noteq> [] \<and> snd (hd q) = READ")
    case True
    with 2 show ?thesis by simp
  next
    case False
    with 2 show ?thesis by (cases q) auto
  qed
qed simp

definition LockState_release_set :: "TxnId \<Rightarrow> LockState \<Rightarrow> TxnId set \<times> LockState" where
  "LockState_release_set t s = map_prod set id (LockState_Release t s)"

lemma LockState_AcquireReadLock_spec:
  assumes "ls_inv s" "t \<notin> set (ls_holders s) \<union> fst ` set (ls_waiters s)"
    "LockState_AcquireReadLock t s = (b, s')"
  shows "ls_inv s' \<and> (if b
    then ls_mode s' = READ \<and> ls_waiters s = [] \<and> ls_waiters s' = [] \<and> set (ls_holders s') = insert t (set (ls_holders s))
    else ls_mode s' = ls_mode s \<and> ls_waiters s' = ls_waiters s @ [(t, READ)] \<and> set (ls_holders s') = set (ls_holders s))"
  using assms by (cases "ls_mode s") (auto simp: LockState_AcquireReadLock_def ls_inv_def split: if_splits)

lemma LockState_AcquireWriteLock_spec:
  assumes "ls_inv s" "t \<notin> set (ls_holders s) \<union> fst ` set (ls_waiters s)"
    "LockState_AcquireWriteLock t s = (b, s')"
  shows "ls_inv s' \<and> (if b
    then ls_mode s' = WRITE \<and> ls_waiters s = [] \<and> ls_waiters s' = [] \<and> set (ls_holders s) = {} \<and> set (ls_holders s') = {t}
    else ls_mode s' = ls_mode s \<and> ls_waiters s' = ls_waiters s @ [(t, WRITE)] \<and> set (ls_holders s') = set (ls_holders s))"
  using assms by (cases "ls_mode s") (auto simp: LockState_AcquireWriteLock_def ls_inv_def split: if_splits)

lemma LockState_Release_waiter:
  assumes "ls_inv s" "t \<notin> set (ls_holders s)" "LockState_Release t s = (g, s')"
  shows "ls_inv s' \<and> g = [] \<and> ls_mode s' = ls_mode s \<and> ls_holders s' = ls_holders s \<and>
    ls_waiters s' = filter (\<lambda>p. fst p \<noteq> t) (ls_waiters s)"
  using assms by (auto simp: LockState_Release_def ls_inv_def distinct_map_filter)

text \<open>What a release by a holder does, by the number of holders and the head of the queue.\<close>

lemma LockState_Release_holder:
  assumes "ls_inv s" "t \<in> set (ls_holders s)"
  shows "LockState_Release t s =
    (if ls_holders s \<noteq> [t] then ([], s\<lparr>ls_holders := remove1 t (ls_holders s)\<rparr>)
     else case ls_waiters s of
       [] \<Rightarrow> ([], s\<lparr>ls_holders := [], ls_mode := UNLOCKED\<rparr>)
     | (u, m) # q \<Rightarrow>
         if m = READ
         then let g = map fst (takeWhile (\<lambda>p. snd p = READ) ((u, m) # q)) in
           (g, s\<lparr>ls_holders := g, ls_waiters := dropWhile (\<lambda>p. snd p = READ) q, ls_mode := READ\<rparr>)
         else ([u], s\<lparr>ls_holders := [u], ls_waiters := q, ls_mode := WRITE\<rparr>))"
proof -
  have ne: "remove1 t (ls_holders s) \<noteq> [] \<longleftrightarrow> ls_holders s \<noteq> [t]"
    using assms(2) by (cases "ls_holders s") (auto simp: remove1_idem)
  have m: "snd x = WRITE" if "x \<in> set (ls_waiters s)" "snd x \<noteq> READ" for x
    using assms(1) that by (cases "snd x") (auto simp: ls_inv_def)
  show ?thesis
  proof (cases "ls_holders s = [t]")
    case True
    then show ?thesis
      using assms(2) m by (cases "ls_waiters s")
        (auto simp: LockState_Release_def LockState_grant_readers_eq Let_def)
  next
    case False
    then show ?thesis using assms(2) ne by (simp add: LockState_Release_def)
  qed
qed

lemma grants_prefix_takeWhile:
  "grants_prefix q (dropWhile (\<lambda>p. snd p = READ) q) (fst ` set (takeWhile (\<lambda>p. snd p = READ) q))"
  unfolding grants_prefix_def
  by (rule exI [of _ "takeWhile (\<lambda>p. snd p = READ) q"]) (auto dest: set_takeWhileD)

lemma LockState_Release_holder_spec:
  assumes "ls_inv s" "t \<in> set (ls_holders s)" "LockState_Release t s = (g, s')"
  shows "ls_inv s' \<and> set (ls_holders s') = set (ls_holders s) - {t} \<union> set g \<and>
    grants_prefix (ls_waiters s) (ls_waiters s') (set g)"
proof (cases "ls_holders s = [t]")
  case False
  with LockState_Release_holder [OF assms(1,2)] assms(3)
  have g: "g = []" "s' = s\<lparr>ls_holders := remove1 t (ls_holders s)\<rparr>" by auto
  have "ls_holders s \<noteq> []" "length (ls_holders s) \<noteq> 1"
    using assms(2) False by (cases "ls_holders s"; auto)+
  moreover have "remove1 t (ls_holders s) \<noteq> []"
    using assms(2) False by (cases "ls_holders s") (auto simp: remove1_idem)
  ultimately show ?thesis
    using assms(1) g by (auto simp: ls_inv_def grants_prefix_def dest: notin_set_remove1 in_set_remove1)
next
  case True
  show ?thesis
  proof (cases "ls_waiters s")
    case Nil
    with True LockState_Release_holder [OF assms(1,2)] assms(3) show ?thesis
      by (auto simp: ls_inv_def grants_prefix_def)
  next
    case (Cons x q)
    obtain u m where x: "x = (u, m)" by (cases x)
    show ?thesis
    proof (cases "m = READ")
      case mr: True
      let ?q = "(u, m) # q"
      define dq where "dq = dropWhile (\<lambda>p. snd p = READ) ?q"
      have g: "g = map fst (takeWhile (\<lambda>p. snd p = READ) ?q)"
        "s' = s\<lparr>ls_holders := g, ls_waiters := dq, ls_mode := READ\<rparr>"
        using LockState_Release_holder [OF assms(1,2)] assms(3) True Cons x mr by (auto simp: Let_def dq_def)
      have "map fst ?q = g @ map fst dq"
        unfolding g dq_def by (metis map_append takeWhile_dropWhile_id)
      moreover have "distinct (map fst ?q)" using assms(1) Cons x by (auto simp: ls_inv_def)
      ultimately have d: "distinct (g @ map fst dq)" by metis
      have "set dq \<subseteq> set (ls_waiters s)" using Cons x by (auto simp: dq_def dest: set_dropWhileD)
      with d assms(1) have "\<forall>(v, n)\<in>set dq. v \<notin> set g \<and> n \<noteq> UNLOCKED" by (force simp: ls_inv_def)
      moreover have "g \<noteq> []" using g(1) mr by simp
      ultimately have "ls_inv s'" using d by (simp add: ls_inv_def g(2))
      moreover have "grants_prefix ?q (ls_waiters s') (set g)"
        using grants_prefix_takeWhile [of ?q] g by (simp add: dq_def)
      ultimately show ?thesis using True Cons x g(2) by simp
    next
      case mw: False
      with LockState_Release_holder [OF assms(1,2)] assms(3) True Cons x
      have "g = [u]" "s' = s\<lparr>ls_holders := [u], ls_waiters := q, ls_mode := WRITE\<rparr>" by auto
      moreover have "grants_prefix ((u, m) # q) q {u}"
        unfolding grants_prefix_def by (rule exI [of _ "[(u, m)]"]) simp
      ultimately show ?thesis using assms(1) True Cons x by (auto simp: ls_inv_def rev_image_eqI)
    qed
  qed
qed

lemma LockState_Release_mode:
  assumes "ls_inv s" "t \<in> set (ls_holders s)" "LockState_Release t s = (g, s')"
  shows "(set (ls_holders s) - {t} \<noteq> {} \<longrightarrow> ls_mode s' = ls_mode s \<and> g = []) \<and>
    (\<forall>x\<in>set (ls_waiters s). fst x \<in> set g \<longrightarrow> ls_mode s' = snd x)"
proof (cases "ls_holders s = [t]")
  case False
  with LockState_Release_holder [OF assms(1,2)] assms(3) show ?thesis by auto
next
  case True
  have d: "distinct (map fst (ls_waiters s))" and w: "\<forall>x\<in>set (ls_waiters s). snd x \<noteq> UNLOCKED"
    using assms(1) by (auto simp: ls_inv_def)
  show ?thesis
  proof (cases "ls_waiters s")
    case Nil
    then show ?thesis using True by simp
  next
    case (Cons y q)
    obtain u m where y: "y = (u, m)" by (cases y)
    note r = LockState_Release_holder [OF assms(1,2)]
    show ?thesis
    proof (cases "m = READ")
      case mr: True
      have g: "g = map fst (takeWhile (\<lambda>p. snd p = READ) (ls_waiters s))" "ls_mode s' = READ"
        using r assms(3) True Cons y mr by (auto simp: Let_def)
      have "snd x = READ" if x: "x \<in> set (ls_waiters s)" "fst x \<in> set g" for x
      proof -
        from x(2) g(1) obtain z where z: "z \<in> set (takeWhile (\<lambda>p. snd p = READ) (ls_waiters s))" "fst z = fst x"
          by auto
        then have "z \<in> set (ls_waiters s)" "snd z = READ" by (auto dest: set_takeWhileD)
        with z(2) x(1) d show ?thesis by (metis eq_key_imp_eq_value prod.collapse)
      qed
      then show ?thesis using True g(2) by simp
    next
      case False
      have g: "g = [u]" "ls_mode s' = WRITE" using r assms(3) True Cons y False by auto
      have "m = WRITE" using w Cons y False by (cases m) auto
      then show ?thesis using True g d Cons y by (auto simp: rev_image_eqI)
    qed
  qed
qed

interpretation rma: fifo_lock LockState_AcquireReadLock LockState_AcquireWriteLock
  LockState_release_set ls_mode "\<lambda>s. set (ls_holders s)" ls_waiters ls_inv
proof (unfold_locales, goal_cases)
  case (3 s)
  then show ?case by (auto simp: ls_inv_def length_Suc_conv)
next
  case (4 s t b s')
  then show ?case by (rule LockState_AcquireReadLock_spec)
next
  case (5 s t b s')
  then show ?case by (rule LockState_AcquireWriteLock_spec)
next
  case (6 s t g s')
  then show ?case
    using LockState_Release_waiter [of s t "fst (LockState_Release t s)" s']
    by (auto simp: LockState_release_set_def map_prod_def split: prod.splits)
next
  case (7 s t g s')
  then show ?case
    using LockState_Release_holder_spec [of s t "fst (LockState_Release t s)" s']
    by (auto simp: LockState_release_set_def map_prod_def split: prod.splits)
next
  case (8 s t s')
  then show ?case by (auto simp: LockState_AcquireReadLock_def ls_inv_def split: LockMode.splits)
next
  case (9 s t g s')
  then obtain h where "LockState_Release t s = (h, s')" "g = set h"
    by (auto simp: LockState_release_set_def map_prod_def split: prod.splits)
  with LockState_Release_mode [OF 9(1,2)] show ?case by simp
qed (auto simp: ls_inv_def)

abbreviation rma_lock_step :: "LockState \<Rightarrow> lk_op \<Rightarrow> LockState" where
  "rma_lock_step \<equiv> lk_step LockState_AcquireReadLock LockState_AcquireWriteLock LockState_release_set"

text \<open>The condition the lock managers \<^verbatim>\<open>DCHECK\<close> before every request.\<close>

definition rma_lock_legal :: "LockState \<Rightarrow> lk_op \<Rightarrow> bool" where
  "rma_lock_legal s op \<longleftrightarrow> (case requester op of None \<Rightarrow> True | Some t \<Rightarrow> \<not> LockState_Contains t s)"

lemma LockState_Contains_members: "LockState_Contains t s \<longleftrightarrow> t \<in> rma.members s"
  by (auto simp: LockState_Contains_def rma.members_def)

lemma rma_legal_eq: "rma_lock_legal = rma.legal"
  by (auto simp: fun_eq_iff rma_lock_legal_def rma.legal_def LockState_Contains_members split: option.splits)

lemma ls_inv_new [simp]: "ls_inv LockState_new"
  by (simp add: LockState_new_def ls_inv_def)

lemma ls_inv_run: "all_steps rma_lock_step rma_lock_legal s ops \<Longrightarrow> ls_inv s \<Longrightarrow> ls_inv (foldl rma_lock_step s ops)"
  by (erule all_steps_invariant) (simp_all add: rma_legal_eq rma.step_wf)

lemmas rma_lock_eval = LockState_new_def LockState_AcquireReadLock_def LockState_AcquireWriteLock_def
  LockState_release_set_def LockState_Release_def Let_def rma_lock_legal_def LockState_Contains_def

lemma rma_agrees_new: "rma.agrees Map.empty LockState_new"
  by (simp add: rma.agrees_def rma.members_def LockState_new_def)

lemma rma_requested_run:
  assumes "all_steps rma_lock_step rma_lock_legal LockState_new ops"
  shows "rma.agrees (requested ops) (foldl rma_lock_step LockState_new ops)"
  using rma.run_agrees [OF _ ls_inv_new rma_agrees_new] assms by (simp add: rma_legal_eq requested_def)

text \<open>A lock that several transactions hold is a read lock.\<close>

lemma ls_inv_shared:
  assumes "ls_inv s" "t \<in> set (ls_holders s)" "u \<in> set (ls_holders s)" "t \<noteq> u"
  shows "ls_mode s = READ"
proof -
  have "set (ls_holders s) \<noteq> {v}" for v using assms(2-4) by auto
  with rma.wf_exclusive [OF assms(1)] have "ls_mode s \<noteq> WRITE" by auto
  moreover have "ls_mode s \<noteq> UNLOCKED" using assms(1,2) by (auto simp: ls_inv_def)
  ultimately show ?thesis by (cases "ls_mode s") auto
qed

text \<open>
  C21: mutual exclusion of one lock, against the modes the transactions asked for.
  After any sequence of requests (no transaction asking twice) and releases, starting
  from the free lock, the transactions that asked and have not released are exactly
  the holders and the waiters; every holder holds the lock in the mode it asked for
  and every waiter waits for the mode it asked for; two transactions hold the lock
  together only if both asked to read.  A lock in WRITE mode has exactly one holder, a
  lock is free exactly when it has no holder and then has no waiter, and no
  transaction both holds and waits.
\<close>
theorem lock_state_exclusion:
  assumes "all_steps rma_lock_step rma_lock_legal LockState_new ops"
    and "s = foldl rma_lock_step LockState_new ops"
  shows "dom (requested ops) = set (ls_holders s) \<union> fst ` set (ls_waiters s) \<and>
    (\<forall>t\<in>set (ls_holders s). requested ops t = Some (ls_mode s)) \<and>
    (\<forall>(t, m)\<in>set (ls_waiters s). requested ops t = Some m) \<and>
    (\<forall>t\<in>set (ls_holders s). \<forall>u\<in>set (ls_holders s). t \<noteq> u \<longrightarrow>
      requested ops t = Some READ \<and> requested ops u = Some READ) \<and>
    (ls_mode s = WRITE \<longrightarrow> (\<exists>t. ls_holders s = [t])) \<and>
    (ls_mode s = UNLOCKED \<longleftrightarrow> ls_holders s = []) \<and> (ls_mode s = UNLOCKED \<longrightarrow> ls_waiters s = []) \<and>
    distinct (ls_holders s @ map fst (ls_waiters s))"
proof -
  have inv: "ls_inv s" unfolding assms(2) using ls_inv_run [OF assms(1)] by simp
  have a: "rma.agrees (requested ops) s" unfolding assms(2) by (rule rma_requested_run [OF assms(1)])
  then have r: "dom (requested ops) = set (ls_holders s) \<union> fst ` set (ls_waiters s)"
    "\<forall>t\<in>set (ls_holders s). requested ops t = Some (ls_mode s)"
    "\<forall>(t, m)\<in>set (ls_waiters s). requested ops t = Some m"
    by (auto simp: rma.agrees_def rma.members_def)
  have "\<forall>t\<in>set (ls_holders s). \<forall>u\<in>set (ls_holders s). t \<noteq> u \<longrightarrow>
      requested ops t = Some READ \<and> requested ops u = Some READ"
    using r(2) ls_inv_shared [OF inv] by metis
  moreover have "(ls_mode s = WRITE \<longrightarrow> (\<exists>t. ls_holders s = [t])) \<and>
    (ls_mode s = UNLOCKED \<longleftrightarrow> ls_holders s = []) \<and> (ls_mode s = UNLOCKED \<longrightarrow> ls_waiters s = []) \<and>
    distinct (ls_holders s @ map fst (ls_waiters s))"
    using inv by (auto simp: ls_inv_def length_Suc_conv)
  ultimately show ?thesis using r by blast
qed

theorem lock_state_exclusion_witness:
  "let ops = [LkWrite 1, LkRead 2, LkRead 3, LkWrite 4, LkRelease 1]; s = foldl rma_lock_step LockState_new ops in
   ls_holders s = [2, 3] \<and> ls_waiters s = [(4, WRITE)] \<and> dom (requested ops) = {2, 3, 4} \<and>
   requested ops 2 = Some READ \<and> requested ops 4 = Some WRITE \<and>
   distinct (ls_holders s @ map fst (ls_waiters s))"
proof -
  let ?ops = "[LkWrite 1, LkRead 2, LkRead 3, LkWrite 4, LkRelease 1]"
  have "all_steps rma_lock_step rma_lock_legal LockState_new ?ops" by (simp add: rma_lock_eval)
  from lock_state_exclusion [OF this refl] show ?thesis
    unfolding Let_def by (simp add: rma_lock_eval insert_commute)
qed

text \<open>
  C22: first come, first served.  While a transaction waits for a lock, no transaction
  that asks after it obtains the lock, whatever requests and releases happen.
\<close>
theorem lock_state_fifo:
  assumes "all_steps rma_lock_step rma_lock_legal LockState_new before"
    and "s = foldl rma_lock_step LockState_new before"
    and "t \<in> fst ` set (ls_waiters s)" and "\<not> LockState_Contains t' s"
    and "all_steps rma_lock_step
      (\<lambda>s op. rma_lock_legal s op \<and> t \<in> fst ` set (ls_waiters (rma_lock_step s op))) s ops"
  shows "t' \<notin> set (ls_holders (foldl rma_lock_step s ops))"
proof -
  have "ls_inv s" unfolding assms(2) using ls_inv_run [OF assms(1)] by simp
  moreover have "rma.behind t t' s"
    using assms(3,4) by (simp add: LockState_Contains_members rma.waiting_behind)
  moreover have "t \<noteq> t'" using assms(3,4) by (auto simp: LockState_Contains_def)
  ultimately have "rma.behind t t' (foldl rma_lock_step s ops)"
    using assms(5) by (intro rma.run_behind) (simp_all add: rma_legal_eq)
  then show ?thesis by (simp add: rma.behind_def)
qed

theorem lock_state_fifo_witness:
  "let s = foldl rma_lock_step LockState_new [LkRead 1, LkWrite 2] in
   3 \<notin> set (ls_holders (foldl rma_lock_step s [LkRead 3, LkRelease 4]))"
proof -
  have "all_steps rma_lock_step rma_lock_legal LockState_new [LkRead 1, LkWrite 2]" by (simp add: rma_lock_eval)
  from lock_state_fifo [OF this refl, of 2 3 "[LkRead 3, LkRelease 4]"] show ?thesis
    by (simp add: rma_lock_eval)
qed

subsection \<open>\<^verbatim>\<open>OldLockState\<close>\<close>

record OldLockState =
  old_mode :: LockMode
  old_holders :: "TxnId set"
  old_waiters :: "TxnId set"
  old_queue :: "(TxnId \<times> LockMode) list"

definition OldLockState_new :: OldLockState where
  "OldLockState_new = \<lparr>old_mode = UNLOCKED, old_holders = {}, old_waiters = {}, old_queue = []\<rparr>"

definition OldLockState_AcquireReadLock :: "TxnId \<Rightarrow> OldLockState \<Rightarrow> bool \<times> OldLockState" where
  "OldLockState_AcquireReadLock txn_id s =
     (let wait = s\<lparr>old_waiters := insert txn_id (old_waiters s), old_queue := old_queue s @ [(txn_id, READ)]\<rparr> in
      case old_mode s of
        UNLOCKED \<Rightarrow> (True, s\<lparr>old_holders := insert txn_id (old_holders s), old_mode := READ\<rparr>)
      | READ \<Rightarrow>
          if old_waiters s = {} then (True, s\<lparr>old_holders := insert txn_id (old_holders s)\<rparr>)
          else (False, wait)
      | WRITE \<Rightarrow> (False, wait))"

definition OldLockState_AcquireWriteLock :: "TxnId \<Rightarrow> OldLockState \<Rightarrow> bool \<times> OldLockState" where
  "OldLockState_AcquireWriteLock txn_id s =
     (let wait = s\<lparr>old_waiters := insert txn_id (old_waiters s), old_queue := old_queue s @ [(txn_id, WRITE)]\<rparr> in
      case old_mode s of
        UNLOCKED \<Rightarrow> (True, s\<lparr>old_holders := insert txn_id (old_holders s), old_mode := WRITE\<rparr>)
      | READ \<Rightarrow> (False, wait)
      | WRITE \<Rightarrow> (False, wait))"

definition OldLockState_Contains :: "TxnId \<Rightarrow> OldLockState \<Rightarrow> bool" where
  "OldLockState_Contains txn_id s \<longleftrightarrow> txn_id \<in> old_holders s \<or> txn_id \<in> old_waiters s"

fun OldLockState_grant_readers :: "(TxnId \<times> LockMode) list \<Rightarrow> OldLockState \<Rightarrow> OldLockState" where
  "OldLockState_grant_readers [] s = s\<lparr>old_queue := []\<rparr>"
| "OldLockState_grant_readers ((txn_id, m) # queue) s =
     (let s1 = s\<lparr>old_holders := insert txn_id (old_holders s), old_waiters := old_waiters s - {txn_id},
        old_queue := queue\<rparr> in
      if queue \<noteq> [] \<and> snd (hd queue) = READ then OldLockState_grant_readers queue s1 else s1)"

definition OldLockState_Release :: "TxnId \<Rightarrow> OldLockState \<Rightarrow> TxnId set \<times> OldLockState" where
  "OldLockState_Release txn_id s =
     (if txn_id \<notin> old_holders s
      then ({}, s\<lparr>old_queue := filter (\<lambda>p. fst p \<noteq> txn_id) (old_queue s),
                  old_waiters := old_waiters s - {txn_id}\<rparr>)
      else let s1 = s\<lparr>old_holders := old_holders s - {txn_id}\<rparr> in
        if old_holders s1 \<noteq> {} then ({}, s1)
        else if old_waiters s1 = {} then ({}, s1\<lparr>old_mode := UNLOCKED\<rparr>)
        else let front = hd (old_queue s1);
          s2 = (if snd front = READ
            then (OldLockState_grant_readers (old_queue s1) s1)\<lparr>old_mode := READ\<rparr>
            else if snd front = WRITE
            then s1\<lparr>old_holders := insert (fst front) (old_holders s1),
                    old_waiters := old_waiters s1 - {fst front},
                    old_queue := tl (old_queue s1), old_mode := WRITE\<rparr>
            else s1) in (old_holders s2, s2))"

text \<open>The abstraction: the vector and the queue seen as the hash sets.\<close>

definition old_abs :: "LockState \<Rightarrow> OldLockState" where
  "old_abs s = \<lparr>old_mode = ls_mode s, old_holders = set (ls_holders s),
     old_waiters = fst ` set (ls_waiters s), old_queue = ls_waiters s\<rparr>"

lemma old_abs_sel [simp]:
  "old_mode (old_abs s) = ls_mode s" "old_holders (old_abs s) = set (ls_holders s)"
  "old_waiters (old_abs s) = fst ` set (ls_waiters s)" "old_queue (old_abs s) = ls_waiters s"
  by (simp_all add: old_abs_def)

lemma old_AcquireReadLock_refines:
  "OldLockState_AcquireReadLock t (old_abs s) = map_prod id old_abs (LockState_AcquireReadLock t s)"
  by (cases "ls_mode s")
    (auto simp: OldLockState_AcquireReadLock_def LockState_AcquireReadLock_def old_abs_def Let_def)

lemma old_AcquireWriteLock_refines:
  "OldLockState_AcquireWriteLock t (old_abs s) = map_prod id old_abs (LockState_AcquireWriteLock t s)"
  by (cases "ls_mode s")
    (auto simp: OldLockState_AcquireWriteLock_def LockState_AcquireWriteLock_def old_abs_def Let_def)

lemma OldLockState_grant_readers_eq:
  assumes "q \<noteq> []" "snd (hd q) = READ"
  shows "OldLockState_grant_readers q s =
    s\<lparr>old_holders := fst ` set (takeWhile (\<lambda>p. snd p = READ) q) \<union> old_holders s,
      old_waiters := old_waiters s - fst ` set (takeWhile (\<lambda>p. snd p = READ) q),
      old_queue := dropWhile (\<lambda>p. snd p = READ) q\<rparr>"
  using assms
proof (induction q s rule: OldLockState_grant_readers.induct)
  case (2 t m q s)
  show ?case
  proof (cases "q \<noteq> [] \<and> snd (hd q) = READ")
    case True
    have "old_waiters s - {t} - X = old_waiters s - insert t X" for X by blast
    with True 2 show ?thesis by (simp add: Let_def)
  next
    case False
    with 2 show ?thesis by (cases q) (auto simp: Let_def)
  qed
qed simp

lemma image_fst_dropWhile:
  assumes "distinct (map fst q)"
  shows "fst ` set q - fst ` set (takeWhile P q) = fst ` set (dropWhile P q)"
proof -
  have "distinct (map fst (takeWhile P q) @ map fst (dropWhile P q))"
    using assms by (metis map_append takeWhile_dropWhile_id)
  moreover have "fst ` set q = fst ` set (takeWhile P q) \<union> fst ` set (dropWhile P q)"
    by (metis image_Un set_append takeWhile_dropWhile_id)
  ultimately show ?thesis by auto
qed

lemma old_Release_refines:
  assumes "ls_inv s"
  shows "OldLockState_Release t (old_abs s) = map_prod set old_abs (LockState_Release t s)"
proof (cases "t \<in> set (ls_holders s)")
  case False
  then show ?thesis
    by (auto simp: OldLockState_Release_def LockState_Release_def old_abs_def)
next
  case True
  have d: "distinct (ls_holders s)" "distinct (map fst (ls_waiters s))" using assms by (auto simp: ls_inv_def)
  show ?thesis
  proof (cases "ls_holders s = [t]")
    case False
    have "set (ls_holders s) - {t} \<noteq> {}"
    proof
      assume "set (ls_holders s) - {t} = {}"
      with True have h: "set (ls_holders s) = {t}" by blast
      with distinct_card [OF d(1)] have "length (ls_holders s) = Suc 0" by simp
      with h False show False by (auto simp: length_Suc_conv)
    qed
    then show ?thesis
      using True False d(1) LockState_Release_holder [OF assms True]
      by (simp add: OldLockState_Release_def old_abs_def)
  next
    case ht: True
    show ?thesis
    proof (cases "ls_waiters s")
      case Nil
      then show ?thesis
        using ht LockState_Release_holder [OF assms True] by (simp add: OldLockState_Release_def old_abs_def)
    next
      case (Cons x q)
      obtain u m where x: "x = (u, m)" by (cases x)
      have m: "m \<noteq> READ \<Longrightarrow> m = WRITE" using assms Cons x by (cases m) (auto simp: ls_inv_def)
      let ?P = "\<lambda>p :: TxnId \<times> LockMode. snd p = READ"
      show ?thesis
      proof (cases "m = READ")
        case mr: True
        then have "fst ` set ((u, m) # q) - fst ` set (takeWhile ?P ((u, m) # q)) = fst ` set (dropWhile ?P q)"
          using image_fst_dropWhile [of "(u, m) # q" ?P] d(2) Cons x by simp
        then show ?thesis
          using ht mr Cons x LockState_Release_holder [OF assms True]
          by (simp add: OldLockState_Release_def OldLockState_grant_readers_eq Let_def
              old_abs_def del: OldLockState_grant_readers.simps)
      next
        case mw: False
        have "u \<notin> fst ` set q" using d(2) Cons x by simp
        then show ?thesis
          using ht mw m Cons x LockState_Release_holder [OF assms True]
          by (simp add: OldLockState_Release_def Let_def old_abs_def)
      qed
    qed
  qed
qed

abbreviation old_lock_step :: "OldLockState \<Rightarrow> lk_op \<Rightarrow> OldLockState" where
  "old_lock_step \<equiv> lk_step OldLockState_AcquireReadLock OldLockState_AcquireWriteLock OldLockState_Release"

lemma old_lock_step_refines:
  "ls_inv s \<Longrightarrow> old_lock_step (old_abs s) op = old_abs (rma_lock_step s op)"
  by (cases op) (simp_all add: old_AcquireReadLock_refines old_AcquireWriteLock_refines
      old_Release_refines LockState_release_set_def)

text \<open>The old lock states that represent a well-formed lock state.\<close>

definition old_inv :: "OldLockState \<Rightarrow> bool" where
  "old_inv c \<longleftrightarrow> (\<exists>s. ls_inv s \<and> c = old_abs s)"

lemma old_invE:
  assumes "old_inv c"
  obtains s where "ls_inv s" "c = old_abs s"
  using assms unfolding old_inv_def by blast

interpretation old: fifo_lock OldLockState_AcquireReadLock OldLockState_AcquireWriteLock
  OldLockState_Release old_mode old_holders old_queue old_inv
proof (unfold_locales, goal_cases)
  case (1 c)
  then show ?case by (auto elim!: old_invE dest: rma.wf_distinct)
next
  case (2 c)
  then obtain s where "ls_inv s" "c = old_abs s" by (rule old_invE)
  with rma.wf_disjoint [of s] show ?case by simp
next
  case (3 c)
  then show ?case by (auto elim!: old_invE dest: rma.wf_exclusive)
next
  case (4 c t b c')
  from 4(1) obtain s where s: "ls_inv s" "c = old_abs s" by (rule old_invE)
  then obtain s' where s': "LockState_AcquireReadLock t s = (b, s')" "c' = old_abs s'"
    using 4(3) by (cases "LockState_AcquireReadLock t s") (simp add: old_AcquireReadLock_refines)
  from rma.acquire_read_spec [OF s(1) _ s'(1)] 4(2) s s'(2) show ?case unfolding old_inv_def by auto
next
  case (5 c t b c')
  from 5(1) obtain s where s: "ls_inv s" "c = old_abs s" by (rule old_invE)
  then obtain s' where s': "LockState_AcquireWriteLock t s = (b, s')" "c' = old_abs s'"
    using 5(3) by (cases "LockState_AcquireWriteLock t s") (simp add: old_AcquireWriteLock_refines)
  from rma.acquire_write_spec [OF s(1) _ s'(1)] 5(2) s s'(2) show ?case unfolding old_inv_def by auto
next
  case (6 c t g c')
  from 6(1) obtain s where s: "ls_inv s" "c = old_abs s" by (rule old_invE)
  then obtain h s' where s': "LockState_Release t s = (h, s')" "g = set h" "c' = old_abs s'"
    using 6(3) by (cases "LockState_Release t s") (simp add: old_Release_refines)
  from LockState_Release_waiter [OF s(1) _ s'(1)] 6(2) s s'(2,3) show ?case unfolding old_inv_def by auto
next
  case (7 c t g c')
  from 7(1) obtain s where s: "ls_inv s" "c = old_abs s" by (rule old_invE)
  then obtain h s' where s': "LockState_Release t s = (h, s')" "g = set h" "c' = old_abs s'"
    using 7(3) by (cases "LockState_Release t s") (simp add: old_Release_refines)
  from LockState_Release_holder_spec [OF s(1) _ s'(1)] 7(2) s s'(2,3) show ?case unfolding old_inv_def by auto
next
  case (8 c t c')
  from 8(1) obtain s where s: "ls_inv s" "c = old_abs s" by (rule old_invE)
  then obtain s' where "LockState_AcquireReadLock t s = (True, s')"
    using 8(2) by (cases "LockState_AcquireReadLock t s") (simp add: old_AcquireReadLock_refines)
  from rma.acquire_read_mode [OF s(1) this] 8(3) s(2) show ?case by simp
next
  case (9 c t g c')
  from 9(1) obtain s where s: "ls_inv s" "c = old_abs s" by (rule old_invE)
  then obtain h s' where s': "LockState_Release t s = (h, s')" "g = set h" "c' = old_abs s'"
    using 9(3) by (cases "LockState_Release t s") (simp add: old_Release_refines)
  from LockState_Release_mode [OF s(1) _ s'(1)] 9(2) s(2) s'(2,3) show ?case by simp
qed

text \<open>
  C23: \<open>OldLockState\<close> implements \<open>LockState\<close>: after the same requests and releases the two
  are in corresponding states, and the next request or release answers the same in
  both, with the same set of new grantees.
\<close>
theorem old_lock_state_refinement:
  assumes "all_steps rma_lock_step rma_lock_legal LockState_new ops"
    and "s = foldl rma_lock_step LockState_new ops"
  shows "foldl old_lock_step OldLockState_new ops = old_abs s \<and>
    fst (OldLockState_AcquireReadLock t (old_abs s)) = fst (LockState_AcquireReadLock t s) \<and>
    fst (OldLockState_AcquireWriteLock t (old_abs s)) = fst (LockState_AcquireWriteLock t s) \<and>
    fst (OldLockState_Release t (old_abs s)) = set (fst (LockState_Release t s))"
proof -
  have gen: "foldl old_lock_step (old_abs s0) ops = old_abs (foldl rma_lock_step s0 ops)"
    if "ls_inv s0" "all_steps rma_lock_step rma_lock_legal s0 ops" for s0
    using that
  proof (induction ops arbitrary: s0)
    case (Cons op ops)
    then have "ls_inv (rma_lock_step s0 op)" by (simp add: rma_legal_eq rma.step_wf)
    with Cons show ?case by (simp add: old_lock_step_refines)
  qed simp
  have "old_abs LockState_new = OldLockState_new"
    by (simp add: old_abs_def LockState_new_def OldLockState_new_def)
  with gen [OF ls_inv_new assms(1)] have "foldl old_lock_step OldLockState_new ops = old_abs s"
    by (simp add: assms(2))
  moreover have "ls_inv s" unfolding assms(2) using ls_inv_run [OF assms(1)] by simp
  ultimately show ?thesis
    by (simp add: old_AcquireReadLock_refines old_AcquireWriteLock_refines old_Release_refines)
qed

theorem old_lock_state_refinement_witness:
  "fst (OldLockState_Release 1 (foldl old_lock_step OldLockState_new [LkWrite 1, LkRead 2, LkRead 3])) = {2, 3}"
proof -
  have "all_steps rma_lock_step rma_lock_legal LockState_new [LkWrite 1, LkRead 2, LkRead 3]"
    by (simp add: rma_lock_eval)
  from old_lock_state_refinement [OF this refl, of 1] show ?thesis by (simp add: rma_lock_eval)
qed

end
