(* ===== verification/Logs.thy ===== *)
theory Logs
  imports Ids
begin

section \<open>Ordered logs (\<^verbatim>\<open>common/async_log.h\<close>, \<^verbatim>\<open>common/batch_log.cpp\<close>, \<^verbatim>\<open>LocalLog\<close>)\<close>

text \<open>
  An \<open>AsyncLog\<close> accepts items at arbitrary positions and yields them one by one in
  position order.  A \<open>BatchLog\<close> combines an \<open>AsyncLog\<close> of slots with the batch data
  and the replication acknowledgements, a \<open>LocalLog\<close> combines the slots decided by
  the local Paxos with one \<open>AsyncLog\<close> of batch ids per generator.  All three promise
  the same contract, the locale \<open>gapless_source\<close>: what leaves the log carries
  consecutive positions.  Positions are 32-bit words, as in the code, and wrap.
\<close>

subsection \<open>The contract of an ordered log\<close>

text \<open>
  \<open>step\<close> performs one operation and returns what it emits, \<open>cursor\<close> is the position
  of the next item to leave, \<open>sane\<close> an invariant of the reachable states.
\<close>

locale gapless_source =
  fixes step :: "'s \<Rightarrow> 'op \<Rightarrow> ('s \<times> (uint32 \<times> 'o) list) result"
    and cursor :: "'s \<Rightarrow> uint32"
    and sane :: "'s \<Rightarrow> bool"
  assumes sane_step: "sane s \<Longrightarrow> step s op = Inr (t, outs) \<Longrightarrow> sane t"
    and emits_consecutive:
      "sane s \<Longrightarrow> step s op = Inr (t, outs) \<Longrightarrow> map fst outs = consecutive (cursor s) (length outs)"
    and cursor_step:
      "sane s \<Longrightarrow> step s op = Inr (t, outs) \<Longrightarrow> cursor t = cursor s + of_nat (length outs)"
begin

lemma run_gapless:
  assumes "run_ops step s ops = Inr (t, outs)" and "sane s"
  shows "map fst outs = consecutive (cursor s) (length outs) \<and>
    cursor t = cursor s + of_nat (length outs) \<and> sane t"
  using assms
proof (induction ops arbitrary: s outs)
  case Nil
  then show ?case by simp
next
  case (Cons op ops)
  from Cons.prems(1) obtain s1 o1 o2 where
    step: "step s op = Inr (s1, o1)" and rest: "run_ops step s1 ops = Inr (t, o2)"
    and outs: "outs = o1 @ o2" by (rule run_ops_ConsE)
  note facts = sane_step [OF Cons.prems(2) step] emits_consecutive [OF Cons.prems(2) step]
    cursor_step [OF Cons.prems(2) step]
  from Cons.IH [OF rest facts(1)] facts outs show ?case
    by (simp add: consecutive_add add.assoc)
qed

lemma run_distinct:
  assumes "run_ops step s ops = Inr (t, outs)" and "sane s" and "length outs \<le> 2 ^ 32"
  shows "distinct (map fst outs)"
  using run_gapless [OF assms(1,2)] assms(3) distinct_consecutive [of "length outs" "cursor s"]
  by simp

end

subsection \<open>\<^verbatim>\<open>AsyncLog\<close>\<close>

record 'a AsyncLog =
  al_log :: "uint32 \<rightharpoonup> 'a"
  al_next :: uint32

definition AsyncLog_new :: "uint32 \<Rightarrow> 'a AsyncLog" where
  "AsyncLog_new start_from = \<lparr>al_log = Map.empty, al_next = start_from\<rparr>"

definition AsyncLog_Insert :: "uint32 \<Rightarrow> 'a \<Rightarrow> 'a AsyncLog \<Rightarrow> 'a AsyncLog result" where
  "AsyncLog_Insert position item l =
     (if position < al_next l then Inr l
      else if al_log l position \<noteq> None then Inl (RuntimeError ''Log position has already been taken'')
      else Inr (l\<lparr>al_log := (al_log l)(position \<mapsto> item)\<rparr>))"

definition AsyncLog_HasNext :: "'a AsyncLog \<Rightarrow> bool" where
  "AsyncLog_HasNext l \<longleftrightarrow> al_log l (al_next l) \<noteq> None"

definition AsyncLog_Peek :: "'a AsyncLog \<Rightarrow> 'a result" where
  "AsyncLog_Peek l =
     (case al_log l (al_next l) of None \<Rightarrow> Inl (OutOfRange ''log_.at'') | Some x \<Rightarrow> Inr x)"

definition AsyncLog_Next :: "'a AsyncLog \<Rightarrow> ((uint32 \<times> 'a) \<times> 'a AsyncLog) result" where
  "AsyncLog_Next l =
     (case al_log l (al_next l) of
        None \<Rightarrow> Inl (RuntimeError ''Next item does not exist'')
      | Some x \<Rightarrow> Inr ((al_next l, x),
          l\<lparr>al_log := (al_log l)(al_next l := None), al_next := al_next l + 1\<rparr>))"

lemmas async_log_defs [model_defs] = AsyncLog_new_def AsyncLog_Insert_def AsyncLog_HasNext_def
  AsyncLog_Peek_def AsyncLog_Next_def

datatype 'a al_op = ALInsert uint32 'a | ALNext

fun al_step :: "'a AsyncLog \<Rightarrow> 'a al_op \<Rightarrow> ('a AsyncLog \<times> (uint32 \<times> 'a) list) result" where
  "al_step l (ALInsert p x) = rbind (AsyncLog_Insert p x l) (\<lambda>l'. Inr (l', []))"
| "al_step l ALNext = rbind (AsyncLog_Next l) (\<lambda>(out, l'). Inr (l', [out]))"

interpretation async: gapless_source al_step al_next "\<lambda>_. True"
proof (unfold_locales, goal_cases)
  case (2 s op t outs)
  then show ?case
    by (cases op) (auto simp: result_simps model_defs consecutive_def split: if_splits option.splits)
next
  case (3 s op t outs)
  then show ?case
    by (cases op) (auto simp: result_simps model_defs split: if_splits option.splits)
qed

text \<open>The first item offered for a position: what the log promises to deliver there.\<close>

fun first_insert :: "'a al_op list \<Rightarrow> uint32 \<rightharpoonup> 'a" where
  "first_insert [] = Map.empty"
| "first_insert (ALInsert p x # ops) = (first_insert ops)(p \<mapsto> x)"
| "first_insert (ALNext # ops) = first_insert ops"

lemma no_wrap_ge:
  fixes a :: uint32
  assumes "unat a + i < 2 ^ 32"
  shows "a \<le> a + of_nat i" and "0 < i \<Longrightarrow> a \<noteq> a + of_nat i"
proof -
  have u: "unat (a + of_nat i) = unat a + i"
    using assms by (simp add: unat_word_ariths unsigned_of_nat take_bit_nat_eq_self)
  then show "a \<le> a + of_nat i" by (simp add: word_le_nat_alt)
  show "0 < i \<Longrightarrow> a \<noteq> a + of_nat i" using u by auto
qed

lemma al_run_items:
  assumes "run_ops al_step l ops = Inr (l', outs)"
    and "unat (al_next l) + length outs < 2 ^ 32" and "i < length outs"
  shows "(first_insert ops ++ al_log l) (al_next l + of_nat i) = Some (snd (outs ! i))"
  using assms
proof (induction ops arbitrary: l outs i)
  case Nil
  then show ?case by simp
next
  case (Cons op ops)
  from Cons.prems(1) obtain l1 o1 o2 where
    step: "al_step l op = Inr (l1, o1)" and rest: "run_ops al_step l1 ops = Inr (l', o2)"
    and outs: "outs = o1 @ o2" by (rule run_ops_ConsE)
  show ?case
  proof (cases op)
    case (ALInsert p x)
    with step have "o1 = []" "al_next l1 = al_next l" by (auto simp: model_defs split: if_splits)
    with Cons.IH [OF rest, of i] Cons.prems(2,3) outs
    have ih: "(first_insert ops ++ al_log l1) (al_next l + of_nat i) = Some (snd (outs ! i))" by simp
    have "\<not> al_next l + of_nat i < al_next l"
      using no_wrap_ge(1) [of "al_next l" i] Cons.prems(2,3) by (simp add: not_less)
    with ih step ALInsert show ?thesis
      by (auto simp: model_defs map_add_def split: if_splits option.splits)
  next
    case ALNext
    then obtain y where y: "al_log l (al_next l) = Some y" "o1 = [(al_next l, y)]"
      "al_log l1 = (al_log l)(al_next l := None)" "al_next l1 = al_next l + 1"
      using step by (auto simp: model_defs split: option.splits)
    show ?thesis
    proof (cases i)
      case 0
      with y outs show ?thesis by (simp add: map_add_def)
    next
      case (Suc j)
      have "unat (al_next l + 1) = unat (al_next l) + 1"
        using Cons.prems(2) outs y by (simp add: unat_word_ariths)
      then have "(first_insert ops ++ al_log l1) (al_next l1 + of_nat j) = Some (snd (o2 ! j))"
        using Cons.IH [OF rest, of j] Cons.prems(2,3) outs y Suc by (simp del: fun_upd_apply)
      moreover have "al_next l \<noteq> al_next l + of_nat (Suc j)"
        using no_wrap_ge(2) [of "al_next l" "Suc j"] Cons.prems(2,3) Suc by simp
      ultimately show ?thesis
        using y outs Suc ALNext by (simp add: map_add_def add.assoc split: option.splits)
    qed
  qed
qed

text \<open>
  Whatever the order in which items are inserted, an \<open>AsyncLog\<close> delivers the
  positions one after the other starting at its first position, and delivers at
  every position the first item that was inserted there.
\<close>
theorem async_log_in_order:
  assumes "run_ops al_step (AsyncLog_new start_from) ops = Inr (l, outs)"
    and "unat start_from + length outs < 2 ^ 32"
  shows "map fst outs = consecutive start_from (length outs) \<and>
    map (first_insert ops) (consecutive start_from (length outs)) = map (\<lambda>x. Some (snd x)) outs"
proof -
  have "first_insert ops (start_from + of_nat i) = Some (snd (outs ! i))" if "i < length outs" for i
    using al_run_items [OF assms(1)] assms(2) that by (simp add: AsyncLog_new_def)
  then have "map (first_insert ops) (consecutive start_from (length outs)) = map (\<lambda>x. Some (snd x)) outs"
    by (auto simp: consecutive_def intro: nth_equalityI)
  then show ?thesis using async.run_gapless [OF assms(1)] by (simp add: AsyncLog_new_def)
qed

theorem async_log_in_order_witness:
  "let ops = [ALInsert 1 ''b'', ALInsert 0 ''a'', ALNext, ALInsert 0 ''z'', ALNext] in
   \<exists>l. run_ops al_step (AsyncLog_new 0) ops = Inr (l, [(0, ''a''), (1, ''b'')]) \<and>
     map (first_insert ops) (consecutive 0 (Suc (Suc 0))) = [Some ''a'', Some ''b'']"
proof -
  let ?ops = "[ALInsert 1 ''b'', ALInsert 0 ''a'', ALNext, ALInsert 0 ''z'', ALNext]"
  obtain l where r: "run_ops al_step (AsyncLog_new 0) ?ops = Inr (l, [(0, ''a''), (1, ''b'')])"
    by (simp add: model_defs)
  from async_log_in_order [OF r] show ?thesis
    by (simp add: Let_def model_defs)
qed

subsection \<open>\<^verbatim>\<open>BatchLog\<close>\<close>

text \<open>
  The protobuf message \<^verbatim>\<open>internal::Batch\<close>, over an arbitrary type of transactions.
\<close>

record 'txn Batch =
  b_id :: BatchId
  b_transactions :: "'txn list"
  b_events :: "(nat \<times> int \<times> int \<times> int) list"

record 'txn BatchLog =
  bl_slots :: "(BatchId \<times> int) AsyncLog"
  bl_batches :: "BatchId \<rightharpoonup> 'txn Batch"
  bl_replication :: "BatchId \<rightharpoonup> int"
  bl_ready :: "(SlotId \<times> BatchId \<times> int) list"

definition BatchLog_new :: "'txn BatchLog" where
  "BatchLog_new = \<lparr>bl_slots = AsyncLog_new 0, bl_batches = Map.empty,
     bl_replication = Map.empty, bl_ready = []\<rparr>"

text \<open>The value \<^verbatim>\<open>replication_[batch_id]\<close>, default-inserted as \<open>0\<close>.\<close>

definition replication_at :: "'txn BatchLog \<Rightarrow> BatchId \<Rightarrow> int" where
  "replication_at l i = (case bl_replication l i of None \<Rightarrow> 0 | Some n \<Rightarrow> n)"

text \<open>
  The loop removes one slot from the finite table \<^verbatim>\<open>slots_\<close> in each round.
\<close>

function BatchLog_UpdateReadyBatches :: "'txn BatchLog \<Rightarrow> 'txn BatchLog result" where
  "BatchLog_UpdateReadyBatches l =
     (if AsyncLog_HasNext (bl_slots l)
      then rbind (AsyncLog_Peek (bl_slots l)) (\<lambda>(next_batch_id, time).
        if bl_batches l next_batch_id \<noteq> None \<and> bl_replication l next_batch_id = Some 0
        then rbind (AsyncLog_Next (bl_slots l)) (\<lambda>(entry, slots).
          BatchLog_UpdateReadyBatches
            (l\<lparr>bl_replication := (bl_replication l)(next_batch_id := None),
               bl_slots := slots, bl_ready := bl_ready l @ [entry]\<rparr>))
        else Inr l)
      else Inr l)"
  by pat_completeness auto
termination
  by (relation "measure (\<lambda>l. card (dom (al_log (bl_slots l))))")
    (auto simp: model_defs card_dom_remove split: option.splits)

declare BatchLog_UpdateReadyBatches.simps [simp del]

definition BatchLog_AddBatch :: "'txn Batch \<Rightarrow> 'txn BatchLog \<Rightarrow> 'txn BatchLog result" where
  "BatchLog_AddBatch batch l =
     BatchLog_UpdateReadyBatches (l\<lparr>bl_batches := (bl_batches l)(b_id batch \<mapsto> batch)\<rparr>)"

definition BatchLog_AckReplication :: "BatchId \<Rightarrow> 'txn BatchLog \<Rightarrow> 'txn BatchLog result" where
  "BatchLog_AckReplication batch_id l =
     BatchLog_UpdateReadyBatches
       (l\<lparr>bl_replication := (bl_replication l)(batch_id \<mapsto> replication_at l batch_id - 1)\<rparr>)"

definition BatchLog_AddSlot ::
    "int \<Rightarrow> SlotId \<Rightarrow> BatchId \<Rightarrow> int \<Rightarrow> 'txn BatchLog \<Rightarrow> 'txn BatchLog result" where
  "BatchLog_AddSlot time slot_id batch_id replication_factor l =
     rbind (AsyncLog_Insert slot_id (batch_id, time) (bl_slots l)) (\<lambda>slots.
       BatchLog_UpdateReadyBatches
         (l\<lparr>bl_slots := slots,
            bl_replication :=
              (bl_replication l)(batch_id \<mapsto> replication_at l batch_id + replication_factor)\<rparr>))"

definition BatchLog_HasNextBatch :: "'txn BatchLog \<Rightarrow> bool" where
  "BatchLog_HasNextBatch l \<longleftrightarrow> bl_ready l \<noteq> []"

text \<open>
  The code dereferences \<^verbatim>\<open>batches_.find(next_batch_id)\<close> without comparing it to
  \<^verbatim>\<open>end()\<close>; a missing entry is an undefined access.
\<close>

definition BatchLog_NextBatch :: "'txn BatchLog \<Rightarrow> ((SlotId \<times> 'txn Batch) \<times> 'txn BatchLog) result" where
  "BatchLog_NextBatch l =
     (case bl_ready l of
        [] \<Rightarrow> Inl (RuntimeError ''NextBatch() was called when there is no ready batch'')
      | (next_slot, next_batch_id, time) # ready \<Rightarrow>
          (case bl_batches l next_batch_id of
             None \<Rightarrow> Inl (Undefined ''batches_.find(next_batch_id)'')
           | Some batch \<Rightarrow> Inr ((next_slot, batch),
               l\<lparr>bl_ready := ready, bl_batches := (bl_batches l)(next_batch_id := None)\<rparr>)))"

lemmas batch_log_defs [model_defs] = BatchLog_new_def replication_at_def BatchLog_AddBatch_def
  BatchLog_AckReplication_def BatchLog_AddSlot_def BatchLog_HasNextBatch_def BatchLog_NextBatch_def

datatype 'txn bl_op =
    BLAddBatch "'txn Batch" | BLAck BatchId | BLAddSlot int SlotId BatchId int | BLNext

fun bl_step :: "'txn BatchLog \<Rightarrow> 'txn bl_op \<Rightarrow> ('txn BatchLog \<times> (SlotId \<times> 'txn Batch) list) result" where
  "bl_step l (BLAddBatch b) = rbind (BatchLog_AddBatch b l) (\<lambda>l'. Inr (l', []))"
| "bl_step l (BLAck i) = rbind (BatchLog_AckReplication i l) (\<lambda>l'. Inr (l', []))"
| "bl_step l (BLAddSlot t s i rf) = rbind (BatchLog_AddSlot t s i rf l) (\<lambda>l'. Inr (l', []))"
| "bl_step l BLNext = rbind (BatchLog_NextBatch l) (\<lambda>(out, l'). Inr (l', [out]))"

text \<open>
  Every fact that one round of the loop keeps holds after the loop; the loop never
  fails.
\<close>

definition batch_ready :: "'txn BatchLog \<Rightarrow> BatchId \<Rightarrow> bool" where
  "batch_ready l i \<longleftrightarrow> bl_batches l i \<noteq> None \<and> bl_replication l i = Some 0"

definition bl_round :: "'txn BatchLog \<Rightarrow> BatchId \<Rightarrow> int \<Rightarrow> 'txn BatchLog" where
  "bl_round l i t = l\<lparr>bl_replication := (bl_replication l)(i := None),
     bl_slots := (bl_slots l)\<lparr>al_log := (al_log (bl_slots l))(al_next (bl_slots l) := None),
       al_next := al_next (bl_slots l) + 1\<rparr>,
     bl_ready := bl_ready l @ [(al_next (bl_slots l), i, t)]\<rparr>"

lemma UpdateReadyBatches_unfold:
  "BatchLog_UpdateReadyBatches l =
     (case al_log (bl_slots l) (al_next (bl_slots l)) of
        None \<Rightarrow> Inr l
      | Some (i, t) \<Rightarrow> if batch_ready l i then BatchLog_UpdateReadyBatches (bl_round l i t) else Inr l)"
  by (subst BatchLog_UpdateReadyBatches.simps)
    (auto simp: AsyncLog_HasNext_def AsyncLog_Peek_def AsyncLog_Next_def batch_ready_def bl_round_def
      split: option.splits)

lemma UpdateReadyBatches_induct:
  assumes "P l" and "\<And>l i t. P l \<Longrightarrow> al_log (bl_slots l) (al_next (bl_slots l)) = Some (i, t) \<Longrightarrow>
    batch_ready l i \<Longrightarrow> P (bl_round l i t)"
  shows "\<exists>l'. BatchLog_UpdateReadyBatches l = Inr l' \<and> P l' \<and>
    (\<forall>i t. al_log (bl_slots l') (al_next (bl_slots l')) = Some (i, t) \<longrightarrow> \<not> batch_ready l' i)"
  using assms(1)
proof (induction "card (dom (al_log (bl_slots l)))" arbitrary: l rule: less_induct)
  case less
  show ?case
  proof (cases "\<exists>i t. al_log (bl_slots l) (al_next (bl_slots l)) = Some (i, t) \<and> batch_ready l i")
    case True
    then obtain i t where it: "al_log (bl_slots l) (al_next (bl_slots l)) = Some (i, t)"
      "batch_ready l i" by blast
    moreover have "card (dom (al_log (bl_slots (bl_round l i t)))) < card (dom (al_log (bl_slots l)))"
      using it(1) by (simp add: bl_round_def card_dom_remove)
    ultimately have "\<exists>l'. BatchLog_UpdateReadyBatches (bl_round l i t) = Inr l' \<and> P l' \<and>
      (\<forall>i t. al_log (bl_slots l') (al_next (bl_slots l')) = Some (i, t) \<longrightarrow> \<not> batch_ready l' i)"
      using less.hyps assms(2) less.prems by blast
    then show ?thesis using it by (simp add: UpdateReadyBatches_unfold [of l])
  next
    case False
    then have "BatchLog_UpdateReadyBatches l = Inr l"
      by (auto simp: UpdateReadyBatches_unfold [of l] split: option.split)
    then show ?thesis using False less.prems by blast
  qed
qed

definition bl_cursor :: "'txn BatchLog \<Rightarrow> SlotId" where
  "bl_cursor l = al_next (bl_slots l) - of_nat (length (bl_ready l))"

definition bl_sane :: "'txn BatchLog \<Rightarrow> bool" where
  "bl_sane l \<longleftrightarrow> map fst (bl_ready l) = consecutive (bl_cursor l) (length (bl_ready l))"

lemma bl_round_sane: "bl_sane l \<Longrightarrow> bl_sane (bl_round l i t) \<and> bl_cursor (bl_round l i t) = bl_cursor l"
  by (simp add: bl_sane_def bl_cursor_def bl_round_def consecutive_snoc)

lemma UpdateReadyBatches_sane:
  assumes "BatchLog_UpdateReadyBatches l = Inr l'" and "bl_sane l"
  shows "bl_sane l' \<and> bl_cursor l' = bl_cursor l"
  using UpdateReadyBatches_induct [of "\<lambda>k. bl_sane k \<and> bl_cursor k = bl_cursor l" l] assms
  by (auto simp: bl_round_sane)

lemma bl_sane_upd [simp]:
  "bl_sane (l\<lparr>bl_batches := x\<rparr>) = bl_sane l" "bl_cursor (l\<lparr>bl_batches := x\<rparr>) = bl_cursor l"
  "bl_sane (l\<lparr>bl_replication := y\<rparr>) = bl_sane l" "bl_cursor (l\<lparr>bl_replication := y\<rparr>) = bl_cursor l"
  by (simp_all add: bl_sane_def bl_cursor_def)

lemma AsyncLog_Insert_next: "AsyncLog_Insert p x a = Inr a' \<Longrightarrow> al_next a' = al_next a"
  by (auto simp: AsyncLog_Insert_def split: if_splits)

lemma bl_sane_slots:
  "al_next s = al_next (bl_slots l) \<Longrightarrow> bl_sane (l\<lparr>bl_slots := s\<rparr>) = bl_sane l"
  "al_next s = al_next (bl_slots l) \<Longrightarrow> bl_cursor (l\<lparr>bl_slots := s\<rparr>) = bl_cursor l"
  by (simp_all add: bl_sane_def bl_cursor_def)

lemma NextBatch_sane:
  assumes "BatchLog_NextBatch l = Inr ((s, b), l')" and "bl_sane l"
  shows "s = bl_cursor l \<and> bl_cursor l' = bl_cursor l + 1 \<and> bl_sane l'"
  using assms
  by (auto simp: BatchLog_NextBatch_def bl_sane_def bl_cursor_def consecutive_Suc
      split: list.splits option.splits)

lemma bl_step_sane:
  assumes "bl_sane l" and "bl_step l op = Inr (l', outs)"
  shows "bl_sane l' \<and> bl_cursor l' = bl_cursor l + of_nat (length outs) \<and>
    map fst outs = consecutive (bl_cursor l) (length outs)"
proof (cases op)
  case (BLAddSlot t s i rf)
  with assms show ?thesis
    by (auto simp: result_simps BatchLog_AddSlot_def bl_sane_slots dest!: UpdateReadyBatches_sane AsyncLog_Insert_next)
next
  case BLNext
  with assms show ?thesis
    by (auto simp: result_simps consecutive_def dest!: NextBatch_sane)
qed (use assms in \<open>auto simp: result_simps BatchLog_AddBatch_def BatchLog_AckReplication_def
  dest!: UpdateReadyBatches_sane\<close>)

interpretation batch: gapless_source bl_step bl_cursor bl_sane
  by unfold_locales (auto dest: bl_step_sane)

text \<open>
  What a log delivers is fixed by the decided slots and the batch data alone: \<open>S\<close>
  gives the batch id decided for a slot and \<open>D\<close> the data of a batch id.
\<close>

fun bl_agrees_op :: "(SlotId \<Rightarrow> BatchId) \<Rightarrow> (BatchId \<Rightarrow> 'txn Batch) \<Rightarrow> 'txn bl_op \<Rightarrow> bool" where
  "bl_agrees_op S D (BLAddSlot t s i rf) \<longleftrightarrow> S s = i"
| "bl_agrees_op S D (BLAddBatch b) \<longleftrightarrow> D (b_id b) = b"
| "bl_agrees_op S D _ \<longleftrightarrow> True"

definition bl_agrees :: "(SlotId \<Rightarrow> BatchId) \<Rightarrow> (BatchId \<Rightarrow> 'txn Batch) \<Rightarrow> 'txn BatchLog \<Rightarrow> bool" where
  "bl_agrees S D l \<longleftrightarrow>
     (\<forall>p i t. al_log (bl_slots l) p = Some (i, t) \<longrightarrow> S p = i) \<and>
     (\<forall>p i t. (p, i, t) \<in> set (bl_ready l) \<longrightarrow> S p = i) \<and>
     (\<forall>i b. bl_batches l i = Some b \<longrightarrow> D i = b)"

lemma UpdateReadyBatches_agrees:
  assumes "BatchLog_UpdateReadyBatches l = Inr l'" and "bl_agrees S D l"
  shows "bl_agrees S D l'"
  using UpdateReadyBatches_induct [of "bl_agrees S D" l] assms
  by (fastforce simp: bl_agrees_def bl_round_def)

lemma bl_agrees_upd:
  assumes "bl_agrees S D l"
  shows "bl_agrees S D (l\<lparr>bl_replication := r\<rparr>)"
    and "D (b_id b) = b \<Longrightarrow> bl_agrees S D (l\<lparr>bl_batches := (bl_batches l)(b_id b \<mapsto> b)\<rparr>)"
    and "AsyncLog_Insert s (S s, t) (bl_slots l) = Inr a \<Longrightarrow>
      bl_agrees S D (l\<lparr>bl_slots := a, bl_replication := r\<rparr>)"
  using assms by (auto simp: bl_agrees_def AsyncLog_Insert_def split: if_splits)

lemma NextBatch_inv:
  assumes "BatchLog_NextBatch l = Inr ((s, b), l')"
  obtains i t ready where "bl_ready l = (s, i, t) # ready" "bl_batches l i = Some b"
    "l' = l\<lparr>bl_ready := ready, bl_batches := (bl_batches l)(i := None)\<rparr>"
  using assms by (auto simp: BatchLog_NextBatch_def split: list.splits option.splits)

lemma NextBatch_agrees:
  assumes "BatchLog_NextBatch l = Inr ((s, b), l')" and "bl_agrees S D l"
  shows "bl_agrees S D l' \<and> b = D (S s)"
  using assms(1)
proof (rule NextBatch_inv)
  fix i t ready
  assume "bl_ready l = (s, i, t) # ready" and "bl_batches l i = Some b"
    and "l' = l\<lparr>bl_ready := ready, bl_batches := (bl_batches l)(i := None)\<rparr>"
  with assms(2) show ?thesis unfolding bl_agrees_def by (simp; metis)
qed

lemma bl_step_agrees:
  assumes "bl_agrees S D l" and "bl_agrees_op S D op" and "bl_step l op = Inr (l', outs)"
  shows "bl_agrees S D l' \<and> (\<forall>x\<in>set outs. snd x = D (S (fst x)))"
proof (cases op)
  case BLNext
  with assms show ?thesis
    by (auto simp: result_simps dest!: NextBatch_agrees)
qed (use assms in \<open>auto simp: result_simps BatchLog_AddSlot_def BatchLog_AddBatch_def
  BatchLog_AckReplication_def intro: bl_agrees_upd elim!: UpdateReadyBatches_agrees\<close>)

text \<open>
  C4: a \<open>BatchLog\<close> delivers slot 0, 1, 2, ... without a gap, and the batch delivered
  at a slot is the one decided for it, whatever the order in which slots, batch data
  and acknowledgements arrive and whenever batches are taken out.  Two replicas fed
  with the same decisions and data therefore deliver the same sequence, one possibly
  further than the other.
\<close>
theorem batch_log_agreement:
  assumes "run_ops bl_step BatchLog_new ops = Inr (l, outs)"
    and "\<forall>op\<in>set ops. bl_agrees_op S D op"
  shows "outs = map (\<lambda>p. (p, D (S p))) (consecutive 0 (length outs))"
proof -
  have "bl_agrees S D (BatchLog_new :: 'a BatchLog)"
    by (simp add: bl_agrees_def model_defs)
  then have "\<forall>x\<in>set outs. snd x = D (S (fst x))"
    using run_ops_history [where P = "\<lambda>_. bl_agrees S D" and Q = "\<lambda>_ x. snd x = D (S (fst x))"
        and ok = "\<lambda>h. \<forall>op\<in>set h. bl_agrees_op S D op" and h = "[]", OF assms(1)] assms(2) bl_step_agrees
    by force
  then have "outs = map (\<lambda>p. (p, D (S p))) (map fst outs)"
    by (auto intro: nth_equalityI simp: prod_eq_iff)
  also have "map fst outs = consecutive 0 (length outs)"
    using batch.run_gapless [OF assms(1)] by (simp add: bl_sane_def bl_cursor_def model_defs)
  finally show ?thesis .
qed

theorem batch_log_agreement_witness:
  "let b = \<lparr>b_id = 7, b_transactions = [''t''], b_events = []\<rparr>;
       ops = [BLAddBatch b, BLAck 7, BLAddSlot 0 0 7 1, BLNext] in
   \<exists>l. run_ops bl_step BatchLog_new ops = Inr (l, [(0, b)]) \<and>
     [(0, b)] = map (\<lambda>p. (p, b)) (consecutive (0 :: uint32) 1)"
proof -
  let ?b = "\<lparr>b_id = 7, b_transactions = [''t''], b_events = []\<rparr>"
  let ?ops = "[BLAddBatch ?b, BLAck 7, BLAddSlot 0 0 7 1, BLNext]"
  obtain l where r: "run_ops bl_step BatchLog_new ?ops = Inr (l, [(0, ?b)])"
    by (simp add: model_defs BatchLog_UpdateReadyBatches.simps)
  have "\<forall>op\<in>set ?ops. bl_agrees_op (\<lambda>_. 7) (\<lambda>_. ?b) op" by simp
  from batch_log_agreement [OF r this] have "[(0 :: uint32, ?b)] = map (\<lambda>p. (p, ?b)) (consecutive 0 1)" by simp
  with r show ?thesis unfolding Let_def by (intro exI [of _ l] conjI)
qed

text \<open>
  The replication protocol of a batch log: over a history \<open>h\<close> of operations,
  \<open>acks h i\<close> counts the acknowledgements of batch \<open>i\<close> and \<open>slot_ids h\<close> lists the batch
  ids that were given a slot.
\<close>

definition acks :: "'txn bl_op list \<Rightarrow> BatchId \<Rightarrow> int" where
  "acks h i = int (length (filter (\<lambda>op. op = BLAck i) h))"

fun slot_ids :: "'txn bl_op list \<Rightarrow> BatchId list" where
  "slot_ids [] = []"
| "slot_ids (BLAddSlot t s i rf # h) = i # slot_ids h"
| "slot_ids (op # h) = slot_ids h"

lemma slot_ids_append [simp]: "slot_ids (g @ h) = slot_ids g @ slot_ids h"
  by (induction g rule: slot_ids.induct) auto

lemma slot_ids_iff: "i \<in> set (slot_ids h) \<longleftrightarrow> (\<exists>t s rf. BLAddSlot t s i rf \<in> set h)"
  by (induction h rule: slot_ids.induct) auto

lemma acks_append [simp]: "acks (g @ h) i = acks g i + acks h i"
  by (simp add: acks_def)

lemma acks_single [simp]:
  "acks [BLAck j] i = (if i = j then 1 else 0)" "acks [BLAddBatch b] i = 0"
  "acks [BLAddSlot t s j rf] i = 0" "acks [BLNext] i = 0"
  by (auto simp: acks_def)

lemma acks_nonneg [simp]: "0 \<le> acks h i"
  by (simp add: acks_def)

definition bl_replicated :: "'txn bl_op list \<Rightarrow> 'txn BatchLog \<Rightarrow> bool" where
  "bl_replicated h l \<longleftrightarrow>
     (\<forall>i. i \<notin> set (slot_ids h) \<longrightarrow> replication_at l i = - acks h i) \<and>
     (\<forall>p i t. al_log (bl_slots l) p = Some (i, t) \<longrightarrow>
        (\<exists>rf. BLAddSlot t p i rf \<in> set h \<and> bl_replication l i = Some (rf - acks h i))) \<and>
     (\<forall>p i t. (p, i, t) \<in> set (bl_ready l) \<longrightarrow> (\<exists>rf. BLAddSlot t p i rf \<in> set h \<and> rf \<le> acks h i)) \<and>
     (\<forall>i b. bl_batches l i = Some b \<longrightarrow> b_id b = i \<and> BLAddBatch b \<in> set h)"

lemma bl_replicatedD:
  assumes "bl_replicated h l"
  shows "(p, i, t) \<in> set (bl_ready l) \<Longrightarrow> \<exists>rf. BLAddSlot t p i rf \<in> set h \<and> rf \<le> acks h i"
    and "bl_batches l i = Some b \<Longrightarrow> b_id b = i \<and> BLAddBatch b \<in> set h"
  using assms unfolding bl_replicated_def by simp_all

lemma distinct_slot_ids:
  assumes "distinct (slot_ids h)" "BLAddSlot t s i rf \<in> set h" "BLAddSlot t' s' i rf' \<in> set h"
  shows "t = t' \<and> s = s' \<and> rf = rf'"
  using assms by (induction h rule: slot_ids.induct) (auto simp: slot_ids_iff)

lemma bl_replicated_round:
  assumes "bl_replicated h l" and "distinct (slot_ids h)"
    and "al_log (bl_slots l) (al_next (bl_slots l)) = Some (i, t)" and "batch_ready l i"
  shows "bl_replicated h (bl_round l i t)"
proof -
  let ?n = "al_next (bl_slots l)"
  from assms(1,3) obtain rf where rf: "BLAddSlot t ?n i rf \<in> set h" "bl_replication l i = Some (rf - acks h i)"
    unfolding bl_replicated_def by blast
  with assms(4) have rf0: "rf = acks h i" by (simp add: batch_ready_def)
  have "j \<noteq> i" if "al_log (bl_slots l) p = Some (j, t')" "p \<noteq> ?n" for p j t'
    using assms(1) that rf(1) distinct_slot_ids [OF assms(2)] unfolding bl_replicated_def by blast
  moreover have "j \<noteq> i" if "j \<notin> set (slot_ids h)" for j
    using that rf(1) slot_ids_iff by blast
  ultimately show ?thesis
    using assms(1) rf rf0 unfolding bl_replicated_def bl_round_def replication_at_def
    by (auto simp: fun_upd_def)
qed

lemma UpdateReadyBatches_replicated:
  assumes "BatchLog_UpdateReadyBatches l = Inr l'" "bl_replicated h l" "distinct (slot_ids h)"
  shows "bl_replicated h l'"
  using UpdateReadyBatches_induct [of "bl_replicated h" l] assms bl_replicated_round by fastforce

lemma bl_replicated_upd:
  assumes "bl_replicated h l"
  shows "bl_replicated (h @ [BLAddBatch b]) (l\<lparr>bl_batches := (bl_batches l)(b_id b \<mapsto> b)\<rparr>)"
    and "bl_replicated (h @ [BLAck i])
      (l\<lparr>bl_replication := (bl_replication l)(i \<mapsto> replication_at l i - 1)\<rparr>)"
    and "AsyncLog_Insert s (i, t) (bl_slots l) = Inr a \<Longrightarrow> i \<notin> set (slot_ids h) \<Longrightarrow>
      bl_replicated (h @ [BLAddSlot t s i rf])
        (l\<lparr>bl_slots := a, bl_replication := (bl_replication l)(i \<mapsto> replication_at l i + rf)\<rparr>)"
proof -
  show "bl_replicated (h @ [BLAddBatch b]) (l\<lparr>bl_batches := (bl_batches l)(b_id b \<mapsto> b)\<rparr>)"
    using assms unfolding bl_replicated_def by (auto simp: replication_at_def)
  show "bl_replicated (h @ [BLAck i])
      (l\<lparr>bl_replication := (bl_replication l)(i \<mapsto> replication_at l i - 1)\<rparr>)"
    using assms unfolding bl_replicated_def by (fastforce simp: replication_at_def)
  assume a: "AsyncLog_Insert s (i, t) (bl_slots l) = Inr a" and i: "i \<notin> set (slot_ids h)"
  have "j \<noteq> i" if "al_log (bl_slots l) p = Some (j, t')" for p j t'
    using assms that i slot_ids_iff unfolding bl_replicated_def by blast
  then show "bl_replicated (h @ [BLAddSlot t s i rf])
        (l\<lparr>bl_slots := a, bl_replication := (bl_replication l)(i \<mapsto> replication_at l i + rf)\<rparr>)"
    using assms a i unfolding bl_replicated_def
    by (fastforce simp: replication_at_def AsyncLog_Insert_def split: if_splits)
qed

definition emitted_replicated :: "'txn bl_op list \<Rightarrow> SlotId \<times> 'txn Batch \<Rightarrow> bool" where
  "emitted_replicated h x \<longleftrightarrow> (\<exists>t rf. BLAddSlot t (fst x) (b_id (snd x)) rf \<in> set h \<and>
     rf \<le> acks h (b_id (snd x))) \<and> BLAddBatch (snd x) \<in> set h"

lemma emitted_replicated_mono: "emitted_replicated h x \<Longrightarrow> emitted_replicated (h @ h') x"
  unfolding emitted_replicated_def by (fastforce intro: add_increasing2)

lemma NextBatch_replicated:
  assumes "BatchLog_NextBatch l = Inr (x, l')" and "bl_replicated h l"
  shows "bl_replicated (h @ [BLNext]) l' \<and> emitted_replicated (h @ [BLNext]) x"
proof -
  obtain s b where x: "x = (s, b)" by (cases x)
  from assms(1)[unfolded x] show ?thesis
  proof (rule NextBatch_inv)
    fix i t ready
    assume *: "bl_ready l = (s, i, t) # ready" "bl_batches l i = Some b"
      "l' = l\<lparr>bl_ready := ready, bl_batches := (bl_batches l)(i := None)\<rparr>"
    have "bl_replicated (h @ [BLNext]) l'"
      using assms(2) *(1,3) unfolding bl_replicated_def by (simp add: replication_at_def)
    moreover have "emitted_replicated h x"
      unfolding emitted_replicated_def x
      using bl_replicatedD(1) [OF assms(2), of s i t] bl_replicatedD(2) [OF assms(2) *(2)] *(1) by auto
    ultimately show ?thesis using emitted_replicated_mono by blast
  qed
qed

lemma bl_step_replicated:
  assumes "bl_replicated h l" "distinct (slot_ids (h @ [op]))" "bl_step l op = Inr (l', outs)"
  shows "bl_replicated (h @ [op]) l' \<and> (\<forall>x\<in>set outs. emitted_replicated (h @ [op]) x)"
proof (cases op)
  case (BLAddBatch b)
  with assms(3) have "BatchLog_UpdateReadyBatches (l\<lparr>bl_batches := (bl_batches l)(b_id b \<mapsto> b)\<rparr>) = Inr l'"
    and "outs = []" by (auto simp: result_simps BatchLog_AddBatch_def)
  with UpdateReadyBatches_replicated [OF _ bl_replicated_upd(1) [OF assms(1)]] assms(2) BLAddBatch
  show ?thesis by simp
next
  case (BLAck i)
  with assms(3) have "BatchLog_UpdateReadyBatches
      (l\<lparr>bl_replication := (bl_replication l)(i \<mapsto> replication_at l i - 1)\<rparr>) = Inr l'"
    and "outs = []" by (auto simp: result_simps BatchLog_AckReplication_def)
  with UpdateReadyBatches_replicated [OF _ bl_replicated_upd(2) [OF assms(1)]] assms(2) BLAck
  show ?thesis by simp
next
  case (BLAddSlot t s i rf)
  with assms(3) obtain a where a: "AsyncLog_Insert s (i, t) (bl_slots l) = Inr a" "outs = []"
    "BatchLog_UpdateReadyBatches (l\<lparr>bl_slots := a,
       bl_replication := (bl_replication l)(i \<mapsto> replication_at l i + rf)\<rparr>) = Inr l'"
    by (auto simp: result_simps BatchLog_AddSlot_def)
  with UpdateReadyBatches_replicated [OF a(3) bl_replicated_upd(3) [OF assms(1) a(1)]] assms(2) BLAddSlot
  show ?thesis by simp
next
  case BLNext
  with assms(3) obtain x where "BatchLog_NextBatch l = Inr (x, l')" "outs = [x]"
    by (auto simp: result_simps)
  with NextBatch_replicated [OF _ assms(1)] BLNext show ?thesis by auto
qed

text \<open>
  C24: as long as no batch id is given two slots, a batch leaves a \<open>BatchLog\<close> only after
  its data has arrived, after a slot has been decided for it, and after at least as
  many regions have acknowledged it as the replication factor of that slot asks for.
\<close>
theorem batch_log_replication:
  assumes "run_ops bl_step BatchLog_new ops = Inr (l, outs)" and "distinct (slot_ids ops)"
    and "(slot, batch) \<in> set outs"
  shows "BLAddBatch batch \<in> set ops \<and>
    (\<exists>time rf. BLAddSlot time slot (b_id batch) rf \<in> set ops \<and> rf \<le> acks ops (b_id batch))"
proof -
  have "bl_replicated ([] @ ops) l \<and> (\<forall>x\<in>set outs. emitted_replicated ([] @ ops) x)"
  proof (rule run_ops_history [OF assms(1), where ok = "\<lambda>h. distinct (slot_ids h)"])
    show "bl_replicated [] (BatchLog_new :: 'a BatchLog)"
      by (simp add: bl_replicated_def model_defs acks_def)
  qed (simp_all add: assms(2) bl_step_replicated emitted_replicated_mono)
  with assms(3) have "emitted_replicated ops (slot, batch)" by simp
  then show ?thesis unfolding emitted_replicated_def by simp
qed

theorem batch_log_replication_witness:
  "let b = \<lparr>b_id = 7, b_transactions = [''t''], b_events = []\<rparr>;
       ops = [BLAddSlot 0 0 7 1, BLAddBatch b, BLAck 7, BLNext] in
   \<exists>l. run_ops bl_step BatchLog_new ops = Inr (l, [(0, b)]) \<and>
     (\<exists>time rf. BLAddSlot time 0 7 rf \<in> set ops \<and> rf \<le> acks ops 7)"
proof -
  let ?b = "\<lparr>b_id = 7, b_transactions = [''t''], b_events = []\<rparr>"
  let ?ops = "[BLAddSlot 0 0 7 1, BLAddBatch ?b, BLAck 7, BLNext]"
  obtain l where r: "run_ops bl_step BatchLog_new ?ops = Inr (l, [(0, ?b)])"
    by (simp add: model_defs BatchLog_UpdateReadyBatches.simps)
  have "(0, ?b) \<in> set [(0, ?b)]" "distinct (slot_ids ?ops)" by simp_all
  from batch_log_replication [OF r this(2,1)]
  have "\<exists>time rf. BLAddSlot time 0 7 rf \<in> set ?ops \<and> rf \<le> acks ?ops 7" by (simp only: Batch.simps)
  with r show ?thesis unfolding Let_def by (intro exI [of _ l] conjI)
qed

subsection \<open>\<^verbatim>\<open>LocalLog\<close> (\<^verbatim>\<open>module/log_manager.cpp\<close>)\<close>

record LocalLog =
  ll_slots :: "(uint32 \<times> MachineId) AsyncLog"
  ll_queues :: "uint32 \<rightharpoonup> BatchId AsyncLog"
  ll_ready :: "(SlotId \<times> BatchId \<times> MachineId) list"

definition LocalLog_new :: LocalLog where
  "LocalLog_new = \<lparr>ll_slots = AsyncLog_new 0, ll_queues = Map.empty, ll_ready = []\<rparr>"

function LocalLog_UpdateReadyBatches :: "LocalLog \<Rightarrow> LocalLog result" where
  "LocalLog_UpdateReadyBatches l =
     (if AsyncLog_HasNext (ll_slots l)
      then rbind (AsyncLog_Peek (ll_slots l)) (\<lambda>(next_queue_id, leader).
        (case ll_queues l next_queue_id of
           None \<Rightarrow> Inr l
         | Some next_queue \<Rightarrow>
             if \<not> AsyncLog_HasNext next_queue then Inr l
             else rbind (AsyncLog_Next (ll_slots l)) (\<lambda>(slot, slots).
               rbind (AsyncLog_Next next_queue) (\<lambda>(item, queue).
                 LocalLog_UpdateReadyBatches
                   (l\<lparr>ll_slots := slots, ll_queues := (ll_queues l)(next_queue_id \<mapsto> queue),
                      ll_ready := ll_ready l @ [(fst slot, snd item, leader)]\<rparr>)))))
      else Inr l)"
  by pat_completeness auto
termination
  by (relation "measure (\<lambda>l. card (dom (al_log (ll_slots l))))")
    (auto simp: model_defs card_dom_remove split: option.splits)

declare LocalLog_UpdateReadyBatches.simps [simp del]

definition LocalLog_AddBatchId :: "uint32 \<Rightarrow> uint32 \<Rightarrow> BatchId \<Rightarrow> LocalLog \<Rightarrow> LocalLog result" where
  "LocalLog_AddBatchId queue_id position batch_id l =
     rbind (AsyncLog_Insert position batch_id
         (case ll_queues l queue_id of None \<Rightarrow> AsyncLog_new 0 | Some q \<Rightarrow> q)) (\<lambda>q.
       LocalLog_UpdateReadyBatches (l\<lparr>ll_queues := (ll_queues l)(queue_id \<mapsto> q)\<rparr>))"

definition LocalLog_AddSlot :: "SlotId \<Rightarrow> uint32 \<Rightarrow> MachineId \<Rightarrow> LocalLog \<Rightarrow> LocalLog result" where
  "LocalLog_AddSlot slot_id queue_id leader l =
     rbind (AsyncLog_Insert slot_id (queue_id, leader) (ll_slots l)) (\<lambda>slots.
       LocalLog_UpdateReadyBatches (l\<lparr>ll_slots := slots\<rparr>))"

definition LocalLog_HasNextBatch :: "LocalLog \<Rightarrow> bool" where
  "LocalLog_HasNextBatch l \<longleftrightarrow> ll_ready l \<noteq> []"

definition LocalLog_NextBatch :: "LocalLog \<Rightarrow> ((SlotId \<times> BatchId \<times> MachineId) \<times> LocalLog) result" where
  "LocalLog_NextBatch l =
     (case ll_ready l of
        [] \<Rightarrow> Inl (RuntimeError ''NextBatch() was called when there is no batch'')
      | x # xs \<Rightarrow> Inr (x, l\<lparr>ll_ready := xs\<rparr>))"

lemmas local_log_defs [model_defs] = LocalLog_new_def LocalLog_AddBatchId_def LocalLog_AddSlot_def
  LocalLog_HasNextBatch_def LocalLog_NextBatch_def

datatype ll_op = LLAddBatchId uint32 uint32 BatchId | LLAddSlot SlotId uint32 MachineId | LLNext

fun ll_step :: "LocalLog \<Rightarrow> ll_op \<Rightarrow> (LocalLog \<times> (SlotId \<times> BatchId \<times> MachineId) list) result" where
  "ll_step l (LLAddBatchId q p b) = rbind (LocalLog_AddBatchId q p b l) (\<lambda>l'. Inr (l', []))"
| "ll_step l (LLAddSlot s q ld) = rbind (LocalLog_AddSlot s q ld l) (\<lambda>l'. Inr (l', []))"
| "ll_step l LLNext = rbind (LocalLog_NextBatch l) (\<lambda>(out, l'). Inr (l', [out]))"

text \<open>
  The specification: \<open>S\<close> is the queue and leader decided for a slot, \<open>B q k\<close> the \<open>k\<close>-th
  batch of queue \<open>q\<close>.  The \<open>n\<close>-th entry to leave takes from its queue the batch whose
  index is the number of earlier slots given to that queue.
\<close>

definition turn :: "(SlotId \<Rightarrow> uint32 \<times> MachineId) \<Rightarrow> uint32 \<Rightarrow> nat \<Rightarrow> nat" where
  "turn S q n = length (filter (\<lambda>j. fst (S (of_nat j)) = q) [0..<n])"

definition ll_spec :: "(SlotId \<Rightarrow> uint32 \<times> MachineId) \<Rightarrow> (uint32 \<Rightarrow> uint32 \<Rightarrow> BatchId) \<Rightarrow>
    nat \<Rightarrow> SlotId \<times> BatchId \<times> MachineId" where
  "ll_spec S B n = (let p = of_nat n; (q, leader) = S p in (p, B q (of_nat (turn S q n)), leader))"

fun ll_agrees_op :: "(SlotId \<Rightarrow> uint32 \<times> MachineId) \<Rightarrow> (uint32 \<Rightarrow> uint32 \<Rightarrow> BatchId) \<Rightarrow> ll_op \<Rightarrow> bool" where
  "ll_agrees_op S B (LLAddSlot s q leader) \<longleftrightarrow> S s = (q, leader)"
| "ll_agrees_op S B (LLAddBatchId q p b) \<longleftrightarrow> B q p = b"
| "ll_agrees_op S B LLNext \<longleftrightarrow> True"

text \<open>\<open>m\<close> entries have left the log, \<open>n\<close> have been chosen; the ready queue holds the rest.\<close>

definition ll_agrees :: "(SlotId \<Rightarrow> uint32 \<times> MachineId) \<Rightarrow> (uint32 \<Rightarrow> uint32 \<Rightarrow> BatchId) \<Rightarrow>
    nat \<Rightarrow> nat \<Rightarrow> LocalLog \<Rightarrow> bool" where
  "ll_agrees S B m n l \<longleftrightarrow> m \<le> n \<and> ll_ready l = map (ll_spec S B) [m..<n] \<and>
     al_next (ll_slots l) = of_nat n \<and>
     (\<forall>p x. al_log (ll_slots l) p = Some x \<longrightarrow> S p = x) \<and>
     (\<forall>q. ll_queues l q = None \<longrightarrow> turn S q n = 0) \<and>
     (\<forall>q a. ll_queues l q = Some a \<longrightarrow> al_next a = of_nat (turn S q n) \<and>
        (\<forall>p b. al_log a p = Some b \<longrightarrow> B q p = b))"

lemma turn_Suc: "turn S q (Suc n) = turn S q n + (if fst (S (of_nat n)) = q then 1 else 0)"
  by (simp add: turn_def)

text \<open>One round of the loop moves the next batch of the chosen queue to the ready list.\<close>

definition ll_round :: "LocalLog \<Rightarrow> uint32 \<Rightarrow> MachineId \<Rightarrow> BatchId AsyncLog \<Rightarrow> BatchId \<Rightarrow> LocalLog" where
  "ll_round l q leader a b = l\<lparr>ll_slots := (ll_slots l)
       \<lparr>al_log := (al_log (ll_slots l))(al_next (ll_slots l) := None), al_next := al_next (ll_slots l) + 1\<rparr>,
     ll_queues := (ll_queues l)(q \<mapsto> a\<lparr>al_log := (al_log a)(al_next a := None), al_next := al_next a + 1\<rparr>),
     ll_ready := ll_ready l @ [(al_next (ll_slots l), b, leader)]\<rparr>"

definition ll_can_advance :: "LocalLog \<Rightarrow> uint32 \<Rightarrow> MachineId \<Rightarrow> BatchId AsyncLog \<Rightarrow> BatchId \<Rightarrow> bool" where
  "ll_can_advance l q leader a b \<longleftrightarrow> al_log (ll_slots l) (al_next (ll_slots l)) = Some (q, leader) \<and>
     ll_queues l q = Some a \<and> al_log a (al_next a) = Some b"

lemma LocalLog_Update_advance:
  "ll_can_advance l q leader a b \<Longrightarrow>
     LocalLog_UpdateReadyBatches l = LocalLog_UpdateReadyBatches (ll_round l q leader a b)"
  by (subst LocalLog_UpdateReadyBatches.simps)
    (simp add: ll_can_advance_def ll_round_def AsyncLog_HasNext_def AsyncLog_Peek_def AsyncLog_Next_def)

lemma LocalLog_Update_stop:
  "\<nexists>q leader a b. ll_can_advance l q leader a b \<Longrightarrow> LocalLog_UpdateReadyBatches l = Inr l"
  by (subst LocalLog_UpdateReadyBatches.simps)
    (auto simp: ll_can_advance_def AsyncLog_HasNext_def AsyncLog_Peek_def split: option.splits)

lemma LocalLog_Update_induct:
  assumes "P l" and "\<And>l q leader a b. P l \<Longrightarrow> ll_can_advance l q leader a b \<Longrightarrow> P (ll_round l q leader a b)"
  shows "\<exists>l'. LocalLog_UpdateReadyBatches l = Inr l' \<and> P l' \<and> (\<nexists>q leader a b. ll_can_advance l' q leader a b)"
  using assms(1)
proof (induction "card (dom (al_log (ll_slots l)))" arbitrary: l rule: less_induct)
  case less
  show ?case
  proof (cases "\<exists>q leader a b. ll_can_advance l q leader a b")
    case True
    then obtain q leader a b where adv: "ll_can_advance l q leader a b" by blast
    then have "card (dom (al_log (ll_slots (ll_round l q leader a b)))) < card (dom (al_log (ll_slots l)))"
      by (simp add: ll_round_def ll_can_advance_def card_dom_remove)
    from less.hyps [OF this assms(2) [OF less.prems adv]] show ?thesis
      by (simp add: LocalLog_Update_advance [OF adv])
  next
    case False
    with less.prems LocalLog_Update_stop [OF False] show ?thesis by blast
  qed
qed

lemma ll_round_agrees:
  assumes "ll_agrees S B m n l" and "ll_can_advance l q leader a b"
  shows "ll_agrees S B m (Suc n) (ll_round l q leader a b)"
proof -
  have S: "S (of_nat n) = (q, leader)" and a: "al_next a = of_nat (turn S q n)"
    and "B q (al_next a) = b"
    using assms unfolding ll_agrees_def ll_can_advance_def by simp_all
  then have b: "B q (of_nat (turn S q n)) = b" by simp
  from S a b have "ll_spec S B n = (of_nat n, b, leader)" by (simp add: ll_spec_def)
  with S a assms show ?thesis
    by (auto simp: ll_agrees_def ll_round_def ll_can_advance_def turn_Suc)
qed

lemma LocalLog_Update_agrees:
  assumes "LocalLog_UpdateReadyBatches l = Inr l'" and "ll_agrees S B m n l"
  shows "\<exists>n'. ll_agrees S B m n' l'"
  using LocalLog_Update_induct [of "\<lambda>l. \<exists>n. ll_agrees S B m n l" l] assms ll_round_agrees by fastforce

lemma ll_agrees_upd:
  assumes "ll_agrees S B m n l"
  shows "AsyncLog_Insert s (S s) (ll_slots l) = Inr a \<Longrightarrow> ll_agrees S B m n (l\<lparr>ll_slots := a\<rparr>)"
    and "AsyncLog_Insert p (B q p) (case ll_queues l q of None \<Rightarrow> AsyncLog_new 0 | Some c \<Rightarrow> c) = Inr d \<Longrightarrow>
      ll_agrees S B m n (l\<lparr>ll_queues := (ll_queues l)(q \<mapsto> d)\<rparr>)"
proof -
  assume "AsyncLog_Insert s (S s) (ll_slots l) = Inr a"
  with assms show "ll_agrees S B m n (l\<lparr>ll_slots := a\<rparr>)"
    by (auto simp: ll_agrees_def AsyncLog_Insert_def split: if_splits)
next
  assume "AsyncLog_Insert p (B q p) (case ll_queues l q of None \<Rightarrow> AsyncLog_new 0 | Some c \<Rightarrow> c) = Inr d"
  with assms show "ll_agrees S B m n (l\<lparr>ll_queues := (ll_queues l)(q \<mapsto> d)\<rparr>)"
    by (cases "ll_queues l q")
      (auto simp: ll_agrees_def AsyncLog_Insert_def AsyncLog_new_def split: if_splits)
qed

lemma LocalLog_NextBatch_agrees:
  assumes "LocalLog_NextBatch l = Inr (x, l')" and "ll_agrees S B m n l"
  shows "x = ll_spec S B m \<and> ll_agrees S B (Suc m) n l'"
proof -
  from assms have "m < n" by (cases "m < n") (auto simp: LocalLog_NextBatch_def ll_agrees_def)
  with assms show ?thesis
    by (auto simp: LocalLog_NextBatch_def ll_agrees_def upt_conv_Cons)
qed

lemma ll_step_agrees:
  assumes "ll_agrees S B m n l" and "ll_agrees_op S B op" and "ll_step l op = Inr (l', outs)"
  shows "outs = map (ll_spec S B) [m..<m + length outs] \<and> (\<exists>n'. ll_agrees S B (m + length outs) n' l')"
proof (cases op)
  case (LLAddBatchId q p b)
  with assms(2,3) obtain d where
    "AsyncLog_Insert p (B q p) (case ll_queues l q of None \<Rightarrow> AsyncLog_new 0 | Some c \<Rightarrow> c) = Inr d"
    "LocalLog_UpdateReadyBatches (l\<lparr>ll_queues := (ll_queues l)(q \<mapsto> d)\<rparr>) = Inr l'" "outs = []"
    by (auto simp: result_simps LocalLog_AddBatchId_def)
  with LocalLog_Update_agrees [OF _ ll_agrees_upd(2) [OF assms(1)]] show ?thesis by simp
next
  case (LLAddSlot s q ld)
  with assms(2,3) obtain a where "AsyncLog_Insert s (S s) (ll_slots l) = Inr a"
    "LocalLog_UpdateReadyBatches (l\<lparr>ll_slots := a\<rparr>) = Inr l'" "outs = []"
    by (auto simp: result_simps LocalLog_AddSlot_def)
  with LocalLog_Update_agrees [OF _ ll_agrees_upd(1) [OF assms(1)]] show ?thesis by simp
next
  case LLNext
  with assms(3) obtain x where "LocalLog_NextBatch l = Inr (x, l')" "outs = [x]"
    by (auto simp: result_simps)
  with LocalLog_NextBatch_agrees [OF _ assms(1)] show ?thesis by auto
qed

lemma ll_run_agrees:
  assumes "run_ops ll_step l ops = Inr (l', outs)" and "ll_agrees S B m n l"
    and "\<forall>op\<in>set ops. ll_agrees_op S B op"
  shows "outs = map (ll_spec S B) [m..<m + length outs]"
  using assms
proof (induction ops arbitrary: l outs m n)
  case Nil
  then show ?case by simp
next
  case (Cons op ops)
  from Cons.prems(1) obtain l1 o1 o2 where
    step: "ll_step l op = Inr (l1, o1)" and rest: "run_ops ll_step l1 ops = Inr (l', o2)"
    and outs: "outs = o1 @ o2" by (rule run_ops_ConsE)
  from ll_step_agrees [OF Cons.prems(2) _ step] Cons.prems(3) obtain n' where
    o1: "o1 = map (ll_spec S B) [m..<m + length o1]" and "ll_agrees S B (m + length o1) n' l1"
    by auto
  with Cons.IH [OF rest] Cons.prems(3)
  have "o2 = map (ll_spec S B) [m + length o1..<m + length o1 + length o2]" by simp
  with o1 have "o1 @ o2 = map (ll_spec S B) ([m..<m + length o1] @ [m + length o1..<m + length o1 + length o2])"
    by simp
  also have "[m..<m + length o1] @ [m + length o1..<m + length o1 + length o2] = [m..<m + length outs]"
    using upt_add_eq_append [of m "m + length o1" "length o2"] outs by (simp add: add.assoc)
  finally show ?case using outs by simp
qed

text \<open>
  C5: the local log is a function of the decided slots and of the batches of each
  generator only: the \<open>n\<close>-th entry it delivers is slot \<open>n\<close> with the batch that follows, in
  its generator's queue, the batches taken by the earlier slots, independent of the
  order in which slots and batch ids arrive.  Replicas with the same decisions
  deliver the same sequence, one possibly further than the other.
\<close>
theorem local_log_agreement:
  assumes "run_ops ll_step LocalLog_new ops = Inr (l, outs)"
    and "\<forall>op\<in>set ops. ll_agrees_op S B op"
  shows "outs = map (ll_spec S B) [0..<length outs]"
proof -
  have "ll_agrees S B 0 0 LocalLog_new"
    by (simp add: ll_agrees_def LocalLog_new_def AsyncLog_new_def turn_def)
  from ll_run_agrees [OF assms(1) this assms(2)] show ?thesis by simp
qed

theorem local_log_agreement_witness:
  "let ops = [LLAddSlot 1 5 9, LLAddBatchId 5 1 21, LLAddSlot 0 5 8, LLAddBatchId 5 0 20, LLNext, LLNext] in
   \<exists>l. run_ops ll_step LocalLog_new ops = Inr (l, [(0, 20, 8), (1, 21, 9)]) \<and>
     [(0, 20, 8), (1, 21, 9)] =
       map (ll_spec (\<lambda>s. (5, if s = 0 then 8 else 9)) (\<lambda>q p. if p = 0 then 20 else 21)) [0..<2]"
proof -
  let ?ops = "[LLAddSlot 1 5 9, LLAddBatchId 5 1 21, LLAddSlot 0 5 8, LLAddBatchId 5 0 20, LLNext, LLNext]"
  let ?S = "\<lambda>s :: uint32. (5 :: uint32, if s = 0 then 8 else 9 :: MachineId)"
  let ?B = "\<lambda>(q :: uint32) (p :: uint32). if p = 0 then 20 else 21 :: BatchId"
  obtain l where r: "run_ops ll_step LocalLog_new ?ops = Inr (l, [(0, 20, 8), (1, 21, 9)])"
    by (simp add: model_defs LocalLog_UpdateReadyBatches.simps)
  have "\<forall>op\<in>set ?ops. ll_agrees_op ?S ?B op" by simp
  from local_log_agreement [OF r this]
  have "[(0, 20, 8), (1, 21, 9)] = map (ll_spec ?S ?B) [0..<2]" by (simp add: numeral_2_eq_2)
  with r show ?thesis unfolding Let_def by (intro exI [of _ l] conjI)
qed

end
