(* ===== verification/Txn.thy ===== *)
theory Txn
  imports Logs
begin

section \<open>Transactions (\<^verbatim>\<open>proto/transaction.proto\<close>, \<^verbatim>\<open>common/proto_utils.cpp\<close>)\<close>

text \<open>
  The transaction message as records, and the functions of \<^verbatim>\<open>proto_utils.cpp\<close> that
  classify, split and merge transactions.  The compile-time switch
  \<^verbatim>\<open>REMASTER_PROTOCOL_COUNTERLESS\<close> is the argument \<open>counterless\<close>; the sharder, an abstract
  class in the code, is the argument \<open>compute_partition\<close>, which may throw.
\<close>

subsection \<open>Messages\<close>

datatype TransactionType = UNKNOWN | SINGLE_HOME | MULTI_HOME_OR_LOCK_ONLY
datatype TransactionStatus = NOT_STARTED | COMMITTED | ABORTED
datatype AbortCode = OTHER | RATE_LIMITED | RESTARTED
text \<open>
  The enumerations are closed: a message with an unknown enumerator, for which the source logs a
  fatal error, is not represented.
\<close>

datatype KeyType = KeyRead | KeyWrite

type_synonym TransactionEventInfo = "nat \<times> int \<times> int \<times> int"

record ValueEntry =
  ve_value :: Value
  ve_new_value :: Value
  ve_type :: KeyType
  ve_metadata :: "Metadata option"

text \<open>Reading an unset \<^verbatim>\<open>metadata\<close> field yields the default message.\<close>

definition metadata :: "ValueEntry \<Rightarrow> Metadata" where
  "metadata v = (case ve_metadata v of None \<Rightarrow> mk_Metadata 0 0 | Some m \<Rightarrow> m)"

record KeyValueEntry =
  kv_key :: Key
  kv_entry :: ValueEntry

definition kv_master :: "KeyValueEntry \<Rightarrow> uint32" where
  "kv_master kv = md_master (metadata (kv_entry kv))"

record TransactionInternal =
  ti_id :: TxnId
  ti_type :: TransactionType
  ti_home :: int
  ti_coordinating_server :: MachineId
  ti_timestamp :: int
  ti_involved_partitions :: "uint32 list"
  ti_active_partitions :: "uint32 list"
  ti_involved_regions :: "uint32 list"
  ti_events :: "TransactionEventInfo list"
  ti_mh_depart :: int
  ti_mh_arrive :: int
  ti_mh_enter_batch :: int
  ti_global_log_positions :: "int list"

datatype Program = NoProgram | Code "string list list" | RemasterProgram uint32 bool

record Transaction =
  tx_internal :: TransactionInternal
  tx_program :: Program
  tx_keys :: "KeyValueEntry list"
  tx_deleted_keys :: "Key list"
  tx_status :: TransactionStatus
  tx_abort_code :: AbortCode
  tx_abort_reason :: string

definition default_internal :: TransactionInternal where
  "default_internal = \<lparr>ti_id = 0, ti_type = UNKNOWN, ti_home = 0, ti_coordinating_server = 0,
     ti_timestamp = 0, ti_involved_partitions = [], ti_active_partitions = [], ti_involved_regions = [],
     ti_events = [], ti_mh_depart = 0, ti_mh_arrive = 0, ti_mh_enter_batch = 0, ti_global_log_positions = []\<rparr>"

definition default_txn :: Transaction where
  "default_txn = \<lparr>tx_internal = default_internal, tx_program = NoProgram, tx_keys = [],
     tx_deleted_keys = [], tx_status = NOT_STARTED, tx_abort_code = OTHER, tx_abort_reason = []\<rparr>"

definition is_remaster :: "Transaction \<Rightarrow> bool" where
  "is_remaster txn = (case tx_program txn of RemasterProgram _ _ \<Rightarrow> True | _ \<Rightarrow> False)"

definition tx_id :: "Transaction \<Rightarrow> TxnId" where
  "tx_id txn = ti_id (tx_internal txn)"

definition upd_internal :: "(TransactionInternal \<Rightarrow> TransactionInternal) \<Rightarrow> Transaction \<Rightarrow> Transaction" where
  "upd_internal f txn = txn\<lparr>tx_internal := f (tx_internal txn)\<rparr>"

lemma upd_internal_sel [simp]:
  "tx_keys (upd_internal f txn) = tx_keys txn" "tx_internal (upd_internal f txn) = f (tx_internal txn)"
  "tx_program (upd_internal f txn) = tx_program txn" "tx_status (upd_internal f txn) = tx_status txn"
  by (simp_all add: upd_internal_def)

subsection \<open>Homes and regions\<close>

definition SetTransactionType :: "bool \<Rightarrow> Transaction \<Rightarrow> Transaction" where
  "SetTransactionType counterless txn =
     (if tx_keys txn = [] \<or> (\<exists>kv\<in>set (tx_keys txn). ve_metadata (kv_entry kv) = None)
      then upd_internal (\<lambda>i. i\<lparr>ti_type := UNKNOWN\<rparr>) txn
      else let home = kv_master (hd (tx_keys txn));
        is_single_home = (\<forall>kv\<in>set (tx_keys txn). kv_master kv = home) \<and> \<not> (counterless \<and> is_remaster txn) in
        if is_single_home
        then upd_internal (\<lambda>i. i\<lparr>ti_type := SINGLE_HOME, ti_home := sint home\<rparr>) txn
        else upd_internal (\<lambda>i. i\<lparr>ti_type := MULTI_HOME_OR_LOCK_ONLY, ti_home := - 1\<rparr>) txn)"

definition GenerateLockOnlyTxn :: "bool \<Rightarrow> Transaction \<Rightarrow> uint32 \<Rightarrow> Transaction" where
  "GenerateLockOnlyTxn counterless txn lo_master =
     (let lock_only_txn = upd_internal (\<lambda>i. i\<lparr>ti_home := sint lo_master\<rparr>) txn in
      case tx_program txn of
        RemasterProgram new_master b \<Rightarrow>
          if counterless \<and> new_master = lo_master
          then lock_only_txn\<lparr>tx_program := RemasterProgram new_master True\<rparr> else lock_only_txn
      | _ \<Rightarrow> lock_only_txn)"

definition PopulateInvolvedRegions :: "bool \<Rightarrow> Transaction \<Rightarrow> Transaction result" where
  "PopulateInvolvedRegions counterless txn =
     (case ti_type (tx_internal txn) of
        UNKNOWN \<Rightarrow> Inr txn
      | SINGLE_HOME \<Rightarrow>
          (case tx_keys txn of
             [] \<Rightarrow> Inl (Undefined ''txn.keys().begin()'')
           | kv # _ \<Rightarrow>
               if ve_metadata (kv_entry kv) = None then Inl (CheckFailed ''has_metadata'')
               else Inr (upd_internal (\<lambda>i. i\<lparr>ti_involved_regions := [kv_master kv]\<rparr>) txn))
      | MULTI_HOME_OR_LOCK_ONLY \<Rightarrow>
          if \<exists>kv\<in>set (tx_keys txn). ve_metadata (kv_entry kv) = None then Inl (CheckFailed ''has_metadata'')
          else let involved_regions = map kv_master (tx_keys txn) @
              (case tx_program txn of RemasterProgram m _ \<Rightarrow> if counterless then [m] else [] | _ \<Rightarrow> []) in
            Inr (upd_internal
              (\<lambda>i. i\<lparr>ti_involved_regions := ti_involved_regions i @ sort_unique involved_regions\<rparr>) txn))"

record KeyMetadata =
  km_key :: Key
  km_type :: KeyType
  km_metadata :: "Metadata option"

definition MakeTransaction :: "bool \<Rightarrow> KeyMetadata list \<Rightarrow> string list list \<Rightarrow> uint32 option \<Rightarrow>
    MachineId \<Rightarrow> Transaction result" where
  "MakeTransaction counterless key_metadatas code remaster coordinating_server =
     (let keys = map (\<lambda>km. \<lparr>kv_key = km_key km, kv_entry = \<lparr>ve_value = [], ve_new_value = [],
          ve_type = km_type km, ve_metadata = km_metadata km\<rparr>\<rparr>) key_metadatas;
        program = (case remaster of Some m \<Rightarrow> RemasterProgram m False
          | None \<Rightarrow> if code = [] then NoProgram else Code code);
        txn = default_txn\<lparr>tx_keys := keys, tx_program := program, tx_status := NOT_STARTED,
          tx_internal := default_internal\<lparr>ti_id := 1000, ti_coordinating_server := coordinating_server\<rparr>\<rparr> in
      PopulateInvolvedRegions counterless (SetTransactionType counterless txn))"

subsection \<open>Partitions\<close>

text \<open>
  The flag of a master in \<^verbatim>\<open>GeneratePartitionedTxn\<close>.  The vector grows to
  \<^verbatim>\<open>master + 1\<close> flags, computed in 32 bits: for the largest master this wraps to 0, the
  vector is emptied and the access that follows is out of range.
\<close>

definition raise_region :: "uint32 \<Rightarrow> bool list \<Rightarrow> bool list result" where
  "raise_region master involved_regions =
     (let v = (if length involved_regions \<le> unat master
        then vector_resize (unat (master + 1)) involved_regions else involved_regions) in
      if unat master < length v then Inr (v[unat master := True])
      else Inl (Undefined ''involved_regions[master]''))"

text \<open>
  The loop of \<^verbatim>\<open>GeneratePartitionedTxn\<close>: it keeps the keys of the partition, raises the
  flag of their masters and clears \<open>is_redundant\<close> when a key is mastered at the home.
\<close>

fun partition_loop :: "(Key \<Rightarrow> uint32 result) \<Rightarrow> uint32 \<Rightarrow> int \<Rightarrow> KeyValueEntry list \<Rightarrow> bool list \<Rightarrow>
    bool \<Rightarrow> (KeyValueEntry list \<times> bool list \<times> bool) result" where
  "partition_loop compute_partition part home [] regions is_redundant = Inr ([], regions, is_redundant)"
| "partition_loop compute_partition part home (kv # kvs) regions is_redundant =
     rbind (compute_partition (kv_key kv)) (\<lambda>q.
       if q \<noteq> part then partition_loop compute_partition part home kvs regions is_redundant
       else rbind (raise_region (kv_master kv) regions) (\<lambda>regions'.
         rbind (partition_loop compute_partition part home kvs regions'
             (is_redundant \<and> sint (kv_master kv) \<noteq> home))
           (\<lambda>(keys, r, b). Inr (kv # keys, r, b))))"

definition GeneratePartitionedTxn ::
    "(Key \<Rightarrow> uint32 result) \<Rightarrow> Transaction \<Rightarrow> uint32 \<Rightarrow> Transaction option result" where
  "GeneratePartitionedTxn compute_partition txn part =
     rbind (partition_loop compute_partition part (ti_home (tx_internal txn)) (tx_keys txn)
         (replicate 8 False) (\<not> is_remaster txn)) (\<lambda>(keys, regions, is_redundant).
       if keys = [] \<or> is_redundant then Inr None
       else let new_txn = txn\<lparr>tx_keys := keys\<rparr> in
         Inr (Some (if ti_type (tx_internal txn) = MULTI_HOME_OR_LOCK_ONLY
           then upd_internal (\<lambda>i. i\<lparr>ti_involved_regions := map of_nat (raised regions)\<rparr>) new_txn
           else new_txn)))"

text \<open>Indexing a \<^verbatim>\<open>vector<bool>\<close> past its end is undefined.\<close>

fun involved_loop :: "(Key \<Rightarrow> uint32 result) \<Rightarrow> KeyValueEntry list \<Rightarrow> bool list \<Rightarrow> bool list \<Rightarrow>
    (bool list \<times> bool list) result" where
  "involved_loop compute_partition [] involved active = Inr (involved, active)"
| "involved_loop compute_partition (kv # kvs) involved active =
     rbind (compute_partition (kv_key kv)) (\<lambda>q.
       if length involved \<le> unat q then Inl (Undefined ''involved_partitions[partition]'')
       else involved_loop compute_partition kvs (involved[unat q := True])
         (if ve_type (kv_entry kv) = KeyWrite then active[unat q := True] else active))"

definition PopulateInvolvedPartitions ::
    "(Key \<Rightarrow> uint32 result) \<Rightarrow> uint32 \<Rightarrow> Transaction \<Rightarrow> Transaction result" where
  "PopulateInvolvedPartitions compute_partition num_partitions txn =
     rbind (involved_loop compute_partition (tx_keys txn) (replicate (unat num_partitions) False)
         (replicate (unat num_partitions) False)) (\<lambda>(involved, active).
       Inr (upd_internal (\<lambda>i. i\<lparr>ti_involved_partitions := ti_involved_partitions i @ map of_nat (raised involved),
          ti_active_partitions := ti_active_partitions i @ map of_nat (raised active)\<rparr>) txn))"

subsection \<open>Merging, comparing and unbatching\<close>

definition MergeTransaction :: "Transaction \<Rightarrow> Transaction \<Rightarrow> Transaction result" where
  "MergeTransaction txn other =
     (if tx_id txn \<noteq> tx_id other then Inl (RuntimeError ''Cannot merge transactions with different IDs'')
      else if ti_type (tx_internal txn) \<noteq> ti_type (tx_internal other)
      then Inl (RuntimeError ''Cannot merge transactions with different types'')
      else let merged =
          (if tx_status other = ABORTED
           then txn\<lparr>tx_status := ABORTED, tx_abort_reason := tx_abort_reason other\<rparr>
           else if tx_status txn \<noteq> ABORTED
           then let existing_keys = kv_key ` set (tx_keys txn) in
             txn\<lparr>tx_keys := tx_keys txn @ filter (\<lambda>kv. kv_key kv \<notin> existing_keys) (tx_keys other)\<rparr>
           else txn) in
        Inr (upd_internal (\<lambda>i. i
          \<lparr>ti_events := ti_events i @ ti_events (tx_internal other),
           ti_global_log_positions :=
             ti_global_log_positions i @ [- 1] @ ti_global_log_positions (tx_internal other),
           ti_involved_regions :=
             sort_unique (ti_involved_regions i @ ti_involved_regions (tx_internal other))\<rparr>) merged))"

definition ValueEntry_eq :: "ValueEntry \<Rightarrow> ValueEntry \<Rightarrow> bool" where
  "ValueEntry_eq a b \<longleftrightarrow> ve_value a = ve_value b \<and> ve_new_value a = ve_new_value b \<and>
     ve_type a = ve_type b \<and> metadata a = metadata b"

fun program_case :: "Program \<Rightarrow> nat" where
  "program_case NoProgram = 0"
| "program_case (Code _) = 2"
| "program_case (RemasterProgram _ _) = 3"

definition Transaction_eq :: "Transaction \<Rightarrow> Transaction \<Rightarrow> bool" where
  "Transaction_eq a b \<longleftrightarrow> tx_status a = tx_status b \<and> length (tx_keys a) = length (tx_keys b) \<and>
     program_case (tx_program a) = program_case (tx_program b) \<and> tx_abort_reason a = tx_abort_reason b \<and>
     tx_id a = tx_id b \<and> ti_type (tx_internal a) = ti_type (tx_internal b) \<and>
     list_all2 (\<lambda>x y. kv_key x = kv_key y \<and> ValueEntry_eq (kv_entry x) (kv_entry y)) (tx_keys a) (tx_keys b)"

text \<open>
  \<^verbatim>\<open>Unbatch\<close> releases the transactions from the last to the first and stores each at its
  own index.
\<close>

fun unbatch_loop :: "TransactionEventInfo list \<Rightarrow> Transaction list \<Rightarrow> Transaction list \<Rightarrow> Transaction list" where
  "unbatch_loop events [] buffer = buffer"
| "unbatch_loop events (txn # released) buffer =
     unbatch_loop events released (upd_internal (\<lambda>i. i\<lparr>ti_events := ti_events i @ events\<rparr>) txn # buffer)"

definition Unbatch :: "Transaction Batch \<Rightarrow> Transaction list" where
  "Unbatch batch = unbatch_loop (b_events batch) (rev (b_transactions batch)) []"

lemma unbatch_loop_eq:
  "unbatch_loop ev ts buf = map (upd_internal (\<lambda>i. i\<lparr>ti_events := ti_events i @ ev\<rparr>)) (rev ts) @ buf"
  by (induction ts arbitrary: buf) simp_all

lemma Unbatch_eq:
  "Unbatch b = map (upd_internal (\<lambda>i. i\<lparr>ti_events := ti_events i @ b_events b\<rparr>)) (b_transactions b)"
  by (simp add: Unbatch_def unbatch_loop_eq)

subsection \<open>Splitting and merging are inverse\<close>

lemma raise_region_eq:
  "raise_region m v =
     (if m + 1 = 0 \<and> length v \<le> unat m then Inl (Undefined ''involved_regions[master]'')
      else Inr (raise_flag (unat m) v))"
proof (cases "m + 1 = 0")
  case True
  then have "unat (m + 1) = 0" by simp
  then show ?thesis using True by (simp add: raise_region_def vector_resize_def raise_flag_def)
next
  case False
  then have "unat (m + 1) = unat m + 1" using unatSuc [of m] by (simp add: add.commute)
  then show ?thesis using False by (simp add: raise_region_def vector_resize_def raise_flag_def)
qed

lemma partition_loop_Inr:
  assumes "partition_loop cp part home kvs regs red = Inr (keys, regs', red')"
  shows "keys = filter (\<lambda>kv. cp (kv_key kv) = Inr part) kvs \<and>
    set (raised regs') = set (raised regs) \<union> (\<lambda>kv. unat (kv_master kv)) ` set keys \<and>
    (red' \<longleftrightarrow> red \<and> (\<forall>kv\<in>set keys. sint (kv_master kv) \<noteq> home))"
  using assms
proof (induction kvs arbitrary: regs red keys)
  case Nil
  then show ?case by simp
next
  case (Cons kv kvs)
  then obtain q where q: "cp (kv_key kv) = Inr q" by (auto simp: rbind_eq_Inr)
  show ?case
  proof (cases "q = part")
    case True
    with Cons.prems q obtain ks where "keys = kv # ks"
      "partition_loop cp part home kvs (raise_flag (unat (kv_master kv)) regs)
         (red \<and> sint (kv_master kv) \<noteq> home) = Inr (ks, regs', red')"
      by (auto simp: rbind_eq_Inr raise_region_eq split: if_splits)
    with Cons.IH [OF this(2)] q True show ?thesis by (auto simp: raised_raise_flag)
  next
    case False
    with Cons.prems q have "partition_loop cp part home kvs regs red = Inr (keys, regs', red')" by simp
    from Cons.IH [OF this] q False show ?thesis by simp
  qed
qed

lemma partition_loop_total:
  assumes "\<forall>kv\<in>set kvs. (\<exists>q. cp (kv_key kv) = Inr q) \<and> kv_master kv + 1 \<noteq> 0"
  shows "\<exists>r. partition_loop cp part home kvs regs red = Inr r"
  using assms
proof (induction kvs arbitrary: regs red)
  case (Cons kv kvs)
  then obtain q where q: "cp (kv_key kv) = Inr q" "kv_master kv + 1 \<noteq> 0" by auto
  have tl: "\<forall>kv\<in>set kvs. (\<exists>q. cp (kv_key kv) = Inr q) \<and> kv_master kv + 1 \<noteq> 0" using Cons.prems by simp
  obtain r1 where r1: "partition_loop cp part home kvs regs red = Inr r1" using Cons.IH [OF tl] by blast
  obtain r2 where r2: "partition_loop cp part home kvs (raise_flag (unat (kv_master kv)) regs)
      (red \<and> sint (kv_master kv) \<noteq> home) = Inr r2" using Cons.IH [OF tl] by blast
  show ?case using q r1 r2 by (cases "q = part"; cases r1; cases r2) (simp_all add: raise_region_eq)
qed simp

lemma map_of_nat_raised:
  assumes "set (raised v) = (\<lambda>kv. unat (kv_master kv)) ` set kvs"
  shows "map of_nat (raised v) = sort_unique (map kv_master kvs)"
proof (rule sort_unique_eqI)
  have b: "i < 2 ^ 32" if "i \<in> set (raised v)" for i
  proof -
    from that assms obtain kv where "i = unat (kv_master kv)" by auto
    then show ?thesis using unsigned_less [of "kv_master kv", where 'a = nat] by simp
  qed
  have mono: "i \<le> j \<Longrightarrow> (of_nat i :: uint32) \<le> of_nat j" if "i \<in> set (raised v)" "j \<in> set (raised v)" for i j
    using b [OF that(1)] b [OF that(2)] by (simp add: word_le_nat_alt unsigned_of_nat take_bit_nat_eq_self)
  show "sorted (map of_nat (raised v) :: uint32 list)"
    using raised_sorted(1) [of v] mono by (auto simp: sorted_wrt_map intro: sorted_wrt_mono_rel [of _ "(\<le>)"])
  have "inj_on (of_nat :: nat \<Rightarrow> uint32) (set (raised v))"
    using b by (auto intro!: inj_onI simp: word_of_nat_eq_iff take_bit_nat_eq_self)
  then show "distinct (map of_nat (raised v) :: uint32 list)" by (simp add: distinct_map)
  show "set (map of_nat (raised v) :: uint32 list) = set (map kv_master kvs)"
    by (simp add: assms image_image)
qed

text \<open>
  What the sub-transaction of a partition has to be: the keys of the partition, in
  order, with the regions that master them when the transaction is multi-home, and
  nothing at all when the partition has no key that the transaction's home has to lock.
\<close>

definition locks_at_home :: "Transaction \<Rightarrow> KeyValueEntry list \<Rightarrow> bool" where
  "locks_at_home txn kvs \<longleftrightarrow> kvs \<noteq> [] \<and>
     (is_remaster txn \<or> (\<exists>kv\<in>set kvs. sint (kv_master kv) = ti_home (tx_internal txn)))"

definition sub_txn :: "(Key \<Rightarrow> uint32 result) \<Rightarrow> Transaction \<Rightarrow> uint32 \<Rightarrow> Transaction option" where
  "sub_txn cp txn part =
     (let keys = filter (\<lambda>kv. cp (kv_key kv) = Inr part) (tx_keys txn) in
      if locks_at_home txn keys
      then Some (txn\<lparr>tx_keys := keys, tx_internal := (tx_internal txn)\<lparr>ti_involved_regions :=
        (if ti_type (tx_internal txn) = MULTI_HOME_OR_LOCK_ONLY then sort_unique (map kv_master keys)
         else ti_involved_regions (tx_internal txn))\<rparr>\<rparr>)
      else None)"

lemma GeneratePartitionedTxn_Inr:
  assumes "GeneratePartitionedTxn cp txn part = Inr r"
  shows "r = sub_txn cp txn part"
proof -
  from assms obtain keys regs red where l: "partition_loop cp part (ti_home (tx_internal txn)) (tx_keys txn)
      (replicate 8 False) (\<not> is_remaster txn) = Inr (keys, regs, red)"
    and r: "r = (if keys = [] \<or> red then None
      else Some (if ti_type (tx_internal txn) = MULTI_HOME_OR_LOCK_ONLY
        then upd_internal (\<lambda>i. i\<lparr>ti_involved_regions := map of_nat (raised regs)\<rparr>) (txn\<lparr>tx_keys := keys\<rparr>)
        else txn\<lparr>tx_keys := keys\<rparr>))"
    by (auto simp: GeneratePartitionedTxn_def rbind_eq_Inr Let_def split: if_splits)
  note spec = partition_loop_Inr [OF l]
  have "map of_nat (raised regs) = sort_unique (map kv_master keys)"
    using spec by (intro map_of_nat_raised) simp
  moreover have "keys = [] \<or> red \<longleftrightarrow> \<not> locks_at_home txn keys"
    using spec by (auto simp: locks_at_home_def)
  ultimately show ?thesis
    using r spec by (simp add: sub_txn_def upd_internal_def Let_def)
qed

lemma GeneratePartitionedTxn_total:
  assumes "\<forall>kv\<in>set (tx_keys txn). (\<exists>q. cp (kv_key kv) = Inr q) \<and> kv_master kv + 1 \<noteq> 0"
  shows "\<exists>r. GeneratePartitionedTxn cp txn part = Inr r"
  using partition_loop_total [OF assms, of part "ti_home (tx_internal txn)" "replicate 8 False" "\<not> is_remaster txn"]
  by (auto simp: GeneratePartitionedTxn_def Let_def)

text \<open>
  C25: when every key has a partition and no master is the largest 32-bit number (for
  which the flag vector would wrap around), \<open>GeneratePartitionedTxn\<close> returns.  It returns
  no sub-transaction exactly when the partition has no key, or the transaction is no
  remaster and none of the keys of the partition is mastered at its home.  Otherwise
  it returns the transaction with exactly the keys of that partition, in order; the
  involved regions of a multi-home transaction become the masters of these keys, each
  once and in order, those of any other transaction are left as they were, and
  nothing else changes.
\<close>
theorem generate_partitioned_txn_correct:
  assumes "\<forall>kv\<in>set (tx_keys txn). (\<exists>q. cp (kv_key kv) = Inr q) \<and> kv_master kv + 1 \<noteq> 0"
    and "keys = filter (\<lambda>kv. cp (kv_key kv) = Inr part) (tx_keys txn)"
  shows "GeneratePartitionedTxn cp txn part = Inr
    (if keys = [] \<or> \<not> is_remaster txn \<and> (\<forall>kv\<in>set keys. sint (kv_master kv) \<noteq> ti_home (tx_internal txn))
     then None
     else Some (txn\<lparr>tx_keys := keys, tx_internal := (tx_internal txn)\<lparr>ti_involved_regions :=
       (if ti_type (tx_internal txn) = MULTI_HOME_OR_LOCK_ONLY then sort_unique (map kv_master keys)
        else ti_involved_regions (tx_internal txn))\<rparr>\<rparr>))"
proof -
  obtain r where r: "GeneratePartitionedTxn cp txn part = Inr r"
    using GeneratePartitionedTxn_total [OF assms(1)] by blast
  from GeneratePartitionedTxn_Inr [OF r] have "r = sub_txn cp txn part" .
  then show ?thesis unfolding r sub_txn_def assms(2) [symmetric] Let_def
    by (auto simp: locks_at_home_def)
qed

definition sample_kv :: "Key \<Rightarrow> KeyType \<Rightarrow> uint32 \<Rightarrow> KeyValueEntry" where
  "sample_kv k ty m = \<lparr>kv_key = k, kv_entry = \<lparr>ve_value = [], ve_new_value = [], ve_type = ty,
     ve_metadata = Some (mk_Metadata m 0)\<rparr>\<rparr>"

lemma sample_kv_sel [simp]:
  "kv_key (sample_kv k ty m) = k" "kv_master (sample_kv k ty m) = m" "ve_type (kv_entry (sample_kv k ty m)) = ty"
  by (simp_all add: sample_kv_def kv_master_def metadata_def mk_Metadata_def)

theorem generate_partitioned_txn_correct_witness:
  "let txn = default_txn\<lparr>tx_keys := [sample_kv ''a'' KeyWrite 1, sample_kv ''b'' KeyRead 1, sample_kv ''c'' KeyRead 0],
       tx_internal := default_internal\<lparr>ti_type := MULTI_HOME_OR_LOCK_ONLY\<rparr>\<rparr>;
     cp = (\<lambda>k. Inr (if k = ''b'' then 1 else 0)) in
   GeneratePartitionedTxn cp txn 1 = Inr None \<and>
   (\<exists>t. GeneratePartitionedTxn cp txn 0 = Inr (Some t) \<and>
     ti_involved_regions (tx_internal t) = sort_unique [1, 0] \<and> map kv_key (tx_keys t) = [''a'', ''c''])"
proof -
  let ?txn = "default_txn\<lparr>tx_keys := [sample_kv ''a'' KeyWrite 1, sample_kv ''b'' KeyRead 1, sample_kv ''c'' KeyRead 0],
       tx_internal := default_internal\<lparr>ti_type := MULTI_HOME_OR_LOCK_ONLY\<rparr>\<rparr>"
  let ?cp = "\<lambda>k :: string. Inr (if k = ''b'' then 1 else 0) :: uint32 result"
  have "\<forall>kv\<in>set (tx_keys ?txn). (\<exists>q. ?cp (kv_key kv) = Inr q) \<and> kv_master kv + 1 \<noteq> 0" by simp
  note g = generate_partitioned_txn_correct [OF this refl]
  show ?thesis
    using g [of 0] g [of 1] by (simp add: Let_def default_internal_def is_remaster_def default_txn_def)
qed

text \<open>Merging a list of sub-transactions, in the order in which they arrive.\<close>

fun merge_all :: "Transaction \<Rightarrow> Transaction list \<Rightarrow> Transaction result" where
  "merge_all txn [] = Inr txn"
| "merge_all txn (other # others) = rbind (MergeTransaction txn other) (\<lambda>t. merge_all t others)"

definition same_txn :: "Transaction \<Rightarrow> Transaction \<Rightarrow> bool" where
  "same_txn a b \<longleftrightarrow> tx_id a = tx_id b \<and> ti_type (tx_internal a) = ti_type (tx_internal b)"

lemma MergeTransaction_Inr_iff: "(\<exists>t. MergeTransaction a b = Inr t) \<longleftrightarrow> same_txn a b"
  by (auto simp: MergeTransaction_def same_txn_def Let_def)

lemma MergeTransaction_Inr:
  assumes "MergeTransaction a b = Inr t"
  shows "same_txn a t \<and> (tx_status t = ABORTED \<longleftrightarrow> tx_status a = ABORTED \<or> tx_status b = ABORTED) \<and>
    (tx_status t \<noteq> ABORTED \<longrightarrow> tx_status t = tx_status a \<and>
      tx_keys t = tx_keys a @ filter (\<lambda>kv. kv_key kv \<notin> kv_key ` set (tx_keys a)) (tx_keys b))"
  using assms
  by (auto simp: MergeTransaction_def same_txn_def tx_id_def Let_def upd_internal_def split: if_splits)

text \<open>
  Merging sub-transactions of one transaction never fails, the result is aborted
  exactly when one of them was, and otherwise keeps the status of the first.
\<close>
theorem merge_outcome:
  assumes "\<forall>s\<in>set subs. same_txn txn s"
  shows "\<exists>t. merge_all txn subs = Inr t \<and>
    (tx_status t = ABORTED \<longleftrightarrow> (\<exists>s\<in>set (txn # subs). tx_status s = ABORTED)) \<and>
    (tx_status t \<noteq> ABORTED \<longrightarrow> tx_status t = tx_status txn)"
  using assms
proof (induction subs arbitrary: txn)
  case Nil
  then show ?case by simp
next
  case (Cons s subs)
  then have "same_txn txn s" by simp
  then obtain t1 where t1: "MergeTransaction txn s = Inr t1" using MergeTransaction_Inr_iff by metis
  note m = MergeTransaction_Inr [OF this]
  then have "\<forall>s\<in>set subs. same_txn t1 s" using Cons.prems by (auto simp: same_txn_def)
  from Cons.IH [OF this] t1 m show ?case by auto
qed

theorem merge_outcome_witness:
  "let a = default_txn; b = default_txn\<lparr>tx_status := ABORTED\<rparr> in
   \<exists>t. merge_all a [b, a] = Inr t \<and> tx_status t = ABORTED"
  using merge_outcome [of "[default_txn\<lparr>tx_status := ABORTED\<rparr>, default_txn]" default_txn]
  by (auto simp: same_txn_def tx_id_def)

lemma merge_all_keys:
  assumes "merge_all txn subs = Inr t" and "\<forall>s\<in>set (txn # subs). tx_status s \<noteq> ABORTED"
    and "distinct (map kv_key (concat (map tx_keys (txn # subs))))"
  shows "tx_keys t = concat (map tx_keys (txn # subs))"
  using assms
proof (induction subs arbitrary: txn)
  case Nil
  then show ?case by simp
next
  case (Cons s subs)
  then obtain t1 where t1: "MergeTransaction txn s = Inr t1" "merge_all t1 subs = Inr t"
    by (auto simp: rbind_eq_Inr)
  have "filter (\<lambda>kv. kv_key kv \<notin> kv_key ` set (tx_keys txn)) (tx_keys s) = tx_keys s"
    using Cons.prems(3) by (auto simp: filter_id_conv)
  with MergeTransaction_Inr [OF t1(1)] Cons.prems(2)
  have "tx_keys t1 = tx_keys txn @ tx_keys s" "tx_status t1 \<noteq> ABORTED" by auto
  with Cons.IH [OF t1(2)] Cons.prems(2,3) show ?case by auto
qed

lemma concat_tx_keys:
  assumes "\<forall>q\<in>set ps. sub q = None \<or> (\<exists>t. sub q = Some t \<and> tx_keys t = filter (\<lambda>kv. cp (kv_key kv) = Inr q) kvs)"
  shows "concat (map tx_keys (List.map_filter sub ps)) =
    concat (map (\<lambda>c. filter (\<lambda>kv. cp (kv_key kv) = c) kvs) (map Inr (filter (\<lambda>q. sub q \<noteq> None) ps)))"
  using assms by (induction ps) (auto simp: List.map_filter_simps)

lemma set_map_filter: "set (List.map_filter f xs) = {y. \<exists>x\<in>set xs. f x = Some y}"
  by (induction xs) (auto simp: List.map_filter_simps split: option.splits)

lemma sub_txn_Some:
  "sub_txn cp txn q = Some t \<Longrightarrow> tx_status t = tx_status txn"
  "sub_txn cp txn q = Some t \<Longrightarrow> same_txn txn t"
  unfolding sub_txn_def Let_def by (auto simp: same_txn_def tx_id_def split: if_splits)

lemma split_merge_keys:
  assumes "distinct ps" and "distinct (map kv_key (tx_keys txn))" and "tx_status txn \<noteq> ABORTED"
    and "List.map_filter (sub_txn cp txn) ps = s # ss"
  shows "\<exists>t. merge_all s ss = Inr t \<and> tx_status t = tx_status txn \<and>
    mset (tx_keys t) =
      mset (filter (\<lambda>kv. cp (kv_key kv) \<in> Inr ` {q \<in> set ps. sub_txn cp txn q \<noteq> None}) (tx_keys txn))"
proof -
  let ?sub = "sub_txn cp txn"
  let ?kept = "filter (\<lambda>kv. cp (kv_key kv) \<in> Inr ` {q \<in> set ps. ?sub q \<noteq> None}) (tx_keys txn)"
  have sub: "tx_status t = tx_status txn" "same_txn txn t" if "t \<in> set (s # ss)" for t
    using that sub_txn_Some unfolding assms(4) [symmetric] set_map_filter by blast+
  have d: "distinct (map Inr (filter (\<lambda>q. ?sub q \<noteq> None) ps) :: uint32 result list)"
    using assms(1) by (simp add: distinct_map)
  have c: "concat (map tx_keys (s # ss)) = concat (map (\<lambda>c. filter (\<lambda>kv. cp (kv_key kv) = c) (tx_keys txn))
      (map Inr (filter (\<lambda>q. ?sub q \<noteq> None) ps)))"
    unfolding assms(4) [symmetric] by (rule concat_tx_keys) (auto simp: sub_txn_def Let_def)
  have "set (map Inr (filter (\<lambda>q. ?sub q \<noteq> None) ps)) = Inr ` {q \<in> set ps. ?sub q \<noteq> None}"
    by (simp only: set_map set_filter)
  then have m: "mset (concat (map tx_keys (s # ss))) = mset ?kept"
    unfolding c mset_concat_partition [OF d] by (rule arg_cong)
  then have "mset (map kv_key (concat (map tx_keys (s # ss)))) = mset (map kv_key ?kept)"
    unfolding mset_map by (rule arg_cong)
  moreover have "distinct (map kv_key ?kept)" by (rule distinct_map_filter [OF assms(2)])
  ultimately have d2: "distinct (map kv_key (concat (map tx_keys (s # ss))))"
    using mset_eq_imp_distinct_iff by blast
  have "same_txn s u" if "u \<in> set ss" for u
    using sub(2) [of s] sub(2) [of u] that by (simp add: same_txn_def)
  then have "\<forall>u\<in>set ss. same_txn s u" by blast
  from merge_outcome [OF this] obtain t where t: "merge_all s ss = Inr t"
    and st: "tx_status t = ABORTED \<longleftrightarrow> (\<exists>u\<in>set (s # ss). tx_status u = ABORTED)"
      "tx_status t \<noteq> ABORTED \<longrightarrow> tx_status t = tx_status s" by blast
  have na: "\<forall>u\<in>set (s # ss). tx_status u \<noteq> ABORTED" using sub(1) assms(3) by metis
  have "tx_keys t = concat (map tx_keys (s # ss))" by (rule merge_all_keys [OF t na d2])
  moreover have "tx_status t = tx_status txn" using st na sub(1) [of s] by auto
  ultimately show ?thesis using t m by auto
qed

text \<open>
  C26: a transaction that is not aborted and names no key twice is split by partition,
  and the sub-transactions that exist are merged, in whatever order they come back.
  The merge succeeds, keeps the status, and has exactly the keys, each once, whose
  partition has a key that the transaction's home has to lock (any key, for a remaster);
  the partitions for which no sub-transaction is generated lose theirs.  In particular a
  transaction whose keys are all mastered at its home, or a remaster, gets exactly its
  keys back.
\<close>
theorem split_merge_roundtrip:
  assumes "distinct ps" and "distinct (map kv_key (tx_keys txn))" and "tx_status txn \<noteq> ABORTED"
    and "\<forall>kv\<in>set (tx_keys txn). \<exists>q\<in>set ps. cp (kv_key kv) = Inr q"
    and "\<forall>q\<in>set ps. GeneratePartitionedTxn cp txn q = Inr (sub q)"
    and "List.map_filter sub ps = s # ss"
  shows "\<exists>t. merge_all s ss = Inr t \<and> tx_status t = tx_status txn \<and>
    mset (tx_keys t) = {#kv \<in># mset (tx_keys txn). is_remaster txn \<or>
      (\<exists>kv'\<in>set (tx_keys txn). cp (kv_key kv') = cp (kv_key kv) \<and>
        sint (kv_master kv') = ti_home (tx_internal txn))#} \<and>
    ((\<forall>kv\<in>set (tx_keys txn). is_remaster txn \<or> sint (kv_master kv) = ti_home (tx_internal txn)) \<longrightarrow>
      mset (tx_keys t) = mset (tx_keys txn))"
proof -
  have sub: "sub q = sub_txn cp txn q" if "q \<in> set ps" for q
    using that assms(5) GeneratePartitionedTxn_Inr by blast
  have "List.map_filter sub ps = List.map_filter (sub_txn cp txn) ps"
    using sub by (simp add: List.map_filter_def cong: map_cong filter_cong)
  with assms(6) have "List.map_filter (sub_txn cp txn) ps = s # ss" by simp
  from split_merge_keys [OF assms(1-3) this] obtain t where t: "merge_all s ss = Inr t"
    "tx_status t = tx_status txn" "mset (tx_keys t) =
      mset (filter (\<lambda>kv. cp (kv_key kv) \<in> Inr ` {q \<in> set ps. sub_txn cp txn q \<noteq> None}) (tx_keys txn))" by blast
  have kept: "cp (kv_key kv) \<in> Inr ` {q \<in> set ps. sub_txn cp txn q \<noteq> None} \<longleftrightarrow>
      is_remaster txn \<or> (\<exists>kv'\<in>set (tx_keys txn). cp (kv_key kv') = cp (kv_key kv) \<and>
        sint (kv_master kv') = ti_home (tx_internal txn))" if kv: "kv \<in> set (tx_keys txn)" for kv
  proof -
    from assms(4) kv obtain q where q: "q \<in> set ps" "cp (kv_key kv) = Inr q" by blast
    then have "cp (kv_key kv) \<in> Inr ` {q \<in> set ps. sub_txn cp txn q \<noteq> None} \<longleftrightarrow> sub_txn cp txn q \<noteq> None" by auto
    moreover have "filter (\<lambda>kv. cp (kv_key kv) = Inr q) (tx_keys txn) \<noteq> []"
      using kv q(2) by (auto simp: filter_empty_conv)
    ultimately show ?thesis using q(2) by (auto simp: sub_txn_def Let_def locks_at_home_def)
  qed
  have eq: "filter (\<lambda>kv. cp (kv_key kv) \<in> Inr ` {q \<in> set ps. sub_txn cp txn q \<noteq> None}) (tx_keys txn) =
      filter (\<lambda>kv. is_remaster txn \<or> (\<exists>kv'\<in>set (tx_keys txn). cp (kv_key kv') = cp (kv_key kv) \<and>
        sint (kv_master kv') = ti_home (tx_internal txn))) (tx_keys txn)"
    using kept by (rule filter_cong [OF refl])
  have keys: "mset (tx_keys t) = {#kv \<in># mset (tx_keys txn). is_remaster txn \<or>
      (\<exists>kv'\<in>set (tx_keys txn). cp (kv_key kv') = cp (kv_key kv) \<and>
        sint (kv_master kv') = ti_home (tx_internal txn))#}" unfolding t(3) eq by (rule mset_filter)
  have "mset (tx_keys t) = mset (tx_keys txn)"
    if "\<forall>kv\<in>set (tx_keys txn). is_remaster txn \<or> sint (kv_master kv) = ti_home (tx_internal txn)"
    unfolding t(3) eq by (rule arg_cong [OF filter_True]) (use that in blast)
  with t(1,2) keys show ?thesis by blast
qed

theorem split_merge_roundtrip_witness:
  "let txn = default_txn\<lparr>tx_keys := [sample_kv ''a'' KeyWrite 0, sample_kv ''b'' KeyRead 0,
        sample_kv ''c'' KeyRead 1, sample_kv ''d'' KeyRead 1]\<rparr>;
     cp = (\<lambda>k. Inr (if k = ''b'' then 1 else if k = ''d'' then 2 else 0) :: uint32 result);
     sub = (\<lambda>q. txn\<lparr>tx_keys := filter (\<lambda>kv. cp (kv_key kv) = Inr q) (tx_keys txn)\<rparr>) in
   GeneratePartitionedTxn cp txn 2 = Inr None \<and>
   (\<exists>t. merge_all (sub 1) [sub 0] = Inr t \<and>
     mset (tx_keys t) = {#sample_kv ''a'' KeyWrite 0, sample_kv ''b'' KeyRead 0, sample_kv ''c'' KeyRead 1#})"
proof -
  let ?txn = "default_txn\<lparr>tx_keys := [sample_kv ''a'' KeyWrite 0, sample_kv ''b'' KeyRead 0,
    sample_kv ''c'' KeyRead 1, sample_kv ''d'' KeyRead 1]\<rparr>"
  let ?cp = "\<lambda>k :: string. Inr (if k = ''b'' then 1 else if k = ''d'' then 2 else 0) :: uint32 result"
  let ?sub = "\<lambda>q. ?txn\<lparr>tx_keys := filter (\<lambda>kv. ?cp (kv_key kv) = Inr q) (tx_keys ?txn)\<rparr>"
  let ?gen = "\<lambda>q. if q = 2 then None else Some (?sub q)"
  have g: "GeneratePartitionedTxn ?cp ?txn q = Inr (?gen q)" if "q \<in> {0, 1, 2}" for q
    using that by (auto simp: GeneratePartitionedTxn_def raise_region_eq Let_def default_internal_def
        is_remaster_def default_txn_def)
  have "\<exists>t. merge_all (?sub 1) [?sub 0] = Inr t \<and>
      mset (tx_keys t) = {#kv \<in># mset (tx_keys ?txn). is_remaster ?txn \<or>
        (\<exists>kv'\<in>set (tx_keys ?txn). ?cp (kv_key kv') = ?cp (kv_key kv) \<and>
          sint (kv_master kv') = ti_home (tx_internal ?txn))#}"
    using split_merge_roundtrip [where cp = ?cp and txn = ?txn and sub = ?gen and ps = "[1, 2, 0]"
        and s = "?sub 1" and ss = "[?sub 0]"] g
    by (auto simp: default_txn_def List.map_filter_simps)
  with g [of 2] show ?thesis
    by (simp add: Let_def is_remaster_def default_txn_def default_internal_def)
qed

end
