(* ===== verification/Lock_Manager.thy ===== *)
theory Lock_Manager
  imports Lock_State Txn
begin

section \<open>Deterministic lock managers (\<^verbatim>\<open>RMALockManager\<close>, \<^verbatim>\<open>OldLockManager\<close>)\<close>

text \<open>
  A lock manager counts, for every transaction, the locks it still waits for, and
  keeps one lock state per key.  The model follows \<^verbatim>\<open>rma_lock_manager.cpp\<close> and
  \<^verbatim>\<open>old_lock_manager.cpp\<close> operation by operation.  For the remaster-aware manager the
  theory shows that a transaction is reported ready exactly when it holds all its
  locks, that ready transactions never conflict, and that requests in log order
  cannot deadlock.
\<close>

subsection \<open>\<^verbatim>\<open>RMALockManager\<close>\<close>

record TxnInfo =
  num_waiting_for :: int
  info_keys :: "KeyRegion list"

definition is_ready :: "TxnInfo \<Rightarrow> bool" where
  "is_ready i \<longleftrightarrow> num_waiting_for i = 0"

record RMALockManager =
  rm_txn_info :: "TxnId \<rightharpoonup> TxnInfo"
  rm_lock_table :: "KeyRegion \<rightharpoonup> LockState"
  rm_num_locked_keys :: uint32

definition RMALockManager_new :: RMALockManager where
  "RMALockManager_new = \<lparr>rm_txn_info = Map.empty, rm_lock_table = Map.empty, rm_num_locked_keys = 0\<rparr>"

text \<open>\<^verbatim>\<open>lock_table_[key_region]\<close> default-constructs a missing lock state.\<close>

definition lock_at :: "RMALockManager \<Rightarrow> KeyRegion \<Rightarrow> LockState" where
  "lock_at m k = (case rm_lock_table m k of None \<Rightarrow> LockState_new | Some s \<Rightarrow> s)"

text \<open>One iteration of the loop over the keys of \<^verbatim>\<open>AcquireLocks\<close>, for a key that is not skipped.\<close>

definition RMA_request :: "TxnId \<Rightarrow> KeyRegion \<Rightarrow> KeyType \<Rightarrow> RMALockManager \<Rightarrow> RMALockManager" where
  "RMA_request txn_id key_region ty m =
     (let lock_state = lock_at m key_region;
        (granted, lock_state') =
          (case ty of KeyRead \<Rightarrow> LockState_AcquireReadLock txn_id lock_state
           | KeyWrite \<Rightarrow> LockState_AcquireWriteLock txn_id lock_state);
        info = (case rm_txn_info m txn_id of None \<Rightarrow> \<lparr>num_waiting_for = 0, info_keys = []\<rparr> | Some i \<Rightarrow> i) in
      m\<lparr>rm_txn_info := (rm_txn_info m)(txn_id \<mapsto>
            info\<lparr>info_keys := info_keys info @ [key_region],
                 num_waiting_for := num_waiting_for info - (if granted then 1 else 0)\<rparr>),
        rm_lock_table := (rm_lock_table m)(key_region \<mapsto> lock_state'),
        rm_num_locked_keys := rm_num_locked_keys m +
          (if ls_mode lock_state = UNLOCKED \<and> ls_mode lock_state' \<noteq> ls_mode lock_state then 1 else 0)\<rparr>)"

text \<open>
  The locks a (lock-only) transaction asks for: the keys mastered at its home, or its
  single key when it is a remaster.
\<close>

definition rma_requests :: "Transaction \<Rightarrow> (KeyRegion \<times> KeyType) list" where
  "rma_requests txn =
     (let home = ti_home (tx_internal txn) in
      map (\<lambda>kv. (MakeKeyRegion (kv_key kv) (of_int home), ve_type (kv_entry kv)))
        (filter (\<lambda>kv. is_remaster txn \<or> sint (kv_master kv) = home) (tx_keys txn)))"

definition num_required_locks :: "Transaction \<Rightarrow> nat" where
  "num_required_locks txn = (if is_remaster txn then 2 else length (tx_keys txn))"

definition RMA_AcquireLocks :: "Transaction \<Rightarrow> RMALockManager \<Rightarrow> AcquireLocksResult \<times> RMALockManager" where
  "RMA_AcquireLocks txn m =
     (let m1 = (case rm_txn_info m (tx_id txn) of
          None \<Rightarrow> m\<lparr>rm_txn_info := (rm_txn_info m)(tx_id txn \<mapsto>
            \<lparr>num_waiting_for = int (num_required_locks txn), info_keys = []\<rparr>)\<rparr>
        | Some _ \<Rightarrow> m);
        m2 = foldl (\<lambda>m (k, ty). RMA_request (tx_id txn) k ty m) m1 (rma_requests txn) in
      (case rm_txn_info m2 (tx_id txn) of
         Some i \<Rightarrow> if is_ready i then ACQUIRED else WAITING
       | None \<Rightarrow> WAITING, m2))"

text \<open>
  The loop over the new grantees: each waits for one lock less, and joins the result
  when it waits for none.  A grantee without transaction info would be dereferenced
  past the end of the table.
\<close>

fun rma_grant :: "TxnId list \<Rightarrow> (TxnId \<rightharpoonup> TxnInfo) \<Rightarrow> TxnId list \<Rightarrow> ((TxnId \<rightharpoonup> TxnInfo) \<times> TxnId list) result" where
  "rma_grant [] info res = Inr (info, res)"
| "rma_grant (new_txn # ts) info res =
     (case info new_txn of
        None \<Rightarrow> Inl (Undefined ''txn_info_.find(new_txn)'')
      | Some i \<Rightarrow> let i' = i\<lparr>num_waiting_for := num_waiting_for i - 1\<rparr> in
          rma_grant ts (info(new_txn \<mapsto> i')) (if is_ready i' then res @ [new_txn] else res))"

definition RMA_release_key ::
    "TxnId \<Rightarrow> KeyRegion \<Rightarrow> RMALockManager \<times> TxnId list \<Rightarrow> (RMALockManager \<times> TxnId list) result" where
  "RMA_release_key txn_id key_region mr =
     (let (m, res) = mr in
      case rm_lock_table m key_region of
        None \<Rightarrow> Inr (m, res)
      | Some lock_state \<Rightarrow>
          let (new_grantees, lock_state') = LockState_Release txn_id lock_state in
          rbind (rma_grant new_grantees (rm_txn_info m) res) (\<lambda>(info, res').
            Inr (m\<lparr>rm_txn_info := info,
                   rm_lock_table := (rm_lock_table m)(key_region \<mapsto> lock_state'),
                   rm_num_locked_keys := rm_num_locked_keys m -
                     (if ls_mode lock_state' = UNLOCKED \<and> ls_mode lock_state \<noteq> UNLOCKED then 1 else 0)\<rparr>,
                 res')))"

fun rma_release_loop ::
    "TxnId \<Rightarrow> KeyRegion list \<Rightarrow> RMALockManager \<times> TxnId list \<Rightarrow> (RMALockManager \<times> TxnId list) result" where
  "rma_release_loop txn_id [] mr = Inr mr"
| "rma_release_loop txn_id (k # ks) mr = rbind (RMA_release_key txn_id k mr) (rma_release_loop txn_id ks)"

definition RMA_ReleaseLocks :: "TxnId \<Rightarrow> RMALockManager \<Rightarrow> (TxnId list \<times> RMALockManager) result" where
  "RMA_ReleaseLocks txn_id m =
     (case rm_txn_info m txn_id of
        None \<Rightarrow> Inr ([], m)
      | Some info \<Rightarrow>
          rbind (rma_release_loop txn_id (info_keys info) (m, [])) (\<lambda>(m', res).
            Inr (sort_unique res, m'\<lparr>rm_txn_info := (rm_txn_info m')(txn_id := None)\<rparr>)))"

subsection \<open>The invariant of the manager\<close>

text \<open>
  \<open>req t\<close> is the number of locks transaction \<open>t\<close> needs in all.  A transaction belongs to a
  lock exactly when the key is recorded for it, and waits for as many locks as it
  needs and does not hold.
\<close>

definition holds :: "RMALockManager \<Rightarrow> TxnId \<Rightarrow> KeyRegion \<Rightarrow> bool" where
  "holds m t k \<longleftrightarrow> t \<in> set (ls_holders (lock_at m k))"

definition info_ok :: "(TxnId \<Rightarrow> nat) \<Rightarrow> RMALockManager \<Rightarrow> TxnId \<Rightarrow> TxnInfo \<Rightarrow> bool" where
  "info_ok req m t i \<longleftrightarrow> distinct (info_keys i) \<and> length (info_keys i) \<le> req t \<and>
     num_waiting_for i = int (req t) - int (length (filter (holds m t) (info_keys i)))"

definition keys_of :: "RMALockManager \<Rightarrow> TxnId \<Rightarrow> KeyRegion set" where
  "keys_of m t = (case rm_txn_info m t of None \<Rightarrow> {} | Some i \<Rightarrow> set (info_keys i))"

definition rma_inv :: "(TxnId \<Rightarrow> nat) \<Rightarrow> RMALockManager \<Rightarrow> bool" where
  "rma_inv req m \<longleftrightarrow> (\<forall>k. ls_inv (lock_at m k)) \<and>
     (\<forall>k t. LockState_Contains t (lock_at m k) \<longleftrightarrow> k \<in> keys_of m t) \<and>
     (\<forall>t i. rm_txn_info m t = Some i \<longrightarrow> info_ok req m t i)"

definition ready :: "RMALockManager \<Rightarrow> TxnId \<Rightarrow> bool" where
  "ready m t \<longleftrightarrow> (\<exists>i. rm_txn_info m t = Some i \<and> is_ready i)"

lemma rma_invD:
  assumes "rma_inv req m"
  shows "ls_inv (lock_at m k)" and "LockState_Contains t (lock_at m k) \<longleftrightarrow> k \<in> keys_of m t"
    and "rm_txn_info m t = Some i \<Longrightarrow> info_ok req m t i"
  using assms by (simp_all add: rma_inv_def)

lemma holds_Contains: "holds m t k \<Longrightarrow> LockState_Contains t (lock_at m k)"
  by (simp add: holds_def LockState_Contains_def)

text \<open>A transaction waits for nothing exactly when it has asked for all its locks and holds them.\<close>

lemma info_ok_ready:
  assumes "info_ok req m t i"
  shows "is_ready i \<longleftrightarrow> length (info_keys i) = req t \<and> (\<forall>k\<in>set (info_keys i). holds m t k)"
proof -
  define n where "n = length (filter (holds m t) (info_keys i))"
  have "n \<le> length (info_keys i)" unfolding n_def by (rule length_filter_le)
  moreover have "n = length (info_keys i) \<longleftrightarrow> (\<forall>k\<in>set (info_keys i). holds m t k)"
    unfolding n_def by (metis filter_True length_filter_less less_irrefl)
  moreover have "is_ready i \<longleftrightarrow> n = req t" "length (info_keys i) \<le> req t"
    using assms by (auto simp: info_ok_def is_ready_def n_def)
  ultimately show ?thesis by auto
qed

text \<open>A request only adds the requester to one lock.\<close>

lemma acquire_effect:
  assumes "ls_inv s" "\<not> LockState_Contains t s"
    and "(case ty of KeyRead \<Rightarrow> LockState_AcquireReadLock t s | KeyWrite \<Rightarrow> LockState_AcquireWriteLock t s) = (b, s')"
  shows "ls_inv s' \<and> (t \<in> set (ls_holders s') \<longleftrightarrow> b) \<and>
    (\<forall>u. u \<noteq> t \<longrightarrow> (u \<in> set (ls_holders s') \<longleftrightarrow> u \<in> set (ls_holders s)) \<and>
      (LockState_Contains u s' \<longleftrightarrow> LockState_Contains u s)) \<and> LockState_Contains t s'"
proof -
  have u: "t \<notin> set (ls_holders s) \<union> fst ` set (ls_waiters s)"
    using assms(2) by (auto simp: LockState_Contains_def)
  show ?thesis
  proof (cases ty)
    case KeyRead
    with assms(3) rma.acquire_read_spec [OF assms(1) u, of b s'] u show ?thesis
      by (cases b) (auto simp: LockState_Contains_def)
  next
    case KeyWrite
    with assms(3) rma.acquire_write_spec [OF assms(1) u, of b s'] u show ?thesis
      by (cases b) (auto simp: LockState_Contains_def)
  qed
qed

lemma RMA_request_inv:
  assumes "rma_inv req m" "rm_txn_info m t = Some i" "k \<notin> set (info_keys i)" "length (info_keys i) < req t"
  shows "rma_inv req (RMA_request t k ty m) \<and>
    (\<exists>i'. rm_txn_info (RMA_request t k ty m) t = Some i' \<and> info_keys i' = info_keys i @ [k]) \<and>
    (\<forall>u. u \<noteq> t \<longrightarrow> rm_txn_info (RMA_request t k ty m) u = rm_txn_info m u)"
proof -
  obtain b s' where a: "(case ty of KeyRead \<Rightarrow> LockState_AcquireReadLock t (lock_at m k)
      | KeyWrite \<Rightarrow> LockState_AcquireWriteLock t (lock_at m k)) = (b, s')"
    by (cases "case ty of KeyRead \<Rightarrow> LockState_AcquireReadLock t (lock_at m k)
      | KeyWrite \<Rightarrow> LockState_AcquireWriteLock t (lock_at m k)")
  define m' where "m' = RMA_request t k ty m"
  define i' where "i' = i\<lparr>info_keys := info_keys i @ [k], num_waiting_for := num_waiting_for i - (if b then 1 else 0)\<rparr>"
  have m': "rm_txn_info m' = (rm_txn_info m)(t \<mapsto> i')" "rm_lock_table m' = (rm_lock_table m)(k \<mapsto> s')"
    by (simp_all add: m'_def RMA_request_def a assms(2) i'_def Let_def)
  have l: "lock_at m' k' = (if k' = k then s' else lock_at m k')" for k'
    by (simp add: lock_at_def m'(2))
  have nc: "\<not> LockState_Contains t (lock_at m k)"
    using assms(2,3) rma_invD(2) [OF assms(1)] by (simp add: keys_of_def)
  note eff = acquire_effect [OF rma_invD(1) [OF assms(1)] nc a]
  have h: "holds m' u k' \<longleftrightarrow> (if u = t \<and> k' = k then b else holds m u k')" for u k'
    using eff by (simp add: holds_def l)
  have "holds m' t = (\<lambda>k'. if k' = k then b else holds m t k')" using h by auto
  then have "filter (holds m' t) (info_keys i) = filter (holds m t) (info_keys i)"
    using assms(3) by (auto intro: filter_cong)
  then have it: "info_ok req m' t i'"
    using rma_invD(3) [OF assms(1,2)] assms(3,4) h [of t k] by (auto simp: info_ok_def i'_def)
  have iu: "info_ok req m' u j" if "u \<noteq> t" "rm_txn_info m u = Some j" for u j
  proof -
    have "holds m' u = holds m u" using h that(1) by auto
    then show ?thesis using rma_invD(3) [OF assms(1) that(2)] by (simp add: info_ok_def)
  qed
  have "LockState_Contains u (lock_at m' k') \<longleftrightarrow> k' \<in> keys_of m' u" for u k'
    using eff rma_invD(2) [OF assms(1), of u k'] assms(2)
    by (cases "u = t"; cases "k' = k") (auto simp: l keys_of_def m'(1) i'_def)
  moreover have "ls_inv (lock_at m' k')" for k'
    using eff rma_invD(1) [OF assms(1)] by (simp add: l)
  moreover have "info_ok req m' u j" if "rm_txn_info m' u = Some j" for u j
    using that it iu [of u j] m'(1) by (cases "u = t") auto
  ultimately have "rma_inv req m'" by (simp add: rma_inv_def)
  then show ?thesis unfolding m'_def [symmetric] using m'(1) by (simp add: i'_def)
qed

text \<open>All requests of one call.\<close>

lemma RMA_requests_inv:
  assumes "rma_inv req m" "rm_txn_info m t = Some i" "distinct (info_keys i @ map fst rs)"
    and "length (info_keys i) + length rs \<le> req t"
  shows "rma_inv req (foldl (\<lambda>m (k, ty). RMA_request t k ty m) m rs) \<and>
    (\<exists>i'. rm_txn_info (foldl (\<lambda>m (k, ty). RMA_request t k ty m) m rs) t = Some i' \<and>
      info_keys i' = info_keys i @ map fst rs) \<and>
    (\<forall>u. u \<noteq> t \<longrightarrow> rm_txn_info (foldl (\<lambda>m (k, ty). RMA_request t k ty m) m rs) u = rm_txn_info m u)"
  using assms
proof (induction rs arbitrary: m i)
  case Nil
  then show ?case by simp
next
  case (Cons r rs)
  obtain k ty where r: "r = (k, ty)" by (cases r)
  from RMA_request_inv [OF Cons.prems(1,2), of k ty] Cons.prems(3,4) r obtain j where
    j: "rma_inv req (RMA_request t k ty m)" "rm_txn_info (RMA_request t k ty m) t = Some j"
    "info_keys j = info_keys i @ [k]" "\<forall>u. u \<noteq> t \<longrightarrow> rm_txn_info (RMA_request t k ty m) u = rm_txn_info m u"
    by auto
  from Cons.IH [OF j(1,2)] j(3,4) Cons.prems(3,4) r show ?case by auto
qed

subsection \<open>Releasing locks\<close>

lemma release_effect:
  assumes "ls_inv s" "LockState_Release t s = (g, s')"
  shows "ls_inv s' \<and> distinct g \<and> t \<notin> set g \<and>
    (\<forall>u\<in>set g. u \<notin> set (ls_holders s) \<and> LockState_Contains u s) \<and>
    (\<forall>u. u \<noteq> t \<longrightarrow> (u \<in> set (ls_holders s') \<longleftrightarrow> u \<in> set (ls_holders s) \<or> u \<in> set g)) \<and>
    (\<forall>u. LockState_Contains u s' \<longleftrightarrow> LockState_Contains u s \<and> u \<noteq> t)"
proof -
  have m: "LockState_Contains u s' \<longleftrightarrow> LockState_Contains u s \<and> u \<noteq> t" for u
    using rma.members_release [OF assms(1), of t "set g" s'] assms(2)
    by (auto simp: LockState_Contains_members LockState_release_set_def)
  show ?thesis
  proof (cases "t \<in> set (ls_holders s)")
    case False
    with LockState_Release_waiter [OF assms(1) False assms(2)] m show ?thesis by auto
  next
    case True
    from LockState_Release_holder_spec [OF assms(1) True assms(2)] have
      h: "ls_inv s'" "set (ls_holders s') = set (ls_holders s) - {t} \<union> set g"
      "grants_prefix (ls_waiters s) (ls_waiters s') (set g)" by simp_all
    have g: "g = [] \<or> g = ls_holders s'"
      using assms(2) LockState_Release_holder [OF assms(1) True]
      by (auto simp: Let_def split: if_splits list.splits prod.splits)
    have d: "distinct g" using g h(1) by (auto simp: ls_inv_def)
    have "set g \<subseteq> fst ` set (ls_waiters s)" using h(3) by (auto simp: grants_prefix_def)
    with rma.wf_disjoint [OF assms(1)] True have
      "t \<notin> set g" "\<forall>u\<in>set g. u \<notin> set (ls_holders s) \<and> u \<in> fst ` set (ls_waiters s)" by blast+
    with d h(1,2) m show ?thesis by (auto simp: LockState_Contains_def)
  qed
qed

definition dec_info :: "TxnInfo \<Rightarrow> TxnInfo" where
  "dec_info i = i\<lparr>num_waiting_for := num_waiting_for i - 1\<rparr>"

lemma rma_grant_eq:
  assumes "distinct ts" "\<forall>t\<in>set ts. info t \<noteq> None"
  shows "rma_grant ts info res = Inr (\<lambda>t. if t \<in> set ts then map_option dec_info (info t) else info t,
    res @ filter (\<lambda>t. is_ready (dec_info (the (info t)))) ts)"
  using assms
proof (induction ts arbitrary: info res)
  case Nil
  then show ?case by simp
next
  case (Cons t ts)
  then obtain i where i: "info t = Some i" by auto
  let ?info = "info(t \<mapsto> dec_info i)"
  have "rma_grant (t # ts) info res = rma_grant ts ?info (if is_ready (dec_info i) then res @ [t] else res)"
    by (simp add: i dec_info_def Let_def)
  also have "\<dots> = Inr (\<lambda>u. if u \<in> set ts then map_option dec_info (?info u) else ?info u,
      (if is_ready (dec_info i) then res @ [t] else res) @ filter (\<lambda>u. is_ready (dec_info (the (?info u)))) ts)"
    using Cons by (intro Cons.IH) auto
  also have "(\<lambda>u. if u \<in> set ts then map_option dec_info (?info u) else ?info u) =
      (\<lambda>u. if u \<in> set (t # ts) then map_option dec_info (info u) else info u)"
    using Cons.prems(1) i by (auto simp: fun_eq_iff)
  also have "filter (\<lambda>u. is_ready (dec_info (the (?info u)))) ts = filter (\<lambda>u. is_ready (dec_info (the (info u)))) ts"
    using Cons.prems(1) by (auto intro: filter_cong)
  finally show ?case using i by simp
qed

text \<open>
  During the release of \<open>t\<close>, whose locks on the keys \<open>rem\<close> are still to be released, the
  invariant holds for all other transactions.
\<close>

definition rma_rel_inv :: "(TxnId \<Rightarrow> nat) \<Rightarrow> TxnId \<Rightarrow> KeyRegion list \<Rightarrow> RMALockManager \<Rightarrow> bool" where
  "rma_rel_inv req t rem m \<longleftrightarrow> (\<forall>k. ls_inv (lock_at m k)) \<and>
     (\<forall>k u. LockState_Contains u (lock_at m k) \<longleftrightarrow> (if u = t then k \<in> set rem else k \<in> keys_of m u)) \<and>
     (\<forall>u i. u \<noteq> t \<longrightarrow> rm_txn_info m u = Some i \<longrightarrow> info_ok req m u i)"

lemma rma_rel_invD:
  assumes "rma_rel_inv req t rem m"
  shows "ls_inv (lock_at m k)"
    and "LockState_Contains u (lock_at m k) \<longleftrightarrow> (if u = t then k \<in> set rem else k \<in> keys_of m u)"
    and "u \<noteq> t \<Longrightarrow> rm_txn_info m u = Some i \<Longrightarrow> info_ok req m u i"
  using assms by (simp_all add: rma_rel_inv_def)

lemma filter_add_one:
  assumes "distinct xs" "x \<in> set xs" "\<not> P x" "\<And>y. y \<in> set xs \<Longrightarrow> y \<noteq> x \<Longrightarrow> Q y = P y" "Q x"
  shows "length (filter Q xs) = Suc (length (filter P xs))"
proof -
  have "set (filter Q xs) = insert x (set (filter P xs))" using assms(2-5) by auto
  moreover have "distinct (filter Q xs)" "distinct (filter P xs)" using assms(1) by simp_all
  moreover have "x \<notin> set (filter P xs)" using assms(3) by simp
  ultimately show ?thesis using distinct_card [of "filter Q xs"] distinct_card [of "filter P xs"] by simp
qed

lemma RMA_release_key_step:
  assumes "rma_rel_inv req t (k # ks) m" "k \<notin> set ks"
  shows "\<exists>m' g. RMA_release_key t k (m, res) = Inr (m', res @ filter (ready m') g) \<and>
    rma_rel_inv req t ks m' \<and> (\<forall>u\<in>set g. u \<noteq> t \<and> \<not> ready m u) \<and>
    (\<forall>u. u \<notin> set g \<longrightarrow> rm_txn_info m' u = rm_txn_info m u)"
proof -
  let ?s = "lock_at m k"
  have "LockState_Contains t ?s" using rma_rel_invD(2) [OF assms(1)] by simp
  then have k: "rm_lock_table m k = Some ?s"
    by (cases "rm_lock_table m k") (simp_all add: lock_at_def LockState_new_def LockState_Contains_def)
  obtain g s' where r: "LockState_Release t ?s = (g, s')" by fastforce
  note eff = release_effect [OF rma_rel_invD(1) [OF assms(1)] r]
  have gi: "rm_txn_info m u \<noteq> None" if "u \<in> set g" for u
  proof -
    from eff that have "LockState_Contains u ?s" "u \<noteq> t" by auto
    then have "k \<in> keys_of m u" using rma_rel_invD(2) [OF assms(1), of u k] by simp
    then show ?thesis by (auto simp: keys_of_def split: option.splits)
  qed
  define info where "info = (\<lambda>u. if u \<in> set g then map_option dec_info (rm_txn_info m u) else rm_txn_info m u)"
  define m' where "m' = m\<lparr>rm_txn_info := info, rm_lock_table := (rm_lock_table m)(k \<mapsto> s'),
    rm_num_locked_keys := rm_num_locked_keys m - (if ls_mode s' = UNLOCKED \<and> ls_mode ?s \<noteq> UNLOCKED then 1 else 0)\<rparr>"
  have "rma_grant g (rm_txn_info m) res =
      Inr (info, res @ filter (\<lambda>u. is_ready (dec_info (the (rm_txn_info m u)))) g)"
    unfolding info_def using eff gi by (intro rma_grant_eq) auto
  moreover have "filter (\<lambda>u. is_ready (dec_info (the (rm_txn_info m u)))) g = filter (ready m') g"
  proof (rule filter_cong [OF refl])
    fix u assume u: "u \<in> set g"
    with gi obtain i where "rm_txn_info m u = Some i" by blast
    with u show "is_ready (dec_info (the (rm_txn_info m u))) = ready m' u"
      by (simp add: ready_def m'_def info_def)
  qed
  ultimately have res: "RMA_release_key t k (m, res) = Inr (m', res @ filter (ready m') g)"
    by (simp add: RMA_release_key_def k r m'_def Let_def)
  have l: "lock_at m' k' = (if k' = k then s' else lock_at m k')" for k'
    by (simp add: lock_at_def m'_def)
  have h: "holds m' u k' \<longleftrightarrow> holds m u k' \<or> k' = k \<and> u \<in> set g" if "u \<noteq> t" for u k'
    using eff that by (auto simp: holds_def l)
  have gk: "k \<in> set (info_keys i) \<and> \<not> holds m u k" if "u \<in> set g" "rm_txn_info m u = Some i" for u i
  proof -
    from eff that have "LockState_Contains u ?s" "u \<noteq> t" "\<not> holds m u k" by (auto simp: holds_def)
    then show ?thesis using rma_rel_invD(2) [OF assms(1), of u k] that(2) by (simp add: keys_of_def)
  qed
  have ok: "info_ok req m' u (if u \<in> set g then dec_info i else i)"
    if "u \<noteq> t" "rm_txn_info m u = Some i" for u i
  proof (cases "u \<in> set g")
    case True
    have o: "info_ok req m u i" using rma_rel_invD(3) [OF assms(1) that] .
    have "length (filter (holds m' u) (info_keys i)) = Suc (length (filter (holds m u) (info_keys i)))"
      using o gk [OF True that(2)] h [OF that(1)] True
      by (intro filter_add_one [where x = k]) (auto simp: info_ok_def)
    with o True show ?thesis by (simp add: info_ok_def dec_info_def)
  next
    case False
    then have "holds m' u = holds m u" using h [OF that(1)] by auto
    then show ?thesis using rma_rel_invD(3) [OF assms(1) that] False by (simp add: info_ok_def)
  qed
  have ky: "keys_of m' u = keys_of m u" for u
    by (auto simp: keys_of_def m'_def info_def dec_info_def split: option.splits)
  have "rma_rel_inv req t ks m'"
    unfolding rma_rel_inv_def
  proof (intro conjI allI impI)
    fix k' show "ls_inv (lock_at m' k')" using eff rma_rel_invD(1) [OF assms(1)] by (simp add: l)
    fix u show "LockState_Contains u (lock_at m' k') = (if u = t then k' \<in> set ks else k' \<in> keys_of m' u)"
      using eff rma_rel_invD(2) [OF assms(1), of u k'] assms(2) by (auto simp: l ky)
  next
    fix u i assume "u \<noteq> t" "rm_txn_info m' u = Some i"
    then show "info_ok req m' u i" using ok [of u] by (auto simp: m'_def info_def split: if_splits)
  qed
  moreover have "\<not> ready m u" if "u \<in> set g" for u
  proof -
    have "u \<noteq> t" using eff that by auto
    then show ?thesis
      using info_ok_ready [OF rma_rel_invD(3) [OF assms(1)]] gk [OF that] by (auto simp: ready_def)
  qed
  ultimately show ?thesis using res eff by (intro exI [of _ m'] exI [of _ g]) (auto simp: m'_def info_def)
qed

lemma rma_release_loop_spec:
  assumes "rma_rel_inv req t ks m" "distinct ks"
  shows "\<exists>m' res'. rma_release_loop t ks (m, res) = Inr (m', res @ res') \<and> rma_rel_inv req t [] m' \<and>
    set res' = {u. u \<noteq> t \<and> ready m' u \<and> \<not> ready m u} \<and>
    (\<forall>u. u \<noteq> t \<longrightarrow> ready m u \<longrightarrow> rm_txn_info m' u = rm_txn_info m u) \<and>
    rm_txn_info m' t = rm_txn_info m t"
  using assms
proof (induction ks arbitrary: m res)
  case Nil
  then show ?case by (intro exI [of _ m] exI [of _ "[]"]) auto
next
  case (Cons k ks)
  from RMA_release_key_step [OF Cons.prems(1), of res] Cons.prems(2) obtain m1 g where
    step: "RMA_release_key t k (m, res) = Inr (m1, res @ filter (ready m1) g)" and
    inv: "rma_rel_inv req t ks m1" and g: "\<forall>u\<in>set g. u \<noteq> t \<and> \<not> ready m u" and
    same: "\<forall>u. u \<notin> set g \<longrightarrow> rm_txn_info m1 u = rm_txn_info m u" by auto
  from Cons.IH [OF inv, of "res @ filter (ready m1) g"] Cons.prems(2) obtain m' res' where
    loop: "rma_release_loop t ks (m1, res @ filter (ready m1) g) = Inr (m', (res @ filter (ready m1) g) @ res')"
    and inv': "rma_rel_inv req t [] m'" and res': "set res' = {u. u \<noteq> t \<and> ready m' u \<and> \<not> ready m1 u}"
    and keep: "\<forall>u. u \<noteq> t \<longrightarrow> ready m1 u \<longrightarrow> rm_txn_info m' u = rm_txn_info m1 u"
    and t: "rm_txn_info m' t = rm_txn_info m1 t" by auto
  have same_ready: "ready m1 u = ready m u" if "u \<notin> set g" for u
    using same that by (simp add: ready_def)
  have keep_ready: "ready m' u" if "u \<noteq> t" "ready m1 u" for u
    using keep that by (simp add: ready_def)
  have "set (filter (ready m1) g @ res') = {u. u \<noteq> t \<and> ready m' u \<and> \<not> ready m u}"
    using res' g same_ready keep_ready by auto
  moreover have "rm_txn_info m' u = rm_txn_info m u" if "u \<noteq> t" "ready m u" for u
    using that g same keep same_ready by metis
  moreover have "rm_txn_info m' t = rm_txn_info m t" using t same g by metis
  ultimately show ?case
    using step loop inv' by (intro exI [of _ m'] exI [of _ "filter (ready m1) g @ res'"]) simp
qed

lemma RMA_ReleaseLocks_spec:
  assumes "rma_inv req m"
  shows "\<exists>m' res. RMA_ReleaseLocks t m = Inr (res, m') \<and> rma_inv req m' \<and>
    sorted res \<and> distinct res \<and> set res = {u. u \<noteq> t \<and> ready m' u \<and> \<not> ready m u} \<and>
    (\<forall>u. u \<noteq> t \<longrightarrow> ready m u \<longrightarrow> ready m' u) \<and> rm_txn_info m' t = None"
proof (cases "rm_txn_info m t")
  case None
  then show ?thesis using assms by (intro exI [of _ m] exI [of _ "[]"]) (auto simp: RMA_ReleaseLocks_def)
next
  case (Some i)
  have "rma_rel_inv req t (info_keys i) m"
    using assms Some by (auto simp: rma_rel_inv_def rma_inv_def keys_of_def)
  moreover have "distinct (info_keys i)" using rma_invD(3) [OF assms Some] by (simp add: info_ok_def)
  ultimately obtain m1 res where
    loop: "rma_release_loop t (info_keys i) (m, []) = Inr (m1, res)" and inv: "rma_rel_inv req t [] m1"
    and res: "set res = {u. u \<noteq> t \<and> ready m1 u \<and> \<not> ready m u}"
    and keep: "\<forall>u. u \<noteq> t \<longrightarrow> ready m u \<longrightarrow> rm_txn_info m1 u = rm_txn_info m u"
    using rma_release_loop_spec [of req t "info_keys i" m "[]"] by auto
  define m' where "m' = m1\<lparr>rm_txn_info := (rm_txn_info m1)(t := None)\<rparr>"
  have l: "lock_at m' = lock_at m1" by (simp add: lock_at_def m'_def fun_eq_iff)
  have r: "ready m' u = ready m1 u" if "u \<noteq> t" for u using that by (simp add: ready_def m'_def)
  have "holds m' = holds m1" by (simp add: holds_def fun_eq_iff l)
  then have "rma_inv req m'"
    using inv unfolding rma_inv_def rma_rel_inv_def l
    by (auto simp: m'_def keys_of_def info_ok_def)
  moreover have "RMA_ReleaseLocks t m = Inr (sort_unique res, m')"
    by (simp add: RMA_ReleaseLocks_def Some loop m'_def)
  moreover have "ready m' u" if "u \<noteq> t" "ready m u" for u
    using that keep r by (simp add: ready_def)
  ultimately show ?thesis
    using res r by (intro exI [of _ m'] exI [of _ "sort_unique res"]) (auto simp: m'_def)
qed

subsection \<open>Runs of the manager\<close>

datatype lm_op = LMAcquire Transaction | LMRelease TxnId

text \<open>One call by the scheduler; the output lists the transactions it may dispatch.\<close>

fun rma_step :: "RMALockManager \<Rightarrow> lm_op \<Rightarrow> (RMALockManager \<times> TxnId list) result" where
  "rma_step m (LMAcquire txn) =
     (case RMA_AcquireLocks txn m of (r, m') \<Rightarrow> Inr (m', if r = ACQUIRED then [tx_id txn] else []))"
| "rma_step m (LMRelease t) = rbind (RMA_ReleaseLocks t m) (\<lambda>(res, m'). Inr (m', res))"

text \<open>
  The obligations of the caller: the transaction announces \<open>req\<close> locks, asks for no
  key twice and for no more keys than announced.
\<close>

fun lm_op_ok :: "(TxnId \<Rightarrow> nat) \<Rightarrow> RMALockManager \<Rightarrow> lm_op \<Rightarrow> bool" where
  "lm_op_ok req m (LMAcquire txn) \<longleftrightarrow> num_required_locks txn = req (tx_id txn) \<and>
     distinct (map fst (rma_requests txn)) \<and>
     (\<forall>k\<in>set (map fst (rma_requests txn)). k \<notin> keys_of m (tx_id txn)) \<and>
     card (keys_of m (tx_id txn)) + length (rma_requests txn) \<le> req (tx_id txn)"
| "lm_op_ok req m (LMRelease t) \<longleftrightarrow> True"

fun ok_run :: "(RMALockManager \<Rightarrow> lm_op \<Rightarrow> bool) \<Rightarrow> RMALockManager \<Rightarrow> lm_op list \<Rightarrow> bool" where
  "ok_run ok m [] \<longleftrightarrow> True"
| "ok_run ok m (op # ops) \<longleftrightarrow> ok m op \<and> (case rma_step m op of Inl _ \<Rightarrow> True | Inr (m', _) \<Rightarrow> ok_run ok m' ops)"

lemma RMA_AcquireLocks_inv:
  assumes "rma_inv req m" "lm_op_ok req m (LMAcquire txn)" "RMA_AcquireLocks txn m = (r, m')"
  shows "rma_inv req m' \<and> (r = ACQUIRED \<longleftrightarrow> ready m' (tx_id txn)) \<and> r \<noteq> ABORT \<and>
    keys_of m' (tx_id txn) = keys_of m (tx_id txn) \<union> fst ` set (rma_requests txn) \<and>
    rm_txn_info m' (tx_id txn) \<noteq> None \<and>
    (\<forall>u. u \<noteq> tx_id txn \<longrightarrow> rm_txn_info m' u = rm_txn_info m u)"
proof -
  let ?t = "tx_id txn"
  define m1 where "m1 = (case rm_txn_info m ?t of
      None \<Rightarrow> m\<lparr>rm_txn_info := (rm_txn_info m)(?t \<mapsto>
        \<lparr>num_waiting_for = int (num_required_locks txn), info_keys = []\<rparr>)\<rparr>
    | Some _ \<Rightarrow> m)"
  have l: "lock_at m1 = lock_at m" by (auto simp: m1_def lock_at_def fun_eq_iff split: option.split)
  have h: "holds m1 = holds m" by (simp add: holds_def l fun_eq_iff)
  have k: "keys_of m1 = keys_of m" by (auto simp: m1_def keys_of_def fun_eq_iff split: option.splits)
  obtain i where i: "rm_txn_info m1 ?t = Some i" by (cases "rm_txn_info m ?t") (auto simp: m1_def)
  have others: "rm_txn_info m1 u = rm_txn_info m u" if "u \<noteq> ?t" for u
    using that by (auto simp: m1_def split: option.split)
  have ok: "info_ok req m1 u j" if "rm_txn_info m1 u = Some j" for u j
  proof (cases "rm_txn_info m u")
    case None
    with that have "j = \<lparr>num_waiting_for = int (num_required_locks txn), info_keys = []\<rparr>" "u = ?t"
      by (auto simp: m1_def split: option.splits if_splits)
    with assms(2) show ?thesis by (simp add: info_ok_def)
  next
    case (Some j')
    with that have "j' = j" by (auto simp: m1_def split: option.splits if_splits)
    with Some rma_invD(3) [OF assms(1)] show ?thesis by (simp add: info_ok_def h)
  qed
  have inv1: "rma_inv req m1" using assms(1) ok by (simp add: rma_inv_def l k)
  have ki: "keys_of m ?t = set (info_keys i)" using i by (simp add: k [symmetric] keys_of_def)
  have "distinct (info_keys i)" using ok [OF i] by (simp add: info_ok_def)
  then have d: "distinct (info_keys i @ map fst (rma_requests txn))"
    "length (info_keys i) + length (rma_requests txn) \<le> req ?t"
    using assms(2) by (auto simp: ki distinct_card)
  define m2 where "m2 = foldl (\<lambda>m (k, ty). RMA_request ?t k ty m) m1 (rma_requests txn)"
  from RMA_requests_inv [OF inv1 i d] obtain i2 where
    m2: "rma_inv req m2" "rm_txn_info m2 ?t = Some i2" "info_keys i2 = info_keys i @ map fst (rma_requests txn)"
    "\<forall>u. u \<noteq> ?t \<longrightarrow> rm_txn_info m2 u = rm_txn_info m1 u" unfolding m2_def by blast
  have "RMA_AcquireLocks txn m = (if is_ready i2 then ACQUIRED else WAITING, m2)"
    using m2(2) by (simp add: RMA_AcquireLocks_def m1_def [symmetric] m2_def [symmetric] Let_def)
  then have r: "r = (if is_ready i2 then ACQUIRED else WAITING)" "m' = m2" using assms(3) by simp_all
  have "keys_of m2 ?t = keys_of m ?t \<union> fst ` set (rma_requests txn)"
    using m2(2,3) ki by (simp add: keys_of_def)
  with r m2 others show ?thesis by (simp add: ready_def)
qed

lemma rma_step_inv:
  assumes "rma_inv req m" "lm_op_ok req m op"
  shows "\<exists>m' outs. rma_step m op = Inr (m', outs) \<and> rma_inv req m'"
proof (cases op)
  case (LMAcquire txn)
  obtain r m' where "RMA_AcquireLocks txn m = (r, m')" by fastforce
  with RMA_AcquireLocks_inv [OF assms(1), of txn] assms(2) LMAcquire show ?thesis by simp
next
  case (LMRelease t)
  with RMA_ReleaseLocks_spec [OF assms(1), of t] show ?thesis by auto
qed

lemma rma_run_inv:
  assumes "rma_inv req m" "ok_run ok m ops" "\<And>m op. ok m op \<Longrightarrow> lm_op_ok req m op"
  shows "\<exists>m' outs. run_ops rma_step m ops = Inr (m', outs) \<and> rma_inv req m'"
  using assms(1,2)
proof (induction ops arbitrary: m)
  case Nil
  then show ?case by simp
next
  case (Cons op ops)
  then obtain m1 o1 where s: "rma_step m op = Inr (m1, o1)" "rma_inv req m1"
    using rma_step_inv assms(3) by (metis ok_run.simps(2))
  with Cons.prems(2) have "ok_run ok m1 ops" by simp
  from Cons.IH [OF s(2) this] s(1) show ?case by auto
qed

lemma rma_inv_new: "rma_inv req RMALockManager_new"
  by (simp add: rma_inv_def RMALockManager_new_def lock_at_def keys_of_def LockState_Contains_def
      LockState_new_def ls_inv_def)

subsection \<open>The locks as histories of requests\<close>

text \<open>
  The requests and releases that one call makes on the lock of one key, and the whole
  history of that lock: the manager is a family of independent locks, one per key.
\<close>

fun key_ops :: "KeyRegion \<Rightarrow> lm_op \<Rightarrow> lk_op list" where
  "key_ops k (LMAcquire txn) =
     map (\<lambda>r. case snd r of KeyRead \<Rightarrow> LkRead (tx_id txn) | KeyWrite \<Rightarrow> LkWrite (tx_id txn))
       (filter (\<lambda>r. fst r = k) (rma_requests txn))"
| "key_ops k (LMRelease t) = [LkRelease t]"

definition key_history :: "lm_op list \<Rightarrow> KeyRegion \<Rightarrow> lk_op list" where
  "key_history ops k = concat (map (key_ops k) ops)"

lemma lock_at_request:
  "lock_at (RMA_request t k ty m) k' =
     (if k' = k then snd (case ty of KeyRead \<Rightarrow> LockState_AcquireReadLock t (lock_at m k)
        | KeyWrite \<Rightarrow> LockState_AcquireWriteLock t (lock_at m k)) else lock_at m k')"
proof -
  obtain b s' where a: "(case ty of KeyRead \<Rightarrow> LockState_AcquireReadLock t (lock_at m k)
      | KeyWrite \<Rightarrow> LockState_AcquireWriteLock t (lock_at m k)) = (b, s')" by fastforce
  have "rm_lock_table (RMA_request t k ty m) = (rm_lock_table m)(k \<mapsto> s')"
    by (simp add: RMA_request_def a Let_def)
  then have "lock_at (RMA_request t k ty m) k' = (if k' = k then s' else lock_at m k')"
    by (simp add: lock_at_def)
  then show ?thesis by (simp add: a)
qed

lemma lock_at_requests:
  "lock_at (foldl (\<lambda>m (k, ty). RMA_request t k ty m) m rs) k =
     foldl rma_lock_step (lock_at m k)
       (map (\<lambda>r. case snd r of KeyRead \<Rightarrow> LkRead t | KeyWrite \<Rightarrow> LkWrite t) (filter (\<lambda>r. fst r = k) rs))"
proof (induction rs arbitrary: m)
  case (Cons r rs)
  show ?case
    by (cases r; cases "snd r") (use Cons in \<open>auto simp: lock_at_request\<close>)
qed simp

lemma lock_at_acquire:
  assumes "RMA_AcquireLocks txn m = (r, m')"
  shows "lock_at m' k = foldl rma_lock_step (lock_at m k) (key_ops k (LMAcquire txn))"
proof -
  define m1 where "m1 = (case rm_txn_info m (tx_id txn) of
      None \<Rightarrow> m\<lparr>rm_txn_info := (rm_txn_info m)(tx_id txn \<mapsto>
        \<lparr>num_waiting_for = int (num_required_locks txn), info_keys = []\<rparr>)\<rparr>
    | Some _ \<Rightarrow> m)"
  have "lock_at m1 k = lock_at m k" by (auto simp: m1_def lock_at_def split: option.split)
  moreover have "m' = foldl (\<lambda>m (k, ty). RMA_request (tx_id txn) k ty m) m1 (rma_requests txn)"
    using assms by (simp add: RMA_AcquireLocks_def m1_def [symmetric] Let_def)
  ultimately show ?thesis by (simp add: lock_at_requests)
qed

lemma lock_at_release_key:
  assumes "RMA_release_key t k (m, res) = Inr (m', res')"
  shows "lock_at m' k' = (if k' = k then rma_lock_step (lock_at m k) (LkRelease t) else lock_at m k')"
proof (cases "rm_lock_table m k")
  case None
  with assms have "m' = m" by (simp add: RMA_release_key_def)
  moreover have "rma_lock_step LockState_new (LkRelease t) = LockState_new"
    by (simp add: LockState_release_set_def LockState_Release_def LockState_new_def)
  ultimately show ?thesis using None by (simp add: lock_at_def)
next
  case (Some ls)
  obtain g ls' where r: "LockState_Release t ls = (g, ls')" by fastforce
  from assms Some r have "rm_lock_table m' = (rm_lock_table m)(k \<mapsto> ls')"
    by (auto simp: RMA_release_key_def rbind_eq_Inr)
  with Some r show ?thesis by (simp add: lock_at_def LockState_release_set_def)
qed

lemma lock_at_release_loop:
  assumes "rma_release_loop t ks (m, res) = Inr (m', res')" "distinct ks"
  shows "lock_at m' k = (if k \<in> set ks then rma_lock_step (lock_at m k) (LkRelease t) else lock_at m k)"
  using assms
proof (induction ks arbitrary: m res)
  case (Cons k0 ks)
  then obtain m1 res1 where s: "RMA_release_key t k0 (m, res) = Inr (m1, res1)"
    "rma_release_loop t ks (m1, res1) = Inr (m', res')" by (auto simp: rbind_eq_Inr)
  from Cons.IH [OF s(2)] lock_at_release_key [OF s(1), of k] Cons.prems(2) show ?case by auto
qed simp

lemma release_stranger: "\<not> LockState_Contains t s \<Longrightarrow> rma_lock_step s (LkRelease t) = s"
  by (auto simp: LockState_release_set_def LockState_Release_def LockState_Contains_def filter_id_conv)

lemma lock_at_release:
  assumes "rma_inv req m" "RMA_ReleaseLocks t m = Inr (res, m')"
  shows "lock_at m' k = rma_lock_step (lock_at m k) (LkRelease t)"
proof (cases "rm_txn_info m t")
  case None
  then have "\<not> LockState_Contains t (lock_at m k)" using rma_invD(2) [OF assms(1), of t k] by (simp add: keys_of_def)
  then show ?thesis using None assms(2) release_stranger by (simp add: RMA_ReleaseLocks_def)
next
  case (Some i)
  with assms(2) obtain m1 res1 where loop: "rma_release_loop t (info_keys i) (m, []) = Inr (m1, res1)"
    and m': "m' = m1\<lparr>rm_txn_info := (rm_txn_info m1)(t := None)\<rparr>"
    by (auto simp: RMA_ReleaseLocks_def rbind_eq_Inr)
  have "distinct (info_keys i)" using rma_invD(3) [OF assms(1) Some] by (simp add: info_ok_def)
  note l = lock_at_release_loop [OF loop this, of k]
  have "lock_at m' k = lock_at m1 k" by (simp add: m' lock_at_def)
  moreover have "k \<notin> set (info_keys i) \<Longrightarrow> rma_lock_step (lock_at m k) (LkRelease t) = lock_at m k"
    using rma_invD(2) [OF assms(1), of t k] Some release_stranger by (simp add: keys_of_def)
  ultimately show ?thesis using l by (cases "k \<in> set (info_keys i)") simp_all
qed

lemma filter_fst_distinct:
  "distinct (map fst rs) \<Longrightarrow> filter (\<lambda>r. fst r = k) rs = (case map_of rs k of None \<Rightarrow> [] | Some v \<Rightarrow> [(k, v)])"
  by (induction rs) (force simp: filter_empty_conv split: option.splits)+

lemma key_ops_legal:
  assumes "rma_inv req m" "lm_op_ok req m op"
  shows "all_steps rma_lock_step rma_lock_legal (lock_at m k) (key_ops k op)"
proof (cases op)
  case (LMAcquire txn)
  show ?thesis
  proof (cases "map_of (rma_requests txn) k")
    case None
    then show ?thesis using assms(2) LMAcquire by (simp add: filter_fst_distinct)
  next
    case (Some ty)
    then have "k \<in> fst ` set (rma_requests txn)" by (force dest: map_of_SomeD)
    then have "\<not> LockState_Contains (tx_id txn) (lock_at m k)"
      using assms(2) LMAcquire rma_invD(2) [OF assms(1)] by auto
    then show ?thesis using assms(2) LMAcquire Some
      by (cases ty) (simp_all add: filter_fst_distinct rma_lock_legal_def)
  qed
next
  case (LMRelease t)
  then show ?thesis by (simp add: rma_lock_legal_def)
qed

lemma rma_step_lock_at:
  assumes "rma_inv req m" "rma_step m op = Inr (m', outs)"
  shows "lock_at m' k = foldl rma_lock_step (lock_at m k) (key_ops k op)"
  using assms lock_at_acquire [of _ m] lock_at_release [OF assms(1)]
  by (cases op) (auto simp: rbind_eq_Inr split: prod.splits)

lemma rma_run_agrees:
  assumes "rma_inv req m" "ok_run (lm_op_ok req) m ops" "run_ops rma_step m ops = Inr (m', outs)"
    and "rma.agrees R (lock_at m k)"
  shows "rma.agrees (foldl request_step R (key_history ops k)) (lock_at m' k)"
  using assms
proof (induction ops arbitrary: m outs R)
  case Nil
  then show ?case by (simp add: key_history_def)
next
  case (Cons op ops)
  from Cons.prems(3) obtain m1 o1 o2 where
    s: "rma_step m op = Inr (m1, o1)" "run_ops rma_step m1 ops = Inr (m', o2)" by (rule run_ops_ConsE)
  with Cons.prems(2) have ok: "lm_op_ok req m op" "ok_run (lm_op_ok req) m1 ops" by simp_all
  have inv: "rma_inv req m1" using rma_step_inv [OF Cons.prems(1) ok(1)] s(1) by auto
  have "rma.agrees (foldl request_step R (key_ops k op)) (lock_at m1 k)"
    using rma.run_agrees [OF _ rma_invD(1) [OF Cons.prems(1)] Cons.prems(4)]
      key_ops_legal [OF Cons.prems(1) ok(1)] rma_step_lock_at [OF Cons.prems(1) s(1), of k]
    by (simp add: rma_legal_eq)
  from Cons.IH [OF inv ok(2) s(2) this] show ?case by (simp add: key_history_def)
qed

lemma rma_run_requested:
  assumes "ok_run (lm_op_ok req) RMALockManager_new ops" "run_ops rma_step RMALockManager_new ops = Inr (m, outs)"
  shows "rma.agrees (requested (key_history ops k)) (lock_at m k)"
  using rma_run_agrees [OF rma_inv_new assms] rma_agrees_new
  by (simp add: requested_def lock_at_def RMALockManager_new_def)

lemma ready_holds:
  assumes "rma_inv req m" "ready m t" "LockState_Contains t (lock_at m k)"
  shows "holds m t k"
  using assms info_ok_ready [OF rma_invD(3) [OF assms(1)]] rma_invD(2) [OF assms(1), of t k]
  by (auto simp: ready_def keys_of_def split: option.splits)

text \<open>
  C1: isolation, against the modes the transactions asked for.  Whatever the scheduler
  asks for and releases, the lock manager does not fail, and a transaction counts as
  ready exactly when it has requested all the locks it announced and holds every one of
  them.  Every lock is held in the mode in which each of its holders asked for it.  Two
  ready transactions that have asked for the same lock have both asked to read it, and
  the lock is in READ mode.
\<close>
theorem rma_isolation:
  assumes "ok_run (lm_op_ok req) RMALockManager_new ops"
  shows "\<exists>m outs. run_ops rma_step RMALockManager_new ops = Inr (m, outs) \<and>
    (\<forall>t. ready m t \<longleftrightarrow> (\<exists>i. rm_txn_info m t = Some i \<and> length (info_keys i) = req t \<and>
      (\<forall>k\<in>set (info_keys i). holds m t k))) \<and>
    (\<forall>t k. holds m t k \<longrightarrow> requested (key_history ops k) t = Some (ls_mode (lock_at m k))) \<and>
    (\<forall>t u k a b. ready m t \<and> ready m u \<and> t \<noteq> u \<and> requested (key_history ops k) t = Some a \<and>
      requested (key_history ops k) u = Some b \<longrightarrow> a = READ \<and> b = READ) \<and>
    (\<forall>t u k. ready m t \<and> ready m u \<and> t \<noteq> u \<and> holds m t k \<and> holds m u k \<longrightarrow> ls_mode (lock_at m k) = READ)"
proof -
  from rma_run_inv [OF rma_inv_new assms] obtain m outs where
    r: "run_ops rma_step RMALockManager_new ops = Inr (m, outs)" and inv: "rma_inv req m" by blast
  have "ready m t \<longleftrightarrow> (\<exists>i. rm_txn_info m t = Some i \<and> length (info_keys i) = req t \<and>
      (\<forall>k\<in>set (info_keys i). holds m t k))" for t
    using info_ok_ready [OF rma_invD(3) [OF inv]] by (auto simp: ready_def)
  moreover have mode: "requested (key_history ops k) t = Some (ls_mode (lock_at m k))" if "holds m t k" for t k
    using rma_run_requested [OF assms r, of k] that by (simp add: rma.agrees_def holds_def)
  moreover have shared: "ls_mode (lock_at m k) = READ" if "t \<noteq> u" "holds m t k" "holds m u k" for t u k
    using ls_inv_shared [OF rma_invD(1) [OF inv]] that by (simp add: holds_def)
  moreover have "a = READ \<and> b = READ" if "ready m t" "ready m u" "t \<noteq> u"
    "requested (key_history ops k) t = Some a" "requested (key_history ops k) u = Some b" for t u k a b
  proof -
    have "LockState_Contains t (lock_at m k)" "LockState_Contains u (lock_at m k)"
      using rma_run_requested [OF assms r, of k] that(4,5)
      by (auto simp: LockState_Contains_members rma.agrees_def)
    then have "holds m t k" "holds m u k" using ready_holds [OF inv] that(1,2) by blast+
    with mode [of t k] mode [of u k] shared [OF that(3)] that(4,5) show ?thesis by simp
  qed
  ultimately show ?thesis using r by blast
qed

text \<open>A small scenario: two writers and a reader of the same key.\<close>

definition sample_txn :: "TxnId \<Rightarrow> (Key \<times> KeyType) list \<Rightarrow> Transaction" where
  "sample_txn t ks = default_txn\<lparr>tx_keys := map (\<lambda>(k, ty). sample_kv k ty 0) ks,
     tx_internal := default_internal\<lparr>ti_id := t\<rparr>\<rparr>"

lemma sample_txn_sel [simp]:
  "tx_id (sample_txn t ks) = t" "num_required_locks (sample_txn t ks) = length ks"
  "rma_requests (sample_txn t ks) = map (\<lambda>(k, ty). (MakeKeyRegion k 0, ty)) ks"
  by (auto simp: sample_txn_def tx_id_def default_txn_def default_internal_def num_required_locks_def
      is_remaster_def rma_requests_def filter_map comp_def intro!: map_cong filter_True)

lemmas rma_eval = RMALockManager_new_def RMA_AcquireLocks_def RMA_request_def RMA_ReleaseLocks_def
  RMA_release_key_def lock_at_def is_ready_def ready_def holds_def keys_of_def Let_def
  LockState_new_def LockState_AcquireReadLock_def LockState_AcquireWriteLock_def LockState_Release_def
  sort_unique_def

theorem rma_isolation_witness:
  "let ops = [LMAcquire (sample_txn 1 [(''a'', KeyWrite)]), LMAcquire (sample_txn 2 [(''a'', KeyRead)]),
      LMAcquire (sample_txn 3 [(''a'', KeyRead)]), LMRelease 1]; k = MakeKeyRegion ''a'' 0 in
   \<exists>m. run_ops rma_step RMALockManager_new ops = Inr (m, [1, 2, 3]) \<and>
     ready m 2 \<and> ready m 3 \<and> requested (key_history ops k) 2 = Some READ \<and> ls_mode (lock_at m k) = READ"
proof -
  let ?ops = "[LMAcquire (sample_txn 1 [(''a'', KeyWrite)]), LMAcquire (sample_txn 2 [(''a'', KeyRead)]),
      LMAcquire (sample_txn 3 [(''a'', KeyRead)]), LMRelease 1]"
  let ?k = "MakeKeyRegion ''a'' 0"
  have ok: "ok_run (lm_op_ok (\<lambda>_. 1)) RMALockManager_new ?ops" by (simp add: rma_eval)
  obtain m where r: "run_ops rma_step RMALockManager_new ?ops = Inr (m, [1, 2, 3])"
    and h: "ready m 2" "ready m 3" "holds m 2 ?k" "holds m 3 ?k"
    by (simp add: rma_eval)
  from rma_isolation [OF ok] obtain m2 outs where
    m2: "run_ops rma_step RMALockManager_new ?ops = Inr (m2, outs)"
    and q: "\<forall>t k. holds m2 t k \<longrightarrow> requested (key_history ?ops k) t = Some (ls_mode (lock_at m2 k))"
    and c: "\<forall>t u k. ready m2 t \<and> ready m2 u \<and> t \<noteq> u \<and> holds m2 t k \<and> holds m2 u k \<longrightarrow> ls_mode (lock_at m2 k) = READ"
    by blast
  from r m2 have "m2 = m" by (metis Inr_inject prod.inject)
  with c h have l: "ls_mode (lock_at m ?k) = READ" using c [rule_format, of 2 3 ?k] by simp
  with q [rule_format, of 2 ?k] h \<open>m2 = m\<close> have "requested (key_history ?ops ?k) 2 = Some READ" by simp
  with r h l show ?thesis unfolding Let_def by (intro exI [of _ m] conjI)
qed

text \<open>
  C19: in every reachable state, releasing a transaction succeeds, forgets it, keeps
  every other ready transaction ready, and returns, sorted and without repetition,
  exactly the transactions that this release made ready.
\<close>
theorem rma_release_exact:
  assumes "ok_run (lm_op_ok req) RMALockManager_new ops"
    and "run_ops rma_step RMALockManager_new ops = Inr (m, outs)"
  shows "\<exists>m' res. RMA_ReleaseLocks t m = Inr (res, m') \<and> rm_txn_info m' t = None \<and>
    (\<forall>u. u \<noteq> t \<longrightarrow> ready m u \<longrightarrow> ready m' u) \<and>
    sorted res \<and> distinct res \<and> set res = {u. u \<noteq> t \<and> ready m' u \<and> \<not> ready m u}"
proof -
  from rma_run_inv [OF rma_inv_new assms(1)] assms(2) have "rma_inv req m" by auto
  from RMA_ReleaseLocks_spec [OF this, of t] show ?thesis by blast
qed

theorem rma_release_exact_witness:
  "let ops = [LMAcquire (sample_txn 1 [(''a'', KeyWrite)]), LMAcquire (sample_txn 2 [(''a'', KeyRead), (''b'', KeyWrite)])] in
   \<exists>m m'. run_ops rma_step RMALockManager_new ops = Inr (m, [1]) \<and>
     RMA_ReleaseLocks 1 m = Inr ([2], m') \<and> rm_txn_info m' 1 = None \<and> {2} = {u. u \<noteq> 1 \<and> ready m' u \<and> \<not> ready m u}"
proof -
  let ?ops = "[LMAcquire (sample_txn 1 [(''a'', KeyWrite)]), LMAcquire (sample_txn 2 [(''a'', KeyRead), (''b'', KeyWrite)])]"
  have ne: "MakeKeyRegion ''a'' 0 \<noteq> MakeKeyRegion ''b'' 0" by (simp add: MakeKeyRegion_def)
  have ok: "ok_run (lm_op_ok (\<lambda>t. if t = 1 then 1 else 2)) RMALockManager_new ?ops"
    using ne by (simp add: rma_eval)
  obtain m where r: "run_ops rma_step RMALockManager_new ?ops = Inr (m, [1])"
    and x: "\<exists>m'. RMA_ReleaseLocks 1 m = Inr ([2], m')"
    using ne by (simp add: rma_eval)
  from x obtain m' where m': "RMA_ReleaseLocks 1 m = Inr ([2], m')" ..
  from rma_release_exact [OF ok r, of 1] m'
  have "rm_txn_info m' 1 = None" "{2} = {u. u \<noteq> 1 \<and> ready m' u \<and> \<not> ready m u}" by simp_all
  with r m' show ?thesis unfolding Let_def by blast
qed

subsection \<open>Requests in log order cannot deadlock\<close>

text \<open>
  \<open>seq\<close> is the position of a transaction in the log.  Every transaction asks for all
  its locks in one call, after all transactions that precede it in the log.
\<close>

fun log_order_ok :: "(TxnId \<Rightarrow> nat) \<Rightarrow> (TxnId \<Rightarrow> nat) \<Rightarrow> RMALockManager \<Rightarrow> lm_op \<Rightarrow> bool" where
  "log_order_ok seq req m (LMAcquire txn) \<longleftrightarrow> lm_op_ok req m (LMAcquire txn) \<and>
     length (rma_requests txn) = req (tx_id txn) \<and> rm_txn_info m (tx_id txn) = None \<and>
     (\<forall>u. rm_txn_info m u \<noteq> None \<longrightarrow> seq u < seq (tx_id txn))"
| "log_order_ok seq req m (LMRelease t) \<longleftrightarrow> True"

lemma log_order_ok_lm: "log_order_ok seq req m op \<Longrightarrow> lm_op_ok req m op"
  by (cases op) auto

definition lm_ordered :: "(TxnId \<Rightarrow> nat) \<Rightarrow> (TxnId \<Rightarrow> nat) \<Rightarrow> RMALockManager \<Rightarrow> bool" where
  "lm_ordered seq req m \<longleftrightarrow> (\<forall>k. rma.ordered seq (lock_at m k)) \<and>
     (\<forall>t i. rm_txn_info m t = Some i \<longrightarrow> length (info_keys i) = req t)"

lemma ordered_request:
  assumes "rma_inv req m" "rm_txn_info m t = Some i" "k \<notin> set (info_keys i)" "length (info_keys i) < req t"
    and "\<forall>k. rma.ordered seq (lock_at m k)" "\<forall>u. u \<noteq> t \<longrightarrow> rm_txn_info m u \<noteq> None \<longrightarrow> seq u < seq t"
  shows "rma.ordered seq (lock_at (RMA_request t k ty m) k')"
proof (cases "k' = k")
  case True
  have nc: "t \<notin> rma.members (lock_at m k)"
    using assms(2,3) rma_invD(2) [OF assms(1), of t k] by (simp add: keys_of_def LockState_Contains_members)
  have "seq u < seq t" if "u \<in> rma.members (lock_at m k)" for u
    using that assms(6) nc rma_invD(2) [OF assms(1), of u k]
    by (auto simp: keys_of_def LockState_Contains_members split: option.splits)
  then have "\<forall>u\<in>rma.members (lock_at m k). seq u < seq t" by blast
  from rma.ordered_acquire [OF rma_invD(1) [OF assms(1)] _ nc this] assms(5) True show ?thesis
    by (cases ty) (auto simp: lock_at_request prod_eq_iff)
qed (use assms(5) in \<open>simp add: lock_at_request\<close>)

lemma ordered_requests:
  assumes "rma_inv req m" "rm_txn_info m t = Some i" "distinct (info_keys i @ map fst rs)"
    and "length (info_keys i) + length rs \<le> req t"
    and "\<forall>k. rma.ordered seq (lock_at m k)" "\<forall>u. u \<noteq> t \<longrightarrow> rm_txn_info m u \<noteq> None \<longrightarrow> seq u < seq t"
  shows "\<forall>k. rma.ordered seq (lock_at (foldl (\<lambda>m (k, ty). RMA_request t k ty m) m rs) k)"
  using assms
proof (induction rs arbitrary: m i)
  case Nil
  then show ?case by simp
next
  case (Cons r rs)
  obtain k ty where r: "r = (k, ty)" by (cases r)
  have pre: "k \<notin> set (info_keys i)" "length (info_keys i) < req t" using Cons.prems(3,4) r by auto
  from RMA_request_inv [OF Cons.prems(1,2) pre, of ty] obtain j where
    j: "rma_inv req (RMA_request t k ty m)" "rm_txn_info (RMA_request t k ty m) t = Some j"
    "info_keys j = info_keys i @ [k]" "\<forall>u. u \<noteq> t \<longrightarrow> rm_txn_info (RMA_request t k ty m) u = rm_txn_info m u"
    by blast
  have "\<forall>k'. rma.ordered seq (lock_at (RMA_request t k ty m) k')"
    using ordered_request [OF Cons.prems(1,2) pre Cons.prems(5,6)] by blast
  from Cons.IH [OF j(1,2) _ _ this] j(3,4) Cons.prems(3,4,6) r show ?case by simp
qed

lemma RMA_AcquireLocks_ordered:
  assumes "rma_inv req m" "log_order_ok seq req m (LMAcquire txn)" "lm_ordered seq req m"
    and "RMA_AcquireLocks txn m = (r, m')"
  shows "lm_ordered seq req m'"
proof -
  let ?t = "tx_id txn"
  let ?i = "\<lparr>num_waiting_for = int (num_required_locks txn), info_keys = []\<rparr>"
  define m1 where "m1 = m\<lparr>rm_txn_info := (rm_txn_info m)(?t \<mapsto> ?i)\<rparr>"
  have new: "rm_txn_info m ?t = None" using assms(2) by simp
  have l: "lock_at m1 = lock_at m" by (simp add: m1_def lock_at_def fun_eq_iff)
  have i1: "rm_txn_info m1 = (rm_txn_info m)(?t \<mapsto> ?i)" by (simp add: m1_def)
  have inv1: "rma_inv req m1"
  proof -
    have "holds m1 = holds m" by (simp add: holds_def l fun_eq_iff)
    moreover have "keys_of m1 = keys_of m" using new by (auto simp: i1 keys_of_def fun_eq_iff)
    ultimately show ?thesis
      using assms(1,2) by (auto simp: rma_inv_def l info_ok_def i1)
  qed
  have "m' = foldl (\<lambda>m (k, ty). RMA_request ?t k ty m) m1 (rma_requests txn)"
    using assms(4) new by (simp add: RMA_AcquireLocks_def m1_def Let_def)
  moreover have "\<forall>k. rma.ordered seq (lock_at (foldl (\<lambda>m (k, ty). RMA_request ?t k ty m) m1 (rma_requests txn)) k)"
    using assms(2,3) by (intro ordered_requests [OF inv1, of ?t ?i]) (auto simp: i1 l lm_ordered_def)
  moreover obtain i2 where "rm_txn_info m' ?t = Some i2" "length (info_keys i2) = req ?t"
    "\<forall>u. u \<noteq> ?t \<longrightarrow> rm_txn_info m' u = rm_txn_info m u"
    using RMA_requests_inv [OF inv1, of ?t ?i "rma_requests txn"] assms(2) calculation(1)
    by (auto simp: i1)
  ultimately show ?thesis using assms(3) by (auto simp: lm_ordered_def) (metis option.inject)
qed

lemma rma_grant_keys:
  "rma_grant ts info res = Inr (info', res') \<Longrightarrow> map_option info_keys (info' u) = map_option info_keys (info u)"
proof (induction ts arbitrary: info res)
  case (Cons t ts)
  then obtain i where i: "info t = Some i" by (cases "info t") auto
  with Cons.prems have "rma_grant ts (info(t \<mapsto> i\<lparr>num_waiting_for := num_waiting_for i - 1\<rparr>))
      (if is_ready (i\<lparr>num_waiting_for := num_waiting_for i - 1\<rparr>) then res @ [t] else res) = Inr (info', res')"
    by (simp add: Let_def)
  from Cons.IH [OF this] i show ?case by (simp split: if_splits)
qed simp

lemma rma_release_loop_ordered:
  assumes "rma_release_loop t ks (m, res) = Inr (m', res')"
    and "\<forall>k. ls_inv (lock_at m k) \<and> rma.ordered seq (lock_at m k)"
  shows "(\<forall>k. ls_inv (lock_at m' k) \<and> rma.ordered seq (lock_at m' k)) \<and>
    (\<forall>u. map_option info_keys (rm_txn_info m' u) = map_option info_keys (rm_txn_info m u))"
  using assms
proof (induction ks arbitrary: m res)
  case Nil
  then show ?case by simp
next
  case (Cons k ks)
  then obtain m1 res1 where s: "RMA_release_key t k (m, res) = Inr (m1, res1)"
    "rma_release_loop t ks (m1, res1) = Inr (m', res')" by (auto simp: rbind_eq_Inr)
  have "(\<forall>k. ls_inv (lock_at m1 k) \<and> rma.ordered seq (lock_at m1 k)) \<and>
    (\<forall>u. map_option info_keys (rm_txn_info m1 u) = map_option info_keys (rm_txn_info m u))"
  proof (cases "rm_lock_table m k")
    case None
    with s(1) Cons.prems(2) show ?thesis by (simp add: RMA_release_key_def)
  next
    case (Some ls)
    obtain g ls' where r: "LockState_Release t ls = (g, ls')" by fastforce
    from s(1) Some r obtain info where g: "rma_grant g (rm_txn_info m) res = Inr (info, res1)"
      "rm_txn_info m1 = info" "rm_lock_table m1 = (rm_lock_table m)(k \<mapsto> ls')"
      by (auto simp: RMA_release_key_def rbind_eq_Inr)
    have "lock_at m k = ls" using Some by (simp add: lock_at_def)
    then have "ls_inv ls'" "rma.ordered seq ls'"
      using Cons.prems(2) release_effect [OF _ r] rma.ordered_release [of ls seq t "set g" ls'] r
      by (auto simp: LockState_release_set_def)
    then show ?thesis using Cons.prems(2) g rma_grant_keys [OF g(1)] by (auto simp: lock_at_def)
  qed
  with Cons.IH [OF s(2)] show ?case by auto
qed

lemma RMA_ReleaseLocks_ordered:
  assumes "rma_inv req m" "lm_ordered seq req m" "RMA_ReleaseLocks t m = Inr (res, m')"
  shows "lm_ordered seq req m'"
proof (cases "rm_txn_info m t")
  case None
  with assms(2,3) show ?thesis by (simp add: RMA_ReleaseLocks_def)
next
  case (Some i)
  with assms(3) obtain m1 res1 where loop: "rma_release_loop t (info_keys i) (m, []) = Inr (m1, res1)"
    and m': "m' = m1\<lparr>rm_txn_info := (rm_txn_info m1)(t := None)\<rparr>"
    by (auto simp: RMA_ReleaseLocks_def rbind_eq_Inr)
  have "\<forall>k. ls_inv (lock_at m k) \<and> rma.ordered seq (lock_at m k)"
    using assms(1,2) by (simp add: rma_inv_def lm_ordered_def)
  note o = rma_release_loop_ordered [OF loop this]
  have "lock_at m' = lock_at m1" by (simp add: m' lock_at_def fun_eq_iff)
  moreover have "length (info_keys j) = req u" if j: "rm_txn_info m' u = Some j" for u j
  proof -
    from j have "rm_txn_info m1 u = Some j" by (simp add: m' split: if_splits)
    with o have "map_option info_keys (rm_txn_info m u) = Some (info_keys j)" by (metis option.simps(9))
    then obtain z where "rm_txn_info m u = Some z" "info_keys z = info_keys j" by auto
    with assms(2) show ?thesis by (metis lm_ordered_def)
  qed
  ultimately show ?thesis using o by (simp add: lm_ordered_def)
qed

lemma rma_step_ordered:
  assumes "rma_inv req m" "lm_ordered seq req m" "log_order_ok seq req m op" "rma_step m op = Inr (m', outs)"
  shows "rma_inv req m' \<and> lm_ordered seq req m'"
proof -
  have "rma_inv req m'" using rma_step_inv [OF assms(1) log_order_ok_lm [OF assms(3)]] assms(4) by auto
  moreover have "lm_ordered seq req m'"
  proof (cases op)
    case (LMAcquire txn)
    with assms(4) obtain r where "RMA_AcquireLocks txn m = (r, m')" by (auto split: prod.splits)
    with RMA_AcquireLocks_ordered [OF assms(1) _ assms(2)] assms(3) LMAcquire show ?thesis by blast
  next
    case (LMRelease u)
    with assms(4) have "RMA_ReleaseLocks u m = Inr (outs, m')" by (auto simp: rbind_eq_Inr)
    with RMA_ReleaseLocks_ordered [OF assms(1,2)] show ?thesis by blast
  qed
  ultimately show ?thesis ..
qed

lemma rma_run_ordered:
  assumes "rma_inv req m" "lm_ordered seq req m" "ok_run (log_order_ok seq req) m ops"
    "run_ops rma_step m ops = Inr (m', outs)"
  shows "rma_inv req m' \<and> lm_ordered seq req m'"
  using assms
proof (induction ops arbitrary: m outs)
  case Nil
  then show ?case by simp
next
  case (Cons op ops)
  from Cons.prems(4) obtain m1 o1 o2 where
    s: "rma_step m op = Inr (m1, o1)" "run_ops rma_step m1 ops = Inr (m', o2)" by (rule run_ops_ConsE)
  with Cons.prems(3) have ok: "log_order_ok seq req m op" "ok_run (log_order_ok seq req) m1 ops" by simp_all
  from rma_step_ordered [OF Cons.prems(1,2) ok(1) s(1)] Cons.IH [OF _ _ ok(2) s(2)] show ?case by blast
qed

text \<open>
  C18: no deadlock.  If every transaction asks for all its locks at once and in the
  order of the log, then after any such requests and any releases the transaction
  that is first in the log among those not yet released holds all its locks, so some
  transaction can always run.
\<close>
theorem rma_deadlock_free:
  assumes "ok_run (log_order_ok seq req) RMALockManager_new ops"
    and "run_ops rma_step RMALockManager_new ops = Inr (m, outs)"
    and "rm_txn_info m t \<noteq> None" and "\<forall>u. rm_txn_info m u \<noteq> None \<longrightarrow> seq t \<le> seq u"
  shows "ready m t"
proof -
  have "lm_ordered seq req RMALockManager_new"
    by (simp add: lm_ordered_def RMALockManager_new_def lock_at_def rma.ordered_def LockState_new_def)
  with rma_run_ordered [OF rma_inv_new _ assms(1,2)] have inv: "rma_inv req m" and ord: "lm_ordered seq req m" by blast+
  obtain i where i: "rm_txn_info m t = Some i" using assms(3) by blast
  have "holds m t k" if k: "k \<in> set (info_keys i)" for k
  proof (rule ccontr)
    assume nh: "\<not> holds m t k"
    have "LockState_Contains t (lock_at m k)" using rma_invD(2) [OF inv] k i by (simp add: keys_of_def)
    with nh obtain x where x: "(t, x) \<in> set (ls_waiters (lock_at m k))"
      by (auto simp: LockState_Contains_def holds_def)
    then obtain h where h: "h \<in> set (ls_holders (lock_at m k))"
      using rma_invD(1) [OF inv, of k] by (cases "ls_holders (lock_at m k)") (auto simp: ls_inv_def)
    then have "seq h < seq t" using ord x by (fastforce simp: lm_ordered_def rma.ordered_def)
    moreover have "k \<in> keys_of m h" using h rma_invD(2) [OF inv, of h k] by (simp add: LockState_Contains_def)
    then have "rm_txn_info m h \<noteq> None" by (auto simp: keys_of_def split: option.splits)
    ultimately show False using assms(4) by (metis leD)
  qed
  then show ?thesis
    using info_ok_ready [OF rma_invD(3) [OF inv i]] i ord by (auto simp: ready_def lm_ordered_def)
qed

theorem rma_deadlock_free_witness:
  "let ops = [LMAcquire (sample_txn 1 [(''a'', KeyWrite)]), LMAcquire (sample_txn 2 [(''a'', KeyWrite)]),
      LMAcquire (sample_txn 3 [(''a'', KeyWrite)]), LMRelease 1] in
   \<exists>m. run_ops rma_step RMALockManager_new ops = Inr (m, [1, 2]) \<and> ready m 2"
proof -
  let ?ops = "[LMAcquire (sample_txn 1 [(''a'', KeyWrite)]), LMAcquire (sample_txn 2 [(''a'', KeyWrite)]),
      LMAcquire (sample_txn 3 [(''a'', KeyWrite)]), LMRelease 1]"
  have ok: "ok_run (log_order_ok unat (\<lambda>_. 1)) RMALockManager_new ?ops" by (simp add: rma_eval)
  obtain m where r: "run_ops rma_step RMALockManager_new ?ops = Inr (m, [1, 2])"
    and d: "rm_txn_info m 2 \<noteq> None" "\<forall>u. rm_txn_info m u \<noteq> None \<longrightarrow> unat (2 :: TxnId) \<le> unat u"
    by (simp add: rma_eval)
  from rma_deadlock_free [OF ok r d] r show ?thesis unfolding Let_def by (intro exI [of _ m] conjI)
qed

subsection \<open>\<^verbatim>\<open>OldLockManager\<close>\<close>

text \<open>
  The older manager locks plain keys and erases free lock states when its table grows
  beyond \<^verbatim>\<open>kLockTableSizeLimit\<close>.  \<open>Release\<close> returns a hash set; \<open>iter\<close> is the order in which
  such a set is traversed.
\<close>

definition kLockTableSizeLimit :: nat where
  "kLockTableSizeLimit = 1000000"

record OldLockManager =
  om_txn_info :: "TxnId \<rightharpoonup> TxnInfo"
  om_lock_table :: "Key \<rightharpoonup> OldLockState"
  om_num_locked_keys :: uint32

definition OldLockManager_new :: OldLockManager where
  "OldLockManager_new = \<lparr>om_txn_info = Map.empty, om_lock_table = Map.empty, om_num_locked_keys = 0\<rparr>"

definition old_lock_at :: "OldLockManager \<Rightarrow> Key \<Rightarrow> OldLockState" where
  "old_lock_at m k = (case om_lock_table m k of None \<Rightarrow> OldLockState_new | Some s \<Rightarrow> s)"

definition Old_request :: "TxnId \<Rightarrow> Key \<Rightarrow> KeyType \<Rightarrow> OldLockManager \<Rightarrow> OldLockManager" where
  "Old_request txn_id key ty m =
     (let lock_state = old_lock_at m key;
        (granted, lock_state') =
          (case ty of KeyRead \<Rightarrow> OldLockState_AcquireReadLock txn_id lock_state
           | KeyWrite \<Rightarrow> OldLockState_AcquireWriteLock txn_id lock_state);
        info = (case om_txn_info m txn_id of None \<Rightarrow> \<lparr>num_waiting_for = 0, info_keys = []\<rparr> | Some i \<Rightarrow> i) in
      m\<lparr>om_txn_info := (om_txn_info m)(txn_id \<mapsto>
            info\<lparr>info_keys := info_keys info @ [key],
                 num_waiting_for := num_waiting_for info - (if granted then 1 else 0)\<rparr>),
        om_lock_table := (om_lock_table m)(key \<mapsto> lock_state'),
        om_num_locked_keys := om_num_locked_keys m +
          (if old_mode lock_state = UNLOCKED \<and> old_mode lock_state' \<noteq> old_mode lock_state then 1 else 0)\<rparr>)"

definition old_requests :: "Transaction \<Rightarrow> (Key \<times> KeyType) list" where
  "old_requests txn =
     map (\<lambda>kv. (kv_key kv, ve_type (kv_entry kv)))
       (filter (\<lambda>kv. sint (kv_master kv) = ti_home (tx_internal txn)) (tx_keys txn))"

definition Old_AcquireLocks :: "Transaction \<Rightarrow> OldLockManager \<Rightarrow> AcquireLocksResult \<times> OldLockManager" where
  "Old_AcquireLocks txn m =
     (let m1 = (case om_txn_info m (tx_id txn) of
          None \<Rightarrow> m\<lparr>om_txn_info := (om_txn_info m)(tx_id txn \<mapsto>
            \<lparr>num_waiting_for = int (length (tx_keys txn)), info_keys = []\<rparr>)\<rparr>
        | Some _ \<Rightarrow> m);
        m2 = foldl (\<lambda>m (k, ty). Old_request (tx_id txn) k ty m) m1 (old_requests txn) in
      (case om_txn_info m2 (tx_id txn) of
         Some i \<Rightarrow> if is_ready i then ACQUIRED else WAITING
       | None \<Rightarrow> WAITING, m2))"

definition Old_release_key :: "(TxnId set \<Rightarrow> TxnId list) \<Rightarrow> TxnId \<Rightarrow> Key \<Rightarrow>
    OldLockManager \<times> TxnId list \<Rightarrow> (OldLockManager \<times> TxnId list) result" where
  "Old_release_key iter txn_id key mr =
     (let (m, res) = mr in
      case om_lock_table m key of
        None \<Rightarrow> Inr (m, res)
      | Some lock_state \<Rightarrow>
          let (new_grantees, lock_state') = OldLockState_Release txn_id lock_state;
            table = (om_lock_table m)(key \<mapsto> lock_state');
            table' = (if old_mode lock_state' = UNLOCKED \<and> card (dom table) > kLockTableSizeLimit
              then table(key := None) else table) in
          rbind (rma_grant (iter new_grantees) (om_txn_info m) res) (\<lambda>(info, res').
            Inr (m\<lparr>om_txn_info := info, om_lock_table := table',
                   om_num_locked_keys := om_num_locked_keys m -
                     (if old_mode lock_state' = UNLOCKED \<and> old_mode lock_state \<noteq> UNLOCKED then 1 else 0)\<rparr>,
                 res')))"

fun old_release_loop :: "(TxnId set \<Rightarrow> TxnId list) \<Rightarrow> TxnId \<Rightarrow> Key list \<Rightarrow>
    OldLockManager \<times> TxnId list \<Rightarrow> (OldLockManager \<times> TxnId list) result" where
  "old_release_loop iter txn_id [] mr = Inr mr"
| "old_release_loop iter txn_id (k # ks) mr =
     rbind (Old_release_key iter txn_id k mr) (old_release_loop iter txn_id ks)"

definition Old_ReleaseLocks :: "(TxnId set \<Rightarrow> TxnId list) \<Rightarrow> TxnId \<Rightarrow> OldLockManager \<Rightarrow>
    (TxnId list \<times> OldLockManager) result" where
  "Old_ReleaseLocks iter txn_id m =
     (case om_txn_info m txn_id of
        None \<Rightarrow> Inr ([], m)
      | Some info \<Rightarrow>
          rbind (old_release_loop iter txn_id (info_keys info) (m, [])) (\<lambda>(m', res).
            Inr (sort_unique res, m'\<lparr>om_txn_info := (om_txn_info m')(txn_id := None)\<rparr>)))"

end
