(* ===== verification/DDR.thy ===== *)
theory DDR
  imports Lock_Manager
begin

section \<open>The dependency-graph lock manager (\<^verbatim>\<open>DDRLockManager\<close>)\<close>

text \<open>
  \<open>DDRLockManager\<close> keeps, instead of lock queues, only the tail of each queue and a
  waits-for graph: every live transaction has the list of transactions waiting for it
  and a counter of the transactions it waits for.  This theory models the manager of
  \<^verbatim>\<open>ddr_lock_manager.cpp\<close>; the deadlock resolver that runs beside it is in the theory
  \<open>DDR_Resolver\<close>.
\<close>

definition kSentinelTxnId :: TxnId where
  "kSentinelTxnId = 0"

subsection \<open>Tail of a lock queue\<close>

record LockQueueTail =
  write_lock_requester :: "TxnId option"
  read_lock_requesters :: "TxnId list"

definition LockQueueTail_new :: LockQueueTail where
  "LockQueueTail_new = \<lparr>write_lock_requester = None, read_lock_requesters = []\<rparr>"

definition LockQueueTail_AcquireReadLock :: "TxnId \<Rightarrow> LockQueueTail \<Rightarrow> TxnId option \<times> LockQueueTail" where
  "LockQueueTail_AcquireReadLock txn_id q =
     (write_lock_requester q, q\<lparr>read_lock_requesters := read_lock_requesters q @ [txn_id]\<rparr>)"

definition LockQueueTail_AcquireWriteLock :: "TxnId \<Rightarrow> LockQueueTail \<Rightarrow> TxnId list \<times> LockQueueTail" where
  "LockQueueTail_AcquireWriteLock txn_id q =
     (if read_lock_requesters q = []
      then (case write_lock_requester q of None \<Rightarrow> [] | Some w \<Rightarrow> [w], q\<lparr>write_lock_requester := Some txn_id\<rparr>)
      else (read_lock_requesters q, q\<lparr>read_lock_requesters := [], write_lock_requester := Some txn_id\<rparr>))"

subsection \<open>The manager\<close>

record DDRTxnInfo =
  dt_waited_by :: "TxnId list"
  dt_num_waiting_for :: int
  dt_unarrived :: int
  dt_deadlocked :: bool

definition DDRTxnInfo_new :: "int \<Rightarrow> DDRTxnInfo" where
  "DDRTxnInfo_new unarrived = \<lparr>dt_waited_by = [kSentinelTxnId], dt_num_waiting_for = 0,
     dt_unarrived = unarrived, dt_deadlocked = False\<rparr>"

definition DDR_is_ready :: "DDRTxnInfo \<Rightarrow> bool" where
  "DDR_is_ready i \<longleftrightarrow> dt_num_waiting_for i = 0 \<and> dt_unarrived i = 0"

record LogEntry =
  le_txn_id :: TxnId
  le_num_partitions :: int
  le_is_complete :: bool
  le_incoming_edges :: "TxnId list"

record DDRLockManager =
  dm_lock_table :: "KeyRegion \<rightharpoonup> LockQueueTail"
  dm_txn_info :: "TxnId \<rightharpoonup> DDRTxnInfo"
  dm_log :: "LogEntry list \<times> LogEntry list"
  dm_log_index :: nat
  dm_ready_txns :: "TxnId list"
  dm_has_resolver :: bool
  dm_num_deadlocks_resolved :: nat

definition DDRLockManager_new :: "bool \<Rightarrow> DDRLockManager" where
  "DDRLockManager_new resolver = \<lparr>dm_lock_table = Map.empty, dm_txn_info = Map.empty,
     dm_log = ([], []), dm_log_index = 0, dm_ready_txns = [], dm_has_resolver = resolver,
     dm_num_deadlocks_resolved = 0\<rparr>"

definition append_log :: "LogEntry \<Rightarrow> DDRLockManager \<Rightarrow> DDRLockManager" where
  "append_log e m =
     (if dm_log_index m = 0 then m\<lparr>dm_log := (fst (dm_log m) @ [e], snd (dm_log m))\<rparr>
      else m\<lparr>dm_log := (fst (dm_log m), snd (dm_log m) @ [e])\<rparr>)"

text \<open>The loop over the requested keys, which collects the blocking transactions.\<close>

fun DDR_collect :: "TxnId \<Rightarrow> (KeyRegion \<times> KeyType) list \<Rightarrow> (KeyRegion \<rightharpoonup> LockQueueTail) \<Rightarrow>
    TxnId list \<Rightarrow> TxnId list \<times> (KeyRegion \<rightharpoonup> LockQueueTail)" where
  "DDR_collect txn_id [] table blocking = (blocking, table)"
| "DDR_collect txn_id ((k, ty) # rs) table blocking =
     (let tail = (case table k of None \<Rightarrow> LockQueueTail_new | Some q \<Rightarrow> q) in
      case ty of
        KeyRead \<Rightarrow>
          (let (b, tail') = LockQueueTail_AcquireReadLock txn_id tail in
           DDR_collect txn_id rs (table(k \<mapsto> tail'))
             (blocking @ (case b of None \<Rightarrow> [] | Some t \<Rightarrow> [t])))
      | KeyWrite \<Rightarrow>
          (let (bs, tail') = LockQueueTail_AcquireWriteLock txn_id tail in
           DDR_collect txn_id rs (table(k \<mapsto> tail')) (blocking @ bs)))"

text \<open>Adding one edge, skipping the transaction itself and transactions that already left.\<close>

definition DDR_add_edge :: "TxnId \<Rightarrow> (TxnId \<rightharpoonup> DDRTxnInfo) \<Rightarrow> TxnId \<Rightarrow> (TxnId \<rightharpoonup> DDRTxnInfo)" where
  "DDR_add_edge txn_id info b_txn =
     (if b_txn = txn_id then info
      else case info b_txn of
        None \<Rightarrow> info
      | Some bi \<Rightarrow>
          (case info txn_id of
             None \<Rightarrow> info
           | Some ti \<Rightarrow> info(txn_id \<mapsto> ti\<lparr>dt_num_waiting_for := dt_num_waiting_for ti + 1\<rparr>,
               b_txn \<mapsto> bi\<lparr>dt_waited_by := dt_waited_by bi @ [txn_id]\<rparr>)))"

definition DDR_AcquireLocks :: "Transaction \<Rightarrow> DDRLockManager \<Rightarrow> AcquireLocksResult \<times> DDRLockManager" where
  "DDR_AcquireLocks txn m =
     (let txn_id = tx_id txn; requests = rma_requests txn;
        num_relevant_locks = length requests;
        (blocking, table) = DDR_collect txn_id requests (dm_lock_table m) [];
        blocking_txns = sort_unique blocking;
        ti = (case dm_txn_info m txn_id of
            None \<Rightarrow> DDRTxnInfo_new (int (num_required_locks txn)) | Some i \<Rightarrow> i);
        ti' = ti\<lparr>dt_unarrived := dt_unarrived ti - int num_relevant_locks\<rparr>;
        is_complete = (dt_unarrived ti' = 0);
        info = foldl (DDR_add_edge txn_id) ((dm_txn_info m)(txn_id \<mapsto> ti')) blocking_txns;
        result = (case info txn_id of Some i \<Rightarrow> if DDR_is_ready i then ACQUIRED else WAITING | None \<Rightarrow> WAITING);
        m' = m\<lparr>dm_lock_table := table, dm_txn_info := info\<rparr> in
      (result,
       if dm_has_resolver m
       then append_log \<lparr>le_txn_id = txn_id,
          le_num_partitions = int (length (ti_involved_partitions (tx_internal txn))),
          le_is_complete = is_complete, le_incoming_edges = blocking_txns\<rparr> m'
       else m'))"

text \<open>
  The loop over the transactions that wait for the released one.  A blocked
  transaction that does not exist is only logged.
\<close>

fun DDR_unblock :: "TxnId list \<Rightarrow> (TxnId \<rightharpoonup> DDRTxnInfo) \<Rightarrow> (TxnId \<times> bool) list \<Rightarrow>
    (TxnId \<rightharpoonup> DDRTxnInfo) \<times> (TxnId \<times> bool) list" where
  "DDR_unblock [] info res = (info, res)"
| "DDR_unblock (b # bs) info res =
     (if b = kSentinelTxnId then DDR_unblock bs info res
      else case info b of
        None \<Rightarrow> DDR_unblock bs info res
      | Some i \<Rightarrow>
          let i' = i\<lparr>dt_num_waiting_for := dt_num_waiting_for i - 1\<rparr> in
          DDR_unblock bs (info(b \<mapsto> i'))
            (if DDR_is_ready i' then res @ [(b, dt_deadlocked i')] else res))"

definition DDR_ReleaseLocks :: "TxnId \<Rightarrow> DDRLockManager \<Rightarrow> ((TxnId \<times> bool) list \<times> DDRLockManager) result" where
  "DDR_ReleaseLocks txn_id m =
     (case dm_txn_info m txn_id of
        None \<Rightarrow> Inr ([], m)
      | Some i \<Rightarrow>
          if \<not> DDR_is_ready i then Inl (CheckFailed ''Releasing unready txn is forbidden'')
          else let (info, res) = DDR_unblock (dt_waited_by i) (dm_txn_info m) [] in
            Inr (res, m\<lparr>dm_txn_info := info(txn_id := None)\<rparr>))"

definition DDR_GetReadyTxns :: "DDRLockManager \<Rightarrow> TxnId list \<times> DDRLockManager" where
  "DDR_GetReadyTxns m = (dm_ready_txns m, m\<lparr>dm_ready_txns := []\<rparr>)"

subsection \<open>The waits-for graph\<close>

text \<open>
  \<open>in_edges info t\<close> counts the entries of \<open>t\<close> in the waited-by lists of the live
  transactions.  The graph is consistent when every counter has that value and
  every entry is live.
\<close>

definition waited_by_of :: "(TxnId \<rightharpoonup> DDRTxnInfo) \<Rightarrow> TxnId \<Rightarrow> TxnId list" where
  "waited_by_of info u = (case info u of None \<Rightarrow> [] | Some i \<Rightarrow> dt_waited_by i)"

definition in_edges :: "(TxnId \<rightharpoonup> DDRTxnInfo) \<Rightarrow> TxnId \<Rightarrow> nat" where
  "in_edges info t = (\<Sum>u\<in>UNIV. count_list (waited_by_of info u) t)"

definition graph_ok :: "(TxnId \<rightharpoonup> DDRTxnInfo) \<Rightarrow> bool" where
  "graph_ok info \<longleftrightarrow> info kSentinelTxnId = None \<and>
     (\<forall>t i. info t = Some i \<longrightarrow> dt_num_waiting_for i = int (in_edges info t)) \<and>
     (\<forall>u t. t \<in> set (waited_by_of info u) \<longrightarrow> t = kSentinelTxnId \<or> info t \<noteq> None)"

lemma graph_okD:
  assumes "graph_ok info"
  shows "info kSentinelTxnId = None"
    and "info t = Some i \<Longrightarrow> dt_num_waiting_for i = int (in_edges info t)"
    and "t \<in> set (waited_by_of info u) \<Longrightarrow> t = kSentinelTxnId \<or> info t \<noteq> None"
  using assms by (simp_all add: graph_ok_def)

lemma sum_update_one:
  fixes f g :: "'a::finite \<Rightarrow> nat"
  assumes "\<And>u. u \<noteq> a \<Longrightarrow> f u = g u"
  shows "(\<Sum>u\<in>UNIV. f u) + g a = (\<Sum>u\<in>UNIV. g u) + f a"
proof -
  have "(\<Sum>u\<in>UNIV - {a}. f u) = (\<Sum>u\<in>UNIV - {a}. g u)" using assms by (intro sum.cong) auto
  then show ?thesis
    using sum.remove [of UNIV a f] sum.remove [of UNIV a g] by simp
qed

lemma in_edges_upd:
  "in_edges (info(u \<mapsto> i)) t + count_list (waited_by_of info u) t = in_edges info t + count_list (dt_waited_by i) t"
  using sum_update_one [of u "\<lambda>v. count_list (waited_by_of (info(u \<mapsto> i)) v) t" "\<lambda>v. count_list (waited_by_of info v) t"]
  by (simp add: in_edges_def waited_by_of_def)

lemma in_edges_erase:
  "in_edges (info(u := None)) t + count_list (waited_by_of info u) t = in_edges info t"
  using sum_update_one [of u "\<lambda>v. count_list (waited_by_of (info(u := None)) v) t" "\<lambda>v. count_list (waited_by_of info v) t"]
  by (simp add: in_edges_def waited_by_of_def)

lemma waited_by_of_erase: "waited_by_of (info(t := None)) u = (if u = t then [] else waited_by_of info u)"
  by (simp add: waited_by_of_def)

lemma in_edges_0_iff: "in_edges info t = 0 \<longleftrightarrow> (\<forall>u. t \<notin> set (waited_by_of info u))"
  by (simp add: in_edges_def count_list_0_iff)

lemma in_edges_cong:
  "(\<And>u. waited_by_of info' u = waited_by_of info u) \<Longrightarrow> in_edges info' t = in_edges info t"
  by (simp add: in_edges_def)

text \<open>Adding an edge keeps the graph consistent and only adds.\<close>

lemma DDR_add_edge_waited_by:
  assumes "info txn \<noteq> None"
  shows "waited_by_of (DDR_add_edge txn info b) u =
    waited_by_of info u @ (if u = b \<and> b \<noteq> txn \<and> info b \<noteq> None then [txn] else [])"
  using assms by (auto simp: DDR_add_edge_def waited_by_of_def split: option.splits)

lemma DDR_add_edge_dom: "(DDR_add_edge txn info b) u = None \<longleftrightarrow> info u = None"
  by (auto simp: DDR_add_edge_def split: option.splits)

lemma in_edges_add_edge:
  assumes "info txn \<noteq> None"
  shows "in_edges (DDR_add_edge txn info b) t =
    in_edges info t + (if t = txn \<and> b \<noteq> txn \<and> info b \<noteq> None then 1 else 0)"
proof -
  have "in_edges (DDR_add_edge txn info b) t + count_list (waited_by_of info b) t =
      in_edges info t + count_list (waited_by_of (DDR_add_edge txn info b) b) t"
    unfolding in_edges_def
    by (rule sum_update_one) (simp add: DDR_add_edge_waited_by [of info txn, OF assms])
  then show ?thesis by (simp add: DDR_add_edge_waited_by [of info txn, OF assms] split: if_splits)
qed

lemma DDR_add_edge_num:
  assumes "info txn \<noteq> None" "info t = Some i" "(DDR_add_edge txn info b) t = Some i'"
  shows "dt_num_waiting_for i' =
      dt_num_waiting_for i + (if t = txn \<and> b \<noteq> txn \<and> info b \<noteq> None then 1 else 0)"
    and "dt_unarrived i' = dt_unarrived i" and "dt_deadlocked i' = dt_deadlocked i"
  using assms by (auto simp: DDR_add_edge_def split: option.splits if_splits)

lemma DDR_add_edge_ok:
  assumes "graph_ok info" "info txn \<noteq> None"
  shows "graph_ok (DDR_add_edge txn info b)"
proof -
  have "dt_num_waiting_for i' = int (in_edges (DDR_add_edge txn info b) t)"
    if "(DDR_add_edge txn info b) t = Some i'" for t i'
  proof -
    from that DDR_add_edge_dom [of txn info b t] obtain i where i: "info t = Some i" by auto
    show ?thesis
      using DDR_add_edge_num(1) [OF assms(2) i that] graph_okD(2) [OF assms(1) i] in_edges_add_edge [of info txn, OF assms(2)]
      by simp
  qed
  moreover have "t = kSentinelTxnId \<or> (DDR_add_edge txn info b) t \<noteq> None"
    if "t \<in> set (waited_by_of (DDR_add_edge txn info b) u)" for t u
    using that assms(2) graph_okD(3) [OF assms(1), of t u]
    by (auto simp: DDR_add_edge_waited_by [of info txn, OF assms(2)] DDR_add_edge_dom split: if_splits)
  ultimately show ?thesis
    using graph_okD(1) [OF assms(1)] by (simp add: graph_ok_def DDR_add_edge_dom)
qed

lemma DDR_add_edges_ok:
  assumes "graph_ok info" "info txn \<noteq> None"
  shows "graph_ok (foldl (DDR_add_edge txn) info bs) \<and>
    (\<forall>t. foldl (DDR_add_edge txn) info bs t = None \<longleftrightarrow> info t = None)"
  using assms
proof (induction bs arbitrary: info)
  case Nil
  then show ?case by simp
next
  case (Cons b bs)
  from Cons.IH [OF DDR_add_edge_ok [OF Cons.prems, of b]] Cons.prems(2) show ?case
    by (simp add: DDR_add_edge_dom)
qed

lemma DDR_add_edges_waited_by:
  assumes "info txn \<noteq> None"
  shows "set (waited_by_of (foldl (DDR_add_edge txn) info bs) u) =
    set (waited_by_of info u) \<union> (if u \<in> set bs \<and> u \<noteq> txn \<and> info u \<noteq> None then {txn} else {})"
  using assms
proof (induction bs arbitrary: info)
  case Nil
  then show ?case by simp
next
  case (Cons b bs)
  from Cons.IH [of "DDR_add_edge txn info b"] Cons.prems show ?case
    by (auto simp: DDR_add_edge_dom DDR_add_edge_waited_by)
qed

text \<open>A new transaction, or new requests of a known one.\<close>

lemma graph_ok_arrive:
  assumes "graph_ok info" "t \<noteq> kSentinelTxnId"
    and "i = (case info t of None \<Rightarrow> DDRTxnInfo_new n | Some i \<Rightarrow> i)"
  shows "graph_ok (info(t \<mapsto> i\<lparr>dt_unarrived := k\<rparr>))"
proof -
  let ?info = "info(t \<mapsto> i\<lparr>dt_unarrived := k\<rparr>)"
  have ie: "in_edges ?info u = in_edges info u" if "u \<noteq> kSentinelTxnId" for u
    using in_edges_upd [of info t "i\<lparr>dt_unarrived := k\<rparr>" u] that assms(3)
    by (auto simp: waited_by_of_def DDRTxnInfo_new_def split: option.splits)
  have "info t = None \<Longrightarrow> in_edges info t = 0"
    using graph_okD(3) [OF assms(1), of t] assms(2) by (auto simp: in_edges_0_iff)
  then have "dt_num_waiting_for j = int (in_edges ?info u)" if "?info u = Some j" for u j
    using that ie [of u] ie [of t] graph_okD(1) [OF assms(1)] graph_okD(2) [OF assms(1), of u] assms(2,3)
    by (cases "u = kSentinelTxnId"; cases "u = t") (auto simp: DDRTxnInfo_new_def split: option.splits)
  moreover have "u = kSentinelTxnId \<or> ?info u \<noteq> None" if "u \<in> set (waited_by_of ?info v)" for u v
    using that graph_okD(3) [OF assms(1), of u v] assms(3)
    by (auto simp: waited_by_of_def DDRTxnInfo_new_def split: if_splits option.splits)
  ultimately show ?thesis using graph_okD(1) [OF assms(1)] assms(2) by (simp add: graph_ok_def)
qed

lemma append_log_sel [simp]:
  "dm_txn_info (append_log e m) = dm_txn_info m" "dm_lock_table (append_log e m) = dm_lock_table m"
  by (simp_all add: append_log_def)

text \<open>What \<open>AcquireLocks\<close> does to the graph, and its result.\<close>

definition arrive :: "Transaction \<Rightarrow> (TxnId \<rightharpoonup> DDRTxnInfo) \<Rightarrow> (TxnId \<rightharpoonup> DDRTxnInfo)" where
  "arrive txn info =
     (let ti = (case info (tx_id txn) of None \<Rightarrow> DDRTxnInfo_new (int (num_required_locks txn)) | Some i \<Rightarrow> i) in
      info(tx_id txn \<mapsto> ti\<lparr>dt_unarrived := dt_unarrived ti - int (length (rma_requests txn))\<rparr>))"

definition DDR_ready :: "DDRLockManager \<Rightarrow> TxnId \<Rightarrow> bool" where
  "DDR_ready m t \<longleftrightarrow> (case dm_txn_info m t of None \<Rightarrow> False | Some i \<Rightarrow> DDR_is_ready i)"

lemma arrive_live [simp]: "arrive txn info (tx_id txn) \<noteq> None"
  by (simp add: arrive_def Let_def)

lemma arrive_other: "t \<noteq> tx_id txn \<Longrightarrow> arrive txn info t = info t"
  by (simp add: arrive_def Let_def)

lemma DDR_AcquireLocks_info:
  assumes "DDR_collect (tx_id txn) (rma_requests txn) (dm_lock_table m) [] = (blocking, table)"
    and "DDR_AcquireLocks txn m = (r, m')"
  shows "dm_txn_info m' = foldl (DDR_add_edge (tx_id txn)) (arrive txn (dm_txn_info m)) (sort_unique blocking)"
    and "dm_lock_table m' = table"
    and "r = (if DDR_ready m' (tx_id txn) then ACQUIRED else WAITING)"
  using assms by (auto simp: DDR_AcquireLocks_def arrive_def DDR_ready_def Let_def split: if_splits option.splits)

lemma graph_ok_arrive_txn:
  assumes "graph_ok info" "tx_id txn \<noteq> kSentinelTxnId"
  shows "graph_ok (arrive txn info)"
  unfolding arrive_def Let_def by (rule graph_ok_arrive [OF assms refl])

lemma DDR_AcquireLocks_ok:
  assumes "graph_ok (dm_txn_info m)" "tx_id txn \<noteq> kSentinelTxnId" "DDR_AcquireLocks txn m = (r, m')"
  shows "graph_ok (dm_txn_info m')"
proof -
  obtain blocking table where c: "DDR_collect (tx_id txn) (rma_requests txn) (dm_lock_table m) [] = (blocking, table)"
    by fastforce
  show ?thesis
    using DDR_add_edges_ok [OF graph_ok_arrive_txn [OF assms(1,2)] arrive_live]
    by (simp add: DDR_AcquireLocks_info(1) [OF c assms(3)])
qed

text \<open>What the release loop does to the counters.\<close>

lemma DDR_unblock_info:
  "fst (DDR_unblock bs info res) t =
     (case info t of None \<Rightarrow> None
      | Some i \<Rightarrow> Some (if t = kSentinelTxnId then i
          else i\<lparr>dt_num_waiting_for := dt_num_waiting_for i - int (count_list bs t)\<rparr>))"
proof (induction bs arbitrary: info res)
  case Nil
  then show ?case by (simp split: option.split)
next
  case (Cons b bs)
  show ?case
  proof (cases "b = kSentinelTxnId \<or> info b = None")
    case True
    then show ?thesis using Cons.IH [of info res] by (auto split: option.splits)
  next
    case False
    then obtain i where "b \<noteq> kSentinelTxnId" "info b = Some i" by auto
    then show ?thesis by (simp add: Let_def Cons.IH algebra_simps split: option.split)
  qed
qed

lemma DDR_unblock_waited_by:
  "waited_by_of (fst (DDR_unblock bs info res)) u = waited_by_of info u"
  by (simp add: waited_by_of_def DDR_unblock_info split: option.split)

text \<open>
  A waiting transaction whose counter is at least its number of entries becomes ready
  with its last entry only, so it is reported once.
\<close>

lemma DDR_unblock_res:
  assumes "\<And>t i. t \<noteq> kSentinelTxnId \<Longrightarrow> info t = Some i \<Longrightarrow> int (count_list bs t) \<le> dt_num_waiting_for i"
    and "distinct (map fst res)"
    and "\<And>t. t \<in> set (map fst res) \<Longrightarrow> t \<notin> set bs"
  shows "distinct (map fst (snd (DDR_unblock bs info res))) \<and>
    set (snd (DDR_unblock bs info res)) = set res \<union>
      {(t, dt_deadlocked i) | t i. t \<noteq> kSentinelTxnId \<and> t \<in> set bs \<and> info t = Some i \<and>
        dt_num_waiting_for i = int (count_list bs t) \<and> dt_unarrived i = 0}"
  using assms
proof (induction bs arbitrary: info res)
  case Nil
  then show ?case by simp
next
  case (Cons b bs)
  let ?new = "\<lambda>bs info. {(t, dt_deadlocked i) | t i. t \<noteq> kSentinelTxnId \<and> t \<in> set bs \<and> info t = Some i \<and>
        dt_num_waiting_for i = int (count_list bs t) \<and> dt_unarrived i = 0}"
  consider (skip) "b = kSentinelTxnId \<or> info b = None" | (live) i where "b \<noteq> kSentinelTxnId" "info b = Some i"
    by auto
  then show ?case
  proof cases
    case skip
    have pre: "int (count_list bs t) \<le> dt_num_waiting_for i" if "t \<noteq> kSentinelTxnId" "info t = Some i" for t i
      using Cons.prems(1) [OF that] by (simp split: if_splits)
    have un: "DDR_unblock (b # bs) info res = DDR_unblock bs info res" using skip by auto
    have "t \<noteq> kSentinelTxnId \<and> t \<in> set (b # bs) \<and> info t = Some i \<and>
          dt_num_waiting_for i = int (count_list (b # bs) t) \<and> dt_unarrived i = 0 \<longleftrightarrow>
        t \<noteq> kSentinelTxnId \<and> t \<in> set bs \<and> info t = Some i \<and>
          dt_num_waiting_for i = int (count_list bs t) \<and> dt_unarrived i = 0" for t i
      using skip by auto
    then have "?new (b # bs) info = ?new bs info" by simp
    then show ?thesis using Cons.IH [OF pre Cons.prems(2)] Cons.prems(3) unfolding un by auto
  next
    case live
    define i' where "i' = i\<lparr>dt_num_waiting_for := dt_num_waiting_for i - 1\<rparr>"
    define res' where "res' = (if DDR_is_ready i' then res @ [(b, dt_deadlocked i')] else res)"
    have un: "DDR_unblock (b # bs) info res = DDR_unblock bs (info(b \<mapsto> i')) res'"
      using live by (simp add: i'_def res'_def Let_def)
    have cb: "int (count_list bs b) \<le> dt_num_waiting_for i - 1" using Cons.prems(1) [OF live] by simp
    have pre: "int (count_list bs t) \<le> dt_num_waiting_for j"
      if "t \<noteq> kSentinelTxnId" "(info(b \<mapsto> i')) t = Some j" for t j
      using that Cons.prems(1) [of t] cb by (auto simp: i'_def split: if_splits)
    have d: "distinct (map fst res')" using Cons.prems(2) Cons.prems(3) [of b] by (auto simp: res'_def)
    have rb: "DDR_is_ready i' \<Longrightarrow> count_list bs b = 0" using cb by (simp add: DDR_is_ready_def i'_def)
    have nin: "t \<notin> set bs" if "t \<in> set (map fst res')" for t
      using that Cons.prems(3) [of t] rb by (auto simp: res'_def count_list_0_iff split: if_splits)
    have res': "set res' = set res \<union> {(t, dt_deadlocked j) | t j. t = b \<and> j = i' \<and> DDR_is_ready i'}"
      by (auto simp: res'_def)
    have nw: "?new (b # bs) info = {(t, dt_deadlocked j) | t j. t = b \<and> j = i' \<and> DDR_is_ready i'} \<union>
        ?new bs (info(b \<mapsto> i'))"
    proof (cases "b \<in> set bs")
      case True
      then have "\<not> DDR_is_ready i'" using rb by (auto simp: count_list_0_iff)
      with True live show ?thesis by (auto simp: i'_def split: if_splits)
    next
      case False
      then have "count_list bs b = 0" by (simp add: count_list_0_iff)
      with False live show ?thesis by (auto simp: i'_def DDR_is_ready_def split: if_splits)
    qed
    show ?thesis using Cons.IH [OF pre d nin] unfolding un nw res' Un_assoc by blast
  qed
qed

lemma DDR_ReleaseLocks_ok:
  assumes "graph_ok (dm_txn_info m)" "DDR_ReleaseLocks t m = Inr (res, m')"
  shows "graph_ok (dm_txn_info m')"
proof (cases "dm_txn_info m t")
  case None
  with assms show ?thesis by (simp add: DDR_ReleaseLocks_def)
next
  case (Some i)
  note ok = graph_okD [OF assms(1)]
  from Some assms(2) have r: "DDR_is_ready i" by (simp add: DDR_ReleaseLocks_def split: if_splits)
  define info where "info = fst (DDR_unblock (dt_waited_by i) (dm_txn_info m) [])"
  have m': "dm_txn_info m' = info(t := None)"
    using assms(2) Some r by (auto simp: DDR_ReleaseLocks_def info_def split: prod.splits)
  have wb: "waited_by_of info u = waited_by_of (dm_txn_info m) u" for u
    by (simp add: info_def DDR_unblock_waited_by)
  have none: "t \<notin> set (waited_by_of (dm_txn_info m) u)" for u
    using ok(2) [OF Some] r by (simp add: DDR_is_ready_def in_edges_0_iff)
  have inb: "in_edges (info(t := None)) u + count_list (dt_waited_by i) u = in_edges (dm_txn_info m) u" for u
    using in_edges_erase [of info t u] in_edges_cong [of info "dm_txn_info m" u] wb Some
    by (simp add: waited_by_of_def [of "dm_txn_info m" t])
  have "dt_num_waiting_for j = int (in_edges (info(t := None)) u)" if "(info(t := None)) u = Some j" for u j
  proof -
    from that have u: "u \<noteq> t" "info u = Some j" by (auto split: if_splits)
    then obtain k where k: "dm_txn_info m u = Some k" by (auto simp: info_def DDR_unblock_info split: option.splits)
    with ok(1) have "u \<noteq> kSentinelTxnId" by auto
    with u k have "j = k\<lparr>dt_num_waiting_for := dt_num_waiting_for k - int (count_list (dt_waited_by i) u)\<rparr>"
      by (simp add: info_def DDR_unblock_info)
    with ok(2) [OF k] inb [of u] show ?thesis by simp
  qed
  moreover have "v = kSentinelTxnId \<or> (info(t := None)) v \<noteq> None" if "v \<in> set (waited_by_of (info(t := None)) u)" for u v
  proof -
    from that have "v \<in> set (waited_by_of (dm_txn_info m) u)"
      using wb [of u] by (simp add: waited_by_of_erase split: if_splits)
    with none ok(3) [of v u] have "v \<noteq> t" "v = kSentinelTxnId \<or> dm_txn_info m v \<noteq> None" by auto
    then show ?thesis by (auto simp: info_def DDR_unblock_info)
  qed
  moreover have "(info(t := None)) kSentinelTxnId = None" using ok(1) by (simp add: info_def DDR_unblock_info)
  ultimately show ?thesis unfolding m' graph_ok_def by blast
qed

text \<open>
  Releasing a ready transaction reports, once each and with their deadlock mark,
  the transactions that were not ready before and are ready afterwards.
\<close>

lemma DDR_ReleaseLocks_spec:
  assumes "graph_ok (dm_txn_info m)" "dm_txn_info m t = Some i" "DDR_is_ready i"
  shows "\<exists>res m'. DDR_ReleaseLocks t m = Inr (res, m') \<and> dm_txn_info m' t = None \<and>
    dm_lock_table m' = dm_lock_table m \<and>
    (\<forall>u. u \<noteq> t \<longrightarrow> (dm_txn_info m' u = None \<longleftrightarrow> dm_txn_info m u = None)) \<and>
    (\<forall>u. u \<noteq> t \<longrightarrow> waited_by_of (dm_txn_info m') u = waited_by_of (dm_txn_info m) u) \<and>
    (\<forall>u. u \<noteq> t \<longrightarrow> DDR_ready m u \<longrightarrow> DDR_ready m' u) \<and>
    distinct (map fst res) \<and>
    set res = {(u, dt_deadlocked j) | u j. u \<noteq> t \<and> dm_txn_info m u = Some j \<and> DDR_ready m' u \<and> \<not> DDR_ready m u}"
proof -
  note ok = graph_okD [OF assms(1)]
  obtain info res where un: "DDR_unblock (dt_waited_by i) (dm_txn_info m) [] = (info, res)" by fastforce
  define m' where "m' = m\<lparr>dm_txn_info := info(t := None)\<rparr>"
  have run: "DDR_ReleaseLocks t m = Inr (res, m')" using assms(2,3) un by (simp add: DDR_ReleaseLocks_def m'_def)
  have wb: "dt_waited_by i = waited_by_of (dm_txn_info m) t" using assms(2) by (simp add: waited_by_of_def)
  have cnt: "int (count_list (dt_waited_by i) u) \<le> dt_num_waiting_for j" if "dm_txn_info m u = Some j" for u j
    using ok(2) [OF that] in_edges_erase [of "dm_txn_info m" t u] wb by simp
  have info: "info u = (case dm_txn_info m u of None \<Rightarrow> None | Some j \<Rightarrow> Some (if u = kSentinelTxnId then j
      else j\<lparr>dt_num_waiting_for := dt_num_waiting_for j - int (count_list (dt_waited_by i) u)\<rparr>))" for u
    using DDR_unblock_info [of "dt_waited_by i" "dm_txn_info m" "[]" u] un by simp
  have tn: "t \<notin> set (dt_waited_by i)"
    using ok(2) [OF assms(2)] assms(3) wb by (simp add: DDR_is_ready_def in_edges_0_iff)
  have live: "u \<noteq> kSentinelTxnId" if "dm_txn_info m u = Some j" for u j using that ok(1) by auto
  have rdy: "DDR_ready m' u \<longleftrightarrow> u \<noteq> t \<and> (\<exists>j. dm_txn_info m u = Some j \<and> dt_unarrived j = 0 \<and>
      dt_num_waiting_for j = int (count_list (dt_waited_by i) u))" for u
    using live by (auto simp: DDR_ready_def m'_def info DDR_is_ready_def split: option.splits)
  have keep: "DDR_ready m' u" if "u \<noteq> t" "DDR_ready m u" for u
    using that cnt [of u] unfolding rdy by (auto simp: DDR_ready_def DDR_is_ready_def split: option.splits)
  have new: "u \<in> set (dt_waited_by i) \<and> dm_txn_info m u = Some j \<and> u \<noteq> kSentinelTxnId \<and>
      dt_num_waiting_for j = int (count_list (dt_waited_by i) u) \<and> dt_unarrived j = 0 \<longleftrightarrow>
      u \<noteq> t \<and> dm_txn_info m u = Some j \<and> DDR_ready m' u \<and> \<not> DDR_ready m u" for u j
    using tn live [of u j] unfolding rdy
    by (auto simp: DDR_ready_def DDR_is_ready_def count_list_0_iff)
  have "distinct (map fst res) \<and> set res = {(u, dt_deadlocked j) | u j. u \<noteq> t \<and> dm_txn_info m u = Some j \<and>
      DDR_ready m' u \<and> \<not> DDR_ready m u}"
    using DDR_unblock_res [of "dm_txn_info m" "dt_waited_by i" "[]"] cnt un
    unfolding new [symmetric] by (simp add: conj_ac)
  moreover have "waited_by_of (dm_txn_info m') u = waited_by_of (dm_txn_info m) u" if "u \<noteq> t" for u
    using that by (simp add: m'_def waited_by_of_def info split: option.split)
  ultimately show ?thesis using run keep
    by (intro exI [of _ res] exI [of _ m'] conjI) (auto simp: m'_def info split: option.splits)
qed

subsection \<open>Requests of one key\<close>

text \<open>\<open>earlier xs\<close> relates every element of a list to the later ones.\<close>

fun earlier :: "'a list \<Rightarrow> ('a \<times> 'a) set" where
  "earlier [] = {}"
| "earlier (x # xs) = {x} \<times> set xs \<union> earlier xs"

lemma earlier_append: "earlier (xs @ ys) = earlier xs \<union> earlier ys \<union> set xs \<times> set ys"
  by (induction xs) auto

lemma earlier_in: "(x, y) \<in> earlier xs \<Longrightarrow> x \<in> set xs \<and> y \<in> set xs"
  by (induction xs) auto

lemma earlier_total: "x \<in> set xs \<Longrightarrow> y \<in> set xs \<Longrightarrow> x \<noteq> y \<Longrightarrow> (x, y) \<in> earlier xs \<or> (y, x) \<in> earlier xs"
  by (induction xs) auto

definition tail_request :: "LockQueueTail \<Rightarrow> TxnId \<times> KeyType \<Rightarrow> LockQueueTail" where
  "tail_request q = (\<lambda>(t, ty). case ty of KeyRead \<Rightarrow> snd (LockQueueTail_AcquireReadLock t q)
     | KeyWrite \<Rightarrow> snd (LockQueueTail_AcquireWriteLock t q))"

definition tail_state :: "(TxnId \<times> KeyType) list \<Rightarrow> LockQueueTail" where
  "tail_state reqs = foldl tail_request LockQueueTail_new reqs"

definition tail_blocking :: "LockQueueTail \<Rightarrow> TxnId \<times> KeyType \<Rightarrow> TxnId set" where
  "tail_blocking q = (\<lambda>(t, ty). case ty of KeyRead \<Rightarrow> set_option (fst (LockQueueTail_AcquireReadLock t q))
     | KeyWrite \<Rightarrow> set (fst (LockQueueTail_AcquireWriteLock t q)))"

lemmas tail_defs = LockQueueTail_AcquireReadLock_def LockQueueTail_AcquireWriteLock_def LockQueueTail_new_def

text \<open>The tail holds the last writer and the readers after it.\<close>

lemma tail_state_cases:
  obtains (readers) "\<forall>(t, ty)\<in>set q. ty = KeyRead" "write_lock_requester (tail_state q) = None"
      "read_lock_requesters (tail_state q) = map fst q"
  | (writer) q1 w rs where "q = q1 @ (w, KeyWrite) # rs" "\<forall>(t, ty)\<in>set rs. ty = KeyRead"
      "write_lock_requester (tail_state q) = Some w" "read_lock_requesters (tail_state q) = map fst rs"
proof (induction q arbitrary: thesis rule: rev_induct)
  case Nil
  then show ?case by (simp add: tail_state_def tail_defs)
next
  case (snoc x q)
  obtain t ty where x: "x = (t, ty)" by fastforce
  have st: "tail_state (q @ [(t, b)]) = tail_request (tail_state q) (t, b)" for b by (simp add: tail_state_def)
  show ?case
  proof (cases ty)
    case KeyWrite
    then have "write_lock_requester (tail_state (q @ [x])) = Some t" "read_lock_requesters (tail_state (q @ [x])) = []"
      by (simp_all add: x st tail_request_def tail_defs)
    with KeyWrite show ?thesis using snoc.prems(2) [of q t "[]"] by (simp add: x)
  next
    case KeyRead
    show ?thesis
    proof (rule snoc.IH)
      assume "\<forall>(t, ty)\<in>set q. ty = KeyRead" "write_lock_requester (tail_state q) = None"
        "read_lock_requesters (tail_state q) = map fst q"
      with KeyRead show ?thesis using snoc.prems(1) by (simp add: st x tail_request_def tail_defs)
    next
      fix q1 w rs
      assume a: "q = q1 @ (w, KeyWrite) # rs" "\<forall>(t, ty)\<in>set rs. ty = KeyRead"
        "write_lock_requester (tail_state q) = Some w" "read_lock_requesters (tail_state q) = map fst rs"
      show ?thesis
      proof (rule snoc.prems(2) [of q1 w "rs @ [x]"])
        show "q @ [x] = q1 @ (w, KeyWrite) # rs @ [x]" using a(1) by simp
      qed (use a(2-4) KeyRead in \<open>simp_all add: st x tail_request_def tail_defs\<close>)
    qed
  qed
qed

subsection \<open>Conflicting requests are ordered by the graph\<close>

definition edges :: "(TxnId \<rightharpoonup> DDRTxnInfo) \<Rightarrow> (TxnId \<times> TxnId) set" where
  "edges info = {(u, t). t \<in> set (waited_by_of info u) \<and> t \<noteq> kSentinelTxnId}"

text \<open>
  \<open>ordered_by info B txn q\<close>: in the requests \<open>q\<close> of one key, every live transaction
  precedes the later conflicting requesters in the graph.  For \<open>txn\<close>, which is
  collecting its blocking transactions \<open>B\<close>, the last edge is still to be added.
\<close>

definition ordered_by :: "(TxnId \<rightharpoonup> DDRTxnInfo) \<Rightarrow> TxnId set \<Rightarrow> TxnId \<Rightarrow> (TxnId \<times> KeyType) list \<Rightarrow> bool" where
  "ordered_by info B txn q \<longleftrightarrow> (\<forall>u a t b. ((u, a), (t, b)) \<in> earlier q \<longrightarrow> info u \<noteq> None \<longrightarrow> u \<noteq> t \<longrightarrow>
     (a = KeyWrite \<or> b = KeyWrite) \<longrightarrow>
     (u, t) \<in> (edges info)\<^sup>+ \<or> (t = txn \<and> (\<exists>c\<in>B. c \<noteq> txn \<and> info c \<noteq> None \<and> (u, c) \<in> (edges info)\<^sup>*)))"

lemma ordered_byD:
  assumes "ordered_by info B txn q" "((u, a), (t, b)) \<in> earlier q" "info u \<noteq> None" "u \<noteq> t"
    "a = KeyWrite \<or> b = KeyWrite"
  shows "(u, t) \<in> (edges info)\<^sup>+ \<or> (t = txn \<and> (\<exists>c\<in>B. c \<noteq> txn \<and> info c \<noteq> None \<and> (u, c) \<in> (edges info)\<^sup>*))"
  using assms unfolding ordered_by_def by blast

lemma ordered_by_mono: "ordered_by info B txn q \<Longrightarrow> B \<subseteq> B' \<Longrightarrow> ordered_by info B' txn q"
  unfolding ordered_by_def by blast

lemma edges_live: "graph_ok info \<Longrightarrow> (u, t) \<in> (edges info)\<^sup>+ \<Longrightarrow> info t \<noteq> None"
  by (erule trancl.cases) (use graph_okD(3) in \<open>auto simp: edges_def\<close>)

lemma edges_live': "graph_ok info \<Longrightarrow> info u \<noteq> None \<Longrightarrow> (u, t) \<in> (edges info)\<^sup>* \<Longrightarrow> info t \<noteq> None"
  by (metis edges_live rtranclD)

text \<open>The transactions returned by the tail of the queue cover every live conflicting request.\<close>

lemma ordered_by_request:
  assumes ok: "graph_ok info" and ord: "ordered_by info B txn q"
  shows "ordered_by info (B \<union> tail_blocking (tail_state q) (txn, ty)) txn (q @ [(txn, ty)])"
proof -
  let ?B = "B \<union> tail_blocking (tail_state q) (txn, ty)"
  let ?goal = "\<lambda>u. (u, txn) \<in> (edges info)\<^sup>+ \<or> (\<exists>c\<in>?B. c \<noteq> txn \<and> info c \<noteq> None \<and> (u, c) \<in> (edges info)\<^sup>*)"
  have new: "?goal u" if x: "(u, a) \<in> set q" "info u \<noteq> None" "u \<noteq> txn" "a = KeyWrite \<or> ty = KeyWrite" for u a
  proof (cases rule: tail_state_cases [of q])
    case readers
    with x have "ty = KeyWrite" "u \<in> set (map fst q)" "q \<noteq> []" by force+
    with readers have "u \<in> tail_blocking (tail_state q) (txn, ty)" by (simp add: tail_blocking_def tail_defs)
    with x show ?thesis by blast
  next
    case (writer q1 w rs)
    show ?thesis
    proof (cases "(u, a) \<in> set rs")
      case True
      with writer x have "ty = KeyWrite" "u \<in> set (map fst rs)" "rs \<noteq> []" by force+
      with writer have "u \<in> tail_blocking (tail_state q) (txn, ty)" by (simp add: tail_blocking_def tail_defs)
      with x show ?thesis by blast
    next
      case False
      have "u = w \<or> ((u, a), (w, KeyWrite)) \<in> earlier q"
        using False x(1) writer(1) by (auto simp: earlier_append)
      then have uw: "u = w \<or> (u, w) \<in> (edges info)\<^sup>+ \<or> (w = txn \<and> ?goal u)"
        using ordered_byD [OF ord _ x(2)] by (cases "u = w") blast+
      show ?thesis
      proof (cases "w = txn")
        case True
        with uw x(3) show ?thesis by blast
      next
        case False
        with uw have uw': "(u, w) \<in> (edges info)\<^sup>*" by auto
        have w: "info w \<noteq> None" by (rule edges_live' [OF ok x(2) uw'])
        show ?thesis
        proof (cases "ty = KeyWrite \<and> rs \<noteq> []")
          case False
          then have "w \<in> tail_blocking (tail_state q) (txn, ty)"
            using writer by (cases ty) (auto simp: tail_blocking_def tail_defs)
          with \<open>w \<noteq> txn\<close> w uw' show ?thesis by blast
        next
          case True
          then obtain r b rs' where rs: "rs = (r, b) # rs'" by (cases rs) auto
          then have r: "r \<in> tail_blocking (tail_state q) (txn, ty)"
            using True writer by (simp add: tail_blocking_def tail_defs)
          have "((w, KeyWrite), (r, b)) \<in> earlier q" using writer(1) rs by (simp add: earlier_append)
          from ordered_byD [OF ord this w] have "w = r \<or> (w, r) \<in> (edges info)\<^sup>+ \<or>
              (r = txn \<and> (\<exists>c\<in>B. c \<noteq> txn \<and> info c \<noteq> None \<and> (w, c) \<in> (edges info)\<^sup>*))" by blast
          then consider "(w, r) \<in> (edges info)\<^sup>*" "r \<noteq> txn" | "(w, r) \<in> (edges info)\<^sup>+" "r = txn"
            | c where "c \<in> B" "c \<noteq> txn" "info c \<noteq> None" "(w, c) \<in> (edges info)\<^sup>*"
            using \<open>w \<noteq> txn\<close> trancl_into_rtrancl [of w r] by (cases "r = txn") auto
          then show ?thesis
          proof cases
            case 1
            then show ?thesis using r edges_live' [OF ok w 1(1)] rtrancl_trans [OF uw' 1(1)] by blast
          next
            case 2
            then show ?thesis using uw' by (meson rtrancl_trancl_trancl)
          next
            case 3
            then show ?thesis using rtrancl_trans [OF uw' 3(4)] by blast
          qed
        qed
      qed
    qed
  qed
  show ?thesis unfolding ordered_by_def
  proof (intro allI impI)
    fix u a t b
    assume e: "((u, a), (t, b)) \<in> earlier (q @ [(txn, ty)])" and x: "info u \<noteq> None" "u \<noteq> t" "a = KeyWrite \<or> b = KeyWrite"
    then consider "((u, a), (t, b)) \<in> earlier q" | "(u, a) \<in> set q" "t = txn" "b = ty"
      by (auto simp: earlier_append)
    then show "(u, t) \<in> (edges info)\<^sup>+ \<or> t = txn \<and> (\<exists>c\<in>?B. c \<noteq> txn \<and> info c \<noteq> None \<and> (u, c) \<in> (edges info)\<^sup>*)"
    proof cases
      case 1
      from ordered_byD [OF ord 1 x] show ?thesis by blast
    next
      case 2
      with new [of u a] x show ?thesis by blast
    qed
  qed
qed

subsection \<open>Runs of the manager\<close>

type_synonym request_log = "(KeyRegion \<times> TxnId \<times> KeyType) list"

definition on_key :: "KeyRegion \<Rightarrow> request_log \<Rightarrow> (TxnId \<times> KeyType) list" where
  "on_key k h = map snd (filter (\<lambda>r. fst r = k) h)"

lemma on_key_simps [simp]:
  "on_key k [] = []" "on_key k (h @ h') = on_key k h @ on_key k h'"
  "on_key k [(k', x)] = (if k' = k then [x] else [])"
  by (auto simp: on_key_def)

definition tail_at :: "(KeyRegion \<rightharpoonup> LockQueueTail) \<Rightarrow> KeyRegion \<Rightarrow> LockQueueTail" where
  "tail_at table k = (case table k of None \<Rightarrow> LockQueueTail_new | Some q \<Rightarrow> q)"

lemma DDR_collect_Cons:
  "DDR_collect t ((k, ty) # rs) table bl =
     DDR_collect t rs (table(k \<mapsto> tail_request (tail_at table k) (t, ty)))
       (bl @ (case ty of KeyRead \<Rightarrow> (case fst (LockQueueTail_AcquireReadLock t (tail_at table k)) of None \<Rightarrow> [] | Some w \<Rightarrow> [w])
          | KeyWrite \<Rightarrow> fst (LockQueueTail_AcquireWriteLock t (tail_at table k))))"
  by (cases ty) (simp_all add: Let_def case_prod_beta tail_request_def flip: tail_at_def)

lemma set_blocking:
  "set (case ty of KeyRead \<Rightarrow> (case fst (LockQueueTail_AcquireReadLock t q) of None \<Rightarrow> [] | Some w \<Rightarrow> [w])
     | KeyWrite \<Rightarrow> fst (LockQueueTail_AcquireWriteLock t q)) = tail_blocking q (t, ty)"
  by (cases ty; cases "fst (LockQueueTail_AcquireReadLock t q)") (simp_all add: tail_blocking_def)

lemma DDR_collect_ordered:
  assumes "graph_ok info" "\<And>k. tail_at table k = tail_state (on_key k h)"
    and "\<And>k. ordered_by info (set bl) t (on_key k h)" "DDR_collect t rs table bl = (bl', table')"
  shows "tail_at table' k = tail_state (on_key k (h @ map (\<lambda>(k, ty). (k, t, ty)) rs)) \<and>
    ordered_by info (set bl') t (on_key k (h @ map (\<lambda>(k, ty). (k, t, ty)) rs))"
  using assms(2-)
proof (induction rs arbitrary: h table bl)
  case Nil
  then show ?case by simp
next
  case (Cons r rs)
  obtain k1 ty where r: "r = (k1, ty)" by fastforce
  let ?tail = "tail_at table k1" and ?h = "h @ [(k1, t, ty)]"
  let ?bl = "bl @ (case ty of KeyRead \<Rightarrow> (case fst (LockQueueTail_AcquireReadLock t ?tail) of None \<Rightarrow> [] | Some w \<Rightarrow> [w])
    | KeyWrite \<Rightarrow> fst (LockQueueTail_AcquireWriteLock t ?tail))"
  have bl: "set ?bl = set bl \<union> tail_blocking ?tail (t, ty)" by (simp add: set_blocking)
  have t1: "tail_at (table(k1 \<mapsto> tail_request ?tail (t, ty))) k = tail_state (on_key k ?h)" for k
    using Cons.prems(1) [of k] Cons.prems(1) [of k1] by (simp add: tail_at_def [of "_(_ \<mapsto> _)"] tail_state_def tail_at_def)
  have o1: "ordered_by info (set ?bl) t (on_key k ?h)" for k
  proof (cases "k = k1")
    case True
    then show ?thesis
      using ordered_by_request [OF assms(1) Cons.prems(2) [of k1], of ty] Cons.prems(1) [of k1] unfolding bl by simp
  next
    case False
    then show ?thesis unfolding bl using ordered_by_mono [OF Cons.prems(2) [of k]] by auto
  qed
  have "DDR_collect t rs (table(k1 \<mapsto> tail_request ?tail (t, ty))) ?bl = (bl', table')"
    using Cons.prems(3) unfolding r DDR_collect_Cons .
  from Cons.IH [OF t1 o1 this] show ?case by (simp add: r)
qed

definition requests_of :: "Transaction \<Rightarrow> request_log" where
  "requests_of txn = map (\<lambda>(k, ty). (k, tx_id txn, ty)) (rma_requests txn)"

definition ddr_inv :: "request_log \<Rightarrow> DDRLockManager \<Rightarrow> bool" where
  "ddr_inv h m \<longleftrightarrow> graph_ok (dm_txn_info m) \<and>
     (\<forall>k. tail_at (dm_lock_table m) k = tail_state (on_key k h)) \<and>
     (\<forall>k t. ordered_by (dm_txn_info m) {} t (on_key k h))"

lemma ddr_invD:
  assumes "ddr_inv h m"
  shows "graph_ok (dm_txn_info m)" "tail_at (dm_lock_table m) k = tail_state (on_key k h)"
    "ordered_by (dm_txn_info m) {} t (on_key k h)"
  using assms by (simp_all add: ddr_inv_def)

lemma edges_mono_ordered:
  assumes "ordered_by info B txn q" "edges info \<subseteq> edges info'" "\<And>t. info' t = None \<longleftrightarrow> info t = None"
    and "\<And>c. c \<in> B \<Longrightarrow> c \<noteq> txn \<Longrightarrow> info c \<noteq> None \<Longrightarrow> (c, txn) \<in> edges info'"
  shows "ordered_by info' {} txn' q"
  unfolding ordered_by_def
proof (intro allI impI disjI1)
  fix u a t b
  assume e: "((u, a), (t, b)) \<in> earlier q" and u: "info' u \<noteq> None" "u \<noteq> t" "a = KeyWrite \<or> b = KeyWrite"
  from assms(3) u(1) have "info u \<noteq> None" by simp
  from ordered_byD [OF assms(1) e this u(2,3)] show "(u, t) \<in> (edges info')\<^sup>+"
  proof
    assume "(u, t) \<in> (edges info)\<^sup>+"
    then show ?thesis using trancl_mono [OF _ assms(2)] by blast
  next
    assume "t = txn \<and> (\<exists>c\<in>B. c \<noteq> txn \<and> info c \<noteq> None \<and> (u, c) \<in> (edges info)\<^sup>*)"
    then obtain c where c: "t = txn" "(u, c) \<in> (edges info)\<^sup>*" "(c, txn) \<in> edges info'" using assms(4) by blast
    then have "(u, c) \<in> (edges info')\<^sup>*" using rtrancl_mono [OF assms(2)] by blast
    with c show ?thesis by (simp add: rtrancl_into_trancl1)
  qed
qed

lemma ddr_inv_acquire:
  assumes "ddr_inv h m" "tx_id txn \<noteq> kSentinelTxnId"
    and "dm_txn_info m (tx_id txn) = None \<Longrightarrow> tx_id txn \<notin> (fst \<circ> snd) ` set h"
    and "DDR_AcquireLocks txn m = (r, m')"
  shows "ddr_inv (h @ requests_of txn) m'"
proof -
  let ?t = "tx_id txn" and ?info = "arrive txn (dm_txn_info m)"
  note inv = ddr_invD [OF assms(1)]
  obtain bl table where c: "DDR_collect ?t (rma_requests txn) (dm_lock_table m) [] = (bl, table)" by fastforce
  have ok: "graph_ok ?info" by (rule graph_ok_arrive_txn [OF inv(1) assms(2)])
  have ed: "edges ?info = edges (dm_txn_info m)"
    by (auto simp: edges_def waited_by_of_def arrive_def Let_def DDRTxnInfo_new_def split: option.splits if_splits)
  have ord: "ordered_by ?info {} ?t (on_key k h)" for k
    unfolding ordered_by_def
  proof (intro allI impI)
    fix u a t b
    assume e: "((u, a), (t, b)) \<in> earlier (on_key k h)" and u: "?info u \<noteq> None" "u \<noteq> t" "a = KeyWrite \<or> b = KeyWrite"
    from earlier_in [OF e] have "u \<in> (fst \<circ> snd) ` set h" by (force simp: on_key_def)
    with assms(3) u(1) have "dm_txn_info m u \<noteq> None" by (cases "u = ?t") (auto simp: arrive_other)
    from ordered_byD [OF inv(3) [of ?t] e this u(2,3)] show "(u, t) \<in> (edges ?info)\<^sup>+ \<or>
        t = ?t \<and> (\<exists>c\<in>{}. c \<noteq> ?t \<and> ?info c \<noteq> None \<and> (u, c) \<in> (edges ?info)\<^sup>*)" by (simp add: ed)
  qed
  have coll: "tail_at table k = tail_state (on_key k (h @ requests_of txn)) \<and>
      ordered_by ?info (set bl) ?t (on_key k (h @ requests_of txn))" for k
    using DDR_collect_ordered [OF ok inv(2) _ c, of k] ord by (simp add: requests_of_def)
  let ?info' = "foldl (DDR_add_edge ?t) ?info (sort_unique bl)"
  have m': "dm_txn_info m' = ?info'" "dm_lock_table m' = table"
    using DDR_AcquireLocks_info [OF c assms(4)] by simp_all
  have wb: "set (waited_by_of ?info' u) = set (waited_by_of ?info u) \<union>
      (if u \<in> set bl \<and> u \<noteq> ?t \<and> ?info u \<noteq> None then {?t} else {})" for u
    using DDR_add_edges_waited_by [of ?info ?t "sort_unique bl" u] by simp
  have sub: "edges ?info \<subseteq> edges ?info'" by (auto simp: edges_def wb)
  have new: "(c, ?t) \<in> edges ?info'" if "c \<in> set bl" "c \<noteq> ?t" "?info c \<noteq> None" for c
    using that assms(2) by (simp add: edges_def wb)
  have "ordered_by ?info' {} t (on_key k (h @ requests_of txn))" for k t
    using edges_mono_ordered [OF conjunct2 [OF coll] sub _ new] DDR_add_edges_ok [OF ok arrive_live] by blast
  then show ?thesis
    unfolding ddr_inv_def m' using coll DDR_add_edges_ok [OF ok arrive_live] by blast
qed

lemma ddr_inv_release:
  assumes "ddr_inv h m" "DDR_ReleaseLocks t m = Inr (res, m')"
  shows "ddr_inv h m'"
proof (cases "dm_txn_info m t")
  case None
  with assms show ?thesis by (simp add: DDR_ReleaseLocks_def)
next
  case (Some i)
  note inv = ddr_invD [OF assms(1)]
  from Some assms(2) have r: "DDR_is_ready i" by (simp add: DDR_ReleaseLocks_def split: if_splits)
  from DDR_ReleaseLocks_spec [OF inv(1) Some r] assms(2) have
    sp: "dm_txn_info m' t = None" "dm_lock_table m' = dm_lock_table m"
      "\<forall>u. u \<noteq> t \<longrightarrow> (dm_txn_info m' u = None \<longleftrightarrow> dm_txn_info m u = None)"
      "\<forall>u. u \<noteq> t \<longrightarrow> waited_by_of (dm_txn_info m') u = waited_by_of (dm_txn_info m) u" by auto
  have none: "(u, t) \<notin> edges (dm_txn_info m)" for u
    using graph_okD(2) [OF inv(1) Some] r by (simp add: DDR_is_ready_def in_edges_0_iff edges_def)
  have path: "(u, v) \<in> (edges (dm_txn_info m'))\<^sup>+" if "(u, v) \<in> (edges (dm_txn_info m))\<^sup>+" "u \<noteq> t" for u v
    using that
  proof (induction rule: trancl_induct)
    case (base y)
    then show ?case using sp(4) by (auto simp: edges_def)
  next
    case (step y z)
    from step.hyps(1) none have "y \<noteq> t" by (metis tranclE)
    with step sp(4) have "(y, z) \<in> edges (dm_txn_info m')" by (simp add: edges_def)
    with step show ?case by (simp add: trancl_into_trancl)
  qed
  have "ordered_by (dm_txn_info m') {} t' (on_key k h)" for k t'
    unfolding ordered_by_def
  proof (intro allI impI disjI1)
    fix u a v b
    assume e: "((u, a), (v, b)) \<in> earlier (on_key k h)" and u: "dm_txn_info m' u \<noteq> None" "u \<noteq> v" "a = KeyWrite \<or> b = KeyWrite"
    from u(1) sp(1) have ut1: "u \<noteq> t" by auto
    with u(1) sp(3) have ut: "u \<noteq> t" "dm_txn_info m u \<noteq> None" by simp_all
    with ordered_byD [OF inv(3) [of t'] e ut(2) u(2,3)] path show "(u, v) \<in> (edges (dm_txn_info m'))\<^sup>+" by blast
  qed
  then show ?thesis
    unfolding ddr_inv_def using DDR_ReleaseLocks_ok [OF inv(1) assms(2)] inv(2) sp(2) by simp
qed

text \<open>One call by the scheduler; the output lists the transactions it may dispatch.\<close>

fun ddr_step :: "DDRLockManager \<Rightarrow> lm_op \<Rightarrow> (DDRLockManager \<times> TxnId list) result" where
  "ddr_step m (LMAcquire txn) =
     (case DDR_AcquireLocks txn m of (r, m') \<Rightarrow> Inr (m', if r = ACQUIRED then [tx_id txn] else []))"
| "ddr_step m (LMRelease t) = rbind (DDR_ReleaseLocks t m) (\<lambda>(res, m'). Inr (m', map fst res))"

fun op_requests :: "lm_op \<Rightarrow> request_log" where
  "op_requests (LMAcquire txn) = requests_of txn"
| "op_requests (LMRelease t) = []"

text \<open>
  The obligations of the caller: transaction ids are not the sentinel and the id of a
  transaction that left is not used again.
\<close>

fun ddr_legal :: "request_log \<Rightarrow> DDRLockManager \<Rightarrow> lm_op list \<Rightarrow> bool" where
  "ddr_legal h m [] \<longleftrightarrow> True"
| "ddr_legal h m (op # ops) \<longleftrightarrow>
     (case op of LMAcquire txn \<Rightarrow> tx_id txn \<noteq> kSentinelTxnId \<and>
        (dm_txn_info m (tx_id txn) = None \<longrightarrow> tx_id txn \<notin> (fst \<circ> snd) ` set h) | LMRelease t \<Rightarrow> True) \<and>
     (case ddr_step m op of Inl _ \<Rightarrow> True | Inr (m', _) \<Rightarrow> ddr_legal (h @ op_requests op) m' ops)"

lemma ddr_run_inv:
  assumes "run_ops ddr_step m ops = Inr (m', outs)" "ddr_inv h m" "ddr_legal h m ops"
  shows "ddr_inv (h @ concat (map op_requests ops)) m'"
  using assms
proof (induction ops arbitrary: h m outs)
  case Nil
  then show ?case by simp
next
  case (Cons op ops)
  from Cons.prems(1) obtain m1 o1 o2 where
    st: "ddr_step m op = Inr (m1, o1)" and rest: "run_ops ddr_step m1 ops = Inr (m', o2)" by (rule run_ops_ConsE)
  have "ddr_inv (h @ op_requests op) m1"
  proof (cases op)
    case (LMAcquire txn)
    with st obtain r where "DDR_AcquireLocks txn m = (r, m1)" by (auto split: prod.splits)
    from ddr_inv_acquire [OF Cons.prems(2) _ _ this] Cons.prems(3) LMAcquire show ?thesis by simp
  next
    case (LMRelease t)
    with st show ?thesis using ddr_inv_release [OF Cons.prems(2)] by (auto simp: rbind_eq_Inr)
  qed
  from Cons.IH [OF rest this] Cons.prems(3) st show ?case by simp
qed

lemma ddr_inv_new: "ddr_inv [] (DDRLockManager_new r)"
  by (simp add: ddr_inv_def DDRLockManager_new_def graph_ok_def waited_by_of_def tail_at_def tail_state_def
      ordered_by_def)

text \<open>
  C2: isolation by the waits-for graph.  After any sequence of requests and releases,
  every counter equals the number of entries of its transaction in the waited-by lists
  of live transactions, and two different transactions that are both ready have no
  conflicting requests on the same key, so the transactions the scheduler runs at the
  same time never conflict.
\<close>
theorem ddr_isolation:
  assumes "run_ops ddr_step (DDRLockManager_new r) ops = Inr (m, outs)" "ddr_legal [] (DDRLockManager_new r) ops"
  shows "(\<forall>t i. dm_txn_info m t = Some i \<longrightarrow> dt_num_waiting_for i = int (in_edges (dm_txn_info m) t)) \<and>
    (\<forall>t u k a b. DDR_ready m t \<and> DDR_ready m u \<and> t \<noteq> u \<and>
      (t, a) \<in> set (on_key k (concat (map op_requests ops))) \<and>
      (u, b) \<in> set (on_key k (concat (map op_requests ops))) \<longrightarrow> a = KeyRead \<and> b = KeyRead)"
proof -
  let ?h = "concat (map op_requests ops)"
  from ddr_run_inv [OF assms(1) ddr_inv_new assms(2)] have inv: "ddr_inv ?h m" by simp
  note i = ddr_invD [OF inv]
  have ne: "False" if r: "DDR_ready m t" "DDR_ready m u" "t \<noteq> u" "((t, a), (u, b)) \<in> earlier (on_key k ?h)"
    "a = KeyWrite \<or> b = KeyWrite" for t u a b k
  proof -
    from r obtain ui where u: "dm_txn_info m u = Some ui" "dt_num_waiting_for ui = 0"
      by (auto simp: DDR_ready_def DDR_is_ready_def split: option.splits)
    from r(1) have "dm_txn_info m t \<noteq> None" by (auto simp: DDR_ready_def split: option.splits)
    from ordered_byD [OF i(3) [of 0] r(4) this r(3,5)] have "(t, u) \<in> (edges (dm_txn_info m))\<^sup>+" by simp
    then obtain v where "(v, u) \<in> edges (dm_txn_info m)" by (metis tranclD2)
    with graph_okD(2) [OF i(1) u(1)] u(2) show False by (auto simp: edges_def in_edges_0_iff)
  qed
  have "a = KeyRead \<and> b = KeyRead" if r: "DDR_ready m t" "DDR_ready m u" "t \<noteq> u"
    "(t, a) \<in> set (on_key k ?h)" "(u, b) \<in> set (on_key k ?h)" for t u a b k
  proof -
    from r(3-5) have "((t, a), (u, b)) \<in> earlier (on_key k ?h) \<or> ((u, b), (t, a)) \<in> earlier (on_key k ?h)"
      using earlier_total [of "(t, a)" _ "(u, b)"] by blast
    with ne [OF r(1,2,3), of a b k] ne [OF r(2,1), of b a k] r(3) show ?thesis by (cases a; cases b) auto
  qed
  with graph_okD(2) [OF i(1)] show ?thesis by blast
qed

text \<open>Transactions homed in one region, with keys of any region, as the scheduler passes them.\<close>

definition sample_part :: "TxnId \<Rightarrow> int \<Rightarrow> (Key \<times> KeyType \<times> uint32) list \<Rightarrow> Transaction" where
  "sample_part t home ks = default_txn\<lparr>tx_keys := map (\<lambda>(k, ty, master). sample_kv k ty master) ks,
     tx_internal := default_internal\<lparr>ti_id := t, ti_home := home, ti_involved_partitions := [0]\<rparr>\<rparr>"

lemma sample_part_sel [simp]:
  "tx_id (sample_part t home ks) = t" "num_required_locks (sample_part t home ks) = length ks"
  "ti_involved_partitions (tx_internal (sample_part t home ks)) = [0]"
  by (simp_all add: sample_part_def tx_id_def default_txn_def num_required_locks_def is_remaster_def)

lemma sample_part_requests [simp]:
  "rma_requests (sample_part t home ks) =
     map (\<lambda>(k, ty, master). (MakeKeyRegion k (of_int home), ty)) (filter (\<lambda>(k, ty, master). sint master = home) ks)"
  by (simp add: sample_part_def default_txn_def is_remaster_def rma_requests_def filter_map comp_def case_prod_unfold)

lemmas ddr_eval = DDRLockManager_new_def DDR_AcquireLocks_def DDR_ReleaseLocks_def DDRTxnInfo_new_def
  DDR_is_ready_def DDR_ready_def DDR_add_edge_def append_log_def kSentinelTxnId_def tail_defs sort_unique_def
  requests_of_def Let_def

theorem ddr_isolation_witness:
  "let ops = [LMAcquire (sample_part 1 0 [(''a'', KeyWrite, 0)]), LMAcquire (sample_part 2 0 [(''a'', KeyRead, 0)]),
      LMAcquire (sample_part 3 0 [(''a'', KeyRead, 0)]), LMRelease 1] in
   \<exists>m. run_ops ddr_step (DDRLockManager_new False) ops = Inr (m, [1, 2, 3]) \<and> DDR_ready m 2 \<and> DDR_ready m 3 \<and>
     (\<forall>a b. (2, a) \<in> set (on_key (MakeKeyRegion ''a'' 0) (concat (map op_requests ops))) \<and>
        (3, b) \<in> set (on_key (MakeKeyRegion ''a'' 0) (concat (map op_requests ops))) \<longrightarrow> a = KeyRead \<and> b = KeyRead)"
proof -
  let ?ops = "[LMAcquire (sample_part 1 0 [(''a'', KeyWrite, 0)]), LMAcquire (sample_part 2 0 [(''a'', KeyRead, 0)]),
      LMAcquire (sample_part 3 0 [(''a'', KeyRead, 0)]), LMRelease 1]"
  have ok: "ddr_legal [] (DDRLockManager_new False) ?ops" by (simp add: ddr_eval)
  obtain m where r: "run_ops ddr_step (DDRLockManager_new False) ?ops = Inr (m, [1, 2, 3])"
    and h: "DDR_ready m 2" "DDR_ready m 3"
    by (simp add: ddr_eval)
  from ddr_isolation [OF r ok] have "\<forall>t u k a b. DDR_ready m t \<and> DDR_ready m u \<and> t \<noteq> u \<and>
      (t, a) \<in> set (on_key k (concat (map op_requests ?ops))) \<and>
      (u, b) \<in> set (on_key k (concat (map op_requests ?ops))) \<longrightarrow> a = KeyRead \<and> b = KeyRead" by (rule conjunct2)
  from this [rule_format, of 2 3] h have "(2, a) \<in> set (on_key k (concat (map op_requests ?ops))) \<and>
      (3, b) \<in> set (on_key k (concat (map op_requests ?ops))) \<longrightarrow> a = KeyRead \<and> b = KeyRead" for k a b
    by simp
  with r h show ?thesis unfolding Let_def by blast
qed

text \<open>
  C20: in every reachable state, releasing a ready transaction succeeds and forgets it,
  keeps every other ready transaction ready, and reports, once each, exactly the
  transactions that this release made ready; releasing a live transaction that is not
  ready fails the check.
\<close>
theorem ddr_release_exact:
  assumes "run_ops ddr_step (DDRLockManager_new r) ops = Inr (m, outs)" "ddr_legal [] (DDRLockManager_new r) ops"
    and "dm_txn_info m t \<noteq> None"
  shows "(\<not> DDR_ready m t \<longrightarrow> (\<exists>e. DDR_ReleaseLocks t m = Inl (CheckFailed e))) \<and>
    (DDR_ready m t \<longrightarrow> (\<exists>res m'. DDR_ReleaseLocks t m = Inr (res, m') \<and> dm_txn_info m' t = None \<and>
      (\<forall>u. u \<noteq> t \<longrightarrow> DDR_ready m u \<longrightarrow> DDR_ready m' u) \<and>
      distinct (map fst res) \<and> set (map fst res) = {u. u \<noteq> t \<and> DDR_ready m' u \<and> \<not> DDR_ready m u}))"
proof -
  from ddr_run_inv [OF assms(1) ddr_inv_new assms(2)] have ok: "graph_ok (dm_txn_info m)" by (rule ddr_invD(1))
  from assms(3) obtain i where i: "dm_txn_info m t = Some i" by auto
  show ?thesis
  proof (cases "DDR_is_ready i")
    case False
    with i show ?thesis by (simp add: DDR_ready_def DDR_ReleaseLocks_def)
  next
    case True
    from DDR_ReleaseLocks_spec [OF ok i True] obtain res m' where
      sp: "DDR_ReleaseLocks t m = Inr (res, m')" "dm_txn_info m' t = None"
        "\<forall>u. u \<noteq> t \<longrightarrow> (dm_txn_info m' u = None \<longleftrightarrow> dm_txn_info m u = None)"
        "\<forall>u. u \<noteq> t \<longrightarrow> DDR_ready m u \<longrightarrow> DDR_ready m' u" "distinct (map fst res)"
      and res: "set res = {(u, dt_deadlocked j) | u j. u \<noteq> t \<and> dm_txn_info m u = Some j \<and> DDR_ready m' u \<and> \<not> DDR_ready m u}"
      by blast
    have "\<exists>j. dm_txn_info m u = Some j" if "u \<noteq> t" "DDR_ready m' u" for u
      using that sp(3) by (metis DDR_ready_def not_None_eq option.simps(4))
    then have "fst ` set res = {u. u \<noteq> t \<and> DDR_ready m' u \<and> \<not> DDR_ready m u}"
      unfolding res by (force simp: image_iff)
    then have "set (map fst res) = {u. u \<noteq> t \<and> DDR_ready m' u \<and> \<not> DDR_ready m u}" by simp
    with sp True i show ?thesis by (simp add: DDR_ready_def)
  qed
qed

theorem ddr_release_exact_witness:
  "let ops = [LMAcquire (sample_part 1 0 [(''a'', KeyWrite, 0)]), LMAcquire (sample_part 2 0 [(''a'', KeyRead, 0)])] in
   \<exists>m m'. run_ops ddr_step (DDRLockManager_new False) ops = Inr (m, [1]) \<and>
     DDR_ReleaseLocks 1 m = Inr ([(2, False)], m') \<and> {2} = {u. u \<noteq> 1 \<and> DDR_ready m' u \<and> \<not> DDR_ready m u} \<and>
     (\<exists>e. DDR_ReleaseLocks 2 m = Inl (CheckFailed e))"
proof -
  let ?ops = "[LMAcquire (sample_part 1 0 [(''a'', KeyWrite, 0)]), LMAcquire (sample_part 2 0 [(''a'', KeyRead, 0)])]"
  have ok: "ddr_legal [] (DDRLockManager_new False) ?ops" by (simp add: ddr_eval)
  obtain m where r: "run_ops ddr_step (DDRLockManager_new False) ?ops = Inr (m, [1])"
    and h: "DDR_ready m 1" "\<not> DDR_ready m 2" "dm_txn_info m 1 \<noteq> None" "dm_txn_info m 2 \<noteq> None"
    and x: "\<exists>m'. DDR_ReleaseLocks 1 m = Inr ([(2, False)], m')"
    by (simp add: ddr_eval)
  from x obtain m' where m': "DDR_ReleaseLocks 1 m = Inr ([(2, False)], m')" ..
  from ddr_release_exact [OF r ok h(3)] h(1) m' have "{2} = {u. u \<noteq> 1 \<and> DDR_ready m' u \<and> \<not> DDR_ready m u}" by simp
  moreover from ddr_release_exact [OF r ok h(4)] h(2) have "\<exists>e. DDR_ReleaseLocks 2 m = Inl (CheckFailed e)" by blast
  ultimately show ?thesis using r m' unfolding Let_def by blast
qed

end
