(* ===== verification/DDR_Resolver.thy ===== *)
theory DDR_Resolver
  imports DDR
begin

section \<open>The deadlock resolver of the dependency-graph lock manager\<close>

text \<open>
  \<open>DeadlockResolver\<close> of \<^verbatim>\<open>ddr_lock_manager.cpp\<close>: it replays the log of the lock
  manager into a graph of transactions, exchanges the log with the other partitions,
  finds the strongly connected components of the stable part of the graph and turns
  each component with more than one member into a chain ordered by transaction id.
  The order in which an \<^verbatim>\<open>unordered_map\<close> is traversed is the parameter \<open>iter\<close>.
\<close>

subsection \<open>State\<close>

record TxnInfoUpdate =
  tu_num_waiting_for :: int
  tu_waited_by :: "TxnId list"

definition TxnInfoUpdate_new :: TxnInfoUpdate where
  "TxnInfoUpdate_new = \<lparr>tu_num_waiting_for = 0, tu_waited_by = [kSentinelTxnId]\<rparr>"

record Node =
  nd_id :: TxnId
  nd_num_partitions :: int
  nd_num_complete :: int
  nd_is_stable :: bool
  nd_is_visited :: bool
  nd_outgoing :: "TxnId list"
  nd_incoming :: "TxnId list"

definition Node_new :: "TxnId \<Rightarrow> int \<Rightarrow> Node" where
  "Node_new t num_partitions = \<lparr>nd_id = t, nd_num_partitions = num_partitions, nd_num_complete = 0,
     nd_is_stable = False, nd_is_visited = False, nd_outgoing = [], nd_incoming = []\<rparr>"

type_synonym graph = "TxnId \<rightharpoonup> Node"
type_synonym updates = "TxnId \<rightharpoonup> TxnInfoUpdate"

record DeadlockResolver =
  dr_txn_info_updates :: updates
  dr_graph :: graph
  dr_dfs_order :: "TxnId list"
  dr_scc :: "TxnId list"
  dr_to_be_updated :: "TxnId list"
  dr_deadlocks_resolved :: nat

definition DeadlockResolver_new :: DeadlockResolver where
  "DeadlockResolver_new = \<lparr>dr_txn_info_updates = Map.empty, dr_graph = Map.empty, dr_dfs_order = [],
     dr_scc = [], dr_to_be_updated = [], dr_deadlocks_resolved = 0\<rparr>"

subsection \<open>Replaying the log\<close>

fun reconstruct_edges :: "TxnId \<Rightarrow> TxnId list \<Rightarrow> updates \<Rightarrow> updates" where
  "reconstruct_edges t [] ups = ups"
| "reconstruct_edges t (v # vs) ups =
     reconstruct_edges t vs (case ups v of None \<Rightarrow> ups
       | Some u \<Rightarrow> ups(v \<mapsto> u\<lparr>tu_waited_by := tu_waited_by u @ [t]\<rparr>))"

definition ReconstructLocalTxnInfo :: "LogEntry \<Rightarrow> updates \<Rightarrow> updates" where
  "ReconstructLocalTxnInfo e ups =
     reconstruct_edges (le_txn_id e) (le_incoming_edges e)
       (case ups (le_txn_id e) of None \<Rightarrow> ups(le_txn_id e \<mapsto> TxnInfoUpdate_new) | Some _ \<Rightarrow> ups)"

fun add_outgoing :: "TxnId \<Rightarrow> TxnId list \<Rightarrow> graph \<Rightarrow> graph" where
  "add_outgoing t [] g = g"
| "add_outgoing t (v # vs) g =
     add_outgoing t vs (case g v of None \<Rightarrow> g | Some n \<Rightarrow> g(v \<mapsto> n\<lparr>nd_outgoing := nd_outgoing n @ [t]\<rparr>))"

definition UpdateGraph :: "LogEntry \<Rightarrow> graph \<Rightarrow> graph" where
  "UpdateGraph e g =
     (let t = le_txn_id e;
        node = (case g t of None \<Rightarrow> Node_new t (le_num_partitions e) | Some n \<Rightarrow> n);
        node' = node\<lparr>nd_num_complete := nd_num_complete node + (if le_is_complete e then 1 else 0),
          nd_incoming := nd_incoming node @ le_incoming_edges e\<rparr> in
      add_outgoing t (le_incoming_edges e) (g(t \<mapsto> node')))"

definition DeadlockResolver_OnInternalRequestReceived :: "LogEntry list \<Rightarrow> DeadlockResolver \<Rightarrow> DeadlockResolver" where
  "DeadlockResolver_OnInternalRequestReceived entries r =
     r\<lparr>dr_graph := foldl (\<lambda>g e. UpdateGraph e g) (dr_graph r) entries\<rparr>"

subsection \<open>Stable nodes\<close>

text \<open>Every node is marked stable when it is complete; the incomplete ones start the work list.\<close>

definition mark_initial :: "graph \<Rightarrow> graph" where
  "mark_initial g = (\<lambda>t. case g t of None \<Rightarrow> None
     | Some n \<Rightarrow> Some (n\<lparr>nd_is_stable := \<not> (nd_num_complete n < nd_num_partitions n), nd_is_visited := False\<rparr>))"

definition initial_unstables :: "(TxnId set \<Rightarrow> TxnId list) \<Rightarrow> graph \<Rightarrow> TxnId list" where
  "initial_unstables iter g = filter (\<lambda>t. case g t of None \<Rightarrow> False
     | Some n \<Rightarrow> nd_num_complete n < nd_num_partitions n) (iter (dom g))"

fun mark_unstable :: "TxnId list \<Rightarrow> graph \<Rightarrow> TxnId list \<Rightarrow> (graph \<times> TxnId list) result" where
  "mark_unstable [] g q = Inr (g, q)"
| "mark_unstable (v # vs) g q =
     (case g v of
        None \<Rightarrow> Inl (CheckFailed ''Dangling edge'')
      | Some n \<Rightarrow>
          if nd_is_stable n then mark_unstable vs (g(v \<mapsto> n\<lparr>nd_is_stable := False\<rparr>)) (q @ [v])
          else mark_unstable vs g q)"

definition stable_nodes :: "graph \<Rightarrow> TxnId set" where
  "stable_nodes g = {t. \<exists>n. g t = Some n \<and> nd_is_stable n}"

lemma mark_unstable_measure:
  "mark_unstable vs g q = Inr (g', q') \<Longrightarrow>
     card (stable_nodes g') + length q' = card (stable_nodes g) + length q"
proof (induction vs g q rule: mark_unstable.induct)
  case (1 g q)
  then show ?case by simp
next
  case (2 v vs g q)
  then show ?case
  proof (cases "g v")
    case (Some n)
    show ?thesis
    proof (cases "nd_is_stable n")
      case True
      have "stable_nodes (g(v \<mapsto> n\<lparr>nd_is_stable := False\<rparr>)) = stable_nodes g - {v}"
        by (auto simp: stable_nodes_def)
      moreover have "v \<in> stable_nodes g" using Some True by (simp add: stable_nodes_def)
      then have "card (stable_nodes g) = Suc (card (stable_nodes g - {v}))"
        using card_Suc_Diff1 [of "stable_nodes g" v] by simp
      moreover have "mark_unstable vs (g(v \<mapsto> n\<lparr>nd_is_stable := False\<rparr>)) (q @ [v]) = Inr (g', q')"
        using 2(3) Some True by simp
      from 2(1) [OF Some True this]
      have "card (stable_nodes g') + length q' = card (stable_nodes (g(v \<mapsto> n\<lparr>nd_is_stable := False\<rparr>))) + length (q @ [v])"
        by (simp add: fun_upd_def)
      ultimately show ?thesis by simp
    qed (use 2 Some in simp)
  qed simp
qed

function unstable_loop :: "TxnId list \<Rightarrow> graph \<Rightarrow> graph result" where
  "unstable_loop [] g = Inr g"
| "unstable_loop (t # q) g =
     (case g t of
        None \<Rightarrow> Inl (CheckFailed ''it != graph_.end()'')
      | Some n \<Rightarrow> rbind (mark_unstable (nd_outgoing n) g q) (\<lambda>x. unstable_loop (snd x) (fst x)))"
  by pat_completeness auto
termination
  by (relation "measure (\<lambda>(q, g). card (stable_nodes g) + length q)") (auto dest: mark_unstable_measure)

text \<open>
  \<open>UpdateGraphAndBroadcastChanges\<close>: the active log is switched, replayed and cleared; the
  result also holds the entries sent to the other partitions.
\<close>

definition take_log :: "DDRLockManager \<Rightarrow> LogEntry list \<times> DDRLockManager" where
  "take_log m =
     (if dm_log_index m = 0 then (fst (dm_log m), m\<lparr>dm_log_index := 1, dm_log := ([], snd (dm_log m))\<rparr>)
      else (snd (dm_log m), m\<lparr>dm_log_index := 0, dm_log := (fst (dm_log m), [])\<rparr>))"

definition UpdateGraphAndBroadcastChanges :: "(TxnId set \<Rightarrow> TxnId list) \<Rightarrow> DeadlockResolver \<Rightarrow> DDRLockManager \<Rightarrow>
    (LogEntry list \<times> DeadlockResolver \<times> DDRLockManager) result" where
  "UpdateGraphAndBroadcastChanges iter r m =
     (let (log, m') = take_log m;
        ups = foldl (\<lambda>u e. ReconstructLocalTxnInfo e u) (dr_txn_info_updates r) log;
        g = foldl (\<lambda>g e. UpdateGraph e g) (dr_graph r) log in
      rbind (unstable_loop (initial_unstables iter g) (mark_initial g)) (\<lambda>g'.
        Inr (log, r\<lparr>dr_txn_info_updates := ups, dr_graph := g'\<rparr>, m')))"

subsection \<open>Strongly connected components\<close>

definition unvisited :: "graph \<Rightarrow> TxnId set" where
  "unvisited g = {t. \<exists>n. g t = Some n \<and> \<not> nd_is_visited n}"

definition set_visited :: "TxnId \<Rightarrow> graph \<Rightarrow> graph" where
  "set_visited t g = (case g t of None \<Rightarrow> g | Some n \<Rightarrow> g(t \<mapsto> n\<lparr>nd_is_visited := True\<rparr>))"

lemma unvisited_set_visited: "unvisited (set_visited t g) = unvisited g - {t}"
  by (auto simp: unvisited_def set_visited_def split: option.splits)

lemma card_unvisited_less: "g t = Some n \<Longrightarrow> \<not> nd_is_visited n \<Longrightarrow> card (unvisited g - {t}) < card (unvisited g)"
  by (rule psubset_card_mono) (auto simp: unvisited_def)

text \<open>The depth-first search with an explicit stack (its top is the head of the list).\<close>

function dfs_loop :: "(TxnId \<times> bool) list \<Rightarrow> graph \<Rightarrow> TxnId list \<Rightarrow> (graph \<times> TxnId list) result" where
  "dfs_loop [] g out = Inr (g, out)"
| "dfs_loop ((cur, done) # st) g out =
     (if done then dfs_loop st g (out @ [cur])
      else case g cur of
        None \<Rightarrow> Inl (CheckFailed ''it != graph_.end()'')
      | Some n \<Rightarrow>
          if nd_is_visited n then dfs_loop st g out
          else let g' = set_visited cur g;
              next_ids = filter (\<lambda>v. case g' v of None \<Rightarrow> False | Some k \<Rightarrow> nd_is_stable k \<and> \<not> nd_is_visited k)
                (nd_outgoing n) in
            dfs_loop (rev (map (\<lambda>v. (v, False)) next_ids) @ (cur, True) # st) g' out)"
  by pat_completeness auto
termination
  by (relation "inv_image (less_than <*lex*> less_than) (\<lambda>(st, g, out). (card (unvisited g), length st))")
    (auto simp: unvisited_set_visited card_unvisited_less)

fun find_order_loop :: "TxnId list \<Rightarrow> graph \<Rightarrow> TxnId list \<Rightarrow> (graph \<times> TxnId list) result" where
  "find_order_loop [] g out = Inr (g, out)"
| "find_order_loop (t # ts) g out =
     (case g t of
        None \<Rightarrow> find_order_loop ts g out
      | Some n \<Rightarrow>
          if nd_is_visited n \<or> \<not> nd_is_stable n then find_order_loop ts g out
          else rbind (dfs_loop [(t, False)] g out) (\<lambda>(g', out'). find_order_loop ts g' out'))"

definition FindSCCOrder :: "(TxnId set \<Rightarrow> TxnId list) \<Rightarrow> DeadlockResolver \<Rightarrow> DeadlockResolver result" where
  "FindSCCOrder iter r =
     rbind (find_order_loop (iter (dom (dr_graph r))) (dr_graph r) []) (\<lambda>(g, out).
       Inr (r\<lparr>dr_graph := g, dr_dfs_order := rev out\<rparr>))"

text \<open>The breadth-first search along the incoming edges.\<close>

fun visit_incoming :: "TxnId list \<Rightarrow> graph \<Rightarrow> TxnId list \<Rightarrow> (graph \<times> TxnId list) result" where
  "visit_incoming [] g q = Inr (g, q)"
| "visit_incoming (v # vs) g q =
     (case g v of
        None \<Rightarrow> visit_incoming vs g q
      | Some n \<Rightarrow>
          if \<not> nd_is_stable n then Inl (CheckFailed ''All nodes in a component must be stable'')
          else if nd_is_visited n then visit_incoming vs g q
          else visit_incoming vs (set_visited v g) (q @ [v]))"

lemma visit_incoming_measure:
  "visit_incoming vs g q = Inr (g', q') \<Longrightarrow> card (unvisited g') + length q' = card (unvisited g) + length q"
proof (induction vs g q rule: visit_incoming.induct)
  case (1 g q)
  then show ?case by simp
next
  case (2 v vs g q)
  show ?case
  proof (cases "\<exists>n. g v = Some n \<and> nd_is_stable n \<and> \<not> nd_is_visited n")
    case True
    then have "v \<in> unvisited g" by (auto simp: unvisited_def)
    then have "card (unvisited g) = Suc (card (unvisited g - {v}))" using card_Suc_Diff1 [of "unvisited g" v] by simp
    moreover from True obtain n where n: "g v = Some n" "\<not> \<not> nd_is_stable n" "\<not> nd_is_visited n" by auto
    then have "visit_incoming vs (set_visited v g) (q @ [v]) = Inr (g', q')" using 2(4) by simp
    note 2(3) [OF n this]
    ultimately show ?thesis by (simp add: unvisited_set_visited)
  qed (use 2 in \<open>auto split: option.splits if_splits\<close>)
qed

function scc_loop :: "TxnId list \<Rightarrow> graph \<Rightarrow> TxnId list \<Rightarrow> (graph \<times> TxnId list) result" where
  "scc_loop [] g scc = Inr (g, scc)"
| "scc_loop (t # q) g scc =
     (case g t of
        None \<Rightarrow> Inl (CheckFailed ''it != graph_.end()'')
      | Some n \<Rightarrow> rbind (visit_incoming (nd_incoming n) g q) (\<lambda>x. scc_loop (snd x) (fst x) (scc @ [nd_id n])))"
  by pat_completeness auto
termination
  by (relation "measure (\<lambda>(q, g, scc). card (unvisited g) + length q)") (auto dest: visit_incoming_measure)

definition FormStronglyConnectedComponent :: "TxnId \<Rightarrow> graph \<Rightarrow> (graph \<times> TxnId list) result" where
  "FormStronglyConnectedComponent t g = scc_loop [t] (set_visited t g) []"

subsection \<open>Resolving one component\<close>

text \<open>
  The loop that removes the edges of one member to other members of the component: it
  returns the new waited-by list, whose removed entries are the sentinel, and the
  updates with decremented counters.
\<close>

fun remove_scc_edges :: "TxnId list \<Rightarrow> TxnId list \<Rightarrow> updates \<Rightarrow> (TxnId list \<times> updates) result" where
  "remove_scc_edges scc [] ups = Inr ([], ups)"
| "remove_scc_edges scc (other # os) ups =
     (if other \<in> set scc
      then case ups other of
          None \<Rightarrow> Inl (CheckFailed ''other_update != txn_info_updates_.end()'')
        | Some u \<Rightarrow> rbind (remove_scc_edges scc os (ups(other \<mapsto> u\<lparr>tu_num_waiting_for := tu_num_waiting_for u - 1\<rparr>)))
            (\<lambda>(ws, ups'). Inr (kSentinelTxnId # ws, ups'))
      else rbind (remove_scc_edges scc os ups) (\<lambda>(ws, ups'). Inr (other # ws, ups')))"

text \<open>The new edge goes to the first empty slot.\<close>

fun fill_slot :: "TxnId \<Rightarrow> TxnId list \<Rightarrow> TxnId list option" where
  "fill_slot other [] = None"
| "fill_slot other (w # ws) =
     (if w = kSentinelTxnId then Some (other # ws) else map_option (\<lambda>ws'. w # ws') (fill_slot other ws))"

definition set_waited_by :: "TxnId \<Rightarrow> TxnId list \<Rightarrow> updates \<Rightarrow> updates" where
  "set_waited_by t ws ups = (case ups t of None \<Rightarrow> ups | Some u \<Rightarrow> ups(t \<mapsto> u\<lparr>tu_waited_by := ws\<rparr>))"

definition inc_num_waiting_for :: "TxnId \<Rightarrow> updates \<Rightarrow> updates" where
  "inc_num_waiting_for t ups =
     (case ups t of None \<Rightarrow> ups | Some u \<Rightarrow> ups(t \<mapsto> u\<lparr>tu_num_waiting_for := tu_num_waiting_for u + 1\<rparr>))"

definition add_scc_edge :: "TxnId option \<Rightarrow> TxnId list \<Rightarrow> updates \<Rightarrow> (TxnId list \<times> updates) result" where
  "add_scc_edge prev_local ws ups =
     (case prev_local of
        None \<Rightarrow> Inr (ws, ups)
      | Some other \<Rightarrow>
          (case fill_slot other ws of
             None \<Rightarrow> Inl (CheckFailed ''Cannot find slot to add new edge'')
           | Some ws' \<Rightarrow> Inr (ws', inc_num_waiting_for other ups)))"

text \<open>The members of the component are visited by decreasing id; \<open>prev_local\<close> is the last local one.\<close>

fun resolve_loop :: "TxnId list \<Rightarrow> TxnId list \<Rightarrow> TxnId option \<Rightarrow> updates \<Rightarrow> TxnId list \<Rightarrow> (updates \<times> TxnId list) result" where
  "resolve_loop scc [] prev_local ups tbu = Inr (ups, tbu)"
| "resolve_loop scc (t # ts) prev_local ups tbu =
     (case ups t of
        None \<Rightarrow> resolve_loop scc ts prev_local ups tbu
      | Some u \<Rightarrow>
          rbind (remove_scc_edges scc (tu_waited_by u) ups) (\<lambda>(ws, ups1).
          rbind (add_scc_edge prev_local ws ups1) (\<lambda>(ws', ups2).
            resolve_loop scc ts (Some t) (set_waited_by t ws' ups2) (tbu @ [t]))))"

definition ResolveDeadlock :: "DeadlockResolver \<Rightarrow> DDRLockManager \<Rightarrow> (DeadlockResolver \<times> DDRLockManager) result" where
  "ResolveDeadlock r m =
     (if length (dr_scc r) < 2 then Inl (CheckFailed ''scc_.size() >= 2'')
      else let scc = sort (dr_scc r) in
        if \<forall>t\<in>set scc. dr_txn_info_updates r t = None then Inr (r\<lparr>dr_scc := scc\<rparr>, m)
        else rbind (resolve_loop scc (rev scc) None (dr_txn_info_updates r) (dr_to_be_updated r)) (\<lambda>(ups, tbu).
          Inr (r\<lparr>dr_scc := scc, dr_txn_info_updates := ups, dr_to_be_updated := tbu\<rparr>,
            m\<lparr>dm_num_deadlocks_resolved := dm_num_deadlocks_resolved m + 1\<rparr>)))"

subsection \<open>Applying the resolution\<close>

fun resolve_vertices :: "TxnId list \<Rightarrow> DeadlockResolver \<Rightarrow> DDRLockManager \<Rightarrow> (DeadlockResolver \<times> DDRLockManager) result" where
  "resolve_vertices [] r m = Inr (r, m)"
| "resolve_vertices (v # vs) r m =
     (case dr_graph r v of
        None \<Rightarrow> Inl (CheckFailed ''SCC order contains unknown vertex'')
      | Some n \<Rightarrow>
          rbind
            (if nd_is_visited n then Inr (r, m)
             else rbind (FormStronglyConnectedComponent v (dr_graph r)) (\<lambda>(g, scc).
               let r1 = r\<lparr>dr_graph := g, dr_scc := scc\<rparr> in
               if 1 < length scc
               then rbind (ResolveDeadlock r1 m) (\<lambda>(r2, m2).
                 Inr (r2\<lparr>dr_deadlocks_resolved := dr_deadlocks_resolved r2 + 1\<rparr>, m2))
               else Inr (r1, m)))
            (\<lambda>x. resolve_vertices vs ((fst x)\<lparr>dr_graph := (dr_graph (fst x))(v := None)\<rparr>) (snd x)))"

text \<open>
  The update of one transaction of the lock manager: the snapshot prefix of its
  waited-by list is overwritten (past its end if the prefix were longer) and the
  recorded difference added to its counter.
\<close>

definition apply_update :: "TxnInfoUpdate \<Rightarrow> DDRTxnInfo \<Rightarrow> DDRTxnInfo result" where
  "apply_update u i =
     (if length (dt_waited_by i) < length (tu_waited_by u) then Inl (Undefined ''copy past the end of waited_by'')
      else Inr (i\<lparr>dt_deadlocked := True,
        dt_waited_by := tu_waited_by u @ drop (length (tu_waited_by u)) (dt_waited_by i),
        dt_num_waiting_for := dt_num_waiting_for i + tu_num_waiting_for u\<rparr>))"

fun apply_updates :: "TxnId list \<Rightarrow> updates \<Rightarrow> (TxnId \<rightharpoonup> DDRTxnInfo) \<Rightarrow> TxnId list \<Rightarrow>
    ((TxnId \<rightharpoonup> DDRTxnInfo) \<times> TxnId list) result" where
  "apply_updates [] ups info rdy = Inr (info, rdy)"
| "apply_updates (t # ts) ups info rdy =
     (case ups t of
        None \<Rightarrow> Inl (CheckFailed ''update_it != txn_info_updates_.end()'')
      | Some u \<Rightarrow>
          (case info t of
             None \<Rightarrow> Inl (CheckFailed ''txn_it != lm_.txn_info_.end()'')
           | Some i \<Rightarrow> rbind (apply_update u i) (\<lambda>i'.
               apply_updates ts ups (info(t \<mapsto> i')) (if DDR_is_ready i' then rdy @ [t] else rdy))))"

text \<open>The first component of the result says whether the scheduler is signalled.\<close>

definition CheckAndResolveDeadlocks :: "DeadlockResolver \<Rightarrow> DDRLockManager \<Rightarrow>
    (bool \<times> DeadlockResolver \<times> DDRLockManager) result" where
  "CheckAndResolveDeadlocks r m =
     (let g = (\<lambda>t. map_option (\<lambda>n. n\<lparr>nd_is_visited := False\<rparr>) (dr_graph r t)) in
      rbind (resolve_vertices (dr_dfs_order r)
          (r\<lparr>dr_graph := g, dr_to_be_updated := [], dr_deadlocks_resolved := 0\<rparr>) m) (\<lambda>(r1, m1).
      rbind (apply_updates (dr_to_be_updated r1) (dr_txn_info_updates r1) (dm_txn_info m1) []) (\<lambda>(info, rdy).
        Inr (rdy \<noteq> [], r1\<lparr>dr_txn_info_updates := (\<lambda>t. if t \<in> set (dr_dfs_order r1) then None else dr_txn_info_updates r1 t)\<rparr>,
          m1\<lparr>dm_txn_info := info, dm_ready_txns := dm_ready_txns m1 @ rdy\<rparr>))))"

definition DeadlockResolver_Run :: "(TxnId set \<Rightarrow> TxnId list) \<Rightarrow> DeadlockResolver \<Rightarrow> DDRLockManager \<Rightarrow>
    (LogEntry list \<times> bool \<times> DeadlockResolver \<times> DDRLockManager) result" where
  "DeadlockResolver_Run iter r m =
     rbind (UpdateGraphAndBroadcastChanges iter r m) (\<lambda>(sent, r1, m1).
     rbind (FindSCCOrder iter r1) (\<lambda>r2.
     rbind (CheckAndResolveDeadlocks r2 m1) (\<lambda>(signal, r3, m3).
       Inr (sent, signal, r3, m3))))"

subsection \<open>The effect of the resolution on the waited-by lists\<close>

definition uwb :: "updates \<Rightarrow> TxnId \<Rightarrow> TxnId list" where
  "uwb ups t = (case ups t of None \<Rightarrow> [] | Some u \<Rightarrow> tu_waited_by u)"

definition unum :: "updates \<Rightarrow> TxnId \<Rightarrow> int" where
  "unum ups t = (case ups t of None \<Rightarrow> 0 | Some u \<Rightarrow> tu_num_waiting_for u)"

text \<open>
  \<open>relinked S nx ws ws'\<close>: \<open>ws'\<close> is \<open>ws\<close> without its entries in \<open>S\<close>, except for one new
  entry \<open>nx\<close>, all other entries in their places.
\<close>

definition relinked :: "TxnId set \<Rightarrow> TxnId option \<Rightarrow> TxnId list \<Rightarrow> TxnId list \<Rightarrow> bool" where
  "relinked S nx ws ws' \<longleftrightarrow> length ws' = length ws \<and> filter (\<lambda>x. x \<in> S) ws' = (case nx of None \<Rightarrow> [] | Some n \<Rightarrow> [n]) \<and>
     filter (\<lambda>x. x \<notin> S \<and> x \<noteq> kSentinelTxnId) ws' = filter (\<lambda>x. x \<notin> S \<and> x \<noteq> kSentinelTxnId) ws"

lemma remove_scc_edges_spec:
  assumes "\<forall>x\<in>set ws \<inter> set scc. ups x \<noteq> None"
  shows "remove_scc_edges scc ws ups = Inr (map (\<lambda>x. if x \<in> set scc then kSentinelTxnId else x) ws,
    (\<lambda>t. map_option (\<lambda>u. if t \<in> set scc then u\<lparr>tu_num_waiting_for := tu_num_waiting_for u - int (count_list ws t)\<rparr> else u) (ups t)))"
  using assms
proof (induction ws arbitrary: ups)
  case Nil
  then show ?case by (auto simp: fun_eq_iff map_option_case split: option.split)
next
  case (Cons x ws)
  show ?case
  proof (cases "x \<in> set scc")
    case True
    with Cons.prems obtain u where u: "ups x = Some u" by auto
    let ?ups = "ups(x \<mapsto> u\<lparr>tu_num_waiting_for := tu_num_waiting_for u - 1\<rparr>)"
    have "\<forall>y\<in>set ws \<inter> set scc. ?ups y \<noteq> None" using Cons.prems by auto
    note ih = Cons.IH [OF this]
    have "map_option (\<lambda>u. if t \<in> set scc then u\<lparr>tu_num_waiting_for := tu_num_waiting_for u - int (count_list ws t)\<rparr> else u) (?ups t) =
        map_option (\<lambda>u. if t \<in> set scc then u\<lparr>tu_num_waiting_for := tu_num_waiting_for u - int (count_list (x # ws) t)\<rparr> else u) (ups t)" for t
      using True u by (cases "t = x"; cases "ups t") auto
    note ih [unfolded this]
    then show ?thesis using True u by (simp del: count_list.simps fun_upd_apply)
  next
    case False
    with Cons.prems have "\<forall>y\<in>set ws \<inter> set scc. ups y \<noteq> None" by auto
    note ih = Cons.IH [OF this]
    have "map_option (\<lambda>u. if t \<in> set scc then u\<lparr>tu_num_waiting_for := tu_num_waiting_for u - int (count_list ws t)\<rparr> else u) (ups t) =
        map_option (\<lambda>u. if t \<in> set scc then u\<lparr>tu_num_waiting_for := tu_num_waiting_for u - int (count_list (x # ws) t)\<rparr> else u) (ups t)" for t
      using False by (cases "t = x"; cases "ups t") auto
    note ih [unfolded this]
    then show ?thesis using False by (simp del: count_list.simps)
  qed
qed

lemma fill_slot_spec:
  "kSentinelTxnId \<in> set ws \<Longrightarrow> \<exists>a b. ws = a @ kSentinelTxnId # b \<and> fill_slot other ws = Some (a @ other # b)"
proof (induction ws)
  case (Cons w ws)
  show ?case
  proof (cases "w = kSentinelTxnId")
    case True
    then show ?thesis by (intro exI [of _ "[]"] exI [of _ ws]) simp
  next
    case False
    with Cons obtain a b where "ws = a @ kSentinelTxnId # b" "fill_slot other ws = Some (a @ other # b)" by auto
    with False show ?thesis by (intro exI [of _ "w # a"] exI [of _ b]) simp
  qed
qed simp

lemma filter_map_removed:
  assumes "kSentinelTxnId \<notin> S"
  shows "filter (\<lambda>x. x \<in> S) (map (\<lambda>x. if x \<in> S then kSentinelTxnId else x) ws) = []"
    "filter (\<lambda>x. x \<notin> S \<and> x \<noteq> kSentinelTxnId) (map (\<lambda>x. if x \<in> S then kSentinelTxnId else x) ws) =
     filter (\<lambda>x. x \<notin> S \<and> x \<noteq> kSentinelTxnId) ws"
  using assms by (induction ws) auto

lemma removed_relinked:
  assumes "kSentinelTxnId \<notin> S"
  shows "relinked S None ws (map (\<lambda>x. if x \<in> S then kSentinelTxnId else x) ws)"
  unfolding relinked_def filter_map_removed [OF assms] by simp

lemma fill_relinked:
  assumes "kSentinelTxnId \<notin> S" "n \<in> S" "map (\<lambda>x. if x \<in> S then kSentinelTxnId else x) ws = a @ kSentinelTxnId # b"
  shows "relinked S (Some n) ws (a @ n # b)"
proof -
  have "filter (\<lambda>x. x \<in> S) (a @ kSentinelTxnId # b) = []"
    "filter (\<lambda>x. x \<notin> S \<and> x \<noteq> kSentinelTxnId) (a @ kSentinelTxnId # b) = filter (\<lambda>x. x \<notin> S \<and> x \<noteq> kSentinelTxnId) ws"
    using filter_map_removed [OF assms(1), of ws] unfolding assms(3) by blast+
  moreover have "length ws = length (a @ kSentinelTxnId # b)" using arg_cong [OF assms(3), of length] by simp
  ultimately show ?thesis using assms(1,2) by (simp add: relinked_def)
qed

text \<open>One member of the component.\<close>

lemma resolve_one:
  assumes "kSentinelTxnId \<notin> set scc" "ups t = Some u" "kSentinelTxnId \<in> set (tu_waited_by u)"
    and "\<forall>x\<in>set (tu_waited_by u) \<inter> set scc. ups x \<noteq> None"
    and "\<forall>p. prev_local = Some p \<longrightarrow> p \<in> set scc \<and> ups p \<noteq> None"
  obtains ups' where
    "\<And>ts tbu. resolve_loop scc (t # ts) prev_local ups tbu = resolve_loop scc ts (Some t) ups' (tbu @ [t])"
    "\<And>x. ups' x = None \<longleftrightarrow> ups x = None" "\<And>x. x \<notin> set scc \<Longrightarrow> x \<noteq> t \<Longrightarrow> ups' x = ups x"
    "\<And>x. x \<noteq> t \<Longrightarrow> uwb ups' x = uwb ups x" "relinked (set scc) prev_local (uwb ups t) (uwb ups' t)"
    "\<And>x. x \<in> set scc \<Longrightarrow> ups x \<noteq> None \<Longrightarrow>
      unum ups' x = unum ups x - int (count_list (uwb ups t) x) + (if prev_local = Some x then 1 else 0)"
proof -
  let ?S = "set scc"
  let ?ws = "map (\<lambda>x. if x \<in> ?S then kSentinelTxnId else x) (tu_waited_by u)"
  define ups1 where "ups1 = (\<lambda>x. map_option (\<lambda>v. if x \<in> ?S
    then v\<lparr>tu_num_waiting_for := tu_num_waiting_for v - int (count_list (tu_waited_by u) x)\<rparr> else v) (ups x))"
  have rm: "remove_scc_edges scc (tu_waited_by u) ups = Inr (?ws, ups1)"
    unfolding ups1_def by (rule remove_scc_edges_spec [OF assms(4)])
  obtain u1 where u1: "ups1 t = Some u1" "tu_waited_by u1 = tu_waited_by u" using assms(2) by (auto simp: ups1_def)
  obtain ws' ups2 where add: "add_scc_edge prev_local ?ws ups1 = Inr (ws', ups2)"
    and rel: "relinked ?S prev_local (tu_waited_by u) ws'"
    and ups2: "ups2 = (case prev_local of None \<Rightarrow> ups1 | Some p \<Rightarrow> inc_num_waiting_for p ups1)"
  proof (cases prev_local)
    case None
    then show ?thesis using that removed_relinked [OF assms(1)] by (simp add: add_scc_edge_def)
  next
    case (Some p)
    have "kSentinelTxnId \<in> set ?ws" using assms(1,3) by (force simp: image_iff)
    then obtain a b where "?ws = a @ kSentinelTxnId # b" "fill_slot p ?ws = Some (a @ p # b)"
      using fill_slot_spec by blast
    with Some that fill_relinked [OF assms(1)] assms(5) show ?thesis by (simp add: add_scc_edge_def)
  qed
  define ups3 where "ups3 = set_waited_by t ws' ups2"
  have d1: "ups1 x = None \<longleftrightarrow> ups x = None" for x by (simp add: ups1_def)
  have d2: "ups2 x = None \<longleftrightarrow> ups x = None" for x
    using d1 [of x] by (auto simp: ups2 inc_num_waiting_for_def split: option.splits)
  have t2: "ups2 t \<noteq> None" using d2 assms(2) by simp
  have w1: "uwb ups1 x = uwb ups x" for x by (simp add: uwb_def ups1_def split: option.split)
  have w2: "uwb ups2 x = uwb ups x" for x
    using w1 [of x] by (auto simp: ups2 inc_num_waiting_for_def uwb_def split: option.splits)
  have w3: "uwb ups3 x = (if x = t then ws' else uwb ups x)" for x
    using t2 w2 [of x] by (auto simp: ups3_def set_waited_by_def uwb_def)
  have n1: "unum ups1 x = unum ups x - int (count_list (tu_waited_by u) x)" if "x \<in> ?S" "ups x \<noteq> None" for x
    using that by (auto simp: unum_def ups1_def)
  have n3: "unum ups3 x = unum ups1 x + (if prev_local = Some x then 1 else 0)" if "ups x \<noteq> None" for x
    using that d1 [of x] by (auto simp: unum_def ups3_def set_waited_by_def ups2 inc_num_waiting_for_def split: option.splits)
  show thesis
  proof (rule that [of ups3])
    show "resolve_loop scc (t # ts) prev_local ups tbu = resolve_loop scc ts (Some t) ups3 (tbu @ [t])" for ts tbu
      using assms(2) by (simp add: rm add ups3_def)
    show "ups3 x = None \<longleftrightarrow> ups x = None" for x
      using d2 t2 by (auto simp: ups3_def set_waited_by_def split: option.splits)
    show "ups3 x = ups x" if "x \<notin> ?S" "x \<noteq> t" for x
      using that assms(5) by (auto simp: ups3_def set_waited_by_def ups2 inc_num_waiting_for_def ups1_def
          option.map_ident split: option.splits)
    show "uwb ups3 x = uwb ups x" if "x \<noteq> t" for x using that w3 by simp
    show "relinked ?S prev_local (uwb ups t) (uwb ups3 t)" using rel w3 assms(2) by (simp add: uwb_def)
    show "unum ups3 x = unum ups x - int (count_list (uwb ups t) x) + (if prev_local = Some x then 1 else 0)"
      if "x \<in> ?S" "ups x \<noteq> None" for x
      using n1 [OF that] n3 [OF that(2)] assms(2) by (simp add: uwb_def)
  qed
qed

end
