(* ===== verification/Text.thy ===== *)
theory Text
  imports Ids
begin

section \<open>Strings and numbers\<close>

text \<open>
  The string helpers of \<^verbatim>\<open>string_utils.cpp\<close>, the conversions of the standard
  library that the program applies to keys, arguments and configuration strings, and
  the rolling window of \<^verbatim>\<open>rolling_window.h\<close>.  Positions are numbers and
  \<^verbatim>\<open>string::npos\<close> is \<open>None\<close>.
\<close>

subsection \<open>Tokens\<close>

definition find_first_not_of :: "string \<Rightarrow> string \<Rightarrow> nat \<Rightarrow> nat option" where
  "find_first_not_of str delims pos =
     (let i = pos + length (takeWhile (\<lambda>c. c \<in> set delims) (drop pos str)) in
      if i < length str then Some i else None)"

definition find_first_of :: "string \<Rightarrow> string \<Rightarrow> nat \<Rightarrow> nat option" where
  "find_first_of str delims pos =
     (let i = pos + length (takeWhile (\<lambda>c. c \<notin> set delims) (drop pos str)) in
      if i < length str then Some i else None)"

definition NextToken :: "string \<Rightarrow> string \<Rightarrow> nat \<Rightarrow> string \<times> nat option" where
  "NextToken str delims pos =
     (case find_first_not_of str delims pos of
        None \<Rightarrow> ([], None)
      | Some start \<Rightarrow>
          let end_pos = (case find_first_of str delims start of None \<Rightarrow> length str | Some e \<Rightarrow> e);
            token = take (end_pos - start) (drop start str) in
          (token, Some (start + length token)))"

fun next_n_tokens_loop :: "nat \<Rightarrow> string \<Rightarrow> string \<Rightarrow> nat \<Rightarrow> string list \<Rightarrow> string list \<times> nat option" where
  "next_n_tokens_loop 0 str delims pos tokens = (tokens, Some pos)"
| "next_n_tokens_loop (Suc n) str delims pos tokens =
     (case NextToken str delims pos of
        (_, None) \<Rightarrow> ([], None)
      | (token, Some pos') \<Rightarrow> next_n_tokens_loop n str delims pos' (tokens @ [token]))"

definition NextNTokens :: "string \<Rightarrow> string \<Rightarrow> nat \<Rightarrow> nat \<Rightarrow> string list \<times> nat option" where
  "NextNTokens str delims n pos = next_n_tokens_loop n str delims pos []"

text \<open>The token at a position, in terms of the rest of the string.\<close>

lemma NextToken_eq:
  assumes "pos \<le> length str"
  shows "NextToken str delims pos =
    (case dropWhile (\<lambda>c. c \<in> set delims) (drop pos str) of
       [] \<Rightarrow> ([], None)
     | c # cs \<Rightarrow> (c # takeWhile (\<lambda>c. c \<notin> set delims) cs,
         Some (length str - length (dropWhile (\<lambda>c. c \<notin> set delims) cs))))"
proof -
  let ?skip = "takeWhile (\<lambda>c. c \<in> set delims) (drop pos str)"
  let ?rest = "dropWhile (\<lambda>c. c \<in> set delims) (drop pos str)"
  have len: "length ?skip + length ?rest = length str - pos"
    by (metis length_append length_drop takeWhile_dropWhile_id)
  have rest: "drop (pos + length ?skip) str = ?rest"
    by (metis drop_drop dropWhile_eq_drop add.commute)
  show ?thesis
  proof (cases ?rest)
    case Nil
    then have "\<not> pos + length ?skip < length str" using len assms unfolding Nil by simp
    then show ?thesis unfolding Nil by (simp add: NextToken_def find_first_not_of_def)
  next
    case (Cons c cs)
    let ?start = "pos + length ?skip"
    let ?tok = "takeWhile (\<lambda>c. c \<notin> set delims) (c # cs)" and ?left = "dropWhile (\<lambda>c. c \<notin> set delims) cs"
    have lt: "?start < length str" using len assms unfolding Cons by simp
    have c: "c \<notin> set delims" using Cons by (metis dropWhile_eq_Cons_conv)
    have l2: "length ?tok + length ?left = length str - ?start"
      using len c length_append [of "takeWhile (\<lambda>c. c \<notin> set delims) cs" ?left, unfolded takeWhile_dropWhile_id]
      unfolding Cons by (simp del: length_append)
    have le: "?start + length ?tok \<le> length str" using l2 lt by linarith
    have e: "(case find_first_of str delims ?start of None \<Rightarrow> length str | Some e \<Rightarrow> e) = ?start + length ?tok"
      unfolding find_first_of_def Let_def rest Cons using le by (simp del: takeWhile.simps dropWhile.simps)
    have tk: "take (length ?tok) (c # cs) = ?tok" by (rule takeWhile_eq_take [symmetric])
    have pos: "?start + length ?tok = length str - length ?left" using l2 lt by linarith
    have ns: "find_first_not_of str delims pos = Some ?start" using lt by (simp add: find_first_not_of_def Let_def)
    have "NextToken str delims pos = (?tok, Some (length str - length ?left))"
      unfolding NextToken_def ns option.case Let_def e rest Cons add_diff_cancel_left' tk
      by (simp only: pos)
    then show ?thesis unfolding Cons using c by simp
  qed
qed

lemma NextToken_progress:
  "NextToken str delims pos = (token, Some pos') \<Longrightarrow> pos < pos' \<and> pos' \<le> length str"
proof (cases "pos \<le> length str")
  case True
  assume a: "NextToken str delims pos = (token, Some pos')"
  show ?thesis
  proof (cases "dropWhile (\<lambda>c. c \<in> set delims) (drop pos str)")
    case Nil
    with a show ?thesis by (simp add: NextToken_eq [OF True] del: dropWhile_eq_Nil_conv)
  next
    case (Cons c cs)
    have "length (c # cs) \<le> length (drop pos str)" unfolding Cons [symmetric] by (rule length_dropWhile_le)
    moreover have "length (dropWhile (\<lambda>c. c \<notin> set delims) cs) \<le> length cs" by (rule length_dropWhile_le)
    ultimately show ?thesis using a Cons by (auto simp: NextToken_eq [OF True])
  qed
next
  case False
  assume "NextToken str delims pos = (token, Some pos')"
  with False show ?thesis by (simp add: NextToken_def find_first_not_of_def)
qed

function split_loop :: "string \<Rightarrow> string \<Rightarrow> nat \<Rightarrow> string list" where
  "split_loop str delims pos =
     (case NextToken str delims pos of
        (_, None) \<Rightarrow> []
      | (token, Some pos') \<Rightarrow> token # split_loop str delims pos')"
  by pat_completeness auto
termination
proof (relation "measure (\<lambda>(str, delims, pos). length str - pos)", goal_cases)
  case (2 str delims pos token opt pos')
  then have "NextToken str delims pos = (token, Some pos')" by simp
  from NextToken_progress [OF this] show ?case by auto
qed simp

declare split_loop.simps [simp del]

definition Split :: "string \<Rightarrow> string \<Rightarrow> string list" where
  "Split str delims = split_loop str delims 0"

text \<open>The reference: the maximal runs of characters that are no delimiters, in order.\<close>

function split_ref :: "char set \<Rightarrow> string \<Rightarrow> string list" where
  "split_ref ds s =
     (case dropWhile (\<lambda>c. c \<in> ds) s of
        [] \<Rightarrow> []
      | c # cs \<Rightarrow> (c # takeWhile (\<lambda>c. c \<notin> ds) cs) # split_ref ds (dropWhile (\<lambda>c. c \<notin> ds) cs))"
  by pat_completeness auto
termination
proof (relation "measure (\<lambda>(ds, s). length s)", goal_cases)
  case (2 ds s c cs)
  have "length (c # cs) \<le> length s" unfolding 2 [symmetric] by (rule length_dropWhile_le)
  moreover have "length (dropWhile (\<lambda>c. c \<notin> ds) cs) \<le> length cs" by (rule length_dropWhile_le)
  ultimately show ?case by simp
qed simp

declare split_ref.simps [simp del]

lemma split_loop_ref: "pos \<le> length str \<Longrightarrow> split_loop str delims pos = split_ref (set delims) (drop pos str)"
proof (induction str delims pos rule: split_loop.induct)
  case (1 str delims pos)
  show ?case
  proof (cases "dropWhile (\<lambda>c. c \<in> set delims) (drop pos str)")
    case Nil
    then show ?thesis
      unfolding split_loop.simps [of str delims pos] split_ref.simps [of _ "drop pos str"] NextToken_eq [OF "1.prems"] Nil by simp
  next
    case (Cons c cs)
    let ?left = "dropWhile (\<lambda>c. c \<notin> set delims) cs" and ?tok = "c # takeWhile (\<lambda>c. c \<notin> set delims) cs"
    let ?pos = "length str - length ?left"
    have nt: "NextToken str delims pos = (?tok, Some ?pos)"
      unfolding NextToken_eq [OF "1.prems"] Cons by simp
    have "drop pos str = takeWhile (\<lambda>c. c \<in> set delims) (drop pos str) @ c # cs"
      unfolding Cons [symmetric] by simp
    then have "str = (take pos str @ takeWhile (\<lambda>c. c \<in> set delims) (drop pos str) @ c #
        takeWhile (\<lambda>c. c \<notin> set delims) cs) @ ?left"
      by (metis append.assoc append_Cons append_take_drop_id takeWhile_dropWhile_id)
    then have dr: "drop ?pos str = ?left" by (metis append_eq_conv_conj diff_add_inverse2 length_append)
    have "split_loop str delims ?pos = split_ref (set delims) (drop ?pos str)"
      using "1.IH" [OF nt [symmetric]] by simp
    then show ?thesis
      unfolding split_loop.simps [of str delims pos] split_ref.simps [of _ "drop pos str"] nt Cons by (simp add: dr)
  qed
qed

text \<open>
  \<open>Split\<close> returns exactly the maximal runs of non-delimiters of the string, in order;
  in particular it ends on every input, and no token is empty or holds a delimiter.
\<close>
theorem Split_correct: "Split str delims = split_ref (set delims) str"
  by (simp add: Split_def split_loop_ref)

subsection \<open>Trimming\<close>

definition isspace :: "char \<Rightarrow> bool" where
  "isspace c \<longleftrightarrow> of_char c \<in> {9, 10, 11, 12, 13, 32 :: nat}"

definition Trim :: "string \<Rightarrow> string" where
  "Trim str = rev (dropWhile isspace (rev (dropWhile isspace str)))"

subsection \<open>Numbers\<close>

text \<open>
  \<^verbatim>\<open>std::stoll\<close> and \<^verbatim>\<open>std::stoi\<close>: leading white space, an optional sign and the
  longest run of digits; no digit is an \<^verbatim>\<open>invalid_argument\<close>, a value that does not
  fit an \<^verbatim>\<open>out_of_range\<close> exception.
\<close>

definition is_digit :: "char \<Rightarrow> bool" where
  "is_digit c \<longleftrightarrow> 48 \<le> (of_char c :: nat) \<and> (of_char c :: nat) \<le> 57"

definition parse_int :: "nat \<Rightarrow> string \<Rightarrow> int result" where
  "parse_int bits str =
     (let s = dropWhile isspace str;
        neg = (case s of c # _ \<Rightarrow> c = CHR ''-'' | [] \<Rightarrow> False);
        body = (case s of c # cs \<Rightarrow> if c = CHR ''-'' \<or> c = CHR ''+'' then cs else s | [] \<Rightarrow> []);
        digits = takeWhile is_digit body;
        v = (if neg then - 1 else 1) * int (of_digits digits 0) in
      if digits = [] then Inl (RuntimeError ''invalid_argument'')
      else if - (2 ^ (bits - 1)) \<le> v \<and> v < 2 ^ (bits - 1) then Inr v else Inl (OutOfRange ''stoll''))"

definition stoll :: "string \<Rightarrow> int result" where
  "stoll = parse_int 64"

definition stoi :: "string \<Rightarrow> int result" where
  "stoi = parse_int 32"

lemma parse_int_bounds: "parse_int bits s = Inr v \<Longrightarrow> - (2 ^ (bits - 1)) \<le> v \<and> v < 2 ^ (bits - 1)"
  by (simp add: parse_int_def Let_def split: if_splits)

subsection \<open>Rolling window\<close>

record RollingWindow =
  rw_max_size :: nat
  rw_buffer :: "int list"
  rw_sum :: int

definition RollingWindow_new :: "nat \<Rightarrow> RollingWindow" where
  "RollingWindow_new sz = \<lparr>rw_max_size = sz, rw_buffer = [], rw_sum = 0\<rparr>"

definition RollingWindow_Add :: "int \<Rightarrow> RollingWindow \<Rightarrow> RollingWindow" where
  "RollingWindow_Add v w =
     (let buffer = rw_buffer w @ [v]; s = rw_sum w + v in
      if rw_max_size w < length buffer then w\<lparr>rw_buffer := tl buffer, rw_sum := s - hd buffer\<rparr>
      else w\<lparr>rw_buffer := buffer, rw_sum := s\<rparr>)"

text \<open>The average is the quotient of \<open>rw_sum\<close> and the number of buffered values; it is undefined on an empty window.\<close>

definition RollingWindow_avg :: "RollingWindow \<Rightarrow> (int \<times> nat) option" where
  "RollingWindow_avg w = (if rw_buffer w = [] then None else Some (rw_sum w, length (rw_buffer w)))"

lemma drop_window:
  "drop (length (drop (length ys - n) ys @ vs) - n) (drop (length ys - n) ys @ vs) = drop (length (ys @ vs) - n) (ys @ vs)"
proof (cases "length ys \<le> n")
  case False
  then have "drop (length ys - n) ys @ vs = drop (length ys - n) (ys @ vs)" by simp
  with False show ?thesis by (simp add: drop_drop add.commute del: drop_append)
qed simp

lemma RollingWindow_foldl:
  assumes "length (rw_buffer w) \<le> rw_max_size w" "rw_sum w = sum_list (rw_buffer w)"
  shows "rw_max_size (foldl (\<lambda>w v. RollingWindow_Add v w) w vs) = rw_max_size w \<and>
    rw_buffer (foldl (\<lambda>w v. RollingWindow_Add v w) w vs) =
      drop (length (rw_buffer w @ vs) - rw_max_size w) (rw_buffer w @ vs) \<and>
    rw_sum (foldl (\<lambda>w v. RollingWindow_Add v w) w vs) = sum_list (rw_buffer (foldl (\<lambda>w v. RollingWindow_Add v w) w vs))"
  using assms
proof (induction vs arbitrary: w)
  case Nil
  then show ?case by simp
next
  case (Cons v vs)
  have step: "rw_max_size (RollingWindow_Add v w) = rw_max_size w"
    "rw_buffer (RollingWindow_Add v w) = drop (Suc (length (rw_buffer w)) - rw_max_size w) (rw_buffer w @ [v])"
    "rw_sum (RollingWindow_Add v w) = sum_list (rw_buffer (RollingWindow_Add v w))"
    "length (rw_buffer (RollingWindow_Add v w)) \<le> rw_max_size w"
    using Cons.prems by (cases "rw_buffer w"; auto simp: RollingWindow_Add_def Let_def Suc_diff_le)+
  have eq: "drop (length (rw_buffer (RollingWindow_Add v w) @ vs) - rw_max_size w) (rw_buffer (RollingWindow_Add v w) @ vs) =
      drop (length (rw_buffer w @ v # vs) - rw_max_size w) (rw_buffer w @ v # vs)"
    using drop_window [of "rw_buffer w @ [v]" "rw_max_size w" vs] unfolding step(2) by simp
  show ?case using Cons.IH [of "RollingWindow_Add v w"] step eq by simp
qed

text \<open>
  After adding values to a window of capacity \<open>n\<close>, the window holds the last \<open>n\<close>
  of them and its sum is their sum.
\<close>
theorem rolling_window_sum:
  "let w = foldl (\<lambda>w v. RollingWindow_Add v w) (RollingWindow_new n) vs in
   rw_buffer w = drop (length vs - n) vs \<and> rw_sum w = sum_list (drop (length vs - n) vs)"
  using RollingWindow_foldl [of "RollingWindow_new n" vs] by (simp add: RollingWindow_new_def Let_def)

end
