(* ===== verification/Config.thy ===== *)
theory Config
  imports Text Txn "HOL-Library.Signed_Division"
begin

section \<open>Configuration and sharding\<close>

text \<open>
  The configuration of a deployment (\<^verbatim>\<open>configuration.cpp\<close>): its checks, the machine
  ids it assigns and its accessors; and the functions that map keys to partitions
  (\<^verbatim>\<open>sharder.cpp\<close>).  The configuration file itself is parsed by Protocol Buffers, so
  the constructor starts from the parsed message.
\<close>

subsection \<open>The parsed configuration\<close>

datatype ExecutionType = KEY_VALUE | NOOP | TPC_C | MOVR

datatype Partitioning = NoPartitioning | HashPartitioning nat | SimplePartitioning | SimplePartitioning2
  | TPCCPartitioning int | MovrPartitioning int

record RegionConfig =
  rg_addresses :: "string list"
  rg_num_replicas :: nat
  rg_sync_replication :: bool
  rg_shrink_mh_orderer :: bool
  rg_distance_ranking :: string

record ProtoConfig =
  pc_regions :: "RegionConfig list"
  pc_broker_ports :: "nat list"
  pc_server_port :: nat
  pc_forwarder_port :: nat
  pc_sequencer_port :: nat
  pc_num_partitions :: nat
  pc_num_workers :: nat
  pc_num_log_managers :: nat
  pc_replication_factor :: nat
  pc_bypass_mh_orderer :: bool
  pc_force_bypass_mh_orderer :: bool
  pc_ddr_interval :: nat
  pc_synchronized_batching :: bool
  pc_execution_type :: ExecutionType
  pc_partitioning :: Partitioning
  pc_replication_order :: "string list"
  pc_sequencer_batch_duration :: nat
  pc_avg_latency_window_size :: nat
  pc_enabled_events :: "nat list"
  pc_cpu_pinnings :: "(nat \<times> nat) list"
  pc_broker_rcvbuf :: int
  pc_long_sender_sndbuf :: int

record Configuration =
  cf_config :: ProtoConfig
  cf_local_address :: string
  cf_local_region :: nat
  cf_local_replica :: nat
  cf_local_partition :: nat
  cf_local_machine_id :: MachineId
  cf_all_addresses :: "MachineId \<rightharpoonup> string"
  cf_all_machine_ids :: "MachineId list"
  cf_replication_order :: "uint32 list"

definition kMaxNumBrokers :: nat where "kMaxNumBrokers = 15 - 11"
definition kMaxNumLogManagers :: nat where "kMaxNumLogManagers = 45 - 15"
definition kMaxNumLogs :: nat where "kMaxNumLogs = 100 - 70"
definition kMaxNumWorkers :: nat where "kMaxNumWorkers = 70 - 45"

subsection \<open>The constructor\<close>

definition CHECK :: "bool \<Rightarrow> string \<Rightarrow> unit result" where
  "CHECK b msg = (if b then Inr () else Inl (CheckFailed msg))"

lemma CHECK_Inr [simp]: "CHECK b msg = Inr x \<longleftrightarrow> b"
  by (simp add: CHECK_def)

definition check_limits :: "ProtoConfig \<Rightarrow> unit result" where
  "check_limits c =
     rbind (CHECK (pc_replication_factor c \<le> length (pc_regions c)) ''Replication factor must not exceed number of regions'') (\<lambda>_.
     rbind (CHECK (length (pc_broker_ports c) < kMaxNumBrokers) ''Too many brokers'') (\<lambda>_.
     rbind (CHECK (0 < length (pc_broker_ports c)) ''There must be at least one broker'') (\<lambda>_.
     rbind (CHECK (pc_server_port c \<noteq> 0) ''Server port must be set'') (\<lambda>_.
     rbind (CHECK (pc_forwarder_port c \<noteq> 0) ''Forwarder port must be set'') (\<lambda>_.
     rbind (CHECK (pc_sequencer_port c \<noteq> 0) ''Sequencer port must be set'') (\<lambda>_.
     rbind (CHECK (pc_num_workers c < kMaxNumWorkers) ''Too many workers'') (\<lambda>_.
     rbind (CHECK (pc_num_log_managers c < kMaxNumLogManagers) ''Too many log managers'') (\<lambda>_.
     rbind (CHECK (length (pc_regions c) < kMaxNumLogs) ''Too many reigons'') (\<lambda>_.
       CHECK (pc_num_log_managers c \<le> length (pc_regions c)) ''Number of log managers cannot exceed number of regions'')))))))))"

text \<open>\<open>ddr\<close> says whether the program was compiled with the dependency-graph lock manager.\<close>

definition check_bypass :: "bool \<Rightarrow> ProtoConfig \<Rightarrow> ProtoConfig result" where
  "check_bypass ddr c =
     (if pc_force_bypass_mh_orderer c then Inr (c\<lparr>pc_bypass_mh_orderer := True\<rparr>)
      else if ddr then rbind (CHECK (\<not> pc_bypass_mh_orderer c \<or> 0 < pc_ddr_interval c)
             ''Deadlock resolver must be enabled in orderer-bypassing mode'') (\<lambda>_. Inr c)
      else rbind (CHECK (\<not> pc_bypass_mh_orderer c \<or> pc_synchronized_batching c)
             ''Batching by timestamp must be enabled in orderer-bypassing mode'') (\<lambda>_. Inr c))"

definition effective_replicas :: "RegionConfig \<Rightarrow> nat" where
  "effective_replicas rg = (if rg_num_replicas rg = 0 then 1 else rg_num_replicas rg)"

text \<open>One machine: region, replica and partition with the id they are packed into and the address.\<close>

type_synonym machine = "nat \<times> nat \<times> nat \<times> string"

definition machine_id_of :: "machine \<Rightarrow> MachineId" where
  "machine_id_of = (\<lambda>(reg, rep, p, addr). MakeMachineId (of_nat reg) (of_nat rep) (of_nat p))"

definition add_machine :: "string \<Rightarrow> Configuration \<times> bool \<Rightarrow> machine \<Rightarrow> Configuration \<times> bool" where
  "add_machine local_address = (\<lambda>(cf, valid) mc.
     case mc of (reg, rep, p, addr) \<Rightarrow>
       let i = machine_id_of mc;
         cf' = cf\<lparr>cf_all_addresses := (case cf_all_addresses cf i of None \<Rightarrow> (cf_all_addresses cf)(i \<mapsto> addr)
             | Some _ \<Rightarrow> cf_all_addresses cf),
           cf_all_machine_ids := cf_all_machine_ids cf @ [i]\<rparr> in
       if addr = local_address
       then (cf'\<lparr>cf_local_region := reg, cf_local_replica := rep, cf_local_partition := p, cf_local_machine_id := i\<rparr>, True)
       else (cf', valid))"

definition region_machines :: "nat \<Rightarrow> nat \<Rightarrow> RegionConfig \<Rightarrow> machine list" where
  "region_machines num_part reg rg =
     concat (map (\<lambda>rep. map (\<lambda>p. (reg, rep, p, rg_addresses rg ! (rep * num_part + p))) [0..<num_part])
       [0..<effective_replicas rg])"

fun add_regions :: "string \<Rightarrow> nat \<Rightarrow> nat \<Rightarrow> RegionConfig list \<Rightarrow> Configuration \<times> bool \<Rightarrow> (Configuration \<times> bool) result" where
  "add_regions local_address num_part reg [] s = Inr s"
| "add_regions local_address num_part reg (rg # rgs) s =
     rbind (CHECK (length (rg_addresses rg) = num_part * effective_replicas rg)
         ''Number of addresses in each region must match num_partitions * num_replicas'') (\<lambda>_.
       add_regions local_address num_part (Suc reg) rgs
         (foldl (add_machine local_address) s (region_machines num_part reg rg)))"

fun parse_order :: "nat \<Rightarrow> nat \<Rightarrow> string list \<Rightarrow> uint32 list result" where
  "parse_order num_regions local_region [] = Inr []"
| "parse_order num_regions local_region (s # ss) =
     rbind (stoll s) (\<lambda>r.
     rbind (CHECK (r < int num_regions) ''Invalid region specified in the replication order'') (\<lambda>_.
     rbind (parse_order num_regions local_region ss) (\<lambda>rest.
       Inr (if r \<noteq> int local_region then of_int r # rest else rest))))"

definition is_tpcc :: "Partitioning \<Rightarrow> bool" where
  "is_tpcc p = (case p of TPCCPartitioning _ \<Rightarrow> True | _ \<Rightarrow> False)"

definition Configuration_new :: "bool \<Rightarrow> ProtoConfig \<Rightarrow> string \<Rightarrow> Configuration result" where
  "Configuration_new ddr config local_address =
     rbind (check_limits config) (\<lambda>_.
     rbind (check_bypass ddr config) (\<lambda>c.
     rbind (add_regions local_address (pc_num_partitions c) 0 (pc_regions c)
         (\<lparr>cf_config = c, cf_local_address = local_address, cf_local_region = 0, cf_local_replica = 0,
           cf_local_partition = 0, cf_local_machine_id = 0, cf_all_addresses = Map.empty, cf_all_machine_ids = [],
           cf_replication_order = []\<rparr>, local_address = [])) (\<lambda>(cf, valid).
     rbind (CHECK valid ''The configuration does not contain the provided local machine ID'') (\<lambda>_.
     rbind (CHECK (pc_execution_type c = TPC_C \<longrightarrow> is_tpcc (pc_partitioning c))
         ''TPC-C execution type can only be paired with TPC-C partitioning'') (\<lambda>_.
     rbind (CHECK (is_tpcc (pc_partitioning c) \<longrightarrow> pc_execution_type c = TPC_C)
         ''TPC-C partitioning can only be paired with TPC-C execution type'') (\<lambda>_.
       if cf_local_region cf < length (pc_replication_order c)
       then rbind (parse_order (length (pc_regions c)) (cf_local_region cf)
           (Split (pc_replication_order c ! cf_local_region cf) '','')) (\<lambda>order.
         Inr (cf\<lparr>cf_replication_order := order\<rparr>))
       else Inr cf))))))"

subsection \<open>Accessors\<close>

definition Configuration_address :: "MachineId \<Rightarrow> Configuration \<Rightarrow> string result" where
  "Configuration_address i cf = (case cf_all_addresses cf i of None \<Rightarrow> Inl (CheckFailed ''Cannot find address for machine id'')
     | Some a \<Rightarrow> Inr a)"

definition num_regions :: "Configuration \<Rightarrow> nat" where
  "num_regions cf = length (pc_regions (cf_config cf))"

definition num_replicas :: "nat \<Rightarrow> Configuration \<Rightarrow> nat" where
  "num_replicas reg cf = max (rg_num_replicas (pc_regions (cf_config cf) ! reg)) 1"

definition num_partitions :: "Configuration \<Rightarrow> nat" where
  "num_partitions cf = pc_num_partitions (cf_config cf)"

definition num_workers :: "Configuration \<Rightarrow> nat" where
  "num_workers cf = max (pc_num_workers (cf_config cf)) 1"

definition num_log_managers :: "Configuration \<Rightarrow> nat" where
  "num_log_managers cf = max (pc_num_log_managers (cf_config cf)) 1"

definition sequencer_batch_duration :: "Configuration \<Rightarrow> nat" where
  "sequencer_batch_duration cf =
     (if pc_sequencer_batch_duration (cf_config cf) = 0 then 1 else pc_sequencer_batch_duration (cf_config cf))"

definition replication_factor :: "Configuration \<Rightarrow> nat" where
  "replication_factor cf = max (pc_replication_factor (cf_config cf)) 1"

definition local_sync_replication :: "Configuration \<Rightarrow> bool" where
  "local_sync_replication cf = rg_sync_replication (pc_regions (cf_config cf) ! cf_local_region cf)"

definition leader_region_for_multi_home_ordering :: "Configuration \<Rightarrow> nat" where
  "leader_region_for_multi_home_ordering cf = 0"

definition leader_partition_for_multi_home_ordering :: "Configuration \<Rightarrow> nat" where
  "leader_partition_for_multi_home_ordering cf = 0"

definition cpu_pinnings :: "nat \<Rightarrow> Configuration \<Rightarrow> nat list" where
  "cpu_pinnings module_id cf = map snd (filter (\<lambda>e. fst e = module_id) (pc_cpu_pinnings (cf_config cf)))"

definition avg_latency_window_size :: "Configuration \<Rightarrow> nat" where
  "avg_latency_window_size cf = max (pc_avg_latency_window_size (cf_config cf)) 1"

fun parse_ranking :: "string list \<Rightarrow> int list result" where
  "parse_ranking [] = Inr []"
| "parse_ranking (s # ss) = rbind (stoi s) (\<lambda>r. rbind (parse_ranking ss) (\<lambda>rs. Inr (r # rs)))"

definition distance_ranking_from :: "nat \<Rightarrow> Configuration \<Rightarrow> int list result" where
  "distance_ranking_from reg cf = parse_ranking (Split (rg_distance_ranking (pc_regions (cf_config cf) ! reg)) '','')"

definition broker_rcvbuf :: "Configuration \<Rightarrow> int" where
  "broker_rcvbuf cf = (if pc_broker_rcvbuf (cf_config cf) \<le> 0 then - 1 else pc_broker_rcvbuf (cf_config cf))"

definition long_sender_sndbuf :: "Configuration \<Rightarrow> int" where
  "long_sender_sndbuf cf =
     (if pc_long_sender_sndbuf (cf_config cf) \<le> 0 then - 1 else pc_long_sender_sndbuf (cf_config cf))"

subsection \<open>Every machine has its own id\<close>

fun all_machines :: "nat \<Rightarrow> nat \<Rightarrow> RegionConfig list \<Rightarrow> machine list" where
  "all_machines np reg [] = []"
| "all_machines np reg (rg # rgs) = region_machines np reg rg @ all_machines np (Suc reg) rgs"

definition place :: "machine \<Rightarrow> nat \<times> nat \<times> nat" where
  "place = (\<lambda>(reg, rep, p, addr). (reg, rep, p))"

lemma map_place_region:
  "map place (region_machines np reg rg) = map (Pair reg) (List.product [0..<effective_replicas rg] [0..<np])"
  by (simp add: region_machines_def place_def product_concat_map map_concat comp_def)

lemma place_all_machines:
  "set (map place (all_machines np reg rgs)) \<subseteq> {(r, e, p). reg \<le> r \<and> r < reg + length rgs \<and> p < np \<and>
     (\<exists>rg\<in>set rgs. e < effective_replicas rg)}"
proof (induction rgs arbitrary: reg)
  case (Cons rg rgs)
  have "set (map place (region_machines np reg rg)) \<subseteq> {(r, e, p). r = reg \<and> p < np \<and> e < effective_replicas rg}"
    unfolding map_place_region by auto
  with Cons.IH [of "Suc reg"] show ?case by fastforce
qed simp

lemma distinct_places: "distinct (map place (all_machines np reg rgs))"
proof (induction rgs arbitrary: reg)
  case (Cons rg rgs)
  have "distinct (map place (region_machines np reg rg))"
    unfolding map_place_region by (simp add: distinct_map distinct_product inj_on_def)
  moreover have "set (map place (region_machines np reg rg)) \<inter> set (map place (all_machines np (Suc reg) rgs)) = {}"
    using place_all_machines [of np "Suc reg" rgs] unfolding map_place_region by fastforce
  ultimately show ?case using Cons.IH by (simp del: set_map)
qed simp

lemma unpack_machine_id_of: "UnpackMachineId (machine_id_of m) = (case place m of (r, e, p) \<Rightarrow> (of_nat r, of_nat e, of_nat p))"
  by (simp add: machine_id_of_def place_def unpack_make_machine_id split: prod.split)

lemma of_nat_word_inj: "x < 2 ^ LENGTH('a) \<Longrightarrow> y < 2 ^ LENGTH('a) \<Longrightarrow> (of_nat x :: 'a::len word) = of_nat y \<Longrightarrow> x = y"
  by (simp add: word_of_nat_eq_iff take_bit_nat_eq_self)

lemma distinct_machine_ids:
  assumes "reg + length rgs \<le> 256" "np \<le> 65536" "\<forall>rg\<in>set rgs. effective_replicas rg \<le> 256"
  shows "distinct (map machine_id_of (all_machines np reg rgs))"
proof -
  have "inj_on machine_id_of (set (all_machines np reg rgs))"
  proof (rule inj_onI)
    fix m m' assume m: "m \<in> set (all_machines np reg rgs)" "m' \<in> set (all_machines np reg rgs)"
      and eq: "machine_id_of m = machine_id_of m'"
    obtain r e p where pl: "place m = (r, e, p)" by (cases "place m") auto
    obtain r' e' p' where pl': "place m' = (r', e', p')" by (cases "place m'") auto
    have b: "r < 256" "e < 256" "p < 65536" "r' < 256" "e' < 256" "p' < 65536"
      using place_all_machines [of np reg rgs] m pl pl' assms by (force simp: image_subset_iff)+
    from arg_cong [OF eq, of UnpackMachineId] have
      "(of_nat r :: 8 word) = of_nat r'" "(of_nat e :: 8 word) = of_nat e'" "(of_nat p :: 16 word) = of_nat p'"
      by (simp_all add: unpack_machine_id_of pl pl')
    then have "r = r'" "e = e'" "p = p'"
      using b of_nat_word_inj [where 'a = 8, of r r'] of_nat_word_inj [where 'a = 8, of e e']
        of_nat_word_inj [where 'a = 16, of p p'] by simp_all
    with pl pl' have "place m = place m'" by simp
    with m distinct_places [of np reg rgs] show "m = m'" by (auto simp: distinct_map dest: inj_onD)
  qed
  with distinct_places [of np reg rgs] show ?thesis by (simp add: distinct_map)
qed

text \<open>The invariant of the loops over the machines \<open>ms\<close> added so far.\<close>

definition config_inv :: "string \<Rightarrow> machine list \<Rightarrow> Configuration \<times> bool \<Rightarrow> bool" where
  "config_inv local_address ms = (\<lambda>(cf, valid).
     cf_all_machine_ids cf = map machine_id_of ms \<and>
     dom (cf_all_addresses cf) = set (cf_all_machine_ids cf) \<and>
     (distinct (map machine_id_of ms) \<longrightarrow>
       (\<forall>m\<in>set ms. cf_all_addresses cf (machine_id_of m) = Some (snd (snd (snd m))))) \<and>
     (valid \<longrightarrow> local_address = [] \<or> (\<exists>m\<in>set ms. snd (snd (snd m)) = local_address \<and>
       place m = (cf_local_region cf, cf_local_replica cf, cf_local_partition cf) \<and>
       cf_local_machine_id cf = machine_id_of m)))"

lemma add_machine_sel:
  "cf_all_machine_ids (fst (add_machine l (cf, valid) m)) = cf_all_machine_ids cf @ [machine_id_of m]"
  "cf_all_addresses (fst (add_machine l (cf, valid) m)) =
     (if cf_all_addresses cf (machine_id_of m) = None then (cf_all_addresses cf)(machine_id_of m \<mapsto> snd (snd (snd m)))
      else cf_all_addresses cf)"
  "snd (add_machine l (cf, valid) m) \<longleftrightarrow> snd (snd (snd m)) = l \<or> valid"
  "(cf_local_region (fst (add_machine l (cf, valid) m)), cf_local_replica (fst (add_machine l (cf, valid) m)),
      cf_local_partition (fst (add_machine l (cf, valid) m))) =
     (if snd (snd (snd m)) = l then place m else (cf_local_region cf, cf_local_replica cf, cf_local_partition cf))"
  "cf_local_machine_id (fst (add_machine l (cf, valid) m)) =
     (if snd (snd (snd m)) = l then machine_id_of m else cf_local_machine_id cf)"
  by (cases m; auto simp: add_machine_def Let_def place_def split: option.splits)+

lemma add_machine_inv:
  assumes "config_inv l ms s"
  shows "config_inv l (ms @ [m]) (add_machine l s m)"
proof -
  obtain cf valid where s: "s = (cf, valid)" by fastforce
  obtain cf' valid' where s': "add_machine l (cf, valid) m = (cf', valid')" by fastforce
  note sel = add_machine_sel [of l cf valid m, unfolded s', simplified]
  note inv = assms [unfolded s config_inv_def, simplified]
  have ids: "cf_all_machine_ids cf' = map machine_id_of (ms @ [m])" using inv sel(1) by simp
  have dom: "dom (cf_all_addresses cf') = set (cf_all_machine_ids cf')"
    using inv unfolding sel(1,2) by (auto simp: insert_absorb domIff)
  have addr: "cf_all_addresses cf' (machine_id_of x) = Some (snd (snd (snd x)))"
    if "distinct (map machine_id_of (ms @ [m]))" "x \<in> set (ms @ [m])" for x
  proof -
    have "machine_id_of m \<notin> dom (cf_all_addresses cf)" using inv that(1) by simp
    then have n: "cf_all_addresses cf (machine_id_of m) = None" by (simp add: domIff)
    show ?thesis
    proof (cases "x = m")
      case False
      with that(2) have x: "x \<in> set ms" by simp
      then have "machine_id_of x \<noteq> machine_id_of m" using that(1) by (auto simp: image_iff)
      note this x
      then show ?thesis using that(1) inv n by (simp add: sel(2))
    qed (simp add: sel(2) n)
  qed
  have loc: "l = [] \<or> (\<exists>x\<in>set (ms @ [m]). snd (snd (snd x)) = l \<and>
      place x = (cf_local_region cf', cf_local_replica cf', cf_local_partition cf') \<and> cf_local_machine_id cf' = machine_id_of x)"
    if valid'
  proof (cases "snd (snd (snd m)) = l")
    case True
    then show ?thesis using sel(4-) by auto
  next
    case False
    then show ?thesis using that inv sel(3-) by auto
  qed
  show ?thesis unfolding s s' config_inv_def using ids dom addr loc by simp
qed

lemma add_machines_inv:
  "config_inv local_address ms s \<Longrightarrow> config_inv local_address (ms @ ms') (foldl (add_machine local_address) s ms')"
proof (induction ms' arbitrary: ms s)
  case (Cons m ms')
  from Cons.IH [OF add_machine_inv [OF Cons.prems, of m]] show ?case by simp
qed simp

lemma add_machines_config: "cf_config (fst (foldl (add_machine local_address) s ms)) = cf_config (fst s)"
  by (induction ms arbitrary: s) (auto simp: add_machine_def Let_def split: prod.split)

lemma add_regions_inv:
  assumes "add_regions local_address np reg rgs s = Inr s'" "config_inv local_address ms s"
  shows "config_inv local_address (ms @ all_machines np reg rgs) s' \<and> cf_config (fst s') = cf_config (fst s)"
  using assms
proof (induction rgs arbitrary: reg ms s)
  case (Cons rg rgs)
  from Cons.prems(1) have "add_regions local_address np (Suc reg) rgs
      (foldl (add_machine local_address) s (region_machines np reg rg)) = Inr s'"
    by (auto simp: rbind_eq_Inr)
  from Cons.IH [OF this add_machines_inv [OF Cons.prems(2)]] show ?case by (simp add: add_machines_config)
qed simp

lemma check_bypass_regions:
  "check_bypass ddr c = Inr c' \<Longrightarrow> pc_regions c' = pc_regions c \<and> pc_num_partitions c' = pc_num_partitions c"
  by (auto simp: check_bypass_def rbind_eq_Inr split: if_splits)

text \<open>
  A configuration that passes the checks and whose dimensions fit the machine id
  gives every machine its own id, in the order of the regions, replicas and partitions;
  the local machine id is one of them, unpacks to the local region, replica and
  partition, and its address is the local address.
\<close>
theorem configuration_ids:
  assumes "Configuration_new ddr config local_address = Inr cf" "local_address \<noteq> []"
    and "pc_num_partitions config \<le> 65536" "\<forall>rg\<in>set (pc_regions config). rg_num_replicas rg \<le> 256"
  shows "distinct (cf_all_machine_ids cf) \<and>
    cf_all_machine_ids cf = map machine_id_of (all_machines (pc_num_partitions config) 0 (pc_regions config)) \<and>
    cf_local_machine_id cf \<in> set (cf_all_machine_ids cf) \<and>
    UnpackMachineId (cf_local_machine_id cf) =
      (of_nat (cf_local_region cf), of_nat (cf_local_replica cf), of_nat (cf_local_partition cf)) \<and>
    Configuration_address (cf_local_machine_id cf) cf = Inr local_address"
proof -
  let ?ms = "all_machines (pc_num_partitions config) 0 (pc_regions config)"
  let ?init = "\<lambda>c. \<lparr>cf_config = c, cf_local_address = local_address, cf_local_region = 0, cf_local_replica = 0,
    cf_local_partition = 0, cf_local_machine_id = 0, cf_all_addresses = Map.empty, cf_all_machine_ids = [],
    cf_replication_order = []\<rparr>"
  from assms(1) obtain c cf1 where lim: "check_limits config = Inr ()" and byp: "check_bypass ddr config = Inr c"
    and add: "add_regions local_address (pc_num_partitions c) 0 (pc_regions c) (?init c, local_address = []) = Inr (cf1, True)"
    and cf: "cf = cf1 \<or> (\<exists>order. cf = cf1\<lparr>cf_replication_order := order\<rparr>)"
    unfolding Configuration_new_def by (auto simp: rbind_eq_Inr split: if_splits)
  have "config_inv local_address [] (?init c, local_address = [])" by (simp add: config_inv_def)
  from add_regions_inv [OF add this] check_bypass_regions [OF byp] have inv: "config_inv local_address ?ms (cf1, True)" by simp
  have "length (pc_regions config) < 30" using lim by (auto simp: check_limits_def rbind_eq_Inr kMaxNumLogs_def)
  moreover have "\<forall>rg\<in>set (pc_regions config). effective_replicas rg \<le> 256"
    using assms(4) by (simp add: effective_replicas_def)
  ultimately have d: "distinct (map machine_id_of ?ms)" using assms(3) by (intro distinct_machine_ids) auto
  from inv assms(2) obtain m where m: "m \<in> set ?ms" "snd (snd (snd m)) = local_address"
    "place m = (cf_local_region cf1, cf_local_replica cf1, cf_local_partition cf1)"
    "cf_local_machine_id cf1 = machine_id_of m" by (auto simp: config_inv_def)
  from inv d m(1,2) have "cf_all_addresses cf1 (machine_id_of m) = Some local_address" by (simp add: config_inv_def)
  with inv d m cf show ?thesis
    by (auto simp: config_inv_def Configuration_address_def unpack_machine_id_of)
qed

definition sample_region :: "string list \<Rightarrow> RegionConfig" where
  "sample_region addrs = \<lparr>rg_addresses = addrs, rg_num_replicas = 1, rg_sync_replication = False,
     rg_shrink_mh_orderer = False, rg_distance_ranking = []\<rparr>"

definition sample_config :: "RegionConfig list \<Rightarrow> nat \<Rightarrow> Partitioning \<Rightarrow> ProtoConfig" where
  "sample_config rgs np part = \<lparr>pc_regions = rgs, pc_broker_ports = [1], pc_server_port = 2, pc_forwarder_port = 3,
     pc_sequencer_port = 4, pc_num_partitions = np, pc_num_workers = 1, pc_num_log_managers = 1,
     pc_replication_factor = 1, pc_bypass_mh_orderer = False, pc_force_bypass_mh_orderer = False, pc_ddr_interval = 0,
     pc_synchronized_batching = False, pc_execution_type = KEY_VALUE, pc_partitioning = part,
     pc_replication_order = [], pc_sequencer_batch_duration = 5, pc_avg_latency_window_size = 1,
     pc_enabled_events = [], pc_cpu_pinnings = [], pc_broker_rcvbuf = 0, pc_long_sender_sndbuf = 0\<rparr>"

theorem configuration_ids_witness:
  "\<exists>cf. Configuration_new False (sample_config [sample_region [''a'', ''b''], sample_region [''c'', ''d'']] 2 SimplePartitioning) ''d'' = Inr cf \<and>
     Configuration_address (cf_local_machine_id cf) cf = Inr ''d'' \<and> distinct (cf_all_machine_ids cf) \<and>
     length (cf_all_machine_ids cf) = 4"
proof -
  let ?c = "sample_config [sample_region [''a'', ''b''], sample_region [''c'', ''d'']] 2 SimplePartitioning"
  obtain cf where cf: "Configuration_new False ?c ''d'' = Inr cf"
    by (simp add: Configuration_new_def check_limits_def check_bypass_def CHECK_def kMaxNumBrokers_def
        kMaxNumLogManagers_def kMaxNumLogs_def kMaxNumWorkers_def sample_config_def sample_region_def
        effective_replicas_def region_machines_def add_machine_def Let_def is_tpcc_def upt_rec)
  have len: "length (all_machines (pc_num_partitions ?c) 0 (pc_regions ?c)) = 4"
    by (simp add: sample_config_def sample_region_def region_machines_def effective_replicas_def upt_rec)
  have side: "pc_num_partitions ?c \<le> 65536" "\<forall>rg\<in>set (pc_regions ?c). rg_num_replicas rg \<le> 256"
    by (simp_all add: sample_config_def sample_region_def)
  from configuration_ids [OF cf _ side] len have "Configuration_address (cf_local_machine_id cf) cf = Inr ''d''"
    "distinct (cf_all_machine_ids cf)" "length (cf_all_machine_ids cf) = 4" by auto
  with cf show ?thesis by blast
qed

subsection \<open>Sharders\<close>

text \<open>The signed value of a byte, as the promotion of a \<^verbatim>\<open>char\<close> gives it.\<close>

definition char_uint64 :: "char \<Rightarrow> uint64" where
  "char_uint64 c = scast (of_nat (of_char c) :: uint8)"

definition FNVHash :: "string \<Rightarrow> uint32" where
  "FNVHash s = ucast (foldl (\<lambda>h c. xor ((h * 0x01000193) mod 0x100000000) (char_uint64 c)) (0x811c9dc5 :: uint64) s)"

text \<open>A little-endian read of the first bytes of a key; reading past its end is undefined.\<close>

fun le_bytes :: "string \<Rightarrow> nat" where
  "le_bytes [] = 0"
| "le_bytes (c # cs) = of_char c + 256 * le_bytes cs"

definition read_uint :: "nat \<Rightarrow> string \<Rightarrow> nat result" where
  "read_uint n s = (if length s < n then Inl (Undefined ''read past the end of the key'') else Inr (le_bytes (take n s)))"

definition rem_u32 :: "uint32 \<Rightarrow> uint32 \<Rightarrow> uint32 result" where
  "rem_u32 a n = (if n = 0 then Inl (Undefined ''modulo by zero'') else Inr (a mod n))"

definition HashSharder_compute_partition :: "nat \<Rightarrow> uint32 \<Rightarrow> Key \<Rightarrow> uint32 result" where
  "HashSharder_compute_partition num_bytes n key =
     rem_u32 (FNVHash (if length key \<le> num_bytes then key else take num_bytes key)) n"

text \<open>
  The signed quotient and remainder of the C++ code truncate towards zero; the result
  is converted to an unsigned number.
\<close>

definition SimpleSharder_compute_partition :: "uint32 \<Rightarrow> Key \<Rightarrow> uint32 result" where
  "SimpleSharder_compute_partition n key =
     rbind (stoll key) (\<lambda>k. if n = 0 then Inl (Undefined ''modulo by zero'') else Inr (of_int (k smod uint n)))"

definition SimpleSharder2_compute_partition :: "uint32 \<Rightarrow> uint32 \<Rightarrow> Key \<Rightarrow> uint32 result" where
  "SimpleSharder2_compute_partition regs n key =
     rbind (stoll key) (\<lambda>k. if regs = 0 \<or> n = 0 then Inl (Undefined ''division by zero'')
       else Inr (of_int ((k sdiv uint regs) smod uint n)))"

definition TPCCSharder_compute_partition :: "uint32 \<Rightarrow> Key \<Rightarrow> uint32 result" where
  "TPCCSharder_compute_partition n key =
     rbind (read_uint 4 key) (\<lambda>w. rem_u32 (of_nat w - 1) n)"

definition MovrSharder_compute_partition :: "uint32 \<Rightarrow> Key \<Rightarrow> uint32 result" where
  "MovrSharder_compute_partition n key =
     rbind (read_uint 8 key) (\<lambda>g. rem_u32 (ucast (drop_bit (64 - 16) (of_nat g :: uint64))) n)"

datatype SharderKind = HashSharder nat | SimpleSharder | SimpleSharder2 uint32 | TPCCSharder | MovrSharder

record Sharder =
  sh_kind :: SharderKind
  sh_local_partition :: uint32
  sh_num_partitions :: uint32

definition MakeSharder :: "Configuration \<Rightarrow> Sharder" where
  "MakeSharder cf =
     \<lparr>sh_kind = (case pc_partitioning (cf_config cf) of
          SimplePartitioning \<Rightarrow> SimpleSharder
        | SimplePartitioning2 \<Rightarrow> SimpleSharder2 (of_nat (num_regions cf))
        | TPCCPartitioning _ \<Rightarrow> TPCCSharder
        | MovrPartitioning _ \<Rightarrow> MovrSharder
        | HashPartitioning n \<Rightarrow> HashSharder n
        | NoPartitioning \<Rightarrow> HashSharder 0),
      sh_local_partition = of_nat (cf_local_partition cf), sh_num_partitions = of_nat (num_partitions cf)\<rparr>"

definition compute_partition :: "Sharder \<Rightarrow> Key \<Rightarrow> uint32 result" where
  "compute_partition s key =
     (case sh_kind s of
        HashSharder b \<Rightarrow> HashSharder_compute_partition b (sh_num_partitions s) key
      | SimpleSharder \<Rightarrow> SimpleSharder_compute_partition (sh_num_partitions s) key
      | SimpleSharder2 r \<Rightarrow> SimpleSharder2_compute_partition r (sh_num_partitions s) key
      | TPCCSharder \<Rightarrow> TPCCSharder_compute_partition (sh_num_partitions s) key
      | MovrSharder \<Rightarrow> MovrSharder_compute_partition (sh_num_partitions s) key)"

definition is_local_key :: "Sharder \<Rightarrow> Key \<Rightarrow> bool result" where
  "is_local_key s key = rbind (compute_partition s key) (\<lambda>p. Inr (p = sh_local_partition s))"

subsection \<open>Partitions stay in range\<close>

lemma involved_loop_spec:
  assumes "\<And>kv. kv \<in> set kvs \<Longrightarrow> \<exists>p. c (kv_key kv) = Inr p \<and> unat p < n"
    and "length involved = n" "length active = n"
  shows "\<exists>involved' active'. involved_loop c kvs involved active = Inr (involved', active') \<and>
    length involved' = n \<and> length active' = n \<and>
    set (raised involved') = set (raised involved) \<union> {unat p | p kv. kv \<in> set kvs \<and> c (kv_key kv) = Inr p} \<and>
    set (raised active') = set (raised active) \<union>
      {unat p | p kv. kv \<in> set kvs \<and> c (kv_key kv) = Inr p \<and> ve_type (kv_entry kv) = KeyWrite}"
  using assms
proof (induction kvs arbitrary: involved active)
  case Nil
  then show ?case by simp
next
  case (Cons kv kvs)
  from Cons.prems(1) [of kv] obtain p where p: "c (kv_key kv) = Inr p" "unat p < n" by auto
  let ?a = "if ve_type (kv_entry kv) = KeyWrite then active[unat p := True] else active"
  have r: "set (raised (xs[unat p := True])) = insert (unat p) (set (raised xs))" if "length xs = n" for xs
    using that p(2) by (auto simp: set_raised nth_list_update)
  have la: "length (involved[unat p := True]) = n" "length ?a = n" using Cons.prems by simp_all
  have "\<exists>p. c (kv_key kv) = Inr p \<and> unat p < n" if "kv \<in> set kvs" for kv using that Cons.prems(1) by simp
  from Cons.IH [OF this la] obtain involved' active' where
    "involved_loop c kvs (involved[unat p := True]) ?a = Inr (involved', active')" "length involved' = n" "length active' = n"
    "set (raised involved') = insert (unat p) (set (raised involved)) \<union> {unat p | p kv. kv \<in> set kvs \<and> c (kv_key kv) = Inr p}"
    "set (raised active') = set (raised ?a) \<union>
      {unat p | p kv. kv \<in> set kvs \<and> c (kv_key kv) = Inr p \<and> ve_type (kv_entry kv) = KeyWrite}"
    unfolding r [OF Cons.prems(2)] by blast
  with p Cons.prems(2,3) show ?case
    by (intro exI [of _ involved'] exI [of _ active']) (auto simp: r)
qed

text \<open>
  The interface of a sharder: keys it accepts are assigned to one of its partitions.
  The lemmas of its clients hold for every sharder.
\<close>

locale partitioner =
  fixes compute :: "Key \<Rightarrow> uint32 result" and n :: uint32 and accepts :: "Key \<Rightarrow> bool"
  assumes in_range: "accepts k \<Longrightarrow> \<exists>p. compute k = Inr p \<and> p < n"
begin

lemma populate:
  assumes "\<forall>kv\<in>set (tx_keys txn). accepts (kv_key kv)"
  shows "\<exists>inv act. PopulateInvolvedPartitions compute n txn =
      Inr (upd_internal (\<lambda>i. i\<lparr>ti_involved_partitions := ti_involved_partitions i @ inv,
        ti_active_partitions := ti_active_partitions i @ act\<rparr>) txn) \<and>
    sorted (map unat inv) \<and> distinct inv \<and> set inv = {p. \<exists>kv\<in>set (tx_keys txn). compute (kv_key kv) = Inr p} \<and>
    sorted (map unat act) \<and> distinct act \<and>
    set act = {p. \<exists>kv\<in>set (tx_keys txn). compute (kv_key kv) = Inr p \<and> ve_type (kv_entry kv) = KeyWrite}"
proof -
  have r: "\<exists>p. compute (kv_key kv) = Inr p \<and> unat p < unat n" if "kv \<in> set (tx_keys txn)" for kv
    using in_range [of "kv_key kv"] assms that by (auto simp: word_less_nat_alt)
  obtain inv act where il: "involved_loop compute (tx_keys txn) (replicate (unat n) False) (replicate (unat n) False) = Inr (inv, act)"
    "length inv = unat n" "length act = unat n"
    "set (raised inv) = {unat p | p kv. kv \<in> set (tx_keys txn) \<and> compute (kv_key kv) = Inr p}"
    "set (raised act) = {unat p | p kv. kv \<in> set (tx_keys txn) \<and> compute (kv_key kv) = Inr p \<and> ve_type (kv_entry kv) = KeyWrite}"
    using involved_loop_spec [of "tx_keys txn" compute "unat n", OF r, of "replicate (unat n) False" "replicate (unat n) False"]
    by (auto simp: set_raised)
  have un: "unat (of_nat i :: uint32) = i" if "i \<in> set (raised v)" "length v = unat n" for i v
  proof -
    from that have "i < 2 ^ LENGTH(32)" using unsigned_less [of n, where 'a = nat] by (auto simp: set_raised)
    then show ?thesis by (simp add: unsigned_of_nat take_bit_nat_eq_self)
  qed
  have mp: "map unat (map of_nat (raised v) :: uint32 list) = raised v" if "length v = unat n" for v
    using un [OF _ that] by (simp add: map_idI)
  have ds: "sorted (map unat (map of_nat (raised v) :: uint32 list)) \<and> distinct (map of_nat (raised v) :: uint32 list)"
    if "length v = unat n" for v
    unfolding mp [OF that] using mp [OF that] by (metis distinct_map raised_sorted)
  have st: "set (map of_nat (raised v) :: uint32 list) = {p. unat p \<in> set (raised v)}" if "length v = unat n" for v
  proof -
    have "x \<in> of_nat ` set (raised v)" if "unat x \<in> set (raised v)" for x :: uint32
      using that imageI [of "unat x" "set (raised v)" "of_nat :: nat \<Rightarrow> uint32"] by simp
    with un [OF _ that] show ?thesis by auto
  qed
  have si: "set (map of_nat (raised inv) :: uint32 list) = {p. \<exists>kv\<in>set (tx_keys txn). compute (kv_key kv) = Inr p}"
    unfolding st [OF il(2)] il(4) by (auto simp: word_unat_eq_iff [symmetric])
  have sa: "set (map of_nat (raised act) :: uint32 list) =
      {p. \<exists>kv\<in>set (tx_keys txn). compute (kv_key kv) = Inr p \<and> ve_type (kv_entry kv) = KeyWrite}"
    unfolding st [OF il(3)] il(5) by (auto simp: word_unat_eq_iff [symmetric])
  have "PopulateInvolvedPartitions compute n txn =
      Inr (upd_internal (\<lambda>i. i\<lparr>ti_involved_partitions := ti_involved_partitions i @ map of_nat (raised inv),
        ti_active_partitions := ti_active_partitions i @ map of_nat (raised act)\<rparr>) txn)"
    using il(1) by (simp add: PopulateInvolvedPartitions_def)
  with ds [OF il(2)] ds [OF il(3)] si sa show ?thesis by blast
qed

end

lemma rem_u32_in_range: "n \<noteq> 0 \<Longrightarrow> \<exists>p. rem_u32 a n = Inr p \<and> p < n"
  by (simp add: rem_u32_def word_mod_less_divisor word_neq_0_conv [symmetric])

interpretation hash_sharder: partitioner "HashSharder_compute_partition b n" n "\<lambda>_. n \<noteq> 0"
  by unfold_locales (simp add: HashSharder_compute_partition_def rem_u32_in_range)

interpretation tpcc_sharder: partitioner "TPCCSharder_compute_partition n" n "\<lambda>k. n \<noteq> 0 \<and> 4 \<le> length k"
  by unfold_locales (auto simp: TPCCSharder_compute_partition_def read_uint_def rem_u32_in_range)

interpretation movr_sharder: partitioner "MovrSharder_compute_partition n" n "\<lambda>k. n \<noteq> 0 \<and> 8 \<le> length k"
  by unfold_locales (auto simp: MovrSharder_compute_partition_def read_uint_def rem_u32_in_range)

lemma smod_in_range:
  assumes "0 \<le> k" "(n :: uint32) \<noteq> 0"
  shows "(of_int (k smod uint n) :: uint32) < n"
proof -
  have n: "0 < uint n" using assms(2) by (simp add: word_neq_0_conv word_less_def)
  have k: "k smod uint n = k mod uint n" using assms(1) n
    by (cases "k = 0") (simp_all add: signed_modulo_int_def signed_divide_int_def minus_mult_div_eq_mod sgn_if)
  have b: "0 \<le> k mod uint n" "k mod uint n < uint n" using n by simp_all
  then have "uint (of_int (k mod uint n) :: uint32) = k mod uint n"
    using unsigned_less [of n, where 'a = int] by (simp add: unsigned_of_int take_bit_int_eq_self)
  then show ?thesis using b k by (simp add: word_less_def)
qed

interpretation simple_sharder: partitioner "SimpleSharder_compute_partition n" n
    "\<lambda>k. n \<noteq> 0 \<and> (\<exists>v. stoll k = Inr v \<and> 0 \<le> v)"
  by unfold_locales (auto simp: SimpleSharder_compute_partition_def smod_in_range)

lemma sdiv_nonneg: "0 \<le> (k :: int) \<Longrightarrow> 0 \<le> k sdiv uint r"
proof -
  assume "0 \<le> k"
  moreover have "uint r = 0 \<or> 0 < uint r" using unsigned_greater_eq [of r, where 'a = int] by linarith
  ultimately show ?thesis by (auto simp: signed_divide_int_def sgn_if pos_imp_zdiv_nonneg_iff)
qed

interpretation simple_sharder2: partitioner "SimpleSharder2_compute_partition r n" n
    "\<lambda>k. n \<noteq> 0 \<and> r \<noteq> 0 \<and> (\<exists>v. stoll k = Inr v \<and> 0 \<le> v)"
  by unfold_locales (auto simp: SimpleSharder2_compute_partition_def smod_in_range sdiv_nonneg)

text \<open>The keys a sharder accepts.\<close>

definition accepts_key :: "Sharder \<Rightarrow> Key \<Rightarrow> bool" where
  "accepts_key s k \<longleftrightarrow> sh_num_partitions s \<noteq> 0 \<and>
     (case sh_kind s of
        HashSharder b \<Rightarrow> True
      | SimpleSharder \<Rightarrow> (\<exists>v. stoll k = Inr v \<and> 0 \<le> v)
      | SimpleSharder2 r \<Rightarrow> r \<noteq> 0 \<and> (\<exists>v. stoll k = Inr v \<and> 0 \<le> v)
      | TPCCSharder \<Rightarrow> 4 \<le> length k
      | MovrSharder \<Rightarrow> 8 \<le> length k)"

interpretation any_sharder: partitioner "compute_partition s" "sh_num_partitions s" "accepts_key s"
  by unfold_locales
    (auto simp: accepts_key_def compute_partition_def split: SharderKind.splits
      intro!: hash_sharder.in_range simple_sharder.in_range simple_sharder2.in_range tpcc_sharder.in_range
        movr_sharder.in_range)

text \<open>
  C36: for every sharder, when it accepts the keys of a transaction and the partition
  lists are still empty, the transaction gets exactly the partitions of its keys as
  involved partitions and exactly those of its written keys as active partitions, both
  in increasing order and without repetition; no index is out of range.
\<close>
theorem sharder_partitions:
  assumes "\<forall>kv\<in>set (tx_keys txn). accepts_key s (kv_key kv)"
    and "ti_involved_partitions (tx_internal txn) = []" "ti_active_partitions (tx_internal txn) = []"
  shows "\<exists>t. PopulateInvolvedPartitions (compute_partition s) (sh_num_partitions s) txn = Inr t \<and>
    sorted (map unat (ti_involved_partitions (tx_internal t))) \<and> distinct (ti_involved_partitions (tx_internal t)) \<and>
    set (ti_involved_partitions (tx_internal t)) =
      {p. \<exists>kv\<in>set (tx_keys txn). compute_partition s (kv_key kv) = Inr p} \<and>
    sorted (map unat (ti_active_partitions (tx_internal t))) \<and> distinct (ti_active_partitions (tx_internal t)) \<and>
    set (ti_active_partitions (tx_internal t)) =
      {p. \<exists>kv\<in>set (tx_keys txn). compute_partition s (kv_key kv) = Inr p \<and> ve_type (kv_entry kv) = KeyWrite} \<and>
    (\<forall>p\<in>set (ti_involved_partitions (tx_internal t)). p < sh_num_partitions s)"
proof -
  from any_sharder.populate [OF assms(1)] obtain inv act where
    t: "PopulateInvolvedPartitions (compute_partition s) (sh_num_partitions s) txn =
      Inr (upd_internal (\<lambda>i. i\<lparr>ti_involved_partitions := ti_involved_partitions i @ inv,
        ti_active_partitions := ti_active_partitions i @ act\<rparr>) txn)" "sorted (map unat inv)" "distinct inv"
      "sorted (map unat act)" "distinct act"
      "set inv = {p. \<exists>kv\<in>set (tx_keys txn). compute_partition s (kv_key kv) = Inr p}"
      "set act = {p. \<exists>kv\<in>set (tx_keys txn). compute_partition s (kv_key kv) = Inr p \<and> ve_type (kv_entry kv) = KeyWrite}"
    by blast
  have "p < sh_num_partitions s" if "p \<in> set inv" for p
    using that assms(1) any_sharder.in_range unfolding t(6) by fastforce
  with t assms(2,3) show ?thesis by (simp add: upd_internal_def)
qed

theorem sharder_partitions_witness:
  "let s = \<lparr>sh_kind = SimpleSharder, sh_local_partition = 0, sh_num_partitions = 3\<rparr>;
     txn = default_txn\<lparr>tx_keys := [sample_kv ''5'' KeyWrite 0, sample_kv ''7'' KeyRead 0, sample_kv ''8'' KeyRead 0]\<rparr> in
   \<exists>t. PopulateInvolvedPartitions (compute_partition s) 3 txn = Inr t \<and>
     set (ti_involved_partitions (tx_internal t)) =
      {p. \<exists>kv\<in>set (tx_keys txn). compute_partition s (kv_key kv) = Inr p} \<and>
     distinct (ti_active_partitions (tx_internal t))"
proof -
  let ?s = "\<lparr>sh_kind = SimpleSharder, sh_local_partition = 0, sh_num_partitions = 3\<rparr>"
  let ?txn = "default_txn\<lparr>tx_keys := [sample_kv ''5'' KeyWrite 0, sample_kv ''7'' KeyRead 0, sample_kv ''8'' KeyRead 0]\<rparr>"
  have a: "\<forall>kv\<in>set (tx_keys ?txn). accepts_key ?s (kv_key kv)"
    by (simp add: accepts_key_def stoll_def parse_int_def isspace_def is_digit_def Let_def)
  have b: "ti_involved_partitions (tx_internal ?txn) = []" "ti_active_partitions (tx_internal ?txn) = []"
    by (simp_all add: default_txn_def default_internal_def)
  from sharder_partitions [OF a b] show ?thesis unfolding Let_def by auto
qed

text \<open>
  A negative key breaks the range of the simple sharder: with three partitions the
  key \<open>-1\<close> is mapped to partition 4294967295, so computing the involved partitions of a
  transaction writes outside of the array.
\<close>
theorem simple_sharder_negative_key:
  "SimpleSharder_compute_partition 3 ''-1'' = Inr 4294967295 \<and>
   PopulateInvolvedPartitions (SimpleSharder_compute_partition 3) 3 (default_txn\<lparr>tx_keys := [sample_kv ''-1'' KeyRead 0]\<rparr>) =
     Inl (Undefined ''involved_partitions[partition]'')"
proof -
  have "stoll ''-1'' = Inr (- 1)" by (simp add: stoll_def parse_int_def isspace_def is_digit_def Let_def)
  then have "SimpleSharder_compute_partition 3 ''-1'' = Inr 4294967295"
    by (simp add: SimpleSharder_compute_partition_def signed_modulo_int_def signed_divide_int_def)
  then show ?thesis by (simp add: PopulateInvolvedPartitions_def)
qed

end
