(* ===== verification/Paxos.thy ===== *)
theory Paxos
  imports Config
begin

section \<open>Simulated multi-Paxos\<close>

text \<open>
  The consensus used to order batches: \<^verbatim>\<open>paxos/leader.cpp\<close>, \<^verbatim>\<open>paxos/acceptor.cpp\<close>,
  \<^verbatim>\<open>paxos/simulated_multi_paxos.cpp\<close> and its two users in \<^verbatim>\<open>module/consensus.cpp\<close>.
  The leader is fixed: there is no election.  A handler returns the new state and the
  messages it sends.
\<close>

subsection \<open>Messages and state\<close>

datatype PaxosRequest =
    PaxosPropose uint64
  | PaxosAccept uint32 SlotId uint64
  | PaxosCommit SlotId uint64 MachineId

datatype PaxosResponse = PaxosAcceptResponse uint32 SlotId | PaxosCommitResponse SlotId

datatype PaxosOut =
    SendRequest PaxosRequest "MachineId list"
  | SendResponse PaxosResponse MachineId
  | OnCommit SlotId uint64 MachineId

record Members =
  acceptors :: "MachineId list"
  learners :: "MachineId list"

record PaxosInstance =
  pi_ballot :: uint32
  pi_value :: uint64
  pi_num_accepts :: int
  pi_num_commits :: int

record Leader =
  ld_members :: Members
  ld_me :: MachineId
  ld_is_elected :: bool
  ld_elected_leader :: MachineId
  ld_next_empty_slot :: SlotId
  ld_ballot :: "uint32 option"
  ld_instances :: "SlotId \<rightharpoonup> PaxosInstance"

definition kPaxosDefaultLeaderPosition :: nat where
  "kPaxosDefaultLeaderPosition = 0"

text \<open>The ballot of a machine that is no acceptor is left uninitialised.\<close>

definition Leader_new :: "Members \<Rightarrow> MachineId \<Rightarrow> Leader result" where
  "Leader_new members me =
     (if acceptors members = [] then Inl (Undefined ''members.acceptors[kPaxosDefaultLeaderPosition]'')
      else let pos = length (takeWhile (\<lambda>a. a \<noteq> me) (acceptors members));
          found = pos < length (acceptors members) in
        Inr \<lparr>ld_members = members, ld_me = me,
          ld_is_elected = (found \<and> pos = kPaxosDefaultLeaderPosition),
          ld_elected_leader = acceptors members ! kPaxosDefaultLeaderPosition, ld_next_empty_slot = 0,
          ld_ballot = (if found then Some (of_nat pos) else None), ld_instances = Map.empty\<rparr>)"

subsection \<open>Leader\<close>

definition StartNewInstance :: "uint64 \<Rightarrow> Leader \<Rightarrow> (Leader \<times> PaxosOut list) result" where
  "StartNewInstance v l =
     (case ld_ballot l of
        None \<Rightarrow> Inl (Undefined ''ballot_ is uninitialised'')
      | Some ballot \<Rightarrow>
          let slot = ld_next_empty_slot l;
            inst = \<lparr>pi_ballot = ballot, pi_value = v, pi_num_accepts = 0, pi_num_commits = 0\<rparr> in
          Inr (l\<lparr>ld_instances := (case ld_instances l slot of None \<Rightarrow> (ld_instances l)(slot \<mapsto> inst) | Some _ \<Rightarrow> ld_instances l),
              ld_next_empty_slot := slot + 1\<rparr>,
            [SendRequest (PaxosAccept ballot slot v) (acceptors (ld_members l))]))"

definition Leader_ProcessCommitRequest :: "SlotId \<Rightarrow> uint64 \<Rightarrow> MachineId \<Rightarrow> Leader \<Rightarrow> Leader \<times> PaxosOut list" where
  "Leader_ProcessCommitRequest slot v leader l =
     (if ld_next_empty_slot l \<le> slot then l\<lparr>ld_next_empty_slot := slot + 1\<rparr> else l, [OnCommit slot v leader])"

definition Leader_HandleRequest :: "PaxosRequest \<Rightarrow> Leader \<Rightarrow> (Leader \<times> PaxosOut list) result" where
  "Leader_HandleRequest req l =
     (case req of
        PaxosPropose v \<Rightarrow>
          if ld_is_elected l then StartNewInstance v l
          else Inr (l, [SendRequest req [ld_elected_leader l]])
      | PaxosCommit slot v leader \<Rightarrow> Inr (Leader_ProcessCommitRequest slot v leader l)
      | PaxosAccept _ _ _ \<Rightarrow> Inr (l, []))"

definition majority :: "Leader \<Rightarrow> int" where
  "majority l = int (length (acceptors (ld_members l)) div 2 + 1)"

text \<open>
  The branch for a commit response reads the slot of the accept response, which is not
  set in that message and so has the default value 0.
\<close>

definition Leader_HandleResponse :: "PaxosResponse \<Rightarrow> Leader \<Rightarrow> Leader \<times> PaxosOut list" where
  "Leader_HandleResponse res l =
     (case res of
        PaxosAcceptResponse _ slot \<Rightarrow>
          (case ld_instances l slot of
             None \<Rightarrow> (l, [])
           | Some inst \<Rightarrow>
               let inst' = inst\<lparr>pi_num_accepts := pi_num_accepts inst + 1\<rparr> in
               (l\<lparr>ld_instances := (ld_instances l)(slot \<mapsto> inst')\<rparr>,
                if pi_num_accepts inst' = majority l
                then [SendRequest (PaxosCommit slot (pi_value inst) (ld_me l)) (learners (ld_members l))] else []))
      | PaxosCommitResponse _ \<Rightarrow>
          let slot = 0 in
          (case ld_instances l slot of
             None \<Rightarrow> (l, [])
           | Some inst \<Rightarrow>
               let inst' = inst\<lparr>pi_num_commits := pi_num_commits inst + 1\<rparr> in
               (l\<lparr>ld_instances := (if pi_num_commits inst' = int (length (acceptors (ld_members l)))
                  then (ld_instances l)(slot := None) else (ld_instances l)(slot \<mapsto> inst'))\<rparr>, [])))"

subsection \<open>Acceptor\<close>

record Acceptor =
  ac_ballot :: uint32

definition Acceptor_new :: Acceptor where
  "Acceptor_new = \<lparr>ac_ballot = 0\<rparr>"

definition ProcessAcceptRequest :: "uint32 \<Rightarrow> SlotId \<Rightarrow> MachineId \<Rightarrow> Acceptor \<Rightarrow> Acceptor \<times> PaxosOut list" where
  "ProcessAcceptRequest ballot slot from_machine a =
     (if ballot < ac_ballot a then (a, [])
      else (a\<lparr>ac_ballot := ballot\<rparr>, [SendResponse (PaxosAcceptResponse ballot slot) from_machine]))"

definition Acceptor_ProcessCommitRequest :: "SlotId \<Rightarrow> MachineId \<Rightarrow> Acceptor \<Rightarrow> Acceptor \<times> PaxosOut list" where
  "Acceptor_ProcessCommitRequest slot from_machine a = (a, [SendResponse (PaxosCommitResponse slot) from_machine])"

definition Acceptor_HandleRequest :: "PaxosRequest \<Rightarrow> MachineId \<Rightarrow> Acceptor \<Rightarrow> Acceptor \<times> PaxosOut list" where
  "Acceptor_HandleRequest req from_machine a =
     (case req of
        PaxosAccept ballot slot _ \<Rightarrow> ProcessAcceptRequest ballot slot from_machine a
      | PaxosCommit slot _ _ \<Rightarrow> Acceptor_ProcessCommitRequest slot from_machine a
      | PaxosPropose _ \<Rightarrow> (a, []))"

subsection \<open>One machine\<close>

record SimulatedMultiPaxos =
  smp_leader :: Leader
  smp_acceptor :: Acceptor

definition SimulatedMultiPaxos_new :: "Members \<Rightarrow> MachineId \<Rightarrow> SimulatedMultiPaxos result" where
  "SimulatedMultiPaxos_new members me =
     rbind (Leader_new members me) (\<lambda>l. Inr \<lparr>smp_leader = l, smp_acceptor = Acceptor_new\<rparr>)"

definition SimulatedMultiPaxos_OnInternalRequestReceived ::
    "PaxosRequest \<Rightarrow> MachineId \<Rightarrow> SimulatedMultiPaxos \<Rightarrow> (SimulatedMultiPaxos \<times> PaxosOut list) result" where
  "SimulatedMultiPaxos_OnInternalRequestReceived req from_machine p =
     rbind (Leader_HandleRequest req (smp_leader p)) (\<lambda>(l, outs).
       let (a, outs') = Acceptor_HandleRequest req from_machine (smp_acceptor p) in
       Inr (p\<lparr>smp_leader := l, smp_acceptor := a\<rparr>, outs @ outs'))"

definition SimulatedMultiPaxos_OnInternalResponseReceived ::
    "PaxosResponse \<Rightarrow> SimulatedMultiPaxos \<Rightarrow> SimulatedMultiPaxos \<times> PaxosOut list" where
  "SimulatedMultiPaxos_OnInternalResponseReceived res p =
     (let (l, outs) = Leader_HandleResponse res (smp_leader p) in (p\<lparr>smp_leader := l\<rparr>, outs))"

subsection \<open>Members and users\<close>

definition kLeaderReplica :: nat where "kLeaderReplica = 0"
definition kLeaderPartition :: nat where "kLeaderPartition = 0"

definition machine_at :: "Configuration \<Rightarrow> nat \<Rightarrow> nat \<Rightarrow> MachineId" where
  "machine_at cf rep part = MakeMachineId (of_nat (cf_local_region cf)) (of_nat rep) (of_nat part)"

definition GetMembers :: "Configuration \<Rightarrow> Members" where
  "GetMembers cf =
     (let reps = num_replicas (cf_local_region cf) cf; parts = num_partitions cf in
      \<lparr>acceptors =
         (if local_sync_replication cf
          then map (\<lambda>rep. machine_at cf rep kLeaderPartition) [0..<(reps - 1) div 2 * 2 + 1]
          else map (\<lambda>part. machine_at cf kLeaderReplica part) [0..<(parts - 1) div 2 * 2 + 1]),
       learners = map (\<lambda>part. machine_at cf kLeaderReplica part) [0..<parts] @
         map (\<lambda>rep. machine_at cf rep kLeaderPartition) (filter (\<lambda>rep. rep \<noteq> kLeaderReplica) [0..<reps])\<rparr>)"

datatype BatchOrder =
    RemoteBatchOrder SlotId BatchId
  | LocalBatchOrder SlotId uint64 MachineId

definition kLogManagerChannel :: Channel where "kLogManagerChannel = 15"

definition GlobalPaxos_orderers :: "Configuration \<Rightarrow> MachineId list" where
  "GlobalPaxos_orderers cf =
     map (\<lambda>reg. MakeMachineId (of_nat reg) 0 (of_nat (leader_partition_for_multi_home_ordering cf))) [0..<num_regions cf]"

definition GlobalPaxos_OnCommit :: "Configuration \<Rightarrow> SlotId \<Rightarrow> uint64 \<Rightarrow> MachineId \<Rightarrow> (BatchOrder \<times> MachineId list) option" where
  "GlobalPaxos_OnCommit cf slot v leader =
     (if cf_local_machine_id cf \<noteq> leader then None else Some (RemoteBatchOrder slot v, GlobalPaxos_orderers cf))"

definition LocalPaxos_OnCommit :: "Configuration \<Rightarrow> SlotId \<Rightarrow> uint64 \<Rightarrow> MachineId \<Rightarrow> BatchOrder \<times> Channel" where
  "LocalPaxos_OnCommit cf slot v leader =
     (LocalBatchOrder slot v leader,
      kLogManagerChannel + of_nat (cf_local_region cf mod num_log_managers cf))"

subsection \<open>What the leader decides\<close>

text \<open>
  The messages an elected leader handles.  Commit requests reach it as a learner; they
  are the ones it sent itself.
\<close>

datatype leader_op = LPropose uint64 | LAcceptResponse uint32 SlotId | LCommitResponse SlotId | LCommit SlotId uint64

fun leader_step :: "Leader \<Rightarrow> leader_op \<Rightarrow> (Leader \<times> PaxosOut list) result" where
  "leader_step l (LPropose v) = Leader_HandleRequest (PaxosPropose v) l"
| "leader_step l (LAcceptResponse b s) = Inr (Leader_HandleResponse (PaxosAcceptResponse b s) l)"
| "leader_step l (LCommitResponse s) = Inr (Leader_HandleResponse (PaxosCommitResponse s) l)"
| "leader_step l (LCommit s v) = Leader_HandleRequest (PaxosCommit s v (ld_me l)) l"

fun proposals :: "leader_op list \<Rightarrow> uint64 list" where
  "proposals [] = []"
| "proposals (LPropose v # ops) = v # proposals ops"
| "proposals (_ # ops) = proposals ops"

fun commits_of :: "PaxosOut list \<Rightarrow> (SlotId \<times> uint64) list" where
  "commits_of [] = []"
| "commits_of (SendRequest (PaxosCommit s v m) ds # outs) = (s, v) # commits_of outs"
| "commits_of (_ # outs) = commits_of outs"

definition accepts_of :: "leader_op list \<Rightarrow> SlotId \<Rightarrow> nat" where
  "accepts_of ops s = length (filter (\<lambda>op. \<exists>b. op = LAcceptResponse b s) ops)"

lemma proposals_append [simp]: "proposals (xs @ ys) = proposals xs @ proposals ys"
  by (induction xs rule: proposals.induct) auto

lemma commits_of_append [simp]: "commits_of (xs @ ys) = commits_of xs @ commits_of ys"
  by (induction xs rule: commits_of.induct) auto

lemma accepts_of_simps [simp]: "accepts_of [] s = 0" "accepts_of (xs @ ys) s = accepts_of xs s + accepts_of ys s"
  "accepts_of [LAcceptResponse b s'] s = (if s' = s then 1 else 0)" "accepts_of [LPropose v] s = 0"
  "accepts_of [LCommitResponse s'] s = 0" "accepts_of [LCommit s' v] s = 0"
  by (auto simp: accepts_of_def)

text \<open>
  The environment of the leader answers and commits only slots the leader has proposed;
  \<open>n\<close> counts the proposals so far.
\<close>

fun leader_legal :: "nat \<Rightarrow> leader_op list \<Rightarrow> bool" where
  "leader_legal n [] \<longleftrightarrow> True"
| "leader_legal n (LPropose v # ops) \<longleftrightarrow> leader_legal (Suc n) ops"
| "leader_legal n (LAcceptResponse b s # ops) \<longleftrightarrow> unat s < n \<and> leader_legal n ops"
| "leader_legal n (LCommitResponse s # ops) \<longleftrightarrow> unat s < n \<and> leader_legal n ops"
| "leader_legal n (LCommit s v # ops) \<longleftrightarrow> unat s < n \<and> leader_legal n ops"

definition leader_inv :: "Members \<Rightarrow> leader_op list \<Rightarrow> (SlotId \<times> uint64) list \<Rightarrow> Leader \<Rightarrow> bool" where
  "leader_inv ms h C l \<longleftrightarrow> ld_members l = ms \<and> ld_is_elected l \<and> ld_ballot l \<noteq> None \<and>
     ld_next_empty_slot l = of_nat (length (proposals h)) \<and>
     distinct (map fst C) \<and>
     (\<forall>s i. ld_instances l s = Some i \<longrightarrow> unat s < length (proposals h) \<and> pi_value i = proposals h ! unat s \<and>
        pi_num_accepts i = int (accepts_of h s) \<and>
        (s \<in> fst ` set C \<longleftrightarrow> majority l \<le> pi_num_accepts i)) \<and>
     (\<forall>s. s \<noteq> 0 \<longrightarrow> unat s < length (proposals h) \<longrightarrow> ld_instances l s \<noteq> None) \<and>
     (\<forall>s v. (s, v) \<in> set C \<longrightarrow> unat s < length (proposals h) \<and> v = proposals h ! unat s \<and>
        majority l \<le> int (accepts_of h s)) \<and>
     (\<forall>s. length (proposals h) \<le> unat s \<longrightarrow> accepts_of h s = 0)"

lemma leader_invD:
  assumes "leader_inv ms h C l"
  shows "ld_members l = ms" "ld_is_elected l" "ld_ballot l \<noteq> None"
    "ld_next_empty_slot l = of_nat (length (proposals h))" "distinct (map fst C)"
    "ld_instances l s = Some i \<Longrightarrow> unat s < length (proposals h) \<and> pi_value i = proposals h ! unat s \<and>
        pi_num_accepts i = int (accepts_of h s) \<and> (s \<in> fst ` set C \<longleftrightarrow> majority l \<le> pi_num_accepts i)"
    "s \<noteq> 0 \<Longrightarrow> unat s < length (proposals h) \<Longrightarrow> ld_instances l s \<noteq> None"
    "(s, v) \<in> set C \<Longrightarrow> unat s < length (proposals h) \<and> v = proposals h ! unat s \<and> majority l \<le> int (accepts_of h s)"
    "length (proposals h) \<le> unat s \<Longrightarrow> accepts_of h s = 0"
  using assms unfolding leader_inv_def by blast+

lemma leader_inv_propose:
  assumes inv: "leader_inv ms h C l" and n: "Suc (length (proposals h)) < 2 ^ 32"
    and st: "leader_step l (LPropose v) = Inr (l', outs)"
  shows "leader_inv ms (h @ [LPropose v]) (C @ commits_of outs) l'"
proof -
  note i = leader_invD [OF inv]
  let ?n = "length (proposals h)"
  obtain b where b: "ld_ballot l = Some b" using i(3) by auto
  have un: "unat (of_nat ?n :: SlotId) = ?n" using n by (simp add: unsigned_of_nat take_bit_nat_eq_self)
  have none: "ld_instances l (of_nat ?n) = None" using i(6) [of "of_nat ?n"] un by (cases "ld_instances l (of_nat ?n)") auto
  have nC: "of_nat ?n \<notin> fst ` set C" using i(8) [of "of_nat ?n"] un by (auto simp: image_iff)
  have l': "l' = l\<lparr>ld_instances := (ld_instances l)(of_nat ?n \<mapsto> \<lparr>pi_ballot = b, pi_value = v, pi_num_accepts = 0, pi_num_commits = 0\<rparr>),
      ld_next_empty_slot := of_nat ?n + 1\<rparr>" and outs: "commits_of outs = []"
    using st i(2) b none i(4) by (auto simp: Leader_HandleRequest_def StartNewInstance_def Let_def)
  have mj: "majority l' = majority l" "0 < majority l" using l' by (simp_all add: majority_def)
  have sl: "s = of_nat ?n \<or> unat s < ?n" if "unat s < Suc ?n" for s :: SlotId
    using that un by (metis less_SucE word_nat_cases word_unat_eq_iff)
  have inst: "unat s < Suc ?n \<and> pi_value x = (proposals h @ [v]) ! unat s \<and>
      pi_num_accepts x = int (accepts_of h s) \<and> (s \<in> fst ` set C \<longleftrightarrow> majority l \<le> pi_num_accepts x)"
    if "ld_instances l' s = Some x" for s x
  proof (cases "s = of_nat ?n")
    case True
    with that l' have "x = \<lparr>pi_ballot = b, pi_value = v, pi_num_accepts = 0, pi_num_commits = 0\<rparr>" by simp
    with True un nC mj(2) i(9) [of "of_nat ?n"] show ?thesis by (simp add: nth_append)
  next
    case False
    with that l' i(6) [of s x] show ?thesis by (simp add: nth_append)
  qed
  have C: "unat s < Suc ?n \<and> x = (proposals h @ [v]) ! unat s \<and> majority l \<le> int (accepts_of h s)" if "(s, x) \<in> set C" for s x
    using i(8) [OF that] by (simp add: nth_append)
  have dom: "ld_instances l' s \<noteq> None" if "s \<noteq> 0" "unat s < Suc ?n" for s
    using sl [OF that(2)] i(7) [OF that(1)] l' by auto
  show ?thesis
    unfolding leader_inv_def mj(1) outs
    using i(1-3,5,9) inst C dom by (auto simp: l')
qed

lemma leader_inv_accept:
  assumes inv: "leader_inv ms h C l" and s: "unat s < length (proposals h)"
    and st: "leader_step l (LAcceptResponse b s) = Inr (l', outs)"
  shows "leader_inv ms (h @ [LAcceptResponse b s]) (C @ commits_of outs) l'"
proof (cases "ld_instances l s")
  case None
  note i = leader_invD [OF inv]
  from st None have "l' = l" "outs = []" by (simp_all add: Leader_HandleResponse_def)
  moreover have "s = 0" using i(7) [of s] s None by blast
  moreover have "unat t < length (proposals h) \<and> v = proposals h ! unat t \<and>
      majority l \<le> int (accepts_of (h @ [LAcceptResponse b s]) t)" if "(t, v) \<in> set C" for t v
    using i(8) [OF that] by auto
  ultimately show ?thesis unfolding leader_inv_def using i(1-7,9) None s by (auto split: if_splits)
next
  case (Some x)
  note i = leader_invD [OF inv]
  define x' where "x' = x\<lparr>pi_num_accepts := pi_num_accepts x + 1\<rparr>"
  have l': "l' = l\<lparr>ld_instances := (ld_instances l)(s \<mapsto> x')\<rparr>"
    and outs: "commits_of outs = (if pi_num_accepts x + 1 = majority l then [(s, pi_value x)] else [])"
    using st Some by (auto simp: Leader_HandleResponse_def x'_def Let_def)
  have mj: "majority l' = majority l" using l' by (simp add: majority_def)
  note ix = i(6) [OF Some]
  have new: "fst ` set (C @ commits_of outs) = (if pi_num_accepts x + 1 = majority l then insert s (fst ` set C) else fst ` set C)"
    by (simp add: outs)
  have d: "distinct (map fst (C @ commits_of outs))" using i(5) ix by (auto simp: outs)
  have inst: "unat t < length (proposals h) \<and> pi_value y = proposals h ! unat t \<and>
      pi_num_accepts y = int (accepts_of (h @ [LAcceptResponse b s]) t) \<and>
      (t \<in> fst ` set (C @ commits_of outs) \<longleftrightarrow> majority l \<le> pi_num_accepts y)"
    if "ld_instances l' t = Some y" for t y
  proof (cases "t = s")
    case True
    with that l' have "y = x'" by simp
    with True ix show ?thesis unfolding new by (auto simp: x'_def)
  next
    case False
    with that l' i(6) [of t y] show ?thesis unfolding new by auto
  qed
  have C: "unat t < length (proposals h) \<and> v = proposals h ! unat t \<and>
      majority l \<le> int (accepts_of (h @ [LAcceptResponse b s]) t)" if "(t, v) \<in> set (C @ commits_of outs)" for t v
    using that i(8) [of t v] ix by (auto simp: outs split: if_splits)
  have z: "accepts_of (h @ [LAcceptResponse b s]) t = 0" if "length (proposals h) \<le> unat t" for t
    using that i(9) [OF that] s by auto
  have dom: "ld_instances l' t \<noteq> None" if "t \<noteq> 0" "unat t < length (proposals h)" for t
    using i(7) [OF that] by (simp add: l')
  have sel: "ld_members l' = ms" "ld_is_elected l'" "ld_ballot l' \<noteq> None" "ld_next_empty_slot l' = of_nat (length (proposals h))"
    using i(1-4) by (simp_all add: l')
  have p: "proposals (h @ [LAcceptResponse b s]) = proposals h" by simp
  show ?thesis
    unfolding leader_inv_def mj p using sel d inst C dom z by blast
qed

lemma leader_inv_commit_response:
  assumes inv: "leader_inv ms h C l" and st: "leader_step l (LCommitResponse s) = Inr (l', outs)"
  shows "leader_inv ms (h @ [LCommitResponse s]) (C @ commits_of outs) l'"
proof (cases "ld_instances l 0")
  case None
  with st inv show ?thesis by (simp add: Leader_HandleResponse_def leader_inv_def)
next
  case (Some x)
  note i = leader_invD [OF inv]
  have outs: "outs = []" using st Some by (simp add: Leader_HandleResponse_def Let_def)
  have l': "l' = l\<lparr>ld_instances := ld_instances l'\<rparr>" using st Some by (auto simp: Leader_HandleResponse_def Let_def)
  have mj: "majority l' = majority l" by (subst l') (simp add: majority_def)
  have sel: "ld_members l' = ld_members l" "ld_is_elected l' = ld_is_elected l" "ld_ballot l' = ld_ballot l"
    "ld_next_empty_slot l' = ld_next_empty_slot l" by (subst l', simp)+
  have ne: "ld_instances l' t = ld_instances l t" if "t \<noteq> 0" for t
    using st Some that by (auto simp: Leader_HandleResponse_def Let_def)
  have zero: "pi_value y = pi_value x \<and> pi_num_accepts y = pi_num_accepts x" if "ld_instances l' 0 = Some y" for y
    using st Some that by (auto simp: Leader_HandleResponse_def Let_def split: if_splits)
  have inst: "unat t < length (proposals h) \<and> pi_value y = proposals h ! unat t \<and> pi_num_accepts y = int (accepts_of h t) \<and>
      (t \<in> fst ` set C \<longleftrightarrow> majority l \<le> pi_num_accepts y)" if "ld_instances l' t = Some y" for t y
  proof (cases "t = 0")
    case True
    with that zero i(6) [OF Some] show ?thesis by auto
  next
    case False
    with that ne i(6) [of t y] show ?thesis by simp
  qed
  show ?thesis
    unfolding leader_inv_def mj outs sel using i(1-5,7-9) inst ne by simp
qed

lemma leader_inv_commit:
  assumes inv: "leader_inv ms h C l" and s: "unat s < length (proposals h)" "length (proposals h) < 2 ^ 32"
    and st: "leader_step l (LCommit s v) = Inr (l', outs)"
  shows "leader_inv ms (h @ [LCommit s v]) (C @ commits_of outs) l'"
proof -
  note i = leader_invD [OF inv]
  have "s < of_nat (length (proposals h))"
    using s by (simp add: word_less_nat_alt unsigned_of_nat take_bit_nat_eq_self)
  then have "l' = l" "commits_of outs = []"
    using st i(4) by (auto simp: Leader_HandleRequest_def Leader_ProcessCommitRequest_def split: if_splits)
  with inv show ?thesis by (simp add: leader_inv_def)
qed

lemma leader_run_inv:
  assumes "run_ops leader_step l ops = Inr (l', outs)" "leader_inv ms h C l"
    and "leader_legal (length (proposals h)) ops" "length (proposals h) + length (proposals ops) < 2 ^ 32"
  shows "leader_inv ms (h @ ops) (C @ commits_of outs) l'"
  using assms
proof (induction ops arbitrary: h C l outs)
  case Nil
  then show ?case by simp
next
  case (Cons op ops)
  from Cons.prems(1) obtain l1 o1 o2 where st: "leader_step l op = Inr (l1, o1)"
    and rest: "run_ops leader_step l1 ops = Inr (l', o2)" and outs: "outs = o1 @ o2" by (rule run_ops_ConsE)
  have "leader_inv ms (h @ [op]) (C @ commits_of o1) l1"
  proof (cases op)
    case (LPropose v)
    with Cons.prems(2,4) st show ?thesis by (auto intro: leader_inv_propose)
  next
    case (LAcceptResponse b s)
    with Cons.prems(2,3) st show ?thesis by (auto intro: leader_inv_accept)
  next
    case (LCommitResponse s)
    with Cons.prems(2,3) st show ?thesis by (auto intro: leader_inv_commit_response)
  next
    case (LCommit s v)
    with Cons.prems(2-4) st show ?thesis by (auto intro: leader_inv_commit)
  qed
  from Cons.IH [OF rest this] Cons.prems(3,4) show ?case by (cases op) (auto simp: outs)
qed

lemma leader_inv_new:
  assumes "Leader_new members me = Inr l" "acceptors members \<noteq> []" "hd (acceptors members) = me"
  shows "leader_inv members [] [] l"
proof -
  have "takeWhile (\<lambda>a. a \<noteq> me) (acceptors members) = []" using assms(2,3) by (cases "acceptors members") auto
  with assms(1,2) show ?thesis
    by (auto simp: Leader_new_def Let_def leader_inv_def majority_def kPaxosDefaultLeaderPosition_def)
qed

text \<open>
  C35: agreement and validity of the fixed-leader consensus.  In every run of the elected
  leader (fewer than \<open>2\<^sup>3\<^sup>2\<close> proposals, responses only for proposed slots) each slot is
  committed at most once, slot \<open>i\<close> with the \<open>i\<close>-th proposed value, and only after a
  majority of accept responses; conversely every slot but slot 0 is committed as soon
  as it has that majority.
\<close>
theorem leader_commits:
  assumes "Leader_new members me = Inr l" "acceptors members \<noteq> []" "hd (acceptors members) = me"
    and "run_ops leader_step l ops = Inr (l', outs)" "leader_legal 0 ops" "length (proposals ops) < 2 ^ 32"
  shows "distinct (map fst (commits_of outs)) \<and>
    (\<forall>s v. (s, v) \<in> set (commits_of outs) \<longrightarrow> unat s < length (proposals ops) \<and> v = proposals ops ! unat s \<and>
      length (acceptors members) div 2 + 1 \<le> accepts_of ops s) \<and>
    (\<forall>s. s \<noteq> 0 \<longrightarrow> unat s < length (proposals ops) \<longrightarrow> length (acceptors members) div 2 + 1 \<le> accepts_of ops s \<longrightarrow>
      s \<in> fst ` set (commits_of outs))"
proof -
  from leader_run_inv [OF assms(4) leader_inv_new [OF assms(1-3)]] assms(5,6)
  have inv: "leader_inv members ops (commits_of outs) l'" by simp
  note i = leader_invD [OF inv]
  have mj: "majority l' \<le> int k \<longleftrightarrow> length (acceptors members) div 2 + 1 \<le> k" for k
    using i(1) by (simp add: majority_def) linarith
  have "s \<in> fst ` set (commits_of outs)" if s: "s \<noteq> 0" "unat s < length (proposals ops)"
    "length (acceptors members) div 2 + 1 \<le> accepts_of ops s" for s
  proof -
    from i(7) [OF s(1,2)] obtain x where "ld_instances l' s = Some x" by auto
    from i(6) [OF this] s(3) mj show ?thesis by simp
  qed
  with i(5,8) mj show ?thesis by simp
qed

text \<open>A group of three acceptors that are also the learners.\<close>

definition sample_members :: Members where
  "sample_members = \<lparr>acceptors = [1, 2, 3], learners = [1, 2, 3]\<rparr>"

lemmas paxos_eval = sample_members_def Leader_new_def Leader_HandleRequest_def Leader_HandleResponse_def
  StartNewInstance_def Leader_ProcessCommitRequest_def majority_def kPaxosDefaultLeaderPosition_def Let_def

theorem leader_commits_witness:
  "let ops = [LPropose 7, LPropose 8, LAcceptResponse 0 0, LAcceptResponse 0 1, LAcceptResponse 0 1] in
   \<exists>l l' outs. Leader_new sample_members 1 = Inr l \<and> run_ops leader_step l ops = Inr (l', outs) \<and>
     commits_of outs = [(1, 8)] \<and> length (acceptors sample_members) div 2 + 1 \<le> accepts_of ops 1"
proof -
  let ?ops = "[LPropose 7, LPropose 8, LAcceptResponse 0 0, LAcceptResponse 0 1, LAcceptResponse 0 1]"
  obtain l where l: "Leader_new sample_members 1 = Inr l" by (simp add: paxos_eval)
  obtain l' outs where r: "run_ops leader_step l ?ops = Inr (l', outs)" and c: "commits_of outs = [(1, 8)]"
    using l by (auto simp: paxos_eval)
  have h: "acceptors sample_members \<noteq> []" "hd (acceptors sample_members) = 1" by (simp_all add: sample_members_def)
  have g: "leader_legal 0 ?ops" "length (proposals ?ops) < 2 ^ 32" by simp_all
  from leader_commits [OF l h r g] c have "length (acceptors sample_members) div 2 + 1 \<le> accepts_of ?ops 1" by simp
  with l r c show ?thesis unfolding Let_def by blast
qed

text \<open>
  The memory of a decided instance is never released, except for slot 0: the branch
  that counts commit responses looks up slot 0 whatever the slot of the response.
\<close>
theorem leader_keeps_instances:
  assumes "Leader_new members me = Inr l" "acceptors members \<noteq> []" "hd (acceptors members) = me"
    and "run_ops leader_step l ops = Inr (l', outs)" "leader_legal 0 ops" "length (proposals ops) < 2 ^ 32"
    and "s \<noteq> 0" "unat s < length (proposals ops)"
  shows "ld_instances l' s \<noteq> None"
proof -
  from leader_run_inv [OF assms(4) leader_inv_new [OF assms(1-3)]] assms(5,6)
  have "leader_inv members ops (commits_of outs) l'" by simp
  from leader_invD(7) [OF this assms(7,8)] show ?thesis .
qed

theorem leader_keeps_instances_witness:
  "let ops = [LPropose 7, LPropose 8, LAcceptResponse 0 1, LAcceptResponse 0 1, LCommitResponse 1, LCommitResponse 1,
       LCommitResponse 1] in
   \<exists>l l' outs. Leader_new sample_members 1 = Inr l \<and> run_ops leader_step l ops = Inr (l', outs) \<and>
     ld_instances l' 1 \<noteq> None \<and> ld_instances l' 0 = None"
proof -
  let ?ops = "[LPropose 7, LPropose 8, LAcceptResponse 0 1, LAcceptResponse 0 1, LCommitResponse 1, LCommitResponse 1,
       LCommitResponse 1]"
  obtain l where l: "Leader_new sample_members 1 = Inr l" by (simp add: paxos_eval)
  obtain l' outs where r: "run_ops leader_step l ?ops = Inr (l', outs)" and z: "ld_instances l' 0 = None"
    using l by (auto simp: paxos_eval)
  have h: "acceptors sample_members \<noteq> []" "hd (acceptors sample_members) = 1" by (simp_all add: sample_members_def)
  have g: "leader_legal 0 ?ops" "length (proposals ?ops) < 2 ^ 32" "(1 :: SlotId) \<noteq> 0" "unat (1 :: SlotId) < length (proposals ?ops)"
    by simp_all
  from leader_keeps_instances [OF l h r g] l r z show ?thesis unfolding Let_def by blast
qed

end
