(* ===== verification/Storage.thy ===== *)
theory Storage
  imports Config
begin

section \<open>Storage: the sharded hash map\<close>

text \<open>
  \<^verbatim>\<open>ConcurrentHashMap\<close> of \<^verbatim>\<open>concurrent_hash_map.h\<close>: 256 segments created on demand,
  each a chained hash table that doubles when it is full.  Every operation of a segment
  runs under its latch, so each is one atomic step here.  The hash function is that of
  the standard library, a parameter.  On top of it: \<open>MemOnlyStorage\<close>, the metadata
  initializers and the generators of the initial data.
\<close>

unbundle bit_operations_syntax

subsection \<open>Segments\<close>

definition ShardBits :: nat where "ShardBits = 8"

record ('k, 'v) Segment =
  sg_buckets :: "('k \<times> 'v) list list"
  sg_load_factor_max_size :: nat
  sg_size :: nat

text \<open>
  The load factor is the single-precision number nearest to 1.05, that is \<open>8808038 / 2 ^ 23\<close>.  The
  product is taken exactly, where the source rounds it to a floating-point number; the limit only
  decides when a segment is rehashed.
\<close>

definition load_limit :: "nat \<Rightarrow> nat" where
  "load_limit n = n * 8808038 div 8388608"

definition Segment_new :: "nat \<Rightarrow> ('k, 'v) Segment" where
  "Segment_new n = \<lparr>sg_buckets = replicate n [], sg_load_factor_max_size = load_limit n, sg_size = 0\<rparr>"

definition GetIndex :: "nat \<Rightarrow> uint64 \<Rightarrow> nat" where
  "GetIndex nbuckets h = unat (drop_bit ShardBits h) AND (nbuckets - 1)"

definition Segment_Get :: "('k \<Rightarrow> uint64) \<Rightarrow> 'k \<Rightarrow> ('k, 'v) Segment \<Rightarrow> 'v option" where
  "Segment_Get hash key s = map_of (sg_buckets s ! GetIndex (length (sg_buckets s)) (hash key)) key"

fun replace_node :: "'k \<Rightarrow> 'v \<Rightarrow> ('k \<times> 'v) list \<Rightarrow> ('k \<times> 'v) list option" where
  "replace_node key v [] = None"
| "replace_node key v (n # ns) =
     (if fst n = key then Some ((key, v) # ns) else map_option (\<lambda>ns'. n # ns') (replace_node key v ns))"

fun remove_node :: "'k \<Rightarrow> ('k \<times> 'v) list \<Rightarrow> ('k \<times> 'v) list option" where
  "remove_node key [] = None"
| "remove_node key (n # ns) =
     (if fst n = key then Some ns else map_option (\<lambda>ns'. n # ns') (remove_node key ns))"

definition push_node :: "('k \<Rightarrow> uint64) \<Rightarrow> ('k \<times> 'v) list list \<Rightarrow> 'k \<times> 'v \<Rightarrow> ('k \<times> 'v) list list" where
  "push_node hash bs n = (let idx = GetIndex (length bs) (hash (fst n)) in bs[idx := n # bs ! idx])"

definition Rehash :: "('k \<Rightarrow> uint64) \<Rightarrow> ('k, 'v) Segment \<Rightarrow> ('k, 'v) Segment" where
  "Rehash hash s =
     (let new_bucket_count = 2 * length (sg_buckets s);
        bs = foldl (push_node hash) (replicate new_bucket_count []) (concat (sg_buckets s)) in
      s\<lparr>sg_buckets := bs, sg_load_factor_max_size := load_limit new_bucket_count\<rparr>)"

definition Segment_InsertOrUpdate :: "('k \<Rightarrow> uint64) \<Rightarrow> 'k \<Rightarrow> 'v \<Rightarrow> ('k, 'v) Segment \<Rightarrow> bool \<times> ('k, 'v) Segment" where
  "Segment_InsertOrUpdate hash key v s =
     (let idx = GetIndex (length (sg_buckets s)) (hash key);
        bucket = sg_buckets s ! idx;
        (key_exists, s1) =
          (case replace_node key v bucket of
             Some bucket' \<Rightarrow> (True, s\<lparr>sg_buckets := (sg_buckets s)[idx := bucket']\<rparr>)
           | None \<Rightarrow> (False, s\<lparr>sg_buckets := (sg_buckets s)[idx := (key, v) # bucket], sg_size := sg_size s + 1\<rparr>)) in
      (key_exists, if sg_load_factor_max_size s1 \<le> sg_size s1 then Rehash hash s1 else s1))"

text \<open>The counter of the segment is not decremented.\<close>

definition Segment_Erase :: "('k \<Rightarrow> uint64) \<Rightarrow> 'k \<Rightarrow> ('k, 'v) Segment \<Rightarrow> bool \<times> ('k, 'v) Segment" where
  "Segment_Erase hash key s =
     (let idx = GetIndex (length (sg_buckets s)) (hash key) in
      case remove_node key (sg_buckets s ! idx) of
        Some bucket' \<Rightarrow> (True, s\<lparr>sg_buckets := (sg_buckets s)[idx := bucket']\<rparr>)
      | None \<Rightarrow> (False, s))"

subsection \<open>A segment implements a finite map\<close>

definition seg_inv :: "('k \<Rightarrow> uint64) \<Rightarrow> ('k, 'v) Segment \<Rightarrow> bool" where
  "seg_inv hash s \<longleftrightarrow> (\<exists>j. length (sg_buckets s) = 2 ^ j) \<and>
     (\<forall>i<length (sg_buckets s). distinct (map fst (sg_buckets s ! i)) \<and>
        (\<forall>n\<in>set (sg_buckets s ! i). GetIndex (length (sg_buckets s)) (hash (fst n)) = i))"

lemma GetIndex_less: "n = 2 ^ j \<Longrightarrow> GetIndex n h < n"
proof -
  assume n: "n = 2 ^ j"
  then have "n - 1 = mask j" by (simp add: mask_eq_exp_minus_1)
  then have "GetIndex n h = take_bit j (unat (drop_bit ShardBits h))" by (simp add: GetIndex_def take_bit_eq_mask)
  then show ?thesis using n by simp
qed

lemma seg_invD:
  assumes "seg_inv hash s"
  shows "GetIndex (length (sg_buckets s)) h < length (sg_buckets s)"
    "i < length (sg_buckets s) \<Longrightarrow> distinct (map fst (sg_buckets s ! i))"
    "i < length (sg_buckets s) \<Longrightarrow> n \<in> set (sg_buckets s ! i) \<Longrightarrow> GetIndex (length (sg_buckets s)) (hash (fst n)) = i"
  using assms GetIndex_less by (auto simp: seg_inv_def)

lemma replace_node_spec:
  assumes "distinct (map fst ns)"
  shows "case replace_node key v ns of
      None \<Rightarrow> key \<notin> fst ` set ns
    | Some ns' \<Rightarrow> key \<in> fst ` set ns \<and> map fst ns' = map fst ns \<and> map_of ns' = (map_of ns)(key \<mapsto> v)"
  using assms
proof (induction ns)
  case (Cons n ns)
  then show ?case by (cases n) (auto split: option.splits)
qed simp

lemma remove_node_spec:
  assumes "distinct (map fst ns)"
  shows "case remove_node key ns of
      None \<Rightarrow> key \<notin> fst ` set ns
    | Some ns' \<Rightarrow> key \<in> fst ` set ns \<and> set (map fst ns') = set (map fst ns) - {key} \<and> distinct (map fst ns') \<and>
        set ns' \<subseteq> set ns \<and> map_of ns' = (map_of ns)(key := None)"
  using assms
proof (induction ns)
  case (Cons n ns)
  obtain k w where n: "n = (k, w)" by (cases n)
  show ?case
  proof (cases "k = key")
    case True
    then have "map_of ns key = None" using Cons.prems n by (simp add: map_of_eq_None_iff)
    with True Cons.prems n show ?thesis by (auto simp: fun_upd_idem)
  next
    case False
    with Cons n show ?thesis by (auto split: option.splits)
  qed
qed simp

text \<open>Replacing the bucket of a key.\<close>

lemma seg_upd:
  assumes "seg_inv hash s" "idx = GetIndex (length (sg_buckets s)) (hash key)" "distinct (map fst b)"
    and "set (map fst b) \<subseteq> insert key (set (map fst (sg_buckets s ! idx)))"
    and "\<And>k. k \<noteq> key \<Longrightarrow> map_of b k = map_of (sg_buckets s ! idx) k"
  shows "seg_inv hash (s\<lparr>sg_buckets := (sg_buckets s)[idx := b], sg_size := sz\<rparr>)"
    "Segment_Get hash k (s\<lparr>sg_buckets := (sg_buckets s)[idx := b], sg_size := sz\<rparr>) =
       (if k = key then map_of b key else Segment_Get hash k s)"
proof -
  note inv = seg_invD [OF assms(1)]
  have idx: "idx < length (sg_buckets s)" using inv(1) assms(2) by simp
  have "GetIndex (length (sg_buckets s)) (hash (fst n)) = idx" if "n \<in> set b" for n
  proof (cases "fst n = key")
    case False
    with that assms(4) have "fst n \<in> set (map fst (sg_buckets s ! idx))" by auto
    then show ?thesis using inv(3) [OF idx] by auto
  qed (simp add: assms(2))
  then show "seg_inv hash (s\<lparr>sg_buckets := (sg_buckets s)[idx := b], sg_size := sz\<rparr>)"
    using assms(1,3) idx by (auto simp: seg_inv_def nth_list_update split: if_splits)
  show "Segment_Get hash k (s\<lparr>sg_buckets := (sg_buckets s)[idx := b], sg_size := sz\<rparr>) =
       (if k = key then map_of b key else Segment_Get hash k s)"
    using idx assms(2,5) inv(1) by (auto simp: Segment_Get_def nth_list_update)
qed

text \<open>Rehashing keeps the entries.\<close>

lemma push_nodes_nth:
  assumes "length bs = 2 ^ j" "i < length bs"
  shows "foldl (push_node hash) bs es ! i = rev (filter (\<lambda>n. GetIndex (length bs) (hash (fst n)) = i) es) @ bs ! i"
    and "length (foldl (push_node hash) bs es) = length bs"
proof -
  have "length (foldl (push_node hash) bs es) = length bs \<and>
      foldl (push_node hash) bs es ! i = rev (filter (\<lambda>n. GetIndex (length bs) (hash (fst n)) = i) es) @ bs ! i"
    using assms
  proof (induction es arbitrary: bs)
    case (Cons e es)
    let ?bs = "push_node hash bs e"
    have l: "length ?bs = length bs" by (simp add: push_node_def Let_def)
    have nth: "?bs ! i = (if GetIndex (length bs) (hash (fst e)) = i then e # bs ! i else bs ! i)"
      using Cons.prems by (auto simp: push_node_def Let_def nth_list_update)
    from Cons.IH [of ?bs] Cons.prems l nth show ?case by simp
  qed simp
  then show "foldl (push_node hash) bs es ! i = rev (filter (\<lambda>n. GetIndex (length bs) (hash (fst n)) = i) es) @ bs ! i"
    "length (foldl (push_node hash) bs es) = length bs" by blast+
qed

lemma distinct_keys_concat:
  assumes "\<And>i. i < length bs \<Longrightarrow> distinct (map fst (bs ! i))"
    and "\<And>i n. i < length bs \<Longrightarrow> n \<in> set (bs ! i) \<Longrightarrow> f (fst n) = i"
  shows "distinct (map fst (concat bs))"
proof -
  have "distinct (map fst (concat (take m bs))) \<and> (\<forall>n\<in>set (concat (take m bs)). f (fst n) < m)" if "m \<le> length bs" for m
    using that
  proof (induction m)
    case (Suc m)
    then have m: "m < length bs" by simp
    have t: "take (Suc m) bs = take m bs @ [bs ! m]" by (rule take_Suc_conv_app_nth [OF m])
    from Suc have ih: "distinct (map fst (concat (take m bs)))" "\<forall>n\<in>set (concat (take m bs)). f (fst n) < m" by simp_all
    have "fst ` set (concat (take m bs)) \<inter> fst ` set (bs ! m) = {}"
      using ih(2) assms(2) [OF m] by fastforce
    with ih assms(1) [OF m] assms(2) [OF m] show ?case unfolding t by (auto simp: less_Suc_eq)
  qed simp
  from this [of "length bs"] show ?thesis by simp
qed

lemma Segment_Get_concat:
  assumes "seg_inv hash s"
  shows "Segment_Get hash k s = map_of (concat (sg_buckets s)) k"
proof -
  note inv = seg_invD [OF assms]
  let ?i = "GetIndex (length (sg_buckets s)) (hash k)"
  have d: "distinct (map fst (concat (sg_buckets s)))"
    by (rule distinct_keys_concat [where f = "\<lambda>k. GetIndex (length (sg_buckets s)) (hash k)"]) (use inv in auto)
  have "(k, v) \<in> set (sg_buckets s ! ?i) \<longleftrightarrow> (k, v) \<in> set (concat (sg_buckets s))" for v
  proof
    assume "(k, v) \<in> set (concat (sg_buckets s))"
    then obtain i where i: "i < length (sg_buckets s)" "(k, v) \<in> set (sg_buckets s ! i)"
      by (auto simp: in_set_conv_nth [of _ "sg_buckets s"])
    with inv(3) [OF i] show "(k, v) \<in> set (sg_buckets s ! ?i)" by simp
  qed (use inv(1) [of "hash k"] nth_mem in \<open>auto intro: bexI\<close>)
  then have "map_of (sg_buckets s ! ?i) k = Some v \<longleftrightarrow> map_of (concat (sg_buckets s)) k = Some v" for v
    using d inv(2) [OF inv(1)] by simp
  then show ?thesis unfolding Segment_Get_def by (metis not_None_eq)
qed

lemma map_of_rev_filter:
  assumes "distinct (map fst es)" "P k"
  shows "map_of (rev (filter (\<lambda>n. P (fst n)) es)) k = map_of es k"
proof -
  have d: "distinct (map fst (rev (filter (\<lambda>n. P (fst n)) es)))" using assms(1) by (simp add: rev_map [symmetric] distinct_map_filter)
  have "map_of (rev (filter (\<lambda>n. P (fst n)) es)) k = Some v \<longleftrightarrow> map_of es k = Some v" for v
    using assms d by simp
  then show ?thesis by (metis not_None_eq)
qed

lemma Rehash_correct:
  assumes "seg_inv hash s"
  shows "seg_inv hash (Rehash hash s)" "Segment_Get hash k (Rehash hash s) = Segment_Get hash k s"
proof -
  note inv = seg_invD [OF assms]
  let ?es = "concat (sg_buckets s)" and ?n = "2 * length (sg_buckets s)"
  from assms obtain j where "length (sg_buckets s) = 2 ^ j" by (auto simp: seg_inv_def)
  then have n: "?n = 2 ^ Suc j" by simp
  have d: "distinct (map fst ?es)"
    by (rule distinct_keys_concat [where f = "\<lambda>k. GetIndex (length (sg_buckets s)) (hash k)"]) (use inv in auto)
  let ?bs = "foldl (push_node hash) (replicate ?n []) ?es"
  have nth: "?bs ! i = rev (filter (\<lambda>m. GetIndex ?n (hash (fst m)) = i) ?es)" if "i < ?n" for i
    using push_nodes_nth(1) [of "replicate ?n []" "Suc j" i hash ?es] that n by simp
  have len: "length ?bs = ?n"
    using push_nodes_nth(2) [of "replicate ?n []" "Suc j" 0 hash ?es] n by simp
  have bs: "sg_buckets (Rehash hash s) = ?bs" by (simp add: Rehash_def Let_def)
  show "seg_inv hash (Rehash hash s)"
    unfolding seg_inv_def bs len using n nth d
    by (auto simp: rev_map [symmetric] distinct_map_filter intro: exI [of _ "Suc j"])
  have "GetIndex ?n (hash k) < ?n" by (rule GetIndex_less [OF n])
  then have "Segment_Get hash k (Rehash hash s) = map_of (rev (filter (\<lambda>m. GetIndex ?n (hash (fst m)) = GetIndex ?n (hash k)) ?es)) k"
    unfolding Segment_Get_def bs len using nth by simp
  also have "\<dots> = map_of ?es k"
    using map_of_rev_filter [OF d, of "\<lambda>x. GetIndex ?n (hash x) = GetIndex ?n (hash k)" k] by simp
  finally show "Segment_Get hash k (Rehash hash s) = Segment_Get hash k s" by (simp add: Segment_Get_concat [OF assms])
qed

lemma Segment_new_correct:
  "seg_inv hash (Segment_new (2 ^ j))" "Segment_Get hash k (Segment_new (2 ^ j)) = None"
  using GetIndex_less [OF refl, of j "hash k"] by (simp_all add: seg_inv_def Segment_new_def Segment_Get_def)

lemma sg_size_same: "s\<lparr>sg_buckets := bs, sg_size := sg_size s\<rparr> = s\<lparr>sg_buckets := bs\<rparr>"
  by (cases s) simp

lemma Segment_InsertOrUpdate_correct:
  assumes "seg_inv hash s" "Segment_InsertOrUpdate hash key v s = (b, s')"
  shows "seg_inv hash s'" "b \<longleftrightarrow> Segment_Get hash key s \<noteq> None"
    "Segment_Get hash k s' = (if k = key then Some v else Segment_Get hash k s)"
proof -
  let ?idx = "GetIndex (length (sg_buckets s)) (hash key)"
  note inv = seg_invD [OF assms(1)]
  have d: "distinct (map fst (sg_buckets s ! ?idx))" by (rule inv(2) [OF inv(1)])
  note rn = replace_node_spec [OF d, of key v]
  obtain s1 where s': "s' = (if sg_load_factor_max_size s1 \<le> sg_size s1 then Rehash hash s1 else s1)"
    and s1: "seg_inv hash s1" "\<forall>k. Segment_Get hash k s1 = (if k = key then Some v else Segment_Get hash k s)"
    and b: "b \<longleftrightarrow> Segment_Get hash key s \<noteq> None"
  proof (cases "replace_node key v (sg_buckets s ! ?idx)")
    case None
    let ?b = "(key, v) # sg_buckets s ! ?idx"
    have g: "Segment_Get hash key s = None" using rn None by (simp add: Segment_Get_def map_of_eq_None_iff)
    have "distinct (map fst ?b)" "set (map fst ?b) \<subseteq> insert key (set (map fst (sg_buckets s ! ?idx)))"
      "\<And>k. k \<noteq> key \<Longrightarrow> map_of ?b k = map_of (sg_buckets s ! ?idx) k" using d rn None by auto
    note u = seg_upd [OF assms(1) refl this, where sz = "sg_size s + 1"]
    let ?s1 = "s\<lparr>sg_buckets := (sg_buckets s)[?idx := ?b], sg_size := sg_size s + 1\<rparr>"
    have e: "s' = (if sg_load_factor_max_size ?s1 \<le> sg_size ?s1 then Rehash hash ?s1 else ?s1)" "b \<longleftrightarrow> Segment_Get hash key s \<noteq> None"
      using assms(2) None g by (auto simp: Segment_InsertOrUpdate_def Let_def)
    have g1: "\<forall>k. Segment_Get hash k ?s1 = (if k = key then Some v else Segment_Get hash k s)"
      using u(2) by simp
    show ?thesis by (rule that [OF e(1) u(1) g1 e(2)])
  next
    case (Some b')
    have g: "Segment_Get hash key s \<noteq> None" using rn Some by (simp add: Segment_Get_def map_of_eq_None_iff)
    have "distinct (map fst b')" "set (map fst b') \<subseteq> insert key (set (map fst (sg_buckets s ! ?idx)))"
      "\<And>k. k \<noteq> key \<Longrightarrow> map_of b' k = map_of (sg_buckets s ! ?idx) k" and v: "map_of b' key = Some v"
      using d rn Some by (auto simp del: set_map)
    note u = seg_upd [OF assms(1) refl this(1-3), where sz = "sg_size s", unfolded sg_size_same]
    let ?s1 = "s\<lparr>sg_buckets := (sg_buckets s)[?idx := b']\<rparr>"
    have e: "s' = (if sg_load_factor_max_size ?s1 \<le> sg_size ?s1 then Rehash hash ?s1 else ?s1)" "b \<longleftrightarrow> Segment_Get hash key s \<noteq> None"
      using assms(2) Some g by (auto simp: Segment_InsertOrUpdate_def Let_def)
    have g1: "\<forall>k. Segment_Get hash k ?s1 = (if k = key then Some v else Segment_Get hash k s)"
      using u(2) v by simp
    show ?thesis by (rule that [OF e(1) u(1) g1 e(2)])
  qed
  show "seg_inv hash s'" "b \<longleftrightarrow> Segment_Get hash key s \<noteq> None"
    "Segment_Get hash k s' = (if k = key then Some v else Segment_Get hash k s)"
    unfolding s' using s1 b Rehash_correct [OF s1(1)] by simp_all
qed

lemma Segment_Erase_correct:
  assumes "seg_inv hash s" "Segment_Erase hash key s = (b, s')"
  shows "seg_inv hash s'" "b \<longleftrightarrow> Segment_Get hash key s \<noteq> None"
    "Segment_Get hash k s' = (if k = key then None else Segment_Get hash k s)"
proof -
  let ?idx = "GetIndex (length (sg_buckets s)) (hash key)"
  note inv = seg_invD [OF assms(1)]
  have d: "distinct (map fst (sg_buckets s ! ?idx))" by (rule inv(2) [OF inv(1)])
  note rn = remove_node_spec [OF d, of key]
  have "seg_inv hash s' \<and> (b \<longleftrightarrow> Segment_Get hash key s \<noteq> None) \<and>
      Segment_Get hash k s' = (if k = key then None else Segment_Get hash k s)"
  proof (cases "remove_node key (sg_buckets s ! ?idx)")
    case None
    then have "s' = s" "\<not> b" using assms(2) by (simp_all add: Segment_Erase_def Let_def)
    moreover have "Segment_Get hash key s = None" using rn None by (simp add: Segment_Get_def map_of_eq_None_iff)
    ultimately show ?thesis using assms(1) by auto
  next
    case (Some b')
    have g: "Segment_Get hash key s \<noteq> None" using rn Some by (simp add: Segment_Get_def map_of_eq_None_iff)
    have "distinct (map fst b')" "set (map fst b') \<subseteq> insert key (set (map fst (sg_buckets s ! ?idx)))"
      "\<And>k. k \<noteq> key \<Longrightarrow> map_of b' k = map_of (sg_buckets s ! ?idx) k" and v: "map_of b' key = None"
      using rn Some by (auto simp del: set_map)
    note u = seg_upd [OF assms(1) refl this(1-3), where sz = "sg_size s", unfolded sg_size_same]
    have "s' = s\<lparr>sg_buckets := (sg_buckets s)[?idx := b']\<rparr>" "b"
      using assms(2) Some by (simp_all add: Segment_Erase_def Let_def)
    then show ?thesis using u g v by simp
  qed
  then show "seg_inv hash s'" "b \<longleftrightarrow> Segment_Get hash key s \<noteq> None"
    "Segment_Get hash k s' = (if k = key then None else Segment_Get hash k s)" by blast+
qed

subsection \<open>The sharded map\<close>

type_synonym ('k, 'v) ConcurrentHashMap = "('k, 'v) Segment option list"

definition NumShards :: nat where "NumShards = 2 ^ ShardBits"

definition kInitialBuckets :: nat where "kInitialBuckets = 8"

definition ConcurrentHashMap_new :: "('k, 'v) ConcurrentHashMap" where
  "ConcurrentHashMap_new = replicate NumShards None"

definition PickSegment :: "('k \<Rightarrow> uint64) \<Rightarrow> 'k \<Rightarrow> nat" where
  "PickSegment hash key = unat (hash key AND (of_nat NumShards - 1))"

definition EnsureSegment :: "nat \<Rightarrow> ('k, 'v) ConcurrentHashMap \<Rightarrow> ('k, 'v) Segment \<times> ('k, 'v) ConcurrentHashMap" where
  "EnsureSegment idx m =
     (case m ! idx of
        Some segment \<Rightarrow> (segment, m)
      | None \<Rightarrow> (let new_segment = Segment_new kInitialBuckets in (new_segment, m[idx := Some new_segment])))"

definition CHM_Get :: "('k \<Rightarrow> uint64) \<Rightarrow> ('k, 'v) ConcurrentHashMap \<Rightarrow> 'k \<Rightarrow> 'v option \<times> ('k, 'v) ConcurrentHashMap" where
  "CHM_Get hash m key = (let (segment, m1) = EnsureSegment (PickSegment hash key) m in (Segment_Get hash key segment, m1))"

definition CHM_InsertOrUpdate ::
  "('k \<Rightarrow> uint64) \<Rightarrow> ('k, 'v) ConcurrentHashMap \<Rightarrow> 'k \<Rightarrow> 'v \<Rightarrow> bool \<times> ('k, 'v) ConcurrentHashMap" where
  "CHM_InsertOrUpdate hash m key v =
     (let idx = PickSegment hash key; (segment, m1) = EnsureSegment idx m;
        (r, segment') = Segment_InsertOrUpdate hash key v segment in (r, m1[idx := Some segment']))"

definition CHM_Erase :: "('k \<Rightarrow> uint64) \<Rightarrow> ('k, 'v) ConcurrentHashMap \<Rightarrow> 'k \<Rightarrow> bool \<times> ('k, 'v) ConcurrentHashMap" where
  "CHM_Erase hash m key =
     (let idx = PickSegment hash key; (segment, m1) = EnsureSegment idx m;
        (r, segment') = Segment_Erase hash key segment in (r, m1[idx := Some segment']))"

definition chm_inv :: "('k \<Rightarrow> uint64) \<Rightarrow> ('k, 'v) ConcurrentHashMap \<Rightarrow> bool" where
  "chm_inv hash m \<longleftrightarrow> length m = NumShards \<and> (\<forall>i<NumShards. \<forall>sg. m ! i = Some sg \<longrightarrow> seg_inv hash sg)"

definition chm_map :: "('k \<Rightarrow> uint64) \<Rightarrow> ('k, 'v) ConcurrentHashMap \<Rightarrow> 'k \<Rightarrow> 'v option" where
  "chm_map hash m key = (case m ! PickSegment hash key of None \<Rightarrow> None | Some sg \<Rightarrow> Segment_Get hash key sg)"

lemma PickSegment_less: "PickSegment hash key < NumShards"
proof -
  have "hash key AND 255 = take_bit 8 (hash key)" by (simp add: take_bit_eq_mask mask_eq_exp_minus_1)
  then have "unat (hash key AND 255) < 2 ^ 8" using take_bit_nat_less_exp [of 8 "unat (hash key)"] by (simp add: unsigned_take_bit_eq)
  then show ?thesis by (simp add: PickSegment_def NumShards_def ShardBits_def)
qed

lemma chm_inv_new: "chm_inv hash ConcurrentHashMap_new" "chm_map hash ConcurrentHashMap_new = (\<lambda>_. None)"
  using PickSegment_less [of hash] by (simp_all add: chm_inv_def chm_map_def ConcurrentHashMap_new_def fun_eq_iff)

lemma EnsureSegment_correct:
  assumes "chm_inv hash m" "i < NumShards" "EnsureSegment i m = (sg, m')"
  shows "chm_inv hash m'" "seg_inv hash sg" "m' ! i = Some sg" "chm_map hash m' = chm_map hash m"
    "PickSegment hash k = i \<Longrightarrow> Segment_Get hash k sg = chm_map hash m k"
proof -
  have new: "seg_inv hash (Segment_new kInitialBuckets)" "Segment_Get hash k (Segment_new kInitialBuckets) = None" for k
    using Segment_new_correct(1) [where hash = hash and j = 3] Segment_new_correct(2) [where hash = hash and j = 3 and k = k] by (simp_all add: kInitialBuckets_def)
  show "chm_inv hash m'" "seg_inv hash sg" "m' ! i = Some sg" "chm_map hash m' = chm_map hash m"
    "PickSegment hash k = i \<Longrightarrow> Segment_Get hash k sg = chm_map hash m k"
    using assms new
    by (auto simp: chm_inv_def chm_map_def EnsureSegment_def Let_def nth_list_update fun_eq_iff split: option.splits if_splits)
qed

lemma chm_put:
  assumes "chm_inv hash m" "seg_inv hash sg" "i = PickSegment hash key" "m ! i = Some sg0"
    and "\<And>k. Segment_Get hash k sg = (if k = key then r else Segment_Get hash k sg0)"
  shows "chm_inv hash (m[i := Some sg])" "chm_map hash (m[i := Some sg]) = (chm_map hash m)(key := r)"
  using assms PickSegment_less [of hash key]
  by (auto simp: chm_inv_def chm_map_def nth_list_update fun_eq_iff split: if_splits)

lemma CHM_Get_correct:
  assumes "chm_inv hash m" "CHM_Get hash m key = (r, m')"
  shows "chm_inv hash m' \<and> r = chm_map hash m key \<and> chm_map hash m' = chm_map hash m"
  using assms EnsureSegment_correct [OF assms(1) PickSegment_less [of hash key]]
  by (auto simp: CHM_Get_def split: prod.splits)

lemma CHM_InsertOrUpdate_correct:
  assumes "chm_inv hash m" "CHM_InsertOrUpdate hash m key v = (r, m')"
  shows "chm_inv hash m' \<and> (r \<longleftrightarrow> chm_map hash m key \<noteq> None) \<and> chm_map hash m' = (chm_map hash m)(key \<mapsto> v)"
proof -
  let ?i = "PickSegment hash key"
  obtain sg m1 where e: "EnsureSegment ?i m = (sg, m1)" by fastforce
  note E = EnsureSegment_correct [OF assms(1) PickSegment_less e]
  obtain r' sg' where u: "Segment_InsertOrUpdate hash key v sg = (r', sg')" by fastforce
  note U = Segment_InsertOrUpdate_correct [OF E(2) u]
  from assms(2) e u have "r' = r" "m' = m1[?i := Some sg']" by (simp_all add: CHM_InsertOrUpdate_def Let_def)
  with chm_put [OF E(1) U(1) refl E(3) U(3)] U(2) E(4) E(5) [OF refl] show ?thesis by auto
qed

lemma CHM_Erase_correct:
  assumes "chm_inv hash m" "CHM_Erase hash m key = (r, m')"
  shows "chm_inv hash m' \<and> (r \<longleftrightarrow> chm_map hash m key \<noteq> None) \<and> chm_map hash m' = (chm_map hash m)(key := None)"
proof -
  let ?i = "PickSegment hash key"
  obtain sg m1 where e: "EnsureSegment ?i m = (sg, m1)" by fastforce
  note E = EnsureSegment_correct [OF assms(1) PickSegment_less e]
  obtain r' sg' where u: "Segment_Erase hash key sg = (r', sg')" by fastforce
  note U = Segment_Erase_correct [OF E(2) u]
  from assms(2) e u have "r' = r" "m' = m1[?i := Some sg']" by (simp_all add: CHM_Erase_def Let_def)
  with chm_put [OF E(1) U(1) refl E(3) U(3)] U(2) E(4) E(5) [OF refl] show ?thesis by auto
qed

subsection \<open>The storage interface\<close>

text \<open>
  What a client of \<^verbatim>\<open>Storage\<close> relies on: every operation acts on the finite map that the
  store holds, and the results of \<^verbatim>\<open>Write\<close> and \<^verbatim>\<open>Delete\<close> say whether the key was there.
\<close>

datatype ('k, 'v) kv_op = KRead 'k | KWrite 'k 'v | KDelete 'k
datatype 'v kv_out = KValue "'v option" | KFlag bool

fun kv_spec :: "('k \<rightharpoonup> 'v) \<Rightarrow> ('k, 'v) kv_op \<Rightarrow> ('k \<rightharpoonup> 'v) \<times> 'v kv_out" where
  "kv_spec m (KRead k) = (m, KValue (m k))"
| "kv_spec m (KWrite k v) = (m(k \<mapsto> v), KFlag (m k \<noteq> None))"
| "kv_spec m (KDelete k) = (m(k := None), KFlag (m k \<noteq> None))"

fun kv_run :: "('s \<Rightarrow> 'op \<Rightarrow> 's \<times> 'o) \<Rightarrow> 's \<Rightarrow> 'op list \<Rightarrow> 's \<times> 'o list" where
  "kv_run f s [] = (s, [])"
| "kv_run f s (op # ops) = (let (s1, o1) = f s op; (s2, os) = kv_run f s1 ops in (s2, o1 # os))"

locale kv_store =
  fixes read :: "'s \<Rightarrow> 'k \<Rightarrow> 'v option \<times> 's"
    and "write" :: "'s \<Rightarrow> 'k \<Rightarrow> 'v \<Rightarrow> bool \<times> 's"
    and delete :: "'s \<Rightarrow> 'k \<Rightarrow> bool \<times> 's"
    and inv :: "'s \<Rightarrow> bool"
    and content :: "'s \<Rightarrow> 'k \<rightharpoonup> 'v"
  assumes read_law: "inv s \<Longrightarrow> read s k = (r, s') \<Longrightarrow> inv s' \<and> r = content s k \<and> content s' = content s"
    and write_law: "inv s \<Longrightarrow> write s k v = (b, s') \<Longrightarrow>
      inv s' \<and> (b \<longleftrightarrow> content s k \<noteq> None) \<and> content s' = (content s)(k \<mapsto> v)"
    and delete_law: "inv s \<Longrightarrow> delete s k = (b, s') \<Longrightarrow>
      inv s' \<and> (b \<longleftrightarrow> content s k \<noteq> None) \<and> content s' = (content s)(k := None)"
begin

fun kv_step :: "'s \<Rightarrow> ('k, 'v) kv_op \<Rightarrow> 's \<times> 'v kv_out" where
  "kv_step s (KRead k) = (let (r, s') = read s k in (s', KValue r))"
| "kv_step s (KWrite k v) = (let (b, s') = write s k v in (s', KFlag b))"
| "kv_step s (KDelete k) = (let (b, s') = delete s k in (s', KFlag b))"

lemma kv_step_spec:
  assumes "inv s" "kv_step s op = (s', out)"
  shows "inv s' \<and> kv_spec (content s) op = (content s', out)"
  using assms by (cases op) (auto split: prod.splits dest: read_law write_law delete_law)

lemma kv_run_spec:
  "inv s \<Longrightarrow> kv_run kv_step s ops = (s', outs) \<Longrightarrow> inv s' \<and> kv_run kv_spec (content s) ops = (content s', outs)"
proof (induction ops arbitrary: s s' outs)
  case (Cons op ops)
  obtain s1 o1 where s: "kv_step s op = (s1, o1)" by fastforce
  obtain s2 os where r: "kv_run kv_step s1 ops = (s2, os)" by fastforce
  from kv_step_spec [OF Cons.prems(1) s] Cons.IH [OF _ r] Cons.prems(2) s r show ?case by simp
qed simp

lemma write_read:
  assumes "inv s" "write s k v = (b, s1)" "read s1 k' = (r, s2)"
  shows "r = (if k' = k then Some v else content s k')"
  using write_law [OF assms(1,2)] read_law [OF _ assms(3)] by simp

end

type_synonym MemOnlyStorage = "(Key, Record) ConcurrentHashMap"

definition MemOnlyStorage_Read :: "(Key \<Rightarrow> uint64) \<Rightarrow> MemOnlyStorage \<Rightarrow> Key \<Rightarrow> Record option \<times> MemOnlyStorage" where
  "MemOnlyStorage_Read hash st key = CHM_Get hash st key"

definition MemOnlyStorage_Write :: "(Key \<Rightarrow> uint64) \<Rightarrow> MemOnlyStorage \<Rightarrow> Key \<Rightarrow> Record \<Rightarrow> bool \<times> MemOnlyStorage" where
  "MemOnlyStorage_Write hash st key rec = CHM_InsertOrUpdate hash st key rec"

definition MemOnlyStorage_Delete :: "(Key \<Rightarrow> uint64) \<Rightarrow> MemOnlyStorage \<Rightarrow> Key \<Rightarrow> bool \<times> MemOnlyStorage" where
  "MemOnlyStorage_Delete hash st key = CHM_Erase hash st key"

definition GetMasterMetadata :: "(Key \<Rightarrow> uint64) \<Rightarrow> MemOnlyStorage \<Rightarrow> Key \<Rightarrow> Metadata option \<times> MemOnlyStorage" where
  "GetMasterMetadata hash st key = (let (rec, st1) = CHM_Get hash st key in (map_option metadata_of rec, st1))"

interpretation mem: kv_store "MemOnlyStorage_Read hash" "MemOnlyStorage_Write hash" "MemOnlyStorage_Delete hash"
    "chm_inv hash" "chm_map hash" for hash
  by unfold_locales
    (auto simp: MemOnlyStorage_Read_def MemOnlyStorage_Write_def MemOnlyStorage_Delete_def
      dest: CHM_Get_correct CHM_InsertOrUpdate_correct CHM_Erase_correct)

fun MemOnlyStorage_step :: "(Key \<Rightarrow> uint64) \<Rightarrow> MemOnlyStorage \<Rightarrow> (Key, Record) kv_op \<Rightarrow> MemOnlyStorage \<times> Record kv_out" where
  "MemOnlyStorage_step hash st (KRead k) = (let (r, st') = MemOnlyStorage_Read hash st k in (st', KValue r))"
| "MemOnlyStorage_step hash st (KWrite k v) = (let (b, st') = MemOnlyStorage_Write hash st k v in (st', KFlag b))"
| "MemOnlyStorage_step hash st (KDelete k) = (let (b, st') = MemOnlyStorage_Delete hash st k in (st', KFlag b))"

lemma mem_kv_step: "mem.kv_step hash st op = MemOnlyStorage_step hash st op"
  by (cases op) (simp_all only: mem.kv_step.simps MemOnlyStorage_step.simps)

text \<open>
  C27: the storage is a finite map.  Whatever sequence of reads, writes and deletes is run
  on a new storage, and whatever hash function the standard library supplies, every value
  read and every flag returned is the one a finite map gives: the sharding into segments,
  the chaining of colliding keys and the doubling of the bucket array are invisible.
\<close>

theorem storage_refines_map:
  "snd (kv_run (MemOnlyStorage_step hash) ConcurrentHashMap_new ops) = snd (kv_run kv_spec Map.empty ops)"
proof -
  have eq: "mem.kv_step hash = MemOnlyStorage_step hash" for hash by (intro ext) (rule mem_kv_step)
  obtain st outs where r: "kv_run (MemOnlyStorage_step hash) ConcurrentHashMap_new ops = (st, outs)" by fastforce
  from mem.kv_run_spec [OF chm_inv_new(1), unfolded eq, OF r] show ?thesis by (simp add: r chm_inv_new(2))
qed

subsection \<open>Initial data\<close>

text \<open>
  \<^verbatim>\<open>std::stoull\<close>: as \<open>stoll\<close>, but the magnitude may use all 64 bits, and a minus sign
  negates it modulo \<open>2\<^sup>6\<^sup>4\<close>.
\<close>

definition stoull :: "string \<Rightarrow> uint64 result" where
  "stoull str =
     (let s = dropWhile isspace str;
        neg = (case s of c # _ \<Rightarrow> c = CHR ''-'' | [] \<Rightarrow> False);
        body = (case s of c # cs \<Rightarrow> if c = CHR ''-'' \<or> c = CHR ''+'' then cs else s | [] \<Rightarrow> []);
        digits = takeWhile is_digit body;
        v = of_digits digits 0 in
      if digits = [] then Inl (RuntimeError ''invalid_argument'')
      else if v < 2 ^ 64 then Inr (if neg then - of_nat v else of_nat v) else Inl (OutOfRange ''stoull''))"

datatype MetadataInitializer = SimpleMetadataInitializer uint32 uint32 | SimpleMetadataInitializer2 uint32 uint32 |
  ConstantMetadataInitializer uint32

fun Compute :: "MetadataInitializer \<Rightarrow> Key \<Rightarrow> Metadata result" where
  "Compute (SimpleMetadataInitializer nr np) key =
     rbind (stoull key) (\<lambda>k. if np = 0 \<or> nr = 0 then Inl (Undefined ''division by zero'')
       else Inr (mk_Metadata (of_nat (unat k div unat np mod unat nr)) 0))"
| "Compute (SimpleMetadataInitializer2 nr np) key =
     rbind (stoull key) (\<lambda>k. if nr = 0 then Inl (Undefined ''division by zero'')
       else Inr (mk_Metadata (of_nat (unat k mod unat nr)) 0))"
| "Compute (ConstantMetadataInitializer home) key = Inr (mk_Metadata home 0)"

text \<open>The body of the generator loops: one record of the configured size with the metadata of its key.\<close>

definition write_generated ::
  "(Key \<Rightarrow> uint64) \<Rightarrow> MetadataInitializer \<Rightarrow> string \<Rightarrow> nat \<Rightarrow> MemOnlyStorage \<Rightarrow> MemOnlyStorage result" where
  "write_generated hash init value key st =
     rbind (Compute init (to_string key)) (\<lambda>m.
       Inr (snd (MemOnlyStorage_Write hash st (to_string key) (SetMetadata m (mk_Record value 0 0)))))"

fun write_all_generated ::
  "(Key \<Rightarrow> uint64) \<Rightarrow> MetadataInitializer \<Rightarrow> string \<Rightarrow> nat list \<Rightarrow> MemOnlyStorage \<Rightarrow> MemOnlyStorage result" where
  "write_all_generated hash init value [] st = Inr st"
| "write_all_generated hash init value (k # ks) st =
     rbind (write_generated hash init value k st) (\<lambda>st1. write_all_generated hash init value ks st1)"

text \<open>
  The keys of one generator thread.  The 64-bit counters of the loops are natural numbers:
  they stay below \<open>num_records + num_partitions\<close>.  The threads write disjoint sets of keys,
  so running them one after the other gives the content of every interleaving.
\<close>

definition kDataGenThreads :: nat where "kDataGenThreads = 3"

function keys_from :: "nat \<Rightarrow> nat \<Rightarrow> nat \<Rightarrow> nat list" where
  "keys_from stride from_key to_key =
     (if from_key < to_key \<and> 0 < stride then from_key # keys_from stride (from_key + stride) to_key else [])"
  by pat_completeness auto
termination by (relation "measure (\<lambda>(_, f, t). t - f)") auto

declare keys_from.simps [simp del]

definition thread_range :: "nat \<Rightarrow> nat \<Rightarrow> nat \<Rightarrow> nat \<Rightarrow> nat \<times> nat" where
  "thread_range num_records num_parts part i =
     (let range = num_records div kDataGenThreads + 1;
        range_start = i * range;
        partition_of_range_start = range_start mod num_parts;
        distance_to_next_in_partition_key = (part + num_parts - partition_of_range_start) mod num_parts in
      (range_start + distance_to_next_in_partition_key, min ((i + 1) * range) num_records))"

definition GenerateSimpleData ::
  "(Key \<Rightarrow> uint64) \<Rightarrow> MetadataInitializer \<Rightarrow> Configuration \<Rightarrow> nat \<Rightarrow> nat \<Rightarrow> MemOnlyStorage \<Rightarrow> MemOnlyStorage result" where
  "GenerateSimpleData hash init cf num_records record_size_bytes st =
     (let np = num_partitions cf; value = replicate record_size_bytes (CHR ''a'') in
      if np = 0 then Inl (Undefined ''modulo by zero'')
      else write_all_generated hash init value
             (concat (map (\<lambda>i. case thread_range num_records np (cf_local_partition cf) i of
                (from_key, to_key) \<Rightarrow> keys_from np from_key to_key) [0..<kDataGenThreads])) st)"

definition GenerateSimpleData2 ::
  "(Key \<Rightarrow> uint64) \<Rightarrow> MetadataInitializer \<Rightarrow> Configuration \<Rightarrow> nat \<Rightarrow> nat \<Rightarrow> MemOnlyStorage \<Rightarrow> MemOnlyStorage result" where
  "GenerateSimpleData2 hash init cf num_records record_size_bytes st =
     (let nr = num_regions cf; np = num_partitions cf; value = replicate record_size_bytes (CHR ''a'');
        range = num_records div kDataGenThreads + 1 in
      if nr = 0 \<or> np = 0 then Inl (Undefined ''division by zero'')
      else write_all_generated hash init value
             (concat (map (\<lambda>i. filter (\<lambda>key. key div nr mod np = cf_local_partition cf)
                [i * range..<min (i * range + range) num_records]) [0..<kDataGenThreads])) st)"

text \<open>Loading the entries \<open>(key, record, master)\<close> of the data file of the partition.\<close>

fun LoadData ::
  "(Key \<Rightarrow> uint64) \<Rightarrow> Configuration \<Rightarrow> (Key \<times> string \<times> uint32) list \<Rightarrow> MemOnlyStorage \<Rightarrow> MemOnlyStorage result" where
  "LoadData hash cf [] st = Inr st"
| "LoadData hash cf ((key, rec, master) # datums) st =
     rbind (is_local_key (MakeSharder cf) key) (\<lambda>local.
     rbind (CHECK local ''key does not belong to the partition'') (\<lambda>_.
     rbind (CHECK (unat master < num_regions cf) ''master number exceeds number of regions'') (\<lambda>_.
       LoadData hash cf datums (snd (MemOnlyStorage_Write hash st key (mk_Record rec master 0))))))"

subsection \<open>The generated data\<close>

lemma to_string_parse:
  "takeWhile is_digit (to_string n) = to_string n" "dropWhile isspace (to_string n) = to_string n" "to_string n \<noteq> []"
  "(case to_string n of [] \<Rightarrow> False | c # _ \<Rightarrow> c = CHR ''-'') = False"
  "(case to_string n of [] \<Rightarrow> [] | c # cs \<Rightarrow> if c = CHR ''-'' \<or> c = CHR ''+'' then cs else to_string n) = to_string n"
proof -
  have d: "\<forall>c\<in>set (to_string n). is_digit c" using to_string_digits by (simp add: is_digit_def)
  then show "takeWhile is_digit (to_string n) = to_string n" by (simp add: takeWhile_eq_all_conv)
  show ne: "to_string n \<noteq> []" by (subst to_string.simps) simp
  then obtain c cs where c: "to_string n = c # cs" by (cases "to_string n") auto
  with d have "is_digit c" by simp
  then have "\<not> isspace c" "c \<noteq> CHR ''-''" "c \<noteq> CHR ''+''" by (auto simp: is_digit_def isspace_def)
  with c show "dropWhile isspace (to_string n) = to_string n"
    "(case to_string n of [] \<Rightarrow> False | c # _ \<Rightarrow> c = CHR ''-'') = False"
    "(case to_string n of [] \<Rightarrow> [] | c # cs \<Rightarrow> if c = CHR ''-'' \<or> c = CHR ''+'' then cs else to_string n) = to_string n"
    by simp_all
qed

lemma stoull_to_string: "n < 2 ^ 64 \<Longrightarrow> stoull (to_string n) = Inr (of_nat n)"
  by (simp add: stoull_def to_string_parse of_digits_to_string Let_def)

lemma stoll_to_string: "n < 2 ^ 63 \<Longrightarrow> stoll (to_string n) = Inr (int n)"
  by (simp add: stoll_def parse_int_def to_string_parse of_digits_to_string Let_def)

lemma keys_from_set:
  assumes "0 < stride"
  shows "set (keys_from stride f t) = {k. f \<le> k \<and> k < t \<and> k mod stride = f mod stride}"
  using assms
proof (induction stride f t rule: keys_from.induct)
  case (1 stride f t)
  show ?case
  proof (cases "f < t")
    case True
    have ih: "set (keys_from stride (f + stride) t) = {k. f + stride \<le> k \<and> k < t \<and> k mod stride = f mod stride}"
      using 1 True by simp
    have "f = k \<or> f + stride \<le> k" if "f \<le> k" "k mod stride = f mod stride" for k
    proof -
      from that obtain q where "k = f + stride * q" by (metis le_imp_diff_is_add mod_eq_dvd_iff_nat dvd_def add.commute)
      then show ?thesis by (cases q) auto
    qed
    with True 1(2) ih show ?thesis by (subst keys_from.simps) auto
  qed (subst keys_from.simps, auto)
qed

lemma next_in_partition:
  fixes part np s :: nat
  assumes "part < np" "d = (part + np - s mod np) mod np"
  shows "(s + d) mod np = part" "s \<le> k \<Longrightarrow> k mod np = part \<Longrightarrow> s + d \<le> k"
proof -
  have "s mod np < np" using assms(1) by simp
  then have "s mod np + (part + np - s mod np) = part + np" by simp
  then have "(s mod np + (part + np - s mod np)) mod np = part" using assms(1) by simp
  then show m: "(s + d) mod np = part" unfolding assms(2) by (metis mod_add_left_eq mod_add_right_eq)
  show "s + d \<le> k" if k: "s \<le> k" "k mod np = part"
  proof (rule ccontr)
    assume "\<not> s + d \<le> k"
    moreover from this have "np dvd s + d - k" using m k by (metis mod_eq_dvd_iff_nat nat_le_linear)
    moreover have "d < np" unfolding assms(2) using assms(1) by simp
    ultimately show False using k(1) by (auto dest: dvd_imp_le)
  qed
qed

lemma ranges_cover:
  fixes n :: nat
  shows "(\<Union>i\<in>{0..<kDataGenThreads}. {i * (n div kDataGenThreads + 1)..<min ((i + 1) * (n div kDataGenThreads + 1)) n}) = {..<n}"
proof -
  let ?r = "n div kDataGenThreads + 1"
  have "k div ?r < kDataGenThreads \<and> k div ?r * ?r \<le> k \<and> k < (k div ?r + 1) * ?r" if "k < n" for k
  proof -
    have "n < kDataGenThreads * ?r" by (simp add: kDataGenThreads_def)
    with that have "k div ?r < kDataGenThreads" by (simp add: less_mult_imp_div_less)
    moreover have "k < (k div ?r + 1) * ?r" using dividend_less_div_times [of ?r k] by (simp add: algebra_simps)
    ultimately show ?thesis using div_times_less_eq_dividend [of k ?r] by blast
  qed
  then show ?thesis by (fastforce simp: min_def split: if_splits)
qed

lemma simple_keys_set:
  assumes "part < np"
  shows "set (concat (map (\<lambda>i. case thread_range n np part i of (f, t) \<Rightarrow> keys_from np f t) [0..<kDataGenThreads])) =
    {k. k < n \<and> k mod np = part}"
proof -
  let ?r = "n div kDataGenThreads + 1"
  have "set (case thread_range n np part i of (f, t) \<Rightarrow> keys_from np f t) =
      {k \<in> {i * ?r..<min ((i + 1) * ?r) n}. k mod np = part}" for i
    using next_in_partition [OF assms refl, of "i * ?r"] assms
    by (fastforce simp: thread_range_def Let_def keys_from_set)
  then have "set (concat (map (\<lambda>i. case thread_range n np part i of (f, t) \<Rightarrow> keys_from np f t) [0..<kDataGenThreads])) =
      {k \<in> (\<Union>i\<in>{0..<kDataGenThreads}. {i * ?r..<min ((i + 1) * ?r) n}). k mod np = part}" by auto
  then show ?thesis unfolding ranges_cover by auto
qed

lemma simple2_keys_set:
  "set (concat (map (\<lambda>i. filter P [i * (n div kDataGenThreads + 1)..<
      min (i * (n div kDataGenThreads + 1) + (n div kDataGenThreads + 1)) n]) [0..<kDataGenThreads])) = {k. k < n \<and> P k}"
proof -
  let ?r = "n div kDataGenThreads + 1"
  have "set (concat (map (\<lambda>i. filter P [i * ?r..<min (i * ?r + ?r) n]) [0..<kDataGenThreads])) =
      {k \<in> (\<Union>i\<in>{0..<kDataGenThreads}. {i * ?r..<min ((i + 1) * ?r) n}). P k}" by (auto simp: algebra_simps)
  then show ?thesis unfolding ranges_cover by auto
qed

lemma write_all_generated_spec:
  assumes "\<And>k. k \<in> set ks \<Longrightarrow> Compute init (to_string k) = Inr (m k)" "chm_inv hash st"
  shows "\<exists>st'. write_all_generated hash init w ks st = Inr st' \<and> chm_inv hash st' \<and>
    (\<forall>k. chm_map hash st' (to_string k) =
       (if k \<in> set ks then Some (SetMetadata (m k) (mk_Record w 0 0)) else chm_map hash st (to_string k)))"
  using assms
proof (induction ks arbitrary: st)
  case (Cons k ks)
  obtain b st1 where w: "MemOnlyStorage_Write hash st (to_string k) (SetMetadata (m k) (mk_Record w 0 0)) = (b, st1)"
    by fastforce
  note W = mem.write_law [OF Cons.prems(2) w]
  from Cons.IH [of st1] Cons.prems(1) W obtain st' where
    "write_all_generated hash init w ks st1 = Inr st'" "chm_inv hash st'"
    "\<And>k'. chm_map hash st' (to_string k') =
       (if k' \<in> set ks then Some (SetMetadata (m k') (mk_Record w 0 0)) else chm_map hash st1 (to_string k'))"
    by auto
  with Cons.prems(1) [of k] w W show ?case by (auto simp: write_generated_def)
qed simp

definition generated_record :: "nat \<Rightarrow> nat \<Rightarrow> Record" where
  "generated_record home bytes = SetMetadata (mk_Metadata (of_nat home) 0) (mk_Record (replicate bytes (CHR ''a'')) 0 0)"

text \<open>
  The generated data set is complete and placed right.  With the simple partitioning,
  the three generator threads of a machine together write exactly the keys
  \<open>k < num_records\<close> of its own partition: every such key is there, once, with the home
  \<open>(k / num_partitions) mod num_regions\<close> of the table in the comment of the initializer,
  and the sharder of that machine maps each key it holds to its own partition.
\<close>

theorem simple_data_complete:
  assumes "num_partitions cf < 2 ^ 32" "cf_local_partition cf < num_partitions cf"
    and "0 < num_regions cf" "num_regions cf < 2 ^ 32" "num_records < 2 ^ 63"
    and "pc_partitioning (cf_config cf) = SimplePartitioning"
    and "init = SimpleMetadataInitializer (of_nat (num_regions cf)) (of_nat (num_partitions cf))"
  shows "\<exists>st. GenerateSimpleData hash init cf num_records bytes ConcurrentHashMap_new = Inr st \<and>
    (\<forall>k. fst (MemOnlyStorage_Read hash st (to_string k)) =
       (if k < num_records \<and> k mod num_partitions cf = cf_local_partition cf
        then Some (generated_record (k div num_partitions cf mod num_regions cf) bytes) else None)) \<and>
    (\<forall>k. fst (MemOnlyStorage_Read hash st (to_string k)) \<noteq> None \<longrightarrow> is_local_key (MakeSharder cf) (to_string k) = Inr True)"
proof -
  let ?np = "num_partitions cf" and ?nr = "num_regions cf" and ?p = "cf_local_partition cf"
  define ks where "ks = concat (map (\<lambda>i. case thread_range num_records ?np ?p i of (f, t) \<Rightarrow> keys_from ?np f t) [0..<kDataGenThreads])"
  note ks = simple_keys_set [OF assms(2), of num_records, folded ks_def]
  have un: "unat (of_nat ?np :: uint32) = ?np" "unat (of_nat ?nr :: uint32) = ?nr"
    using assms(1,4) by (simp_all add: unsigned_of_nat take_bit_nat_eq_self)
  have ui: "uint (of_nat ?np :: uint32) = int ?np" unfolding uint_nat un(1) ..
  have smod: "of_int (int k smod int n) = (of_nat (k mod n) :: uint32)" for k n
    by (cases "k = 0") (simp_all add: signed_modulo_int_def sgn_if zmod_int [symmetric])
  have nz: "(of_nat ?np :: uint32) \<noteq> 0" "(of_nat ?nr :: uint32) \<noteq> 0"
    using un assms(2,3) by (metis unsigned_0 less_nat_zero_code, metis unsigned_0 less_numeral_extra(3))
  have "Compute init (to_string k) = Inr (mk_Metadata (of_nat (k div ?np mod ?nr)) 0)" if "k \<in> set ks" for k
  proof -
    have "k < 2 ^ 64" using that assms(5) unfolding ks by simp
    moreover from this have "unat (of_nat k :: uint64) = k" by (simp add: unsigned_of_nat take_bit_nat_eq_self)
    ultimately show ?thesis unfolding assms(7) by (simp add: stoull_to_string un nz)
  qed
  from write_all_generated_spec [of ks, OF this chm_inv_new(1) [of hash], where w = "replicate bytes (CHR ''a'')"]
  obtain st where st: "write_all_generated hash init (replicate bytes (CHR ''a'')) ks ConcurrentHashMap_new = Inr st"
    "chm_inv hash st"
    and c: "\<And>k. chm_map hash st (to_string k) = (if k \<in> set ks then Some (generated_record (k div ?np mod ?nr) bytes) else None)"
    unfolding chm_inv_new(2) generated_record_def by blast
  have rd: "fst (MemOnlyStorage_Read hash st key) = chm_map hash st key" for key
    by (metis mem.read_law [OF st(2)] prod.collapse)
  have "is_local_key (MakeSharder cf) (to_string k) = Inr True" if "k < num_records" "k mod ?np = ?p" for k
    using that assms(2,5,6) nz ui by (simp add: is_local_key_def compute_partition_def MakeSharder_def
        SimpleSharder_compute_partition_def stoll_to_string smod)
  then show ?thesis using st(1) assms(2) c unfolding ks GenerateSimpleData_def Let_def ks_def [symmetric] by (intro exI [of _ st]) (auto simp: rd)
qed


definition sample_cf :: Configuration where
  "sample_cf = \<lparr>cf_config = sample_config [sample_region [''a'', ''b''], sample_region [''c'', ''d'']] 2 SimplePartitioning,
     cf_local_address = ''b'', cf_local_region = 0, cf_local_replica = 0, cf_local_partition = 1,
     cf_local_machine_id = 1, cf_all_addresses = Map.empty, cf_all_machine_ids = [], cf_replication_order = []\<rparr>"

theorem simple_data_complete_witness:
  "\<exists>st. GenerateSimpleData (\<lambda>k. of_nat (length k)) (SimpleMetadataInitializer 2 2) sample_cf 10 4 ConcurrentHashMap_new = Inr st \<and>
     fst (MemOnlyStorage_Read (\<lambda>k. of_nat (length k)) st (to_string 7)) = Some (generated_record 1 4) \<and>
     fst (MemOnlyStorage_Read (\<lambda>k. of_nat (length k)) st (to_string 6)) = None"
proof -
  have c: "num_partitions sample_cf = 2" "num_regions sample_cf = 2" "cf_local_partition sample_cf = 1"
    "pc_partitioning (cf_config sample_cf) = SimplePartitioning"
    by (simp_all add: num_partitions_def num_regions_def sample_cf_def sample_config_def)
  from simple_data_complete [of sample_cf 10 "SimpleMetadataInitializer 2 2" "\<lambda>k. of_nat (length k)" 4] c
  show ?thesis by auto
qed

end
