(* ===== verification/Execution.thy ===== *)
theory Execution
  imports Storage
begin

section \<open>Execution of transactions\<close>

text \<open>
  The execution engines of \<^verbatim>\<open>execution/\<close>: applying the buffered writes of a transaction and
  the key-value interpreter.  An engine calls the abstract class \<^verbatim>\<open>Storage\<close>; its virtual
  methods are the arguments \<open>write\<close> and \<open>delete\<close>, and \<open>local\<close> is \<^verbatim>\<open>Sharder::is_local_key\<close>.
\<close>

subsection \<open>Applying writes\<close>

fun apply_keys ::
  "('s \<Rightarrow> Key \<Rightarrow> Record \<Rightarrow> bool \<times> 's) \<Rightarrow> (Key \<Rightarrow> bool result) \<Rightarrow> KeyValueEntry list \<Rightarrow> 's \<Rightarrow> 's result" where
  "apply_keys write local [] st = Inr st"
| "apply_keys write local (kv # kvs) st =
     rbind (local (kv_key kv)) (\<lambda>l.
       if \<not> l \<or> ve_type (kv_entry kv) = KeyRead then apply_keys write local kvs st
       else let new_record = SetValue (ve_new_value (kv_entry kv)) (SetMetadata (metadata (kv_entry kv)) Record_default) in
         apply_keys write local kvs (snd (write st (kv_key kv) new_record)))"

definition ApplyWrites ::
  "('s \<Rightarrow> Key \<Rightarrow> Record \<Rightarrow> bool \<times> 's) \<Rightarrow> ('s \<Rightarrow> Key \<Rightarrow> bool \<times> 's) \<Rightarrow> (Key \<Rightarrow> bool result) \<Rightarrow>
     Transaction \<Rightarrow> 's \<Rightarrow> 's result" where
  "ApplyWrites write delete local txn st =
     rbind (apply_keys write local (tx_keys txn) st) (\<lambda>st1.
       Inr (foldl (\<lambda>s key. snd (delete s key)) st1 (tx_deleted_keys txn)))"

subsection \<open>The key-value interpreter\<close>

text \<open>The index of the first entry of a key, as \<^verbatim>\<open>emplace\<close> fills \<^verbatim>\<open>key_index\<close>.\<close>

fun key_index :: "KeyValueEntry list \<Rightarrow> Key \<Rightarrow> nat option" where
  "key_index [] k = None"
| "key_index (kv # kvs) k = (if kv_key kv = k then Some 0 else map_option Suc (key_index kvs k))"

definition arg :: "string list \<Rightarrow> nat \<Rightarrow> string result" where
  "arg args i = (if i < length args then Inr (args ! i) else Inl (Undefined ''argument index''))"

definition set_new_value :: "nat \<Rightarrow> Value \<Rightarrow> Transaction \<Rightarrow> Transaction" where
  "set_new_value i v txn =
     txn\<lparr>tx_keys := (tx_keys txn)[i := (tx_keys txn ! i)\<lparr>kv_entry := (kv_entry (tx_keys txn ! i))\<lparr>ve_new_value := v\<rparr>\<rparr>]\<rparr>"

definition is_write_at :: "Transaction \<Rightarrow> nat \<Rightarrow> bool" where
  "is_write_at txn i \<longleftrightarrow> ve_type (kv_entry (tx_keys txn ! i)) = KeyWrite"

type_synonym kv_exec = "Transaction \<times> bool \<times> string"

definition exec_SET :: "(Key \<Rightarrow> nat option) \<Rightarrow> string list \<Rightarrow> kv_exec \<Rightarrow> kv_exec result" where
  "exec_SET index args s =
     (case s of (txn, aborted, reason) \<Rightarrow>
        rbind (arg args 1) (\<lambda>key.
          case index key of
            None \<Rightarrow> Inr s
          | Some i \<Rightarrow>
              if \<not> is_write_at txn i then Inr s
              else rbind (arg args 2) (\<lambda>v. Inr (set_new_value i v txn, aborted, reason))))"

text \<open>
  The condition tests \<^verbatim>\<open>it != key_index.end()\<close>: a key of the transaction is skipped, and
  for a key that is not one the iterator is dereferenced at the end of the map.
\<close>

definition exec_DEL :: "(Key \<Rightarrow> nat option) \<Rightarrow> string list \<Rightarrow> kv_exec \<Rightarrow> kv_exec result" where
  "exec_DEL index args s =
     rbind (arg args 1) (\<lambda>key.
       case index key of
         Some i \<Rightarrow> Inr s
       | None \<Rightarrow> Inl (Undefined ''dereference of end()''))"

definition exec_COPY :: "(Key \<Rightarrow> nat option) \<Rightarrow> string list \<Rightarrow> kv_exec \<Rightarrow> kv_exec result" where
  "exec_COPY index args s =
     (case s of (txn, aborted, reason) \<Rightarrow>
        rbind (arg args 1) (\<lambda>src. rbind (arg args 2) (\<lambda>dst.
          case index src of
            None \<Rightarrow> Inr s
          | Some i \<Rightarrow>
             (case index dst of
                None \<Rightarrow> Inr s
              | Some j \<Rightarrow>
                  if \<not> is_write_at txn j then Inr s
                  else Inr (set_new_value j (ve_value (kv_entry (tx_keys txn ! i))) txn, aborted, reason)))))"

definition exec_EQ :: "(Key \<Rightarrow> nat option) \<Rightarrow> string list \<Rightarrow> kv_exec \<Rightarrow> kv_exec result" where
  "exec_EQ index args s =
     (case s of (txn, aborted, reason) \<Rightarrow>
        rbind (arg args 1) (\<lambda>key.
          case index key of
            None \<Rightarrow> Inr s
          | Some i \<Rightarrow> rbind (arg args 2) (\<lambda>expected.
              let v = ve_value (kv_entry (tx_keys txn ! i)) in
              if v \<noteq> expected
              then Inr (txn, True, reason @ ''Key = '' @ key @ ''. Expected value = '' @ expected @ ''. Actual value = '' @ v)
              else Inr s)))"

definition exec_procedure :: "(Key \<Rightarrow> nat option) \<Rightarrow> string list \<Rightarrow> kv_exec \<Rightarrow> kv_exec result" where
  "exec_procedure index args s =
     (if args = [] then Inr s
      else if hd args = ''SET'' then exec_SET index args s
      else if hd args = ''DEL'' then exec_DEL index args s
      else if hd args = ''COPY'' then exec_COPY index args s
      else if hd args = ''EQ'' then exec_EQ index args s
      else if hd args = ''SLEEP'' then rbind (arg args 1) (\<lambda>ms. rbind (stoi ms) (\<lambda>_. Inr s))
      else Inr s)"

fun exec_procedures :: "(Key \<Rightarrow> nat option) \<Rightarrow> string list list \<Rightarrow> kv_exec \<Rightarrow> kv_exec result" where
  "exec_procedures index [] s = Inr s"
| "exec_procedures index (p # ps) s = rbind (exec_procedure index p s) (\<lambda>s1. exec_procedures index ps s1)"

definition procedures :: "Transaction \<Rightarrow> string list list" where
  "procedures txn = (case tx_program txn of Code ps \<Rightarrow> ps | _ \<Rightarrow> [])"

definition KeyValueExecution_Execute ::
  "('s \<Rightarrow> Key \<Rightarrow> Record \<Rightarrow> bool \<times> 's) \<Rightarrow> ('s \<Rightarrow> Key \<Rightarrow> bool \<times> 's) \<Rightarrow> (Key \<Rightarrow> bool result) \<Rightarrow>
     Transaction \<Rightarrow> 's \<Rightarrow> (Transaction \<times> 's) result" where
  "KeyValueExecution_Execute write delete local txn st =
     rbind (exec_procedures (key_index (tx_keys txn)) (procedures txn) (txn, False, [])) (\<lambda>(txn1, aborted, reason).
       if aborted then Inr (txn1\<lparr>tx_status := ABORTED, tx_abort_reason := reason\<rparr>, st)
       else rbind (ApplyWrites write delete local (txn1\<lparr>tx_status := COMMITTED\<rparr>) st) (\<lambda>st1.
              Inr (txn1\<lparr>tx_status := COMMITTED\<rparr>, st1)))"

definition NoopExecution_Execute :: "Transaction \<Rightarrow> 's \<Rightarrow> (Transaction \<times> 's) result" where
  "NoopExecution_Execute txn st = Inr (txn\<lparr>tx_status := COMMITTED\<rparr>, st)"

subsection \<open>Effect of the writes\<close>

definition new_record_of :: "KeyValueEntry \<Rightarrow> Record" where
  "new_record_of kv = \<lparr>metadata_of = metadata (kv_entry kv), data_of = Some (ve_new_value (kv_entry kv))\<rparr>"

text \<open>The last entry of a key wins.\<close>

definition written :: "(Key \<Rightarrow> bool) \<Rightarrow> KeyValueEntry list \<Rightarrow> Key \<rightharpoonup> Record" where
  "written loc kvs = map_of (rev (map (\<lambda>kv. (kv_key kv, new_record_of kv))
     (filter (\<lambda>kv. loc (kv_key kv) \<and> ve_type (kv_entry kv) = KeyWrite) kvs)))"

locale record_store = kv_store read "write" delete inv content
  for read :: "'s \<Rightarrow> Key \<Rightarrow> Record option \<times> 's"
    and "write" :: "'s \<Rightarrow> Key \<Rightarrow> Record \<Rightarrow> bool \<times> 's"
    and delete :: "'s \<Rightarrow> Key \<Rightarrow> bool \<times> 's"
    and inv :: "'s \<Rightarrow> bool"
    and content :: "'s \<Rightarrow> Key \<rightharpoonup> Record"
begin

lemma foldl_delete:
  "inv s \<Longrightarrow> inv (foldl (\<lambda>s k. snd (delete s k)) s ks) \<and>
     content (foldl (\<lambda>s k. snd (delete s k)) s ks) = (content s) |` (- set ks)"
proof (induction ks arbitrary: s)
  case (Cons k ks)
  obtain b s1 where d: "delete s k = (b, s1)" by fastforce
  from delete_law [OF Cons.prems d] Cons.IH [of s1] d show ?case by (auto simp: restrict_map_def fun_eq_iff)
qed (simp add: restrict_map_def)

lemma apply_keys_content:
  assumes "\<And>kv. kv \<in> set kvs \<Longrightarrow> local (kv_key kv) = Inr (loc (kv_key kv))" "inv s"
  shows "\<exists>s'. apply_keys write local kvs s = Inr s' \<and> inv s' \<and> content s' = content s ++ written loc kvs"
  using assms
proof (induction kvs arbitrary: s)
  case (Cons kv kvs)
  let ?r = "SetValue (ve_new_value (kv_entry kv)) (SetMetadata (metadata (kv_entry kv)) Record_default)"
  have r: "?r = new_record_of kv" by (simp add: new_record_of_def SetValue_def SetMetadata_def Record_default_def)
  obtain b s1 where w: "write s (kv_key kv) ?r = (b, s1)" by fastforce
  note W = write_law [OF Cons.prems(2) w]
  have l: "local (kv_key kv) = Inr (loc (kv_key kv))" using Cons.prems(1) by simp
  show ?case
  proof (cases "loc (kv_key kv) \<and> ve_type (kv_entry kv) = KeyWrite")
    case True
    have "\<exists>s'. apply_keys write local kvs s1 = Inr s' \<and> inv s' \<and> content s' = content s1 ++ written loc kvs"
      by (rule Cons.IH) (use Cons.prems(1) W in auto)
    moreover have "content s1 ++ written loc kvs = content s ++ written loc (kv # kvs)"
      using True W unfolding r by (auto simp: written_def map_add_def fun_eq_iff split: option.splits)
    ultimately show ?thesis using True l w by (simp add: Let_def)
  next
    case False
    then have "\<not> loc (kv_key kv) \<or> ve_type (kv_entry kv) = KeyRead" by (cases "ve_type (kv_entry kv)") auto
    moreover have "\<exists>s'. apply_keys write local kvs s = Inr s' \<and> inv s' \<and> content s' = content s ++ written loc kvs"
      by (rule Cons.IH) (use Cons.prems in auto)
    moreover have "written loc (kv # kvs) = written loc kvs" using False by (auto simp: written_def)
    ultimately show ?thesis using l by auto
  qed
qed (simp add: written_def)

lemma ApplyWrites_content:
  assumes "\<And>kv. kv \<in> set (tx_keys txn) \<Longrightarrow> local (kv_key kv) = Inr (loc (kv_key kv))" "inv s"
  shows "\<exists>s'. ApplyWrites write delete local txn s = Inr s' \<and> inv s' \<and>
    content s' = (content s ++ written loc (tx_keys txn)) |` (- set (tx_deleted_keys txn))"
  using apply_keys_content [of "tx_keys txn" "local" loc s, OF assms] foldl_delete
  by (fastforce simp: ApplyWrites_def)

end

interpretation mem_records: record_store "MemOnlyStorage_Read hash" "MemOnlyStorage_Write hash"
    "MemOnlyStorage_Delete hash" "chm_inv hash" "chm_map hash" for hash
  by unfold_locales

subsection \<open>Effect of the procedures\<close>

definition value_of :: "KeyValueEntry list \<Rightarrow> Key \<Rightarrow> Value option" where
  "value_of kvs k = map_option (\<lambda>i. ve_value (kv_entry (kvs ! i))) (key_index kvs k)"

text \<open>The value the last assignment to a key gives it: a constant, or the value read for the source of a copy.\<close>

fun assigned :: "(Key \<Rightarrow> Value option) \<Rightarrow> string list list \<Rightarrow> Key \<Rightarrow> Value option" where
  "assigned vals [] k = None"
| "assigned vals (p # ps) k =
     (case assigned vals ps k of
        Some v \<Rightarrow> Some v
      | None \<Rightarrow> if hd p = ''SET'' \<and> p ! 1 = k then Some (p ! 2)
          else if hd p = ''COPY'' \<and> p ! 2 = k then vals (p ! 1) else None)"

definition mismatch :: "(Key \<Rightarrow> Value option) \<Rightarrow> string list \<Rightarrow> bool" where
  "mismatch vals p \<longleftrightarrow> hd p = ''EQ'' \<and> (\<exists>v. vals (p ! 1) = Some v \<and> v \<noteq> p ! 2)"

definition final_entry :: "KeyValueEntry list \<Rightarrow> string list list \<Rightarrow> nat \<Rightarrow> KeyValueEntry" where
  "final_entry kvs ps i =
     (let kv = kvs ! i in
      if ve_type (kv_entry kv) = KeyWrite \<and> key_index kvs (kv_key kv) = Some i then
        (case assigned (value_of kvs) ps (kv_key kv) of
           None \<Rightarrow> kv
         | Some v \<Rightarrow> kv\<lparr>kv_entry := (kv_entry kv)\<lparr>ve_new_value := v\<rparr>\<rparr>)
      else kv)"

definition final_keys :: "KeyValueEntry list \<Rightarrow> string list list \<Rightarrow> KeyValueEntry list" where
  "final_keys kvs ps = map (final_entry kvs ps) [0..<length kvs]"

definition plain_procedure :: "string list \<Rightarrow> bool" where
  "plain_procedure p \<longleftrightarrow> 3 \<le> length p \<and> hd p \<in> {''SET'', ''COPY'', ''EQ''}"

lemma key_index_Some: "key_index kvs k = Some i \<Longrightarrow> i < length kvs \<and> kv_key (kvs ! i) = k"
  by (induction kvs arbitrary: i) (auto split: if_splits)

lemma key_index_cong: "map kv_key kvs = map kv_key kvs' \<Longrightarrow> key_index kvs = key_index kvs'"
proof (intro ext)
  fix k
  assume "map kv_key kvs = map kv_key kvs'"
  then show "key_index kvs k = key_index kvs' k"
  proof (induction kvs arbitrary: kvs')
    case (Cons kv kvs)
    then obtain kv' kvs'' where "kvs' = kv' # kvs''" by (cases kvs') auto
    with Cons.IH [of kvs''] Cons.prems show ?case by simp
  qed simp
qed

text \<open>What the procedures read of the entries does not change: keys, types and values.\<close>

definition frame :: "KeyValueEntry \<Rightarrow> KeyValueEntry" where
  "frame kv = kv\<lparr>kv_entry := (kv_entry kv)\<lparr>ve_new_value := []\<rparr>\<rparr>"

lemma frame_eqD: "frame a = frame b \<Longrightarrow> kv_key a = kv_key b \<and> ve_type (kv_entry a) = ve_type (kv_entry b) \<and>
    ve_value (kv_entry a) = ve_value (kv_entry b) \<and> metadata (kv_entry a) = metadata (kv_entry b)"
  by (cases a; cases b; cases "kv_entry a"; cases "kv_entry b") (auto simp: frame_def metadata_def)

lemma frame_set: "frame (kv\<lparr>kv_entry := (kv_entry kv)\<lparr>ve_new_value := v\<rparr>\<rparr>) = frame kv"
  by (simp add: frame_def)

definition put_new_value :: "nat \<Rightarrow> Value \<Rightarrow> KeyValueEntry list \<Rightarrow> KeyValueEntry list" where
  "put_new_value i v kvs = kvs[i := (kvs ! i)\<lparr>kv_entry := (kv_entry (kvs ! i))\<lparr>ve_new_value := v\<rparr>\<rparr>]"

lemma put_new_value_same:
  "length (put_new_value i v kvs) = length kvs" "key_index (put_new_value i v kvs) = key_index kvs"
  "j < length kvs \<Longrightarrow> ve_value (kv_entry (put_new_value i v kvs ! j)) = ve_value (kv_entry (kvs ! j))"
  "value_of (put_new_value i v kvs) = value_of kvs"
proof -
  show len: "length (put_new_value i v kvs) = length kvs" by (simp add: put_new_value_def)
  show ki: "key_index (put_new_value i v kvs) = key_index kvs"
    by (rule key_index_cong) (cases "i < length kvs"; simp add: put_new_value_def map_update list_update_same_conv list_update_beyond)
  show v: "ve_value (kv_entry (put_new_value i v kvs ! j)) = ve_value (kv_entry (kvs ! j))" if "j < length kvs" for j
    using that by (cases "i = j") (simp_all add: put_new_value_def)
  show "value_of (put_new_value i v kvs) = value_of kvs"
  proof
    fix k
    show "value_of (put_new_value i v kvs) k = value_of kvs k"
      using key_index_Some [of kvs k] v by (cases "key_index kvs k") (simp_all add: value_of_def ki)
  qed
qed

lemma final_keys_put:
  assumes "key_index kvs k = Some i" "ve_type (kv_entry (kvs ! i)) = KeyWrite"
    and "assigned (value_of kvs) (p # ps) = (\<lambda>k'. case assigned (value_of kvs) ps k' of Some v' \<Rightarrow> Some v' | None \<Rightarrow> if k' = k then Some v else None)"
  shows "final_keys (put_new_value i v kvs) ps = final_keys kvs (p # ps)"
proof (rule nth_equalityI)
  fix j
  assume "j < length (final_keys (put_new_value i v kvs) ps)"
  then have j: "j < length kvs" by (simp add: final_keys_def put_new_value_same)
  note k = key_index_Some [OF assms(1)]
  have n: "put_new_value i v kvs ! j = (if j = i then (kvs ! i)\<lparr>kv_entry := (kv_entry (kvs ! i))\<lparr>ve_new_value := v\<rparr>\<rparr> else kvs ! j)"
    using j by (simp add: put_new_value_def nth_list_update)
  note a = fun_cong [OF assms(3)] and fe = final_entry_def Let_def put_new_value_same n
  have "final_entry (put_new_value i v kvs) ps j = final_entry kvs (p # ps) j"
  proof (cases "j = i")
    case True
    with k assms(1,2) n show ?thesis
      by (cases "assigned (value_of kvs) ps k") (simp_all del: assigned.simps add: fe a)
  next
    case False
    with assms(1) have "kv_key (kvs ! j) = k \<Longrightarrow> key_index kvs (kv_key (kvs ! j)) \<noteq> Some j" by simp
    with False show ?thesis
      by (cases "kv_key (kvs ! j) = k"; cases "assigned (value_of kvs) ps (kv_key (kvs ! j))")
        (simp_all del: assigned.simps add: fe a)
  qed
  with j show "final_keys (put_new_value i v kvs) ps ! j = final_keys kvs (p # ps) ! j"
    by (simp add: final_keys_def put_new_value_same)
qed (simp add: final_keys_def put_new_value_same)

lemma final_keys_skip:
  assumes "\<And>k i. key_index kvs k = Some i \<Longrightarrow> ve_type (kv_entry (kvs ! i)) = KeyWrite \<Longrightarrow>
    assigned (value_of kvs) (p # ps) k = assigned (value_of kvs) ps k"
  shows "final_keys kvs ps = final_keys kvs (p # ps)"
  using assms by (auto simp del: assigned.simps simp: final_keys_def final_entry_def Let_def)

lemma plain_args: "plain_procedure p \<Longrightarrow> arg p 1 = Inr (p ! 1) \<and> arg p 2 = Inr (p ! 2) \<and> p \<noteq> []"
  by (auto simp: plain_procedure_def arg_def)

lemma exec_procedure_plain:
  assumes "plain_procedure p" "kvs = tx_keys txn"
  shows "\<exists>kvs' reason'. exec_procedure (key_index kvs) p (txn, aborted, reason) =
      Inr (txn\<lparr>tx_keys := kvs'\<rparr>, aborted \<or> mismatch (value_of kvs) p, reason') \<and>
    key_index kvs' = key_index kvs \<and> value_of kvs' = value_of kvs \<and> (\<forall>ps. final_keys kvs' ps = final_keys kvs (p # ps))"
proof -
  note a = plain_args [OF assms(1)]
  consider (s) "hd p = ''SET''" | (c) "hd p = ''COPY''" | (e) "hd p = ''EQ''" using assms(1) by (auto simp: plain_procedure_def)
  then show ?thesis
  proof cases
    case s
    show ?thesis
    proof (cases "\<exists>i. key_index kvs (p ! 1) = Some i \<and> ve_type (kv_entry (kvs ! i)) = KeyWrite")
      case True
      then obtain i where i: "key_index kvs (p ! 1) = Some i" "ve_type (kv_entry (kvs ! i)) = KeyWrite" by blast
      have "\<forall>ps. final_keys (put_new_value i (p ! 2) kvs) ps = final_keys kvs (p # ps)"
        using i s by (intro allI final_keys_put) (auto simp: fun_eq_iff split: option.splits)
      with i s a assms(2) show ?thesis
        by (intro exI [of _ "put_new_value i (p ! 2) kvs"])
          (simp add: exec_procedure_def exec_SET_def is_write_at_def set_new_value_def put_new_value_same mismatch_def,
            simp add: put_new_value_def)
    next
      case False
      then have "\<forall>ps. final_keys kvs ps = final_keys kvs (p # ps)"
        using s by (intro allI final_keys_skip) (auto split: option.splits)
      with False s a assms(2) show ?thesis
        by (intro exI [of _ kvs]) (auto simp: exec_procedure_def exec_SET_def is_write_at_def mismatch_def split: option.splits)
    qed
  next
    case c
    show ?thesis
    proof (cases "\<exists>i j. key_index kvs (p ! 1) = Some i \<and> key_index kvs (p ! 2) = Some j \<and> ve_type (kv_entry (kvs ! j)) = KeyWrite")
      case True
      then obtain i j where i: "key_index kvs (p ! 1) = Some i" "key_index kvs (p ! 2) = Some j"
        "ve_type (kv_entry (kvs ! j)) = KeyWrite" by blast
      let ?v = "ve_value (kv_entry (kvs ! i))"
      have "\<forall>ps. final_keys (put_new_value j ?v kvs) ps = final_keys kvs (p # ps)"
        using i c by (intro allI final_keys_put) (auto simp: fun_eq_iff value_of_def split: option.splits)
      with i c a assms(2) show ?thesis
        by (intro exI [of _ "put_new_value j ?v kvs"])
          (simp add: exec_procedure_def exec_COPY_def is_write_at_def set_new_value_def put_new_value_same mismatch_def,
            simp add: put_new_value_def)
    next
      case False
      then have "\<forall>ps. final_keys kvs ps = final_keys kvs (p # ps)"
        using c by (intro allI final_keys_skip) (auto simp: value_of_def split: option.splits)
      with False c a assms(2) show ?thesis
        by (intro exI [of _ kvs]) (auto simp: exec_procedure_def exec_COPY_def is_write_at_def mismatch_def split: option.splits)
    qed
  next
    case e
    then have "\<forall>ps. final_keys kvs ps = final_keys kvs (p # ps)"
      by (intro allI final_keys_skip) (auto split: option.splits)
    with e a assms(2) show ?thesis
      by (intro exI [of _ kvs])
        (auto simp: exec_procedure_def exec_EQ_def mismatch_def value_of_def Let_def split: option.splits)
  qed
qed

lemma final_keys_Nil: "final_keys kvs [] = kvs"
proof -
  have "final_entry kvs [] = (!) kvs" by (simp add: final_entry_def fun_eq_iff Let_def)
  then show ?thesis by (simp add: final_keys_def map_nth)
qed

lemma exec_procedures_plain:
  assumes "\<forall>p\<in>set ps. plain_procedure p" "kvs = tx_keys txn"
  shows "\<exists>reason'. exec_procedures (key_index kvs) ps (txn, aborted, reason) =
      Inr (txn\<lparr>tx_keys := final_keys kvs ps\<rparr>, aborted \<or> (\<exists>p\<in>set ps. mismatch (value_of kvs) p), reason')"
  using assms
proof (induction ps arbitrary: txn kvs aborted reason)
  case Nil
  then show ?case by (simp add: final_keys_Nil)
next
  case (Cons p ps)
  from exec_procedure_plain [OF _ Cons.prems(2), of p aborted reason] Cons.prems(1) obtain kvs' reason' where
    "exec_procedure (key_index kvs) p (txn, aborted, reason) = Inr (txn\<lparr>tx_keys := kvs'\<rparr>, aborted \<or> mismatch (value_of kvs) p, reason')"
    and k: "key_index kvs' = key_index kvs" "value_of kvs' = value_of kvs" "\<forall>ps. final_keys kvs' ps = final_keys kvs (p # ps)"
    by auto
  with Cons.IH [of kvs' "txn\<lparr>tx_keys := kvs'\<rparr>" "aborted \<or> mismatch (value_of kvs) p" reason'] Cons.prems(1)
  show ?case unfolding k by auto
qed

text \<open>
  C31: the key-value interpreter.  A transaction whose procedures are \<^verbatim>\<open>SET\<close>, \<^verbatim>\<open>COPY\<close> and
  \<^verbatim>\<open>EQ\<close> with their arguments, with no key to delete, always runs to an end on a
  well-formed storage.  It aborts exactly when a compared key
  has another value, and then the storage is untouched; otherwise it commits, the new value
  of each written key is the one its last assignment gives, and the storage holds the new
  records of the local written keys and is otherwise as before.
\<close>

theorem key_value_execution:
  assumes "tx_program txn = Code ps" "\<forall>p\<in>set ps. plain_procedure p" "tx_deleted_keys txn = []" "chm_inv hash st"
    and "\<forall>kv\<in>set (tx_keys txn). is_local_key sh (kv_key kv) = Inr (loc (kv_key kv))"
  shows "\<exists>txn' st'. KeyValueExecution_Execute (MemOnlyStorage_Write hash) (MemOnlyStorage_Delete hash) (is_local_key sh) txn st =
      Inr (txn', st') \<and> chm_inv hash st' \<and>
    (if \<exists>p\<in>set ps. mismatch (value_of (tx_keys txn)) p then tx_status txn' = ABORTED \<and> st' = st
     else tx_status txn' = COMMITTED \<and> tx_keys txn' = final_keys (tx_keys txn) ps \<and>
       (\<forall>k. fst (MemOnlyStorage_Read hash st' k) =
          (case written loc (tx_keys txn') k of None \<Rightarrow> fst (MemOnlyStorage_Read hash st k) | Some r \<Rightarrow> Some r)))"
proof -
  let ?kvs = "tx_keys txn"
  let ?txn = "txn\<lparr>tx_keys := final_keys ?kvs ps, tx_status := COMMITTED\<rparr>"
  let ?ab = "\<exists>p\<in>set ps. mismatch (value_of ?kvs) p"
  obtain reason where e: "exec_procedures (key_index ?kvs) ps (txn, False, []) = Inr (txn\<lparr>tx_keys := final_keys ?kvs ps\<rparr>, ?ab, reason)"
    using exec_procedures_plain [OF assms(2) refl, of txn False "[]"] by auto
  have rd: "fst (MemOnlyStorage_Read hash s k) = chm_map hash s k" if "chm_inv hash s" for s k
    by (metis mem.read_law [OF that] prod.collapse)
  show ?thesis
  proof (cases ?ab)
    case True
    with e assms(1,4) show ?thesis unfolding KeyValueExecution_Execute_def procedures_def by simp
  next
    case False
    have "is_local_key sh (kv_key kv) = Inr (loc (kv_key kv))" if "kv \<in> set (tx_keys ?txn)" for kv
    proof -
      from that obtain i where "i < length ?kvs" "kv = final_entry ?kvs ps i" by (auto simp: final_keys_def)
      then have "kv_key kv = kv_key (?kvs ! i)" "?kvs ! i \<in> set ?kvs"
        by (auto simp: final_entry_def Let_def split: option.splits)
      with assms(5) show ?thesis by metis
    qed
    from mem_records.ApplyWrites_content [of ?txn "is_local_key sh" loc, OF this assms(4)] obtain st' where
      "ApplyWrites (MemOnlyStorage_Write hash) (MemOnlyStorage_Delete hash) (is_local_key sh) ?txn st = Inr st'"
      "chm_inv hash st'" "chm_map hash st' = chm_map hash st ++ written loc (tx_keys ?txn)"
      using assms(3) by (auto simp: restrict_map_def)
    with e False assms(1,4) show ?thesis unfolding KeyValueExecution_Execute_def procedures_def
      by (auto simp: rd map_add_def split: option.splits)
  qed
qed

theorem key_value_execution_witness:
  "\<exists>txn' st'. KeyValueExecution_Execute (MemOnlyStorage_Write (\<lambda>k. of_nat (length k))) (MemOnlyStorage_Delete (\<lambda>k. of_nat (length k)))
       (is_local_key \<lparr>sh_kind = SimpleSharder, sh_local_partition = 1, sh_num_partitions = 2\<rparr>)
       (default_txn\<lparr>tx_program := Code [[''SET'', ''1'', ''x''], [''COPY'', ''3'', ''1'']],
          tx_keys := [sample_kv ''1'' KeyWrite 0, sample_kv ''3'' KeyRead 0]\<rparr>) ConcurrentHashMap_new = Inr (txn', st') \<and>
     tx_status txn' = COMMITTED \<and> fst (MemOnlyStorage_Read (\<lambda>k. of_nat (length k)) st' ''1'') \<noteq> None"
proof -
  let ?h = "\<lambda>k :: Key. of_nat (length k) :: uint64"
  let ?sh = "\<lparr>sh_kind = SimpleSharder, sh_local_partition = 1, sh_num_partitions = 2\<rparr>"
  let ?ps = "[[''SET'', ''1'', ''x''], [''COPY'', ''3'', ''1'']]"
  let ?txn = "default_txn\<lparr>tx_program := Code ?ps, tx_keys := [sample_kv ''1'' KeyWrite 0, sample_kv ''3'' KeyRead 0]\<rparr>"
  have a: "\<forall>p\<in>set ?ps. plain_procedure p" "tx_program ?txn = Code ?ps" by (simp_all add: plain_procedure_def)
  have d: "tx_deleted_keys ?txn = []" by (simp add: default_txn_def)
  have l: "\<forall>kv\<in>set (tx_keys ?txn). is_local_key ?sh (kv_key kv) = Inr ((\<lambda>_. True) (kv_key kv))"
    by (simp add: sample_kv_def is_local_key_def compute_partition_def SimpleSharder_compute_partition_def stoll_def
        parse_int_def isspace_def is_digit_def Let_def signed_modulo_int_def)
  have m: "\<not> (\<exists>p\<in>set ?ps. mismatch vals p)" for vals by (simp add: mismatch_def)
  have w: "written (\<lambda>_. True) (final_keys (tx_keys ?txn) ?ps) ''1'' \<noteq> None"
    by (simp add: written_def final_keys_def final_entry_def Let_def sample_kv_def value_of_def upt_rec)
  from key_value_execution [OF a(2,1) d chm_inv_new(1) l, where hash = ?h] m w show ?thesis by fastforce
qed

text \<open>
  \<^verbatim>\<open>DEL\<close> never deletes.  Whatever the procedures, a run that returns has the deleted keys the
  transaction came with: the branch of \<^verbatim>\<open>DEL\<close> is skipped for every key of the transaction.
\<close>

theorem key_value_del_ignored:
  assumes "KeyValueExecution_Execute write delete local txn st = Inr (txn', st')"
  shows "tx_deleted_keys txn' = tx_deleted_keys txn"
proof -
  have copy: "exec_COPY ix p (t, a, r) = Inr (t', a', r') \<Longrightarrow> tx_deleted_keys t' = tx_deleted_keys t" for ix p t a r t' a' r'
    by (cases "ix (p ! 1)"; cases "ix (p ! 2)") (auto simp: exec_COPY_def arg_def set_new_value_def split: if_splits)
  have step: "exec_procedure ix p (t, a, r) = Inr (t', a', r') \<Longrightarrow> tx_deleted_keys t' = tx_deleted_keys t" for ix p t a r t' a' r'
    by (auto simp: exec_procedure_def exec_SET_def exec_DEL_def exec_EQ_def set_new_value_def Let_def
        rbind_eq_Inr split: if_splits option.splits dest: copy)
  have "exec_procedures ix ps (t, a, r) = Inr (t', a', r') \<Longrightarrow> tx_deleted_keys t' = tx_deleted_keys t" for ix ps t a r t' a' r'
    by (induction ps arbitrary: t a r) (auto simp: rbind_eq_Inr dest: step)
  with assms show ?thesis
    by (auto simp: KeyValueExecution_Execute_def rbind_eq_Inr split: if_splits)
qed

theorem key_value_del_ignored_witness:
  "\<exists>txn' st'. KeyValueExecution_Execute (MemOnlyStorage_Write (\<lambda>k. 0)) (MemOnlyStorage_Delete (\<lambda>k. 0)) (\<lambda>_. Inr False)
       (default_txn\<lparr>tx_program := Code [[''DEL'', ''1'']], tx_keys := [sample_kv ''1'' KeyWrite 0]\<rparr>) ConcurrentHashMap_new =
       Inr (txn', st') \<and> tx_status txn' = COMMITTED \<and> tx_deleted_keys txn' = []"
proof -
  let ?txn = "default_txn\<lparr>tx_program := Code [[''DEL'', ''1'']], tx_keys := [sample_kv ''1'' KeyWrite 0]\<rparr>"
  obtain txn' st' where e: "KeyValueExecution_Execute (MemOnlyStorage_Write (\<lambda>k. 0)) (MemOnlyStorage_Delete (\<lambda>k. 0))
       (\<lambda>_. Inr False) ?txn ConcurrentHashMap_new = Inr (txn', st')" "tx_status txn' = COMMITTED"
    by (simp add: KeyValueExecution_Execute_def procedures_def exec_procedure_def exec_DEL_def arg_def ApplyWrites_def
        sample_kv_def)
  with key_value_del_ignored [OF e(1)] show ?thesis by (auto simp: default_txn_def)
qed

end
