(* ===== verification/Worker.thy ===== *)
theory Worker
  imports Execution
begin

section \<open>Transaction holders and workers\<close>

text \<open>
  \<^verbatim>\<open>TxnHolder\<close> collects the sub-transactions of one transaction at the scheduler, and a
  \<^verbatim>\<open>Worker\<close> takes a dispatched transaction through its phases: reading the local storage,
  waiting for the reads of the other partitions, execution and the final report.  The
  holder is shared by the scheduler and one worker at a time; it is part of the state of
  the dispatched transaction here and is handed back with the message to the scheduler.
  Event recording is a compile-time option and is left out.
\<close>

subsection \<open>Transaction holders\<close>

record TxnHolder =
  th_txn_id :: TxnId
  th_main_txn_idx :: nat
  th_lo_txns :: "Transaction option list"
  th_remaster_result :: "(Key \<times> uint32) option"
  th_dispatchable :: bool
  th_aborting :: bool
  th_done :: bool
  th_num_lo_txns :: nat
  th_expected_num_lo_txns :: nat
  th_num_dispatches :: nat
  th_worker :: "nat option"

definition TxnHolder_new :: "nat \<Rightarrow> Transaction \<Rightarrow> TxnHolder result" where
  "TxnHolder_new regions txn =
     (let home = ti_home (tx_internal txn) in
      if 0 \<le> home \<and> home < int regions
      then Inr \<lparr>th_txn_id = tx_id txn, th_main_txn_idx = nat home,
             th_lo_txns = (replicate regions None)[nat home := Some txn], th_remaster_result = None,
             th_dispatchable = True, th_aborting = False, th_done = False, th_num_lo_txns = 1,
             th_expected_num_lo_txns = length (ti_involved_regions (tx_internal txn)),
             th_num_dispatches = 0, th_worker = None\<rparr>
      else Inl (Undefined ''lo_txns_ index''))"

definition AddLockOnlyTxn :: "Transaction \<Rightarrow> TxnHolder \<Rightarrow> (bool \<times> TxnHolder) result" where
  "AddLockOnlyTxn txn h =
     (let home = ti_home (tx_internal txn) in
      if \<not> home < int (length (th_lo_txns h)) then Inl (CheckFailed ''home'')
      else if home < 0 then Inl (Undefined ''lo_txns_ index'')
      else if th_lo_txns h ! nat home \<noteq> None then Inr (False, h)
      else Inr (True, h\<lparr>th_lo_txns := (th_lo_txns h)[nat home := Some txn], th_num_lo_txns := th_num_lo_txns h + 1\<rparr>))"

definition holder_txn :: "TxnHolder \<Rightarrow> Transaction result" where
  "holder_txn h =
     (case th_lo_txns h ! th_main_txn_idx h of None \<Rightarrow> Inl (CheckFailed ''main txn'') | Some txn \<Rightarrow> Inr txn)"

definition set_holder_txn :: "Transaction \<Rightarrow> TxnHolder \<Rightarrow> TxnHolder" where
  "set_holder_txn txn h = h\<lparr>th_lo_txns := (th_lo_txns h)[th_main_txn_idx h := Some txn]\<rparr>"

definition is_ready_for_gc :: "TxnHolder \<Rightarrow> bool" where
  "is_ready_for_gc h \<longleftrightarrow> th_done h \<and> th_num_lo_txns h = th_expected_num_lo_txns h"

fun same_event :: "TransactionEventInfo \<Rightarrow> TransactionEventInfo \<Rightarrow> bool" where
  "same_event (e, t, m, _) (e', t', m', _) \<longleftrightarrow> e = e' \<and> t = t' \<and> m = m'"

definition set_home :: "int \<Rightarrow> TransactionEventInfo \<Rightarrow> TransactionEventInfo" where
  "set_home home ev = (case ev of (e, t, m, _) \<Rightarrow> (e, t, m, home))"

definition homed_events :: "Transaction \<Rightarrow> TransactionEventInfo list" where
  "homed_events txn = map (set_home (ti_home (tx_internal txn))) (ti_events (tx_internal txn))"

fun cutoff_loop :: "TransactionEventInfo list \<Rightarrow> nat \<Rightarrow> TransactionEventInfo list \<Rightarrow> nat \<Rightarrow> nat" where
  "cutoff_loop main i [] cutoff = cutoff"
| "cutoff_loop main i (ev # evs) cutoff =
     cutoff_loop main (Suc i) evs (if i < cutoff \<and> \<not> same_event ev (main ! i) then i else cutoff)"

definition lo_list :: "TxnHolder \<Rightarrow> Transaction list" where
  "lo_list h = map the (filter (\<lambda>t. t \<noteq> None) (th_lo_txns h))"

definition other_list :: "TxnHolder \<Rightarrow> Transaction list" where
  "other_list h = map the (filter (\<lambda>t. t \<noteq> None) ((th_lo_txns h)[th_main_txn_idx h := None]))"

definition FinalizeAndRelease :: "TxnHolder \<Rightarrow> (Transaction \<times> TxnHolder) result" where
  "FinalizeAndRelease h =
     (case th_lo_txns h ! th_main_txn_idx h of
        None \<Rightarrow> Inl (Undefined ''null main txn'')
      | Some main \<Rightarrow>
          let events = ti_events (tx_internal main);
            cutoff = foldl (\<lambda>c lo. cutoff_loop events 0 (ti_events (tx_internal lo)) c) (length events) (lo_list h);
            moved = concat (map (\<lambda>lo. drop cutoff (homed_events lo)) (other_list h)) in
          Inr (upd_internal (\<lambda>i. i\<lparr>ti_events := homed_events main @ moved\<rparr>) main,
               h\<lparr>th_lo_txns := replicate (length (th_lo_txns h)) None\<rparr>))"

subsection \<open>Checking the counters of the master metadata\<close>

datatype VerifyMasterResult = VALID | VM_WAITING | VM_ABORT

text \<open>
  \<open>get\<close> is the read of the storage, a \<^verbatim>\<open>const\<close> method.  A key without a record counts as
  one with counter 0 and master 0.
\<close>

fun check_counters_loop ::
  "(Key \<Rightarrow> Record option) \<Rightarrow> (KeyValueEntry \<Rightarrow> bool) \<Rightarrow> KeyValueEntry list \<Rightarrow> bool \<Rightarrow> VerifyMasterResult result" where
  "check_counters_loop get skip [] waiting = Inr (if waiting then VM_WAITING else VALID)"
| "check_counters_loop get skip (kv # kvs) waiting =
     (if skip kv then check_counters_loop get skip kvs waiting
      else let m = metadata (kv_entry kv);
        stored = (case get (kv_key kv) of None \<Rightarrow> mk_Metadata 0 0 | Some r \<Rightarrow> metadata_of r) in
      if md_counter m < md_counter stored then Inr VM_ABORT
      else if md_counter m > md_counter stored then check_counters_loop get skip kvs True
      else if md_master m \<noteq> md_master stored then Inl (CheckFailed ''masters do not match'')
      else check_counters_loop get skip kvs waiting)"

definition CheckCounters :: "Transaction \<Rightarrow> bool \<Rightarrow> (Key \<Rightarrow> Record option) \<Rightarrow> VerifyMasterResult result" where
  "CheckCounters txn filter_by_home get =
     check_counters_loop get (\<lambda>kv. filter_by_home \<and> sint (md_master (metadata (kv_entry kv))) \<noteq> ti_home (tx_internal txn))
       (tx_keys txn) False"

subsection \<open>Worker state\<close>

type_synonym RunId = "TxnId \<times> bool"

datatype Phase = READ_LOCAL_STORAGE | WAIT_REMOTE_READ | EXECUTE | FINISH

record TransactionState =
  ts_holder :: TxnHolder
  ts_remote_reads_waiting_on :: uint32
  ts_phase :: Phase

record RemoteReadResult =
  rr_txn_id :: TxnId
  rr_deadlocked :: bool
  rr_partition :: nat
  rr_reads :: "KeyValueEntry list"
  rr_will_abort :: bool
  rr_abort_reason :: string
  rr_abort_code :: AbortCode

datatype WorkerMsg =
    RemoteReads "MachineId list" uint64 RemoteReadResult
  | BrokerRedirect uint64
  | StopBrokerRedirect uint64
  | FinishedSubtxn MachineId nat Transaction
  | TxnDone TxnId TxnHolder

text \<open>
  What a worker is compiled and constructed with: the two switches, the configuration, the
  storage and the execution engine.
\<close>

record 's WorkerEnv =
  we_ddr :: bool
  we_counters :: bool
  we_config :: Configuration
  we_read :: "'s \<Rightarrow> Key \<Rightarrow> Record option \<times> 's"
  we_write :: "'s \<Rightarrow> Key \<Rightarrow> Record \<Rightarrow> bool \<times> 's"
  we_execute :: "Transaction \<Rightarrow> 's \<Rightarrow> (Transaction \<times> 's) result"

text \<open>The constructor picks the engine; \<open>tpcc\<close> stands for the TPC-C engine.\<close>

definition worker_execution ::
  "ExecutionType \<Rightarrow> (Key \<Rightarrow> uint64) \<Rightarrow> Configuration \<Rightarrow> (Transaction \<Rightarrow> MemOnlyStorage \<Rightarrow> (Transaction \<times> MemOnlyStorage) result) \<Rightarrow>
     Transaction \<Rightarrow> MemOnlyStorage \<Rightarrow> (Transaction \<times> MemOnlyStorage) result" where
  "worker_execution ty hash cf tpcc =
     (case ty of
        KEY_VALUE \<Rightarrow> KeyValueExecution_Execute (MemOnlyStorage_Write hash) (MemOnlyStorage_Delete hash) (is_local_key (MakeSharder cf))
      | TPC_C \<Rightarrow> tpcc
      | _ \<Rightarrow> NoopExecution_Execute)"

definition MakeTag :: "RunId \<Rightarrow> uint64" where
  "MakeTag run_id = fst run_id * 10 + (if snd run_id then 1 else 0)"

record 's Worker =
  wk_states :: "RunId \<rightharpoonup> TransactionState"
  wk_storage :: 's

definition waiting_partitions :: "'s WorkerEnv \<Rightarrow> Transaction \<Rightarrow> uint32 list" where
  "waiting_partitions env txn =
     (if we_ddr env then ti_involved_partitions (tx_internal txn) else ti_active_partitions (tx_internal txn))"

subsection \<open>Phases\<close>

fun read_keys :: "(Key \<Rightarrow> Record option) \<Rightarrow> bool \<Rightarrow> KeyValueEntry list \<Rightarrow> KeyValueEntry list \<times> string option" where
  "read_keys get remaster [] = ([], None)"
| "read_keys get remaster (kv # kvs) =
     (case get (kv_key kv) of
        Some record \<Rightarrow>
          if md_master (metadata (kv_entry kv)) \<noteq> md_master (metadata_of record) then (kv # kvs, Some ''outdated master'')
          else let (kvs', r) = read_keys get remaster kvs in
            (kv\<lparr>kv_entry := (kv_entry kv)\<lparr>ve_value := Record_to_string record\<rparr>\<rparr> # kvs', r)
      | None \<Rightarrow>
          if remaster then (kv # kvs, Some (''remaster non-existent key '' @ kv_key kv))
          else let (kvs', r) = read_keys get remaster kvs in (kv # kvs', r))"

definition abort_txn :: "string \<Rightarrow> Transaction \<Rightarrow> Transaction" where
  "abort_txn reason txn = txn\<lparr>tx_status := ABORTED, tx_abort_reason := reason\<rparr>"

definition check_and_read :: "'s WorkerEnv \<Rightarrow> 's \<Rightarrow> Transaction \<Rightarrow> Transaction result" where
  "check_and_read env st txn =
     (if tx_status txn = ABORTED then Inr txn
      else let get = (\<lambda>k. fst (we_read env st k)) in
        rbind (if we_counters env
               then rbind (CheckCounters txn False get) (\<lambda>r.
                 case r of
                   VALID \<Rightarrow> Inr txn
                 | VM_ABORT \<Rightarrow> Inr (abort_txn ''outdated counter'' txn)
                 | VM_WAITING \<Rightarrow> Inl (CheckFailed ''sent to worker with a high counter''))
               else Inr txn) (\<lambda>txn1.
          case read_keys get (is_remaster txn1) (tx_keys txn1) of
            (kvs, None) \<Rightarrow> Inr (txn1\<lparr>tx_keys := kvs\<rparr>)
          | (kvs, Some reason) \<Rightarrow> Inr (abort_txn reason (txn1\<lparr>tx_keys := kvs\<rparr>))))"

definition BroadcastReads :: "'s WorkerEnv \<Rightarrow> RunId \<Rightarrow> Transaction \<Rightarrow> WorkerMsg list" where
  "BroadcastReads env run_id txn =
     (let cf = we_config env;
        remote = filter (\<lambda>p. p \<noteq> of_nat (cf_local_partition cf)) (waiting_partitions env txn);
        destinations = map (\<lambda>p. MakeMachineId (of_nat (cf_local_region cf)) (of_nat (cf_local_replica cf)) (ucast p)) remote;
        aborted = (tx_status txn = ABORTED) in
      if destinations = [] then []
      else [RemoteReads destinations (MakeTag run_id)
        \<lparr>rr_txn_id = fst run_id, rr_deadlocked = snd run_id, rr_partition = cf_local_partition cf,
         rr_reads = (if aborted then [] else tx_keys txn), rr_will_abort = aborted,
         rr_abort_reason = tx_abort_reason txn, rr_abort_code = tx_abort_code txn\<rparr>])"

definition ReadLocalStorage :: "'s WorkerEnv \<Rightarrow> RunId \<Rightarrow> 's \<Rightarrow> TransactionState \<Rightarrow> (TransactionState \<times> WorkerMsg list) result" where
  "ReadLocalStorage env run_id st state =
     rbind (holder_txn (ts_holder state)) (\<lambda>txn0.
     rbind (check_and_read env st txn0) (\<lambda>txn.
       let waiting_on =
           (if of_nat (cf_local_partition (we_config env)) \<in> set (waiting_partitions env txn)
            then of_int (int (length (ti_involved_partitions (tx_internal txn))) - 1) else 0);
         state1 = state\<lparr>ts_holder := set_holder_txn txn (ts_holder state), ts_remote_reads_waiting_on := waiting_on\<rparr> in
       Inr (if waiting_on = 0
            then (state1\<lparr>ts_phase := EXECUTE\<rparr>, BroadcastReads env run_id txn)
            else (state1\<lparr>ts_phase := WAIT_REMOTE_READ\<rparr>, BroadcastReads env run_id txn @ [BrokerRedirect (MakeTag run_id)]))))"

definition execute_remaster :: "'s WorkerEnv \<Rightarrow> uint32 \<Rightarrow> 's \<Rightarrow> Transaction \<Rightarrow> (Transaction \<times> 's \<times> (Key \<times> uint32)) result" where
  "execute_remaster env new_master st txn =
     (case tx_keys txn of
        [] \<Rightarrow> Inl (Undefined ''begin() of no keys'')
      | kv # _ \<Rightarrow>
          let key = kv_key kv;
            record = (case fst (we_read env st key) of None \<Rightarrow> Record_default | Some r \<Rightarrow> r);
            new_counter = md_counter (metadata (kv_entry kv)) + 1;
            st1 = snd (we_write env st key (SetMetadata (mk_Metadata new_master new_counter) record)) in
          Inr (txn\<lparr>tx_status := COMMITTED\<rparr>, st1, key, new_counter))"

definition Worker_Execute :: "'s WorkerEnv \<Rightarrow> 's \<Rightarrow> TransactionState \<Rightarrow> (TransactionState \<times> 's) result" where
  "Worker_Execute env st state =
     (let h = ts_holder state in
      rbind (holder_txn h) (\<lambda>txn.
        case tx_program txn of
          Code _ \<Rightarrow>
            rbind (if tx_status txn \<noteq> ABORTED then we_execute env txn st else Inr (txn, st)) (\<lambda>(txn1, st1).
              Inr (state\<lparr>ts_holder := set_holder_txn txn1 h, ts_phase := FINISH\<rparr>, st1))
        | RemasterProgram new_master _ \<Rightarrow>
            rbind (execute_remaster env new_master st txn) (\<lambda>(txn1, st1, result).
              Inr (state\<lparr>ts_holder := (set_holder_txn txn1 h)\<lparr>th_remaster_result := Some result\<rparr>, ts_phase := FINISH\<rparr>, st1))
        | NoProgram \<Rightarrow> Inl (CheckFailed ''Procedure is not set'')))"

definition Worker_Finish :: "'s WorkerEnv \<Rightarrow> RunId \<Rightarrow> TransactionState \<Rightarrow> WorkerMsg list result" where
  "Worker_Finish env run_id state =
     rbind (FinalizeAndRelease (ts_holder state)) (\<lambda>(txn, h).
       let coordinator = ti_coordinating_server (tx_internal txn); cf = we_config env in
       case UnpackMachineId coordinator of (coord_reg, coord_rep, _) \<Rightarrow>
         Inr ((if unat coord_reg = cf_local_region cf \<and> unat coord_rep = cf_local_replica cf
               then [FinishedSubtxn coordinator (cf_local_partition cf) txn] else []) @
              [TxnDone (fst run_id) h]))"

subsection \<open>Handlers\<close>

definition run_from_execute :: "'s WorkerEnv \<Rightarrow> RunId \<Rightarrow> TransactionState \<Rightarrow> 's Worker \<Rightarrow> ('s Worker \<times> WorkerMsg list) result" where
  "run_from_execute env run_id state w =
     rbind (Worker_Execute env (wk_storage w) state) (\<lambda>(state1, st1).
     rbind (Worker_Finish env run_id state1) (\<lambda>out.
       Inr (w\<lparr>wk_states := (wk_states w)(run_id := None), wk_storage := st1\<rparr>, out)))"

definition AdvanceTransaction :: "'s WorkerEnv \<Rightarrow> RunId \<Rightarrow> 's Worker \<Rightarrow> ('s Worker \<times> WorkerMsg list) result" where
  "AdvanceTransaction env run_id w =
     (case wk_states w run_id of
        None \<Rightarrow> Inl (CheckFailed ''TxnState'')
      | Some state \<Rightarrow>
         (case ts_phase state of
            READ_LOCAL_STORAGE \<Rightarrow>
              rbind (ReadLocalStorage env run_id (wk_storage w) state) (\<lambda>(state1, out).
                let w1 = w\<lparr>wk_states := (wk_states w)(run_id \<mapsto> state1)\<rparr> in
                if ts_phase state1 = WAIT_REMOTE_READ then Inr (w1, out)
                else rbind (run_from_execute env run_id state1 w1) (\<lambda>(w2, out2). Inr (w2, out @ out2)))
          | WAIT_REMOTE_READ \<Rightarrow> Inr (w, [])
          | EXECUTE \<Rightarrow> run_from_execute env run_id state w
          | FINISH \<Rightarrow>
              rbind (Worker_Finish env run_id state) (\<lambda>out.
                Inr (w\<lparr>wk_states := (wk_states w)(run_id := None)\<rparr>, out))))"

definition Worker_OnCustomSocket :: "'s WorkerEnv \<Rightarrow> TxnHolder \<Rightarrow> bool \<Rightarrow> 's Worker \<Rightarrow> ('s Worker \<times> WorkerMsg list) result" where
  "Worker_OnCustomSocket env h deadlocked w =
     rbind (holder_txn h) (\<lambda>txn.
       let run_id = (tx_id txn, deadlocked); old_run_id = (tx_id txn, False);
         stop = deadlocked \<and> wk_states w old_run_id \<noteq> None;
         states = (if stop then (wk_states w)(old_run_id := None) else wk_states w);
         out1 = (if stop then [StopBrokerRedirect (MakeTag old_run_id)] else []) in
       if states run_id \<noteq> None then Inl (CheckFailed ''already dispatched'')
       else rbind (AdvanceTransaction env run_id (w\<lparr>wk_states := states(run_id \<mapsto>
                \<lparr>ts_holder = h, ts_remote_reads_waiting_on = 0, ts_phase = READ_LOCAL_STORAGE\<rparr>)\<rparr>)) (\<lambda>(w2, out2).
              Inr (w2, out1 @ out2)))"

definition apply_remote_read :: "RemoteReadResult \<Rightarrow> Transaction \<Rightarrow> Transaction" where
  "apply_remote_read rr txn =
     (if tx_status txn = ABORTED then txn
      else if rr_will_abort rr
      then txn\<lparr>tx_status := ABORTED, tx_abort_code := rr_abort_code rr, tx_abort_reason := rr_abort_reason rr\<rparr>
      else txn\<lparr>tx_keys := tx_keys txn @ rr_reads rr\<rparr>)"

definition Worker_OnInternalRequestReceived ::
  "'s WorkerEnv \<Rightarrow> RemoteReadResult \<Rightarrow> 's Worker \<Rightarrow> ('s Worker \<times> WorkerMsg list) result" where
  "Worker_OnInternalRequestReceived env rr w =
     (let run_id = (rr_txn_id rr, rr_deadlocked rr) in
      case wk_states w run_id of
        None \<Rightarrow> Inr (w, [])
      | Some state \<Rightarrow>
          rbind (holder_txn (ts_holder state)) (\<lambda>txn.
            let waiting_on = ts_remote_reads_waiting_on state - 1;
              state1 = state\<lparr>ts_holder := set_holder_txn (apply_remote_read rr txn) (ts_holder state),
                             ts_remote_reads_waiting_on := waiting_on\<rparr> in
            if waiting_on = 0 \<and> ts_phase state \<noteq> WAIT_REMOTE_READ then Inl (CheckFailed ''Invalid phase'')
            else let state2 = (if waiting_on = 0 then state1\<lparr>ts_phase := EXECUTE\<rparr> else state1);
                out1 = (if waiting_on = 0 then [StopBrokerRedirect (MakeTag run_id)] else []) in
              rbind (AdvanceTransaction env run_id (w\<lparr>wk_states := (wk_states w)(run_id \<mapsto> state2)\<rparr>)) (\<lambda>(w2, out2).
                Inr (w2, out1 @ out2))))"

subsection \<open>Holders keep their transaction and its events\<close>

definition holder_wf :: "TxnHolder \<Rightarrow> bool" where
  "holder_wf h \<longleftrightarrow> th_main_txn_idx h < length (th_lo_txns h) \<and> th_lo_txns h ! th_main_txn_idx h \<noteq> None"

lemma holder_wf_txn: "holder_wf h \<Longrightarrow> \<exists>txn. holder_txn h = Inr txn"
  by (auto simp: holder_wf_def holder_txn_def)

lemma set_holder_txn_simps:
  assumes "holder_wf h"
  shows "holder_wf (set_holder_txn txn h)" "holder_txn (set_holder_txn txn h) = Inr txn"
    "th_lo_txns (set_holder_txn txn h) ! th_main_txn_idx (set_holder_txn txn h) = Some txn"
  using assms by (simp_all add: holder_wf_def holder_txn_def set_holder_txn_def)

lemma same_event_set_home [simp]: "same_event (set_home h e) e' \<longleftrightarrow> same_event e e'"
  by (cases e; cases e') (simp add: set_home_def)

lemma cutoff_loop_le: "cutoff_loop main i evs c \<le> c"
proof (induction evs arbitrary: i c)
  case (Cons ev evs)
  show ?case using Cons.IH [of "Suc i" i] Cons.IH [of "Suc i" c] by (simp add: order_trans [of _ i c])
qed simp

lemma cutoff_loop_same:
  "i + k < cutoff_loop main i evs c \<Longrightarrow> k < length evs \<Longrightarrow> same_event (evs ! k) (main ! (i + k))"
proof (induction evs arbitrary: i k c)
  case (Cons ev evs)
  let ?c = "if i < c \<and> \<not> same_event ev (main ! i) then i else c"
  have le: "cutoff_loop main (Suc i) evs ?c \<le> ?c" by (rule cutoff_loop_le)
  show ?case
  proof (cases k)
    case 0
    with Cons.prems(1) le show ?thesis by (auto split: if_splits)
  next
    case (Suc k')
    with Cons.IH [of "Suc i" k' ?c] Cons.prems show ?thesis by simp
  qed
qed simp

lemma cutoff_fold_le: "foldl (\<lambda>c lo. cutoff_loop main 0 (ti_events (tx_internal lo)) c) c los \<le> c"
  by (induction los arbitrary: c) (auto intro: order_trans cutoff_loop_le)

lemma cutoff_fold_same:
  assumes "lo \<in> set los" "k < foldl (\<lambda>c lo. cutoff_loop main 0 (ti_events (tx_internal lo)) c) c los"
    and "k < length (ti_events (tx_internal lo))"
  shows "same_event (ti_events (tx_internal lo) ! k) (main ! k)"
  using assms
proof (induction los arbitrary: c)
  case (Cons l los)
  then show ?case
  proof (cases "lo = l")
    case True
    have "k < cutoff_loop main 0 (ti_events (tx_internal l)) c"
      using Cons.prems(2) cutoff_fold_le [of main "cutoff_loop main 0 (ti_events (tx_internal l)) c" los] by simp
    with cutoff_loop_same [of 0 k] Cons.prems(3) True show ?thesis by fastforce
  qed simp
qed simp

text \<open>
  Merging the sub-transactions of a transaction at the end loses no event.  The released
  transaction starts with the events of the main transaction, and every event of every
  sub-transaction is either recorded with its home or is one the main transaction shares.
\<close>

theorem finalize_keeps_events:
  assumes "holder_wf h" "lo \<in> set (lo_list h)"
  shows "\<exists>txn h' main. FinalizeAndRelease h = Inr (txn, h') \<and> th_lo_txns h ! th_main_txn_idx h = Some main \<and>
    take (length (ti_events (tx_internal main))) (ti_events (tx_internal txn)) = homed_events main \<and>
    (\<forall>ev\<in>set (homed_events lo). \<exists>ev'\<in>set (ti_events (tx_internal txn)). same_event ev ev')"
proof -
  from assms(1) obtain main where main: "th_lo_txns h ! th_main_txn_idx h = Some main" by (auto simp: holder_wf_def)
  let ?m = "ti_events (tx_internal main)"
  define c where "c = foldl (\<lambda>c lo. cutoff_loop ?m 0 (ti_events (tx_internal lo)) c) (length ?m) (lo_list h)"
  define all where "all = homed_events main @ concat (map (\<lambda>lo. drop c (homed_events lo)) (other_list h))"
  have f: "FinalizeAndRelease h = Inr (upd_internal (\<lambda>i. i\<lparr>ti_events := all\<rparr>) main,
      h\<lparr>th_lo_txns := replicate (length (th_lo_txns h)) None\<rparr>)"
    by (simp add: FinalizeAndRelease_def main Let_def c_def all_def)
  have c: "c \<le> length ?m" unfolding c_def by (rule cutoff_fold_le)
  have lo: "lo = main \<or> lo \<in> set (other_list h)"
  proof -
    from assms(2) obtain i where i: "i < length (th_lo_txns h)" "th_lo_txns h ! i = Some lo"
      by (auto simp: lo_list_def in_set_conv_nth)
    show ?thesis
    proof (cases "i = th_main_txn_idx h")
      case False
      with i have "Some lo \<in> set ((th_lo_txns h)[th_main_txn_idx h := None])"
        by (metis length_list_update nth_list_update_neq nth_mem)
      then show ?thesis by (force simp: other_list_def)
    qed (use i main in simp)
  qed
  have same_refl: "same_event e e" for e by (cases e) simp
  have "\<exists>ev'\<in>set all. same_event ev ev'" if "ev \<in> set (homed_events lo)" for ev
  proof -
    from that obtain k where k: "k < length (ti_events (tx_internal lo))" "ev = homed_events lo ! k"
      by (auto simp: homed_events_def in_set_conv_nth)
    show ?thesis
    proof (cases "k < c \<or> lo = main")
      case True
      then have "k < length ?m" using c k(1) by auto
      moreover have "same_event (ti_events (tx_internal lo) ! k) (?m ! k)"
        using True cutoff_fold_same [OF assms(2) _ k(1), of ?m "length ?m"] by (auto simp: c_def same_refl)
      ultimately have "homed_events main ! k \<in> set all \<and> same_event ev (homed_events main ! k)"
        using k by (auto simp: all_def homed_events_def set_home_def split: prod.splits)
      then show ?thesis by blast
    next
      case False
      with k have "ev \<in> set (drop c (homed_events lo))" by (auto simp: homed_events_def in_set_conv_nth intro!: exI [of _ "k - c"])
      with False lo have "ev \<in> set all" by (auto simp: all_def)
      with same_refl show ?thesis by blast
    qed
  qed
  moreover have "take (length ?m) all = homed_events main" by (simp add: all_def homed_events_def)
  ultimately show ?thesis unfolding f main by (simp add: upd_internal_def)
qed

definition sample_sub :: "TxnId \<Rightarrow> int \<Rightarrow> TransactionEventInfo list \<Rightarrow> Transaction" where
  "sample_sub t home evs = default_txn\<lparr>tx_internal := default_internal\<lparr>ti_id := t, ti_home := home, ti_events := evs\<rparr>\<rparr>"

definition sample_holder :: "Transaction list \<Rightarrow> TxnHolder" where
  "sample_holder txns = \<lparr>th_txn_id = tx_id (hd txns), th_main_txn_idx = 0, th_lo_txns = map Some txns, th_remaster_result = None,
     th_dispatchable = True, th_aborting = False, th_done = False, th_num_lo_txns = length txns,
     th_expected_num_lo_txns = length txns, th_num_dispatches = 0, th_worker = None\<rparr>"

theorem finalize_keeps_events_witness:
  "\<exists>txn h'. FinalizeAndRelease (sample_holder [sample_sub 5 0 [(1, 10, 0, 0), (2, 20, 0, 0)], sample_sub 5 1 [(1, 10, 0, 0), (2, 30, 0, 0)]]) =
       Inr (txn, h') \<and> (\<exists>ev\<in>set (ti_events (tx_internal txn)). same_event (2, 30, 0, 1) ev)"
proof -
  let ?lo = "sample_sub 5 1 [(1, 10, 0, 0), (2, 30, 0, 0)]"
  let ?h = "sample_holder [sample_sub 5 0 [(1, 10, 0, 0), (2, 20, 0, 0)], ?lo]"
  have a: "holder_wf ?h" "?lo \<in> set (lo_list ?h)" by (simp_all add: holder_wf_def sample_holder_def lo_list_def)
  have "(2, 30, 0, 1) \<in> set (homed_events ?lo)" by (simp add: homed_events_def sample_sub_def set_home_def)
  with finalize_keeps_events [OF a] show ?thesis by blast
qed

subsection \<open>Waiting for the remote reads\<close>














definition sample_env :: "MemOnlyStorage WorkerEnv" where
  "sample_env = \<lparr>we_ddr = False, we_counters = False, we_config = sample_cf, we_read = MemOnlyStorage_Read (\<lambda>k. 0),
     we_write = MemOnlyStorage_Write (\<lambda>k. 0), we_execute = NoopExecution_Execute\<rparr>"

definition sample_abort :: RemoteReadResult where
  "sample_abort = \<lparr>rr_txn_id = 5, rr_deadlocked = False, rr_partition = 0, rr_reads = [], rr_will_abort = True,
     rr_abort_reason = ''outdated master'', rr_abort_code = OTHER\<rparr>"

text \<open>A transaction of partitions 0 and 1, dispatched at partition 1, and the abort that partition 0 reports.\<close>

definition sample_two_parts :: Transaction where
  "sample_two_parts = upd_internal (\<lambda>i. i\<lparr>ti_involved_partitions := [0, 1], ti_active_partitions := [1]\<rparr>)
     ((sample_sub 5 0 [])\<lparr>tx_program := Code []\<rparr>)"


subsection \<open>Phases of the transactions in flight\<close>

datatype worker_op = WDispatch TxnHolder bool | WRemote RemoteReadResult

fun worker_step :: "'s WorkerEnv \<Rightarrow> 's Worker \<Rightarrow> worker_op \<Rightarrow> ('s Worker \<times> WorkerMsg list) result" where
  "worker_step env w (WDispatch h deadlocked) = Worker_OnCustomSocket env h deadlocked w"
| "worker_step env w (WRemote rr) = Worker_OnInternalRequestReceived env rr w"

definition in_flight_ok :: "TransactionState \<Rightarrow> bool" where
  "in_flight_ok s \<longleftrightarrow> ts_phase s = WAIT_REMOTE_READ \<and> ts_remote_reads_waiting_on s \<noteq> 0 \<and> holder_wf (ts_holder s)"

definition worker_inv :: "(RunId \<rightharpoonup> TransactionState) \<Rightarrow> bool" where
  "worker_inv states \<longleftrightarrow> (\<forall>rid s. states rid = Some s \<longrightarrow> in_flight_ok s)"

lemma worker_inv_upd:
  "worker_inv m \<Longrightarrow> worker_inv (m(rid := None))" "worker_inv m \<Longrightarrow> in_flight_ok s \<Longrightarrow> worker_inv (m(rid \<mapsto> s))"
  "worker_inv (m(rid := None)) \<Longrightarrow> in_flight_ok s \<Longrightarrow> worker_inv (m(rid \<mapsto> s))"
  "worker_inv (m(rid := None)) \<Longrightarrow> worker_inv (m(rid := x, rid := None))"
  by (auto simp: worker_inv_def split: if_splits)

lemma run_from_execute_states:
  "run_from_execute env rid s w = Inr (w', out) \<Longrightarrow> wk_states w' = (wk_states w)(rid := None)"
  by (auto simp: run_from_execute_def rbind_eq_Inr)

lemma ReadLocalStorage_state:
  assumes "ReadLocalStorage env rid st s = Inr (s', out)" "holder_wf (ts_holder s)"
  shows "ts_phase s' = WAIT_REMOTE_READ \<Longrightarrow> in_flight_ok s'"
  using assms by (auto simp: ReadLocalStorage_def rbind_eq_Inr Let_def in_flight_ok_def set_holder_txn_simps split: if_splits)

lemma AdvanceTransaction_inv:
  assumes "AdvanceTransaction env rid w = Inr (w', out)" "worker_inv ((wk_states w)(rid := None))"
    and "wk_states w rid = Some s" "holder_wf (ts_holder s)" "ts_phase s = WAIT_REMOTE_READ \<longrightarrow> in_flight_ok s"
  shows "worker_inv (wk_states w')"
proof (cases "ts_phase s")
  case READ_LOCAL_STORAGE
  with assms(1,3) obtain s1 out1 where r: "ReadLocalStorage env rid (wk_storage w) s = Inr (s1, out1)"
    by (auto simp: AdvanceTransaction_def rbind_eq_Inr)
  let ?w = "w\<lparr>wk_states := (wk_states w)(rid \<mapsto> s1)\<rparr>"
  show ?thesis
  proof (cases "ts_phase s1 = WAIT_REMOTE_READ")
    case True
    with assms(1,3) READ_LOCAL_STORAGE r have "w' = ?w" by (simp add: AdvanceTransaction_def Let_def)
    with worker_inv_upd(3) [OF assms(2) ReadLocalStorage_state [OF r assms(4) True]] show ?thesis by simp
  next
    case False
    with assms(1,3) READ_LOCAL_STORAGE r obtain out2 where "run_from_execute env rid s1 ?w = Inr (w', out2)"
      by (auto simp: AdvanceTransaction_def Let_def rbind_eq_Inr)
    from run_from_execute_states [OF this] assms(2) show ?thesis by simp
  qed
next
  case WAIT_REMOTE_READ
  with assms show ?thesis using worker_inv_upd(3) [OF assms(2), of s] by (auto simp: AdvanceTransaction_def fun_upd_idem)
next
  case EXECUTE
  with assms(1,3) have "run_from_execute env rid s w = Inr (w', out)" by (simp add: AdvanceTransaction_def)
  from run_from_execute_states [OF this] assms(2) show ?thesis by simp
next
  case FINISH
  with assms show ?thesis by (auto simp: AdvanceTransaction_def rbind_eq_Inr)
qed

lemma worker_step_inv:
  assumes "worker_inv (wk_states w)" "worker_step env w op = Inr (w', out)"
    and "\<And>h d. op = WDispatch h d \<Longrightarrow> holder_wf h"
  shows "worker_inv (wk_states w')"
proof (cases op)
  case (WDispatch h d)
  then have wf: "holder_wf h" by (rule assms(3))
  from holder_wf_txn [OF wf] obtain txn where t: "holder_txn h = Inr txn" ..
  define states where "states = (if d \<and> wk_states w (tx_id txn, False) \<noteq> None
    then (wk_states w)((tx_id txn, False) := None) else wk_states w)"
  let ?s = "\<lparr>ts_holder = h, ts_remote_reads_waiting_on = 0, ts_phase = READ_LOCAL_STORAGE\<rparr>"
  let ?w = "w\<lparr>wk_states := states((tx_id txn, d) \<mapsto> ?s)\<rparr>"
  have inv: "worker_inv states" using worker_inv_upd(1) [OF assms(1)] assms(1) by (simp add: states_def)
  have "Worker_OnCustomSocket env h d w = (if states (tx_id txn, d) \<noteq> None then Inl (CheckFailed ''already dispatched'')
      else rbind (AdvanceTransaction env (tx_id txn, d) ?w) (\<lambda>(w2, out2). Inr (w2,
        (if d \<and> wk_states w (tx_id txn, False) \<noteq> None then [StopBrokerRedirect (MakeTag (tx_id txn, False))] else []) @ out2)))"
    by (simp add: Worker_OnCustomSocket_def t Let_def states_def)
  with assms(2) WDispatch obtain out2 where a: "AdvanceTransaction env (tx_id txn, d) ?w = Inr (w', out2)"
    by (auto simp: rbind_eq_Inr split: if_splits)
  show ?thesis
    by (rule AdvanceTransaction_inv [OF a, of ?s]) (use wf worker_inv_upd(1) [OF inv] in auto)
next
  case (WRemote rr)
  let ?rid = "(rr_txn_id rr, rr_deadlocked rr)"
  show ?thesis
  proof (cases "wk_states w ?rid")
    case None
    with assms(1,2) WRemote show ?thesis by (auto simp: Worker_OnInternalRequestReceived_def Let_def)
  next
    case (Some s)
    with assms(1) have ok: "in_flight_ok s" unfolding worker_inv_def by blast
    then have wf: "holder_wf (ts_holder s)" by (simp add: in_flight_ok_def)
    from holder_wf_txn [OF wf] obtain txn where t: "holder_txn (ts_holder s) = Inr txn" ..
    let ?k = "ts_remote_reads_waiting_on s - 1"
    let ?s1 = "s\<lparr>ts_holder := set_holder_txn (apply_remote_read rr txn) (ts_holder s), ts_remote_reads_waiting_on := ?k\<rparr>"
    let ?s2 = "if ?k = 0 then ?s1\<lparr>ts_phase := EXECUTE\<rparr> else ?s1"
    from assms(2) WRemote Some t ok obtain out2 where
      a: "AdvanceTransaction env ?rid (w\<lparr>wk_states := (wk_states w)(?rid \<mapsto> ?s2)\<rparr>) = Inr (w', out2)"
      by (auto simp: Worker_OnInternalRequestReceived_def Let_def rbind_eq_Inr in_flight_ok_def split: if_splits)
    show ?thesis
      by (rule AdvanceTransaction_inv [OF a, of ?s2])
        (use worker_inv_upd(1) [OF assms(1)] ok set_holder_txn_simps(1) [OF wf] in \<open>auto simp: in_flight_ok_def\<close>)
  qed
qed

text \<open>
  C33: between two messages every transaction a worker holds is waiting for remote reads, for
  at least one of them; so a remote read never finds a transaction in another phase, and
  the fatal branch for an invalid phase is unreachable.
\<close>

theorem worker_phase_invariant:
  assumes "run_ops (worker_step env) \<lparr>wk_states = Map.empty, wk_storage = st\<rparr> ops = Inr (w, outs)"
    and "\<forall>h d. WDispatch h d \<in> set ops \<longrightarrow> holder_wf h"
    and "\<forall>t s. we_execute env t s \<noteq> Inl (CheckFailed ''Invalid phase'')"
  shows "worker_inv (wk_states w) \<and> Worker_OnInternalRequestReceived env rr w \<noteq> Inl (CheckFailed ''Invalid phase'')"
proof -
  have inv: "worker_inv (wk_states w)"
  proof (rule run_ops_invariant [OF assms(1), where P = "\<lambda>w. worker_inv (wk_states w)"])
    fix w op w' out
    assume "worker_inv (wk_states w)" "op \<in> set ops" "worker_step env w op = Inr (w', out)"
    with assms(2) show "worker_inv (wk_states w')" by (metis worker_step_inv)
  qed (simp add: worker_inv_def)
  let ?rid = "(rr_txn_id rr, rr_deadlocked rr)"
  have fin: "Worker_Finish env rid s \<noteq> Inl (CheckFailed ''Invalid phase'')" for rid s
    by (auto simp: Worker_Finish_def FinalizeAndRelease_def rbind_def Let_def split: sum.splits option.splits prod.splits)
  have exe: "Worker_Execute env st s \<noteq> Inl (CheckFailed ''Invalid phase'')" for st s
    using assms(3) by (auto simp: Worker_Execute_def execute_remaster_def holder_txn_def rbind_def Let_def
        split: sum.splits option.splits prod.splits Program.splits list.splits if_splits)
  have run: "run_from_execute env rid s w \<noteq> Inl (CheckFailed ''Invalid phase'')" for rid s w
    by (auto simp: run_from_execute_def rbind_def exe fin split: sum.splits prod.splits)
  have "Worker_OnInternalRequestReceived env rr w \<noteq> Inl (CheckFailed ''Invalid phase'')"
  proof (cases "wk_states w ?rid")
    case (Some s)
    with inv have "in_flight_ok s" unfolding worker_inv_def by blast
    then have ph: "ts_phase s = WAIT_REMOTE_READ" and wf: "holder_wf (ts_holder s)" by (simp_all add: in_flight_ok_def)
    from holder_wf_txn [OF wf] obtain txn where "holder_txn (ts_holder s) = Inr txn" ..
    with Some ph show ?thesis
      by (cases "ts_remote_reads_waiting_on s - 1 = 0")
        (auto simp: Worker_OnInternalRequestReceived_def AdvanceTransaction_def Let_def rbind_def run split: sum.splits prod.splits)
  qed (simp add: Worker_OnInternalRequestReceived_def Let_def)
  with inv show ?thesis ..
qed

theorem worker_phase_invariant_witness:
  "\<exists>w outs. run_ops (worker_step sample_env) \<lparr>wk_states = Map.empty, wk_storage = ConcurrentHashMap_new\<rparr>
      [WDispatch (sample_holder [sample_two_parts]) False] = Inr (w, outs) \<and>
    wk_states w (5, False) \<noteq> None \<and> worker_inv (wk_states w) \<and>
    Worker_OnInternalRequestReceived sample_env sample_abort w \<noteq> Inl (CheckFailed ''Invalid phase'')"
proof -
  let ?h = "sample_holder [sample_two_parts]"
  let ?ops = "[WDispatch ?h False]"
  obtain w outs where r: "run_ops (worker_step sample_env) \<lparr>wk_states = Map.empty, wk_storage = ConcurrentHashMap_new\<rparr> ?ops = Inr (w, outs)"
    and s: "wk_states w (5, False) \<noteq> None"
    by (auto simp: Worker_OnCustomSocket_def AdvanceTransaction_def ReadLocalStorage_def check_and_read_def holder_txn_def
        sample_holder_def sample_two_parts_def sample_sub_def default_txn_def default_internal_def sample_env_def
        waiting_partitions_def sample_cf_def tx_id_def Let_def)
  have a: "\<forall>h d. WDispatch h d \<in> set ?ops \<longrightarrow> holder_wf h" by (simp add: holder_wf_def sample_holder_def)
  have b: "\<forall>t s. we_execute sample_env t s \<noteq> Inl (CheckFailed ''Invalid phase'')"
    by (simp add: sample_env_def NoopExecution_Execute_def)
  from worker_phase_invariant [OF r a b, of sample_abort] r s show ?thesis by blast
qed

text \<open>
  A remaster transaction that was aborted commits all the same.  Executing a remaster
  transaction sets its status to committed and writes its record, whatever the
  status the checks gave it, so remastering a key that does not exist creates the key.
\<close>

theorem remaster_ignores_abort:
  assumes "holder_wf (ts_holder s)" "holder_txn (ts_holder s) = Inr txn" "tx_status txn = ABORTED"
    and "tx_program txn = RemasterProgram new_master lo" "tx_keys txn = kv # kvs" "chm_inv hash st"
    and "we_read env = MemOnlyStorage_Read hash" "we_write env = MemOnlyStorage_Write hash"
  shows "\<exists>s' st' txn' r. Worker_Execute env st s = Inr (s', st') \<and> holder_txn (ts_holder s') = Inr txn' \<and>
    tx_status txn' = COMMITTED \<and> fst (MemOnlyStorage_Read hash st' (kv_key kv)) = Some r \<and> md_master (metadata_of r) = new_master"
proof -
  let ?rec = "SetMetadata (mk_Metadata new_master (md_counter (metadata (kv_entry kv)) + 1))
    (case fst (MemOnlyStorage_Read hash st (kv_key kv)) of None \<Rightarrow> Record_default | Some r \<Rightarrow> r)"
  obtain b st' where w: "MemOnlyStorage_Write hash st (kv_key kv) ?rec = (b, st')" by fastforce
  obtain r st'' where rd: "MemOnlyStorage_Read hash st' (kv_key kv) = (r, st'')" by fastforce
  from mem.write_read [OF assms(6) w rd] have "r = Some ?rec" by simp
  moreover have "holder_txn (h\<lparr>th_remaster_result := x\<rparr>) = holder_txn h" for h x by (simp add: holder_txn_def)
  ultimately show ?thesis using assms(2-5,7,8) w rd set_holder_txn_simps(2) [OF assms(1)]
    by (auto simp: Worker_Execute_def execute_remaster_def Let_def SetMetadata_def mk_Metadata_def)
qed

theorem remaster_ignores_abort_witness:
  "\<exists>s' st' txn' r. Worker_Execute sample_env ConcurrentHashMap_new
       \<lparr>ts_holder = sample_holder [(sample_sub 5 0 [])\<lparr>tx_program := RemasterProgram 3 False,
          tx_keys := [sample_kv ''k'' KeyWrite 0], tx_status := ABORTED\<rparr>],
        ts_remote_reads_waiting_on = 0, ts_phase = EXECUTE\<rparr> = Inr (s', st') \<and>
     holder_txn (ts_holder s') = Inr txn' \<and> tx_status txn' = COMMITTED \<and>
     fst (MemOnlyStorage_Read (\<lambda>k. 0) st' ''k'') = Some r \<and> md_master (metadata_of r) = 3"
proof -
  let ?txn = "(sample_sub 5 0 [])\<lparr>tx_program := RemasterProgram 3 False, tx_keys := [sample_kv ''k'' KeyWrite 0], tx_status := ABORTED\<rparr>"
  let ?s = "\<lparr>ts_holder = sample_holder [?txn], ts_remote_reads_waiting_on = 0, ts_phase = EXECUTE\<rparr>"
  have a: "holder_wf (ts_holder ?s)" "holder_txn (ts_holder ?s) = Inr ?txn"
    by (simp_all add: holder_wf_def holder_txn_def sample_holder_def)
  have b: "we_read sample_env = MemOnlyStorage_Read (\<lambda>k. 0)" "we_write sample_env = MemOnlyStorage_Write (\<lambda>k. 0)"
    by (simp_all add: sample_env_def)
  have k: "kv_key (sample_kv ''k'' KeyWrite 0) = ''k''" by (simp add: sample_kv_def)
  from remaster_ignores_abort [OF a _ _ _ chm_inv_new(1) b, of 3 False "sample_kv ''k'' KeyWrite 0" "[]"] k
  show ?thesis by simp
qed

end
