(* ===== verification/Remaster.thy ===== *)
theory Remaster
  imports Worker "HOL-Library.Sublist"
begin

section \<open>Remaster managers\<close>

text \<open>
  The queue managers in front of the lock manager when masters can move.  A transaction
  whose counters are ahead of the storage waits for the remaster it depends on;
  \<^verbatim>\<open>SimpleRemasterManager\<close> keeps one queue per local log, so that a waiting transaction
  blocks everything behind it in the same log.  \<open>get\<close> is the read of the storage at the
  time of the call and \<open>iter\<close> the order in which the hash map of the queues is traversed.
\<close>

subsection \<open>\<^verbatim>\<open>SimpleRemasterManager\<close>\<close>

record RemasterOccurredResult =
  ro_unblocked :: "Transaction list"
  ro_should_abort :: "Transaction list"

definition no_result :: RemasterOccurredResult where
  "no_result = \<lparr>ro_unblocked = [], ro_should_abort = []\<rparr>"

type_synonym SimpleRemasterManager = "uint32 \<rightharpoonup> Transaction list"

definition queue_of :: "uint32 \<Rightarrow> SimpleRemasterManager \<Rightarrow> Transaction list" where
  "queue_of r m = (case m r of None \<Rightarrow> [] | Some q \<Rightarrow> q)"

definition home_key :: "Transaction \<Rightarrow> uint32" where
  "home_key txn = of_int (ti_home (tx_internal txn))"

definition Simple_VerifyMaster ::
  "(Key \<Rightarrow> Record option) \<Rightarrow> Transaction \<Rightarrow> SimpleRemasterManager \<Rightarrow> (VerifyMasterResult \<times> SimpleRemasterManager) result" where
  "Simple_VerifyMaster get txn m =
     (let r = home_key txn in
      if tx_keys txn = [] then Inr (VALID, m)
      else if queue_of r m \<noteq> [] then Inr (VM_WAITING, m(r \<mapsto> queue_of r m @ [txn]))
      else rbind (CheckCounters txn True get) (\<lambda>result.
        Inr (result, if result = VM_WAITING then m(r \<mapsto> queue_of r m @ [txn]) else m)))"

fun try_queue ::
  "(Key \<Rightarrow> Record option) \<Rightarrow> Transaction list \<Rightarrow> RemasterOccurredResult \<Rightarrow> (Transaction list \<times> RemasterOccurredResult) result" where
  "try_queue get [] result = Inr ([], result)"
| "try_queue get (lo_txn # queue) result =
     rbind (CheckCounters lo_txn True get) (\<lambda>c.
       case c of
         VM_WAITING \<Rightarrow> Inr (lo_txn # queue, result)
       | VALID \<Rightarrow> try_queue get queue (result\<lparr>ro_unblocked := ro_unblocked result @ [lo_txn]\<rparr>)
       | VM_ABORT \<Rightarrow> try_queue get queue (result\<lparr>ro_should_abort := ro_should_abort result @ [lo_txn]\<rparr>))"

definition Simple_TryToUnblock ::
  "(Key \<Rightarrow> Record option) \<Rightarrow> uint32 \<Rightarrow> SimpleRemasterManager \<times> RemasterOccurredResult \<Rightarrow>
     (SimpleRemasterManager \<times> RemasterOccurredResult) result" where
  "Simple_TryToUnblock get r s =
     (case s of (m, result) \<Rightarrow>
       (if queue_of r m = [] then Inr (m, result)
        else rbind (try_queue get (queue_of r m) result) (\<lambda>(q, result'). Inr (m(r \<mapsto> q), result'))))"

fun try_regions ::
  "(Key \<Rightarrow> Record option) \<Rightarrow> uint32 list \<Rightarrow> SimpleRemasterManager \<times> RemasterOccurredResult \<Rightarrow>
     (SimpleRemasterManager \<times> RemasterOccurredResult) result" where
  "try_regions get [] s = Inr s"
| "try_regions get (r # rs) s = rbind (Simple_TryToUnblock get r s) (\<lambda>s1. try_regions get rs s1)"

definition head_has_key :: "Key \<Rightarrow> Transaction list \<Rightarrow> bool" where
  "head_has_key key q =
     (case q of [] \<Rightarrow> False
      | txn # _ \<Rightarrow> \<exists>kv\<in>set (tx_keys txn). sint (md_master (metadata (kv_entry kv))) = ti_home (tx_internal txn) \<and> kv_key kv = key)"

fun occured_loop ::
  "(Key \<Rightarrow> Record option) \<Rightarrow> Key \<Rightarrow> uint32 list \<Rightarrow> SimpleRemasterManager \<times> RemasterOccurredResult \<Rightarrow>
     (SimpleRemasterManager \<times> RemasterOccurredResult) result" where
  "occured_loop get key [] s = Inr s"
| "occured_loop get key (r # rs) s =
     rbind (if head_has_key key (queue_of r (fst s)) then Simple_TryToUnblock get r s else Inr s) (\<lambda>s1.
       occured_loop get key rs s1)"

definition Simple_RemasterOccured ::
  "(uint32 set \<Rightarrow> uint32 list) \<Rightarrow> (Key \<Rightarrow> Record option) \<Rightarrow> Key \<Rightarrow> SimpleRemasterManager \<Rightarrow>
     (SimpleRemasterManager \<times> RemasterOccurredResult) result" where
  "Simple_RemasterOccured iter get key m = occured_loop get key (iter (dom m)) (m, no_result)"

fun erase_txn :: "TxnId \<Rightarrow> Transaction list \<Rightarrow> Transaction list" where
  "erase_txn i [] = []"
| "erase_txn i (t # q) = (if tx_id t = i then q else t # erase_txn i q)"

fun release_loop :: "TxnId \<Rightarrow> uint32 list \<Rightarrow> SimpleRemasterManager \<Rightarrow> SimpleRemasterManager" where
  "release_loop i [] m = m"
| "release_loop i (r # rs) m =
     release_loop i rs (if queue_of r m = [] then m else m(r \<mapsto> erase_txn i (queue_of r m)))"

definition Simple_ReleaseTransaction ::
  "(Key \<Rightarrow> Record option) \<Rightarrow> Transaction \<Rightarrow> SimpleRemasterManager \<Rightarrow> (SimpleRemasterManager \<times> RemasterOccurredResult) result" where
  "Simple_ReleaseTransaction get txn m =
     (let regions = ti_involved_regions (tx_internal txn) in
      try_regions get regions (release_loop (tx_id txn) regions m, no_result))"

subsection \<open>Order of admission\<close>

text \<open>
  One call, with the storage as it is at that time; the output lists the transactions
  that may go on to the lock manager.
\<close>

datatype remaster_op =
    RVerify "Key \<Rightarrow> Record option" Transaction
  | ROccured "Key \<Rightarrow> Record option" Key
  | RRelease "Key \<Rightarrow> Record option" Transaction

fun remaster_step ::
  "(uint32 set \<Rightarrow> uint32 list) \<Rightarrow> SimpleRemasterManager \<Rightarrow> remaster_op \<Rightarrow> (SimpleRemasterManager \<times> Transaction list) result" where
  "remaster_step iter m (RVerify get txn) =
     rbind (Simple_VerifyMaster get txn m) (\<lambda>(r, m'). Inr (m', if r = VALID then [txn] else []))"
| "remaster_step iter m (ROccured get key) = rbind (Simple_RemasterOccured iter get key m) (\<lambda>(m', res). Inr (m', ro_unblocked res))"
| "remaster_step iter m (RRelease get txn) = rbind (Simple_ReleaseTransaction get txn m) (\<lambda>(m', res). Inr (m', ro_unblocked res))"

text \<open>
  The transactions of the local log \<open>r\<close>.  A transaction without keys belongs to no log: its
  verification does not look at a queue.
\<close>

definition of_log :: "uint32 \<Rightarrow> Transaction \<Rightarrow> bool" where
  "of_log r txn \<longleftrightarrow> home_key txn = r \<and> tx_keys txn \<noteq> []"

fun arrivals :: "uint32 \<Rightarrow> remaster_op list \<Rightarrow> Transaction list" where
  "arrivals r [] = []"
| "arrivals r (RVerify get txn # ops) = (if of_log r txn then txn # arrivals r ops else arrivals r ops)"
| "arrivals r (_ # ops) = arrivals r ops"

definition queues_ok :: "SimpleRemasterManager \<Rightarrow> bool" where
  "queues_ok m \<longleftrightarrow> (\<forall>r. \<forall>t\<in>set (queue_of r m). of_log r t)"

lemma queue_of_upd [simp]: "queue_of r (m(r' \<mapsto> q)) = (if r = r' then q else queue_of r m)"
  by (simp add: queue_of_def)

lemma arrivals_append [simp]: "arrivals r (xs @ ys) = arrivals r xs @ arrivals r ys"
  by (induction r xs rule: arrivals.induct) auto

lemma try_queue_subseq:
  "try_queue get q res = Inr (q', res') \<Longrightarrow>
     \<exists>u. ro_unblocked res' = ro_unblocked res @ u \<and> subseq (u @ q') q"
proof (induction q arbitrary: res)
  case (Cons t q)
  then obtain c where "CheckCounters t True get = Inr c" by (auto simp: rbind_eq_Inr)
  note c = this
  show ?case
  proof (cases c)
    case VALID
    with Cons.prems c have "try_queue get q (res\<lparr>ro_unblocked := ro_unblocked res @ [t]\<rparr>) = Inr (q', res')" by simp
    from Cons.IH [OF this] obtain u where "ro_unblocked res' = ro_unblocked res @ t # u" "subseq (u @ q') q" by auto
    then show ?thesis by (intro exI [of _ "t # u"]) simp
  next
    case VM_ABORT
    with Cons.prems c have "try_queue get q (res\<lparr>ro_should_abort := ro_should_abort res @ [t]\<rparr>) = Inr (q', res')" by simp
    from Cons.IH [OF this] obtain u where "ro_unblocked res' = ro_unblocked res @ u" "subseq (u @ q') q" by auto
    then show ?thesis by (intro exI [of _ u]) (simp add: list_emb_Cons)
  next
    case VM_WAITING
    with Cons.prems c show ?thesis by simp
  qed
qed simp

lemma subseq_set: "subseq xs ys \<Longrightarrow> set xs \<subseteq> set ys"
  by (induction rule: list_emb.induct) auto

text \<open>
  A step on the queues that moves transactions from the queues to the result, each queue
  in order.
\<close>

definition drains :: "SimpleRemasterManager \<times> RemasterOccurredResult \<Rightarrow> SimpleRemasterManager \<times> RemasterOccurredResult \<Rightarrow> bool" where
  "drains s s' \<longleftrightarrow> queues_ok (fst s') \<and>
     (\<exists>u. ro_unblocked (snd s') = ro_unblocked (snd s) @ u \<and>
       (\<forall>r. subseq (filter (of_log r) u @ queue_of r (fst s')) (queue_of r (fst s))))"

lemma drains_refl: "queues_ok (fst s) \<Longrightarrow> drains s s"
  by (auto simp: drains_def intro!: exI [of _ "[]"])

lemma drains_trans:
  assumes "drains s s'" "drains s' s''"
  shows "drains s s''"
proof -
  from assms obtain u u' where u: "ro_unblocked (snd s') = ro_unblocked (snd s) @ u"
    "\<And>r. subseq (filter (of_log r) u @ queue_of r (fst s')) (queue_of r (fst s))"
    and u': "ro_unblocked (snd s'') = ro_unblocked (snd s') @ u'"
    "\<And>r. subseq (filter (of_log r) u' @ queue_of r (fst s'')) (queue_of r (fst s'))" and q: "queues_ok (fst s'')"
    unfolding drains_def by blast
  have "subseq (filter (of_log r) (u @ u') @ queue_of r (fst s'')) (queue_of r (fst s))" for r
  proof -
    have "subseq (filter (of_log r) u @ filter (of_log r) u' @ queue_of r (fst s'')) (filter (of_log r) u @ queue_of r (fst s'))"
      by (rule list_emb_append_mono [OF subseq_order.order_refl u'(2)])
    from subseq_order.order_trans [OF this u(2)] show ?thesis by simp
  qed
  with u(1) u'(1) q show ?thesis unfolding drains_def by (intro conjI exI [of _ "u @ u'"]) simp_all
qed

lemma TryToUnblock_drains:
  assumes "Simple_TryToUnblock get r s = Inr s'" "queues_ok (fst s)"
  shows "drains s s'"
proof (cases "queue_of r (fst s) = []")
  case True
  with assms drains_refl show ?thesis by (auto simp: Simple_TryToUnblock_def split: prod.splits)
next
  case False
  with assms(1) obtain q res where t: "try_queue get (queue_of r (fst s)) (snd s) = Inr (q, res)" and s': "s' = ((fst s)(r \<mapsto> q), res)"
    by (auto simp: Simple_TryToUnblock_def rbind_eq_Inr split: prod.splits)
  from try_queue_subseq [OF t] obtain u where u: "ro_unblocked res = ro_unblocked (snd s) @ u" "subseq (u @ q) (queue_of r (fst s))"
    by blast
  have ok: "of_log r t" if "t \<in> set (u @ q)" for t
    using subseq_set [OF u(2)] that assms(2) by (auto simp: queues_ok_def)
  then have "filter (of_log r) u = u" and "r' \<noteq> r \<Longrightarrow> filter (of_log r') u = []" for r'
    by (auto simp: filter_id_conv filter_empty_conv of_log_def)
  then have "subseq (filter (of_log r') u @ queue_of r' ((fst s)(r \<mapsto> q))) (queue_of r' (fst s))" for r'
    using u(2) by (cases "r' = r") simp_all
  moreover have "queues_ok ((fst s)(r \<mapsto> q))" using assms(2) ok by (auto simp: queues_ok_def)
  ultimately show ?thesis using u(1) s' by (auto simp: drains_def)
qed

lemma drains_ok: "drains s s' \<Longrightarrow> queues_ok (fst s')"
  by (simp add: drains_def)

lemma try_regions_drains: "try_regions get rs s = Inr s' \<Longrightarrow> queues_ok (fst s) \<Longrightarrow> drains s s'"
proof (induction rs arbitrary: s)
  case (Cons r rs)
  then obtain s1 where "Simple_TryToUnblock get r s = Inr s1" "try_regions get rs s1 = Inr s'" by (auto simp: rbind_eq_Inr)
  with Cons show ?case by (metis TryToUnblock_drains drains_ok drains_trans)
qed (auto intro: drains_refl)

lemma occured_loop_drains: "occured_loop get key rs s = Inr s' \<Longrightarrow> queues_ok (fst s) \<Longrightarrow> drains s s'"
proof (induction rs arbitrary: s)
  case (Cons r rs)
  obtain s1 where s1: "(if head_has_key key (queue_of r (fst s)) then Simple_TryToUnblock get r s else Inr s) = Inr s1"
    and rest: "occured_loop get key rs s1 = Inr s'" using Cons.prems(1) by (auto simp: rbind_eq_Inr)
  have "drains s s1" using s1 Cons.prems(2) TryToUnblock_drains [of get r s s1] drains_refl [of s] by (simp split: if_splits)
  from drains_trans [OF this Cons.IH [OF rest drains_ok [OF this]]] show ?case .
qed (auto intro: drains_refl)

lemma erase_txn_subseq: "subseq (erase_txn i q) q"
  by (induction q) auto

lemma release_loop_drains: "queues_ok m \<Longrightarrow> drains (m, res) (release_loop i rs m, res)"
proof (induction rs arbitrary: m)
  case (Cons r rs)
  let ?m = "if queue_of r m = [] then m else m(r \<mapsto> erase_txn i (queue_of r m))"
  have ok: "queues_ok ?m" using Cons.prems subseq_set [OF erase_txn_subseq [of i "queue_of r m"]] by (auto simp: queues_ok_def)
  then have "drains (m, res) (?m, res)" by (auto simp: drains_def erase_txn_subseq intro!: exI [of _ "[]"])
  from drains_trans [OF this Cons.IH [OF ok]] show ?case by simp
qed (simp add: drains_refl)

lemma remaster_step_order:
  assumes "remaster_step iter m op = Inr (m', outs)" "queues_ok m" "subseq (adm @ queue_of r m) arr"
  shows "queues_ok m' \<and> subseq (adm @ filter (of_log r) outs @ queue_of r m') (arr @ arrivals r [op])"
proof -
  have drained: "queues_ok m' \<and> subseq (adm @ filter (of_log r) (ro_unblocked res) @ queue_of r m') arr"
    if "drains (m, no_result) (m', res)" for res
  proof -
    have "subseq (filter (of_log r) (ro_unblocked res) @ queue_of r m') (queue_of r m)"
      using that by (auto simp: drains_def no_result_def)
    from list_emb_append_mono [OF subseq_order.order_refl this, of adm] assms(3) show ?thesis
      using drains_ok [OF that] subseq_order.order_trans by force
  qed
  show ?thesis
  proof (cases op)
    case (RVerify get txn)
    with assms(1) obtain v where v: "Simple_VerifyMaster get txn m = Inr (v, m')" and o: "outs = (if v = VALID then [txn] else [])"
      by (auto simp: rbind_eq_Inr)
    consider (empty) "tx_keys txn = []" "m' = m" | (queued) "of_log (home_key txn) txn" "v = VM_WAITING" "m' = m(home_key txn \<mapsto> queue_of (home_key txn) m @ [txn])"
      | (free) "of_log (home_key txn) txn" "queue_of (home_key txn) m = []" "m' = m" "v \<noteq> VM_WAITING"
      using v by (auto simp: Simple_VerifyMaster_def of_log_def rbind_eq_Inr Let_def split: if_splits)
    then show ?thesis
    proof cases
      case empty
      with RVerify o assms(2,3) show ?thesis by (auto simp: of_log_def)
    next
      case queued
      have "subseq (adm @ queue_of r m @ [txn]) (arr @ [txn])" using assms(3) by (simp flip: append_assoc)
      with queued RVerify o assms(2,3) show ?thesis by (auto simp: queues_ok_def of_log_def)
    next
      case free
      show ?thesis
      proof (cases "home_key txn = r")
        case True
        with free assms(3) have "subseq (adm @ [txn]) (arr @ [txn])" "subseq adm (arr @ [txn])"
          by (simp_all add: list_emb_prefix)
        with True free RVerify o assms(2) show ?thesis by (auto simp: of_log_def)
      next
        case False
        with free RVerify o assms(2,3) show ?thesis by (auto simp: of_log_def)
      qed
    qed
  next
    case (ROccured get key)
    with assms(1) obtain res where "occured_loop get key (iter (dom m)) (m, no_result) = Inr (m', res)" "outs = ro_unblocked res"
      by (auto simp: Simple_RemasterOccured_def rbind_eq_Inr)
    with drained [of res] occured_loop_drains assms(2) ROccured show ?thesis by force
  next
    case (RRelease get txn)
    let ?rs = "ti_involved_regions (tx_internal txn)"
    from RRelease assms(1) obtain res where t: "try_regions get ?rs (release_loop (tx_id txn) ?rs m, no_result) = Inr (m', res)"
      and o: "outs = ro_unblocked res" by (auto simp: Simple_ReleaseTransaction_def rbind_eq_Inr Let_def)
    have d: "drains (m, no_result) (release_loop (tx_id txn) ?rs m, no_result)" by (rule release_loop_drains [OF assms(2)])
    from drains_trans [OF d try_regions_drains [OF t]] drains_ok [OF d] drained o RRelease show ?thesis by simp
  qed
qed

lemma remaster_run_order:
  assumes "run_ops (remaster_step iter) m ops = Inr (m', outs)" "queues_ok m" "subseq (adm @ queue_of r m) arr"
  shows "subseq (adm @ filter (of_log r) outs @ queue_of r m') (arr @ arrivals r ops)"
  using assms
proof (induction ops arbitrary: m outs adm arr)
  case (Cons op ops)
  from Cons.prems(1) obtain m1 o1 o2 where step: "remaster_step iter m op = Inr (m1, o1)"
    and rest: "run_ops (remaster_step iter) m1 ops = Inr (m', o2)" and outs: "outs = o1 @ o2" by (rule run_ops_ConsE)
  from remaster_step_order [OF step Cons.prems(2,3)] have "queues_ok m1"
    "subseq ((adm @ filter (of_log r) o1) @ queue_of r m1) (arr @ arrivals r [op])" by simp_all
  from Cons.IH [OF rest this] outs show ?case using arrivals_append [of r "[op]" ops] by simp
qed simp

text \<open>
  C34: the simple remaster manager keeps the log order.  Whatever remasters occur and
  whatever transactions are released in between, the transactions of one local log (those
  with at least one key) that are admitted to the lock manager, followed by those still queued, are a subsequence of
  the transactions of that log in the order they arrived: none overtakes another, and none
  is admitted twice.
\<close>

theorem remaster_keeps_log_order:
  assumes "run_ops (remaster_step iter) Map.empty ops = Inr (m, outs)"
  shows "subseq (filter (of_log r) outs @ queue_of r m) (arrivals r ops)"
  using remaster_run_order [OF assms, of "[]" r "[]"] by (simp add: queues_ok_def queue_of_def)

definition sample_counter_txn :: "TxnId \<Rightarrow> uint32 \<Rightarrow> Transaction" where
  "sample_counter_txn t c = (sample_sub t 0 [])\<lparr>tx_keys := [\<lparr>kv_key = ''k'', kv_entry = \<lparr>ve_value = [], ve_new_value = [],
     ve_type = KeyWrite, ve_metadata = Some (mk_Metadata 0 c)\<rparr>\<rparr>]\<rparr>"

theorem remaster_keeps_log_order_witness:
  "let ops = [RVerify (\<lambda>_. None) (sample_counter_txn 1 1), RVerify (\<lambda>_. None) (sample_counter_txn 2 0),
       ROccured (\<lambda>_. Some (mk_Record [] 0 1)) ''k''] in
   \<exists>m outs. run_ops (remaster_step (\<lambda>_. [0])) Map.empty ops = Inr (m, outs) \<and> outs = [sample_counter_txn 1 1] \<and>
     subseq (filter (of_log 0) outs @ queue_of 0 m) (arrivals 0 ops)"
proof -
  let ?ops = "[RVerify (\<lambda>_. None) (sample_counter_txn 1 1), RVerify (\<lambda>_. None) (sample_counter_txn 2 0),
     ROccured (\<lambda>_. Some (mk_Record [] 0 1)) ''k'']"
  obtain m outs where r: "run_ops (remaster_step (\<lambda>_. [0])) Map.empty ?ops = Inr (m, outs)" and o: "outs = [sample_counter_txn 1 1]"
    by (simp add: Simple_VerifyMaster_def Simple_RemasterOccured_def Simple_TryToUnblock_def head_has_key_def queue_of_def
        home_key_def CheckCounters_def sample_counter_txn_def sample_sub_def default_txn_def default_internal_def
        metadata_def mk_Metadata_def mk_Record_def SetValue_def SetMetadata_def Record_default_def no_result_def Let_def)
  from remaster_keeps_log_order [OF r, of 0] r o show ?thesis unfolding Let_def by blast
qed

end
