(* ===== verification/Log_Manager.thy ===== *)
theory Log_Manager
  imports Config
begin

section \<open>The log manager (\<^verbatim>\<open>module/log_manager.cpp\<close>)\<close>

text \<open>
  A log manager merges the decisions of the local ordering with the batches it receives
  into one log per home region, replicates the local order to the other regions, and
  hands the transactions of every complete prefix to the scheduler.  It composes the
  local log and the batch logs of \<open>Logs\<close>.  Messages that leave are the output of a
  handler; the clock is the argument \<open>now\<close>, and \<open>iter\<close> is the order in which the hash
  map of the logs is traversed.
\<close>

datatype LogRequest =
    BatchReplicationAck BatchId
  | ForwardBatchData MachineId uint32 "Transaction Batch list"
  | LocalBatchOrder SlotId MachineId MachineId
  | RemoteBatchOrder BatchId SlotId uint32 bool

text \<open>\<open>LEmit r ts\<close> stands for the messages of one \<^verbatim>\<open>EmitBatch\<close>: the transactions \<open>ts\<close> of a batch
  of the log of region \<open>r\<close>, sent one by one to the scheduler.\<close>

datatype LogOut =
    LSend LogRequest "MachineId list" Channel
  | LEmit RegionId "Transaction list"

record LogManager =
  lg_local_log :: LocalLog
  lg_single_home_logs :: "RegionId \<rightharpoonup> Transaction BatchLog"
  lg_other_partitions :: "MachineId list"
  lg_other_replicas :: "MachineId list"
  lg_need_ack_from_region :: "bool list"

definition kMaxChannel :: nat where "kMaxChannel = 70"

definition MakeLogChannel :: "RegionId \<Rightarrow> Channel" where
  "MakeLogChannel region = of_nat kMaxChannel + ucast region"

definition local_reg :: "Configuration \<Rightarrow> RegionId" where
  "local_reg cf = of_nat (cf_local_region cf)"

definition local_rep :: "Configuration \<Rightarrow> ReplicaId" where
  "local_rep cf = of_nat (cf_local_replica cf)"

definition local_part :: "Configuration \<Rightarrow> PartitionId" where
  "local_part cf = of_nat (cf_local_partition cf)"

definition LogManager_new :: "Configuration \<Rightarrow> LogManager" where
  "LogManager_new cf =
     \<lparr>lg_local_log = LocalLog_new, lg_single_home_logs = Map.empty,
      lg_other_partitions = map (\<lambda>p. MakeMachineId (local_reg cf) (local_rep cf) (of_nat p))
        (filter (\<lambda>p. of_nat p \<noteq> local_part cf) [0..<num_partitions cf]),
      lg_other_replicas = map (\<lambda>r. MakeMachineId (local_reg cf) (of_nat r) (local_part cf))
        (filter (\<lambda>r. of_nat r \<noteq> local_rep cf) [0..<num_replicas (cf_local_region cf) cf]),
      lg_need_ack_from_region =
        foldl (\<lambda>acks r. acks[unat r := True]) (replicate (num_regions cf) False)
          (take (replication_factor cf - 1) (cf_replication_order cf))\<rparr>"

definition log_at :: "RegionId \<Rightarrow> LogManager \<Rightarrow> Transaction BatchLog" where
  "log_at r g = (case lg_single_home_logs g r of None \<Rightarrow> BatchLog_new | Some l \<Rightarrow> l)"

definition set_log :: "RegionId \<Rightarrow> Transaction BatchLog \<Rightarrow> LogManager \<Rightarrow> LogManager" where
  "set_log r l g = g\<lparr>lg_single_home_logs := (lg_single_home_logs g)(r \<mapsto> l)\<rparr>"

definition first_time :: "Configuration \<Rightarrow> MachineId \<Rightarrow> bool \<times> bool" where
  "first_time cf from =
     (case UnpackMachineId from of (from_region, from_replica, _) \<Rightarrow>
        let first_time_region = (from_region \<noteq> local_reg cf) in
        (first_time_region, first_time_region \<or> from_replica \<noteq> local_rep cf))"

subsection \<open>Handlers\<close>

definition ProcessBatchReplicationAck ::
  "Configuration \<Rightarrow> MachineId \<Rightarrow> BatchId \<Rightarrow> LogManager \<Rightarrow> (LogManager \<times> LogOut list) result" where
  "ProcessBatchReplicationAck cf from batch_id g =
     (let (first_time_region, first_time_replica) = first_time cf from;
        ch = MakeLogChannel (local_reg cf); msg = BatchReplicationAck batch_id;
        out = (if first_time_region then [LSend msg (lg_other_replicas g) ch] else []) @
              (if first_time_replica then [LSend msg (lg_other_partitions g) ch] else []) in
      rbind (BatchLog_AckReplication batch_id (log_at (local_reg cf) g)) (\<lambda>l.
        Inr (set_log (local_reg cf) l g, out)))"

text \<open>The batch of each partition, from the last to the first; the local one is kept.\<close>

definition distribute_batch ::
  "Configuration \<Rightarrow> MachineId \<Rightarrow> uint32 \<Rightarrow> Transaction Batch list \<Rightarrow> LogOut list" where
  "distribute_batch cf generator position batches =
     map (\<lambda>p. LSend (ForwardBatchData generator position [batches ! p])
        [MakeMachineId (local_reg cf) (local_rep cf) (of_nat p)] (MakeLogChannel (ucast (GET_REGION_ID generator))))
       (rev (filter (\<lambda>p. of_nat p \<noteq> local_part cf) [0..<length batches]))"

definition my_batch ::
  "Configuration \<Rightarrow> bool \<Rightarrow> Transaction Batch list \<Rightarrow> Transaction Batch result" where
  "my_batch cf first_time_replica batches =
     (if first_time_replica then
        (if length batches \<noteq> num_partitions cf then Inl (CheckFailed ''batch_data_size'')
         else if cf_local_partition cf < length batches then Inr (batches ! cf_local_partition cf)
         else Inl (Undefined ''null batch''))
      else if batches = [] then Inl (Undefined ''ReleaseLast'') else Inr (last batches))"

definition ProcessForwardBatchData ::
  "Configuration \<Rightarrow> MachineId \<Rightarrow> MachineId \<Rightarrow> uint32 \<Rightarrow> Transaction Batch list \<Rightarrow> LogManager \<Rightarrow>
     (LogManager \<times> LogOut list) result" where
  "ProcessForwardBatchData cf from generator position batches g =
     (let (first_time_region, first_time_replica) = first_time cf from;
        generator_home = ucast (GET_REGION_ID generator) :: RegionId;
        out = (if first_time_region
               then [LSend (ForwardBatchData generator position batches) (lg_other_replicas g) (MakeLogChannel generator_home)] else []) @
              (if first_time_replica then distribute_batch cf generator position batches else []) in
      rbind (my_batch cf first_time_replica batches) (\<lambda>batch.
      rbind (if generator_home = local_reg cf
             then rbind (LocalLog_AddBatchId generator position (b_id batch) (lg_local_log g)) (\<lambda>ll.
               Inr (g\<lparr>lg_local_log := ll\<rparr>))
             else Inr g) (\<lambda>g1.
      rbind (BatchLog_AddBatch batch (log_at generator_home g1)) (\<lambda>l.
        Inr (set_log generator_home l g1, out)))))"

definition ProcessLocalBatchOrder ::
  "Configuration \<Rightarrow> MachineId \<Rightarrow> SlotId \<Rightarrow> MachineId \<Rightarrow> MachineId \<Rightarrow> LogManager \<Rightarrow> (LogManager \<times> LogOut list) result" where
  "ProcessLocalBatchOrder cf from slot generator leader g =
     rbind (LocalLog_AddSlot slot generator leader (lg_local_log g)) (\<lambda>ll.
       Inr (g\<lparr>lg_local_log := ll\<rparr>,
         if GET_REPLICA_ID leader \<noteq> ucast (local_rep cf) \<and> ucast (GET_PARTITION_ID from) = local_part cf
         then [LSend (LocalBatchOrder slot generator leader) (lg_other_partitions g) (MakeLogChannel (local_reg cf))] else []))"

definition ProcessRemoteBatchOrder ::
  "Configuration \<Rightarrow> int \<Rightarrow> MachineId \<Rightarrow> BatchId \<Rightarrow> SlotId \<Rightarrow> uint32 \<Rightarrow> bool \<Rightarrow> LogManager \<Rightarrow> (LogManager \<times> LogOut list) result" where
  "ProcessRemoteBatchOrder cf now from batch_id slot home need_ack g =
     (let (first_time_region, first_time_replica) = first_time cf from;
        r = ucast home :: RegionId; tag = MakeLogChannel r; msg = RemoteBatchOrder batch_id slot home need_ack;
        out = (if first_time_region
               then LSend msg (lg_other_replicas g) tag # (if need_ack then [LSend (BatchReplicationAck batch_id) [from] tag] else [])
               else []) @
              (if first_time_replica then [LSend msg (lg_other_partitions g) tag] else []) in
      rbind (BatchLog_AddSlot now slot batch_id 0 (log_at r g)) (\<lambda>l. Inr (set_log r l g, out)))"

subsection \<open>Advancing the logs\<close>

definition replicate_order :: "Configuration \<Rightarrow> LogManager \<Rightarrow> SlotId \<Rightarrow> BatchId \<Rightarrow> LogOut list" where
  "replicate_order cf g slot_id batch_id =
     (let nr = num_regions cf; np = num_partitions cf;
        others = filter (\<lambda>reg. of_nat reg \<noteq> local_reg cf) [0..<nr];
        target = (\<lambda>reg. MakeMachineId (of_nat reg) 0 (of_nat ((reg + nr - cf_local_region cf) mod nr mod np)));
        destinations = map target (filter (\<lambda>reg. \<not> lg_need_ack_from_region g ! reg) others);
        ack_destinations = map target (filter (\<lambda>reg. lg_need_ack_from_region g ! reg) others);
        order = (\<lambda>ack. RemoteBatchOrder batch_id slot_id (ucast (local_reg cf)) ack);
        ch = MakeLogChannel (local_reg cf) in
      [LSend (order False) destinations ch, LSend (order True) ack_destinations ch])"

function advance_local :: "Configuration \<Rightarrow> int \<Rightarrow> LogManager \<Rightarrow> (LogManager \<times> LogOut list) result" where
  "advance_local cf now g =
     (if LocalLog_HasNextBatch (lg_local_log g)
      then rbind (LocalLog_NextBatch (lg_local_log g)) (\<lambda>(entry, ll).
        let slot_id = fst entry; batch_id = fst (snd entry); leader = snd (snd entry) in
        rbind (BatchLog_AddSlot now slot_id batch_id (int (replication_factor cf) - 1) (log_at (local_reg cf) g)) (\<lambda>l.
        rbind (advance_local cf now ((set_log (local_reg cf) l g)\<lparr>lg_local_log := ll\<rparr>)) (\<lambda>(g', out).
          Inr (g', (if cf_local_machine_id cf = leader then replicate_order cf g slot_id batch_id else []) @ out))))
      else Inr (g, []))"
  by pat_completeness auto
termination
  by (relation "measure (\<lambda>(cf, now, g). length (ll_ready (lg_local_log g)))")
    (auto simp: LocalLog_NextBatch_def set_log_def split: list.splits)

declare advance_local.simps [simp del]

function drain_log :: "Transaction BatchLog \<Rightarrow> (Transaction BatchLog \<times> Transaction Batch list) result" where
  "drain_log l =
     (if BatchLog_HasNextBatch l
      then rbind (BatchLog_NextBatch l) (\<lambda>(next_batch, l1). rbind (drain_log l1) (\<lambda>(l2, bs). Inr (l2, snd next_batch # bs)))
      else Inr (l, []))"
  by pat_completeness auto
termination
  by (relation "measure (\<lambda>l. length (bl_ready l))")
    (auto simp: BatchLog_NextBatch_def split: list.splits option.splits)

declare drain_log.simps [simp del]

fun drain_logs :: "RegionId list \<Rightarrow> LogManager \<Rightarrow> (LogManager \<times> LogOut list) result" where
  "drain_logs [] g = Inr (g, [])"
| "drain_logs (r # rs) g =
     rbind (drain_log (log_at r g)) (\<lambda>(l, bs).
     rbind (drain_logs rs (set_log r l g)) (\<lambda>(g', out). Inr (g', map (\<lambda>b. LEmit r (Unbatch b)) bs @ out)))"

definition AdvanceLog ::
  "(RegionId set \<Rightarrow> RegionId list) \<Rightarrow> Configuration \<Rightarrow> int \<Rightarrow> LogManager \<Rightarrow> (LogManager \<times> LogOut list) result" where
  "AdvanceLog iter cf now g =
     rbind (advance_local cf now g) (\<lambda>(g1, out1).
     rbind (drain_logs (iter (dom (lg_single_home_logs g1))) g1) (\<lambda>(g2, out2). Inr (g2, out1 @ out2)))"

fun process_log_request ::
  "Configuration \<Rightarrow> int \<Rightarrow> MachineId \<Rightarrow> LogRequest \<Rightarrow> LogManager \<Rightarrow> (LogManager \<times> LogOut list) result" where
  "process_log_request cf now from (BatchReplicationAck i) g = ProcessBatchReplicationAck cf from i g"
| "process_log_request cf now from (ForwardBatchData gen pos bs) g = ProcessForwardBatchData cf from gen pos bs g"
| "process_log_request cf now from (LocalBatchOrder s gen leader) g = ProcessLocalBatchOrder cf from s gen leader g"
| "process_log_request cf now from (RemoteBatchOrder i s home ack) g = ProcessRemoteBatchOrder cf now from i s home ack g"

type_synonym log_event = "int \<times> MachineId \<times> LogRequest"

definition LogManager_OnInternalRequestReceived ::
  "(RegionId set \<Rightarrow> RegionId list) \<Rightarrow> Configuration \<Rightarrow> LogManager \<Rightarrow> log_event \<Rightarrow> (LogManager \<times> LogOut list) result" where
  "LogManager_OnInternalRequestReceived iter cf g ev =
     (case ev of (now, from, req) \<Rightarrow>
        rbind (process_log_request cf now from req g) (\<lambda>(g1, out1).
        rbind (AdvanceLog iter cf now g1) (\<lambda>(g2, out2). Inr (g2, out1 @ out2))))"

subsection \<open>What a log manager emits\<close>

fun emitted :: "RegionId \<Rightarrow> LogOut list \<Rightarrow> Transaction list list" where
  "emitted r [] = []"
| "emitted r (LEmit r' ts # os) = (if r' = r then ts # emitted r os else emitted r os)"
| "emitted r (LSend _ _ _ # os) = emitted r os"

lemma emitted_append [simp]: "emitted r (xs @ ys) = emitted r xs @ emitted r ys"
  by (induction r xs rule: emitted.induct) auto

lemma emitted_LEmit: "emitted r (map (\<lambda>b. LEmit r' (f b)) bs) = (if r' = r then map f bs else [])"
  by (induction bs) auto

lemma emitted_sends: "(\<And>x. x \<in> set os \<Longrightarrow> \<exists>m d c. x = LSend m d c) \<Longrightarrow> emitted r os = []"
  by (induction os) force+

text \<open>
  A log of which \<open>n\<close> batches were delivered, in agreement with the decided slots \<open>S\<close> and
  the batch data \<open>D\<close>.
\<close>

definition log_ok :: "(SlotId \<Rightarrow> BatchId) \<Rightarrow> (BatchId \<Rightarrow> Transaction Batch) \<Rightarrow> nat \<Rightarrow> Transaction BatchLog \<Rightarrow> bool" where
  "log_ok S D n l \<longleftrightarrow> bl_sane l \<and> bl_agrees S D l \<and> bl_cursor l = of_nat n"

lemma log_ok_new: "log_ok S D 0 BatchLog_new"
  by (simp add: log_ok_def bl_sane_def bl_cursor_def bl_agrees_def BatchLog_new_def AsyncLog_new_def)

lemma log_ok_step:
  assumes "log_ok S D n l" "bl_step l op = Inr (l', outs)" "bl_agrees_op S D op"
  shows "log_ok S D (n + length outs) l'"
  using assms bl_step_sane [OF _ assms(2)] bl_step_agrees [OF _ assms(3,2)] by (simp add: log_ok_def)

lemma log_ok_ops:
  assumes "log_ok S D n l"
  shows "BatchLog_AckReplication i l = Inr l' \<Longrightarrow> log_ok S D n l'"
    "D (b_id b) = b \<Longrightarrow> BatchLog_AddBatch b l = Inr l' \<Longrightarrow> log_ok S D n l'"
    "S slot = i \<Longrightarrow> BatchLog_AddSlot t slot i rf l = Inr l' \<Longrightarrow> log_ok S D n l'"
  using log_ok_step [OF assms, of "BLAck i" l' "[]"] log_ok_step [OF assms, of "BLAddBatch b" l' "[]"]
    log_ok_step [OF assms, of "BLAddSlot t slot i rf" l' "[]"] by simp_all

lemma drain_log_ok:
  "log_ok S D n l \<Longrightarrow> drain_log l = Inr (l', bs) \<Longrightarrow>
     bs = map (\<lambda>p. D (S p)) (consecutive (of_nat n) (length bs)) \<and> log_ok S D (n + length bs) l'"
proof (induction "length (bl_ready l)" arbitrary: l n bs rule: less_induct)
  case less
  show ?case
  proof (cases "BatchLog_HasNextBatch l")
    case False
    with less.prems show ?thesis by (simp add: drain_log.simps [of l])
  next
    case True
    with less.prems(2) obtain slot b l1 bs1 where nb: "BatchLog_NextBatch l = Inr ((slot, b), l1)"
      and rest: "drain_log l1 = Inr (l', bs1)" and bs: "bs = b # bs1"
      by (auto simp: drain_log.simps [of l] rbind_eq_Inr)
    have "bl_step l BLNext = Inr (l1, [(slot, b)])" using nb by simp
    from log_ok_step [OF less.prems(1) this] have ok: "log_ok S D (n + 1) l1" by simp
    from less.prems(1) NextBatch_sane [OF nb] NextBatch_agrees [OF nb, of S D] have b: "b = D (S (of_nat n))"
      by (simp add: log_ok_def)
    have "length (bl_ready l1) < length (bl_ready l)" using NextBatch_inv [OF nb] by fastforce
    from less.hyps [OF this ok rest] b bs show ?thesis by (simp add: consecutive_Suc add.commute [of 1])
  qed
qed

text \<open>
  The whole manager: \<open>Sl\<close> are the decisions of the local ordering, \<open>B\<close> the batches of each
  generator, \<open>S r\<close> and \<open>D\<close> the slots of the log of region \<open>r\<close> and the data of the batches; \<open>c\<close>
  local orders were received and \<open>k r\<close> batches of region \<open>r\<close> emitted.
\<close>

definition ll_bounded :: "(SlotId \<Rightarrow> uint32 \<times> MachineId) \<Rightarrow> (uint32 \<Rightarrow> uint32 \<Rightarrow> BatchId) \<Rightarrow> nat \<Rightarrow> LocalLog \<Rightarrow> bool" where
  "ll_bounded Sl B c ll \<longleftrightarrow> (\<exists>m n. ll_agrees Sl B m n ll \<and> n + card (dom (al_log (ll_slots ll))) \<le> c)"

definition lg_inv :: "(SlotId \<Rightarrow> uint32 \<times> MachineId) \<Rightarrow> (uint32 \<Rightarrow> uint32 \<Rightarrow> BatchId) \<Rightarrow> (RegionId \<Rightarrow> SlotId \<Rightarrow> BatchId) \<Rightarrow>
    (BatchId \<Rightarrow> Transaction Batch) \<Rightarrow> nat \<Rightarrow> (RegionId \<Rightarrow> nat) \<Rightarrow> LogManager \<Rightarrow> bool" where
  "lg_inv Sl B S D c k g \<longleftrightarrow> ll_bounded Sl B c (lg_local_log g) \<and> (\<forall>r. log_ok (S r) D (k r) (log_at r g))"

lemma log_at_set_log [simp]: "log_at r (set_log r' l g) = (if r = r' then l else log_at r g)"
  "lg_local_log (set_log r' l g) = lg_local_log g" "log_at r (g\<lparr>lg_local_log := ll\<rparr>) = log_at r g"
  by (simp_all add: log_at_def set_log_def)

lemma lg_inv_set_log:
  assumes "lg_inv Sl B S D c k g" "log_ok (S r) D n l"
  shows "lg_inv Sl B S D c (k(r := n)) (set_log r l g)"
  using assms by (simp add: lg_inv_def)

lemma ll_bounded_update:
  assumes "ll_agrees Sl B m n ll" "n + card (dom (al_log (ll_slots ll))) \<le> c" "LocalLog_UpdateReadyBatches ll = Inr ll'"
  shows "ll_bounded Sl B c ll'"
proof -
  let ?P = "\<lambda>ll. \<exists>n. ll_agrees Sl B m n ll \<and> n + card (dom (al_log (ll_slots ll))) \<le> c"
  have "?P (ll_round l q leader a b)" if "?P l" "ll_can_advance l q leader a b" for l q leader a b
  proof -
    from that(1) obtain n where n: "ll_agrees Sl B m n l" "n + card (dom (al_log (ll_slots l))) \<le> c" by blast
    have "card (dom (al_log (ll_slots (ll_round l q leader a b)))) < card (dom (al_log (ll_slots l)))"
      using that(2) by (simp add: ll_round_def ll_can_advance_def card_dom_remove)
    with n(2) have "Suc n + card (dom (al_log (ll_slots (ll_round l q leader a b)))) \<le> c" by simp
    with ll_round_agrees [OF n(1) that(2)] show ?thesis by blast
  qed
  from LocalLog_Update_induct [of ?P ll, OF _ this] assms show ?thesis unfolding ll_bounded_def by fastforce
qed

lemma ll_bounded_AddSlot:
  assumes "ll_bounded Sl B c ll" "Sl s = (q, leader)" "LocalLog_AddSlot s q leader ll = Inr ll'"
  shows "ll_bounded Sl B (Suc c) ll'"
proof -
  from assms(1) obtain m n where mn: "ll_agrees Sl B m n ll" "n + card (dom (al_log (ll_slots ll))) \<le> c"
    unfolding ll_bounded_def by blast
  from assms(2,3) obtain a where a: "AsyncLog_Insert s (Sl s) (ll_slots ll) = Inr a"
    and u: "LocalLog_UpdateReadyBatches (ll\<lparr>ll_slots := a\<rparr>) = Inr ll'"
    by (auto simp: LocalLog_AddSlot_def rbind_eq_Inr)
  have "card (dom (al_log a)) \<le> Suc (card (dom (al_log (ll_slots ll))))"
    using a card_insert_le_m1 by (auto simp: AsyncLog_Insert_def card_insert_if split: if_splits)
  with mn(2) have "n + card (dom (al_log (ll_slots (ll\<lparr>ll_slots := a\<rparr>)))) \<le> Suc c" by simp
  from ll_bounded_update [OF ll_agrees_upd(1) [OF mn(1) a] this u] show ?thesis .
qed

lemma ll_bounded_AddBatchId:
  assumes "ll_bounded Sl B c ll" "B q p = b" "LocalLog_AddBatchId q p b ll = Inr ll'"
  shows "ll_bounded Sl B c ll'"
proof -
  from assms(1) obtain m n where mn: "ll_agrees Sl B m n ll" "n + card (dom (al_log (ll_slots ll))) \<le> c"
    unfolding ll_bounded_def by blast
  from assms(2,3) obtain d where
    d: "AsyncLog_Insert p (B q p) (case ll_queues ll q of None \<Rightarrow> AsyncLog_new 0 | Some c \<Rightarrow> c) = Inr d"
    and u: "LocalLog_UpdateReadyBatches (ll\<lparr>ll_queues := (ll_queues ll)(q \<mapsto> d)\<rparr>) = Inr ll'"
    by (auto simp: LocalLog_AddBatchId_def rbind_eq_Inr)
  from ll_bounded_update [OF ll_agrees_upd(2) [OF mn(1) d] _ u] mn(2) show ?thesis by simp
qed

lemma ll_bounded_Next:
  assumes "ll_bounded Sl B c ll" "LocalLog_NextBatch ll = Inr (x, ll')"
  shows "ll_bounded Sl B c ll'" "\<exists>m<c. x = ll_spec Sl B m"
proof -
  from assms(1) obtain m n where mn: "ll_agrees Sl B m n ll" "n + card (dom (al_log (ll_slots ll))) \<le> c"
    unfolding ll_bounded_def by blast
  note A = LocalLog_NextBatch_agrees [OF assms(2) mn(1)]
  have s: "ll_slots ll' = ll_slots ll" using assms(2) by (auto simp: LocalLog_NextBatch_def split: list.splits)
  from A mn(2) show "ll_bounded Sl B c ll'" unfolding ll_bounded_def s by blast
  from A have "Suc m \<le> n" unfolding ll_agrees_def by blast
  with A mn(2) show "\<exists>m<c. x = ll_spec Sl B m" by (intro exI [of _ m]) simp
qed

lemma advance_local_inv:
  assumes "lg_inv Sl B S D c k g" "advance_local cf now g = Inr (g', out)" "c \<le> 2 ^ 32"
    and "\<And>n. n < 2 ^ 32 \<Longrightarrow> S (local_reg cf) (of_nat n) = fst (snd (ll_spec Sl B n))"
  shows "lg_inv Sl B S D c k g' \<and> emitted r out = []"
  using assms(1,2)
proof (induction "length (ll_ready (lg_local_log g))" arbitrary: g out rule: less_induct)
  case less
  show ?case
  proof (cases "LocalLog_HasNextBatch (lg_local_log g)")
    case False
    with less.prems show ?thesis by (simp add: advance_local.simps [of cf now g])
  next
    case True
    with less.prems(2) obtain x ll l out2 where nb: "LocalLog_NextBatch (lg_local_log g) = Inr (x, ll)"
      and add: "BatchLog_AddSlot now (fst x) (fst (snd x)) (int (replication_factor cf) - 1) (log_at (local_reg cf) g) = Inr l"
      and rest: "advance_local cf now ((set_log (local_reg cf) l g)\<lparr>lg_local_log := ll\<rparr>) = Inr (g', out2)"
      and out: "out = (if cf_local_machine_id cf = snd (snd x) then replicate_order cf g (fst x) (fst (snd x)) else []) @ out2"
      by (auto simp: advance_local.simps [of cf now g] rbind_eq_Inr Let_def)
    from less.prems(1) have b: "ll_bounded Sl B c (lg_local_log g)" and ok: "log_ok (S r) D (k r) (log_at r g)" for r
      by (simp_all add: lg_inv_def)
    note N = ll_bounded_Next [OF b nb]
    from N(2) obtain m where m: "m < c" "x = ll_spec Sl B m" by blast
    have "fst x = of_nat m" using m by (simp add: ll_spec_def Let_def split: prod.splits)
    with m assms(3,4) have "S (local_reg cf) (fst x) = fst (snd x)" by simp
    from log_ok_ops(3) [OF ok this add] have "lg_inv Sl B S D c k ((set_log (local_reg cf) l g)\<lparr>lg_local_log := ll\<rparr>)"
      using N(1) ok by (simp add: lg_inv_def)
    moreover have "length (ll_ready ll) < length (ll_ready (lg_local_log g))"
      using nb by (auto simp: LocalLog_NextBatch_def split: list.splits)
    ultimately have "lg_inv Sl B S D c k g' \<and> emitted r out2 = []" by (intro less.hyps [OF _ _ rest]) simp_all
    moreover have "emitted r (replicate_order cf g (fst x) (fst (snd x))) = []"
      by (simp add: replicate_order_def Let_def)
    ultimately show ?thesis using out by simp
  qed
qed

lemma drain_logs_inv:
  assumes "lg_inv Sl B S D c k g" "drain_logs rs g = Inr (g', out)"
  shows "\<exists>k'. lg_inv Sl B S D c k' g' \<and> (\<forall>r. k' r = k r + length (emitted r out) \<and>
    emitted r out = map (\<lambda>p. Unbatch (D (S r p))) (consecutive (of_nat (k r)) (length (emitted r out))))"
  using assms
proof (induction rs arbitrary: k g out)
  case Nil
  then show ?case by auto
next
  case (Cons r rs)
  from Cons.prems(2) obtain l bs out2 where d: "drain_log (log_at r g) = Inr (l, bs)"
    and rest: "drain_logs rs (set_log r l g) = Inr (g', out2)"
    and out: "out = map (\<lambda>b. LEmit r (Unbatch b)) bs @ out2" by (auto simp: rbind_eq_Inr)
  have "log_ok (S r) D (k r) (log_at r g)" using Cons.prems(1) by (simp add: lg_inv_def)
  note D = drain_log_ok [OF this d]
  let ?k = "k(r := k r + length bs)"
  have "lg_inv Sl B S D c ?k (set_log r l g)" by (rule lg_inv_set_log [OF Cons.prems(1)]) (use D in simp)
  from Cons.IH [OF this rest] obtain k' where k': "lg_inv Sl B S D c k' g'"
    "\<And>q. k' q = ?k q + length (emitted q out2)"
    "\<And>q. emitted q out2 = map (\<lambda>p. Unbatch (D (S q p))) (consecutive (of_nat (?k q)) (length (emitted q out2)))" by blast
  have "k' q = k q + length (emitted q out) \<and>
      emitted q out = map (\<lambda>p. Unbatch (D (S q p))) (consecutive (of_nat (k q)) (length (emitted q out)))" for q
  proof (cases "q = r")
    case True
    have bs: "map Unbatch bs = map (\<lambda>p. Unbatch (D (S r p))) (consecutive (of_nat (k r)) (length bs))"
      using arg_cong [OF conjunct1 [OF D], of "map Unbatch"] by simp
    have e: "emitted q out = map Unbatch bs @ emitted r out2" using True out by (simp add: emitted_LEmit)
    show ?thesis unfolding e using bs k'(2,3) [of r] True
      by (simp add: consecutive_add)
  next
    case False
    then have "emitted q out = emitted q out2" using out by (simp add: emitted_LEmit)
    with False k'(2,3) [of q] show ?thesis by simp
  qed
  with k'(1) show ?case by blast
qed

definition agrees_event :: "Configuration \<Rightarrow> (SlotId \<Rightarrow> uint32 \<times> MachineId) \<Rightarrow> (uint32 \<Rightarrow> uint32 \<Rightarrow> BatchId) \<Rightarrow>
    (RegionId \<Rightarrow> SlotId \<Rightarrow> BatchId) \<Rightarrow> (BatchId \<Rightarrow> Transaction Batch) \<Rightarrow> log_event \<Rightarrow> bool" where
  "agrees_event cf Sl B S D ev \<longleftrightarrow>
     (case ev of (_, from, req) \<Rightarrow>
       (case req of
          BatchReplicationAck i \<Rightarrow> True
        | ForwardBatchData gen pos bs \<Rightarrow>
            (\<forall>b. my_batch cf (snd (first_time cf from)) bs = Inr b \<longrightarrow> D (b_id b) = b \<and>
               (ucast (GET_REGION_ID gen) = local_reg cf \<longrightarrow> B gen pos = b_id b))
        | LocalBatchOrder s gen leader \<Rightarrow> Sl s = (gen, leader)
        | RemoteBatchOrder i s home ack \<Rightarrow> S (ucast home) s = i))"

fun is_local_order :: "log_event \<Rightarrow> bool" where
  "is_local_order (_, _, LocalBatchOrder _ _ _) \<longleftrightarrow> True"
| "is_local_order _ \<longleftrightarrow> False"

lemma process_log_request_inv:
  assumes "lg_inv Sl B S D c k g" "process_log_request cf now from req g = Inr (g', out)"
    and "agrees_event cf Sl B S D (now, from, req)"
  shows "lg_inv Sl B S D (c + (if is_local_order (now, from, req) then 1 else 0)) k g' \<and> emitted r out = []"
proof -
  from assms(1) have b: "ll_bounded Sl B c (lg_local_log g)" and ok: "log_ok (S q) D (k q) (log_at q g)" for q
    by (simp_all add: lg_inv_def)
  show ?thesis
  proof (cases req)
    case (BatchReplicationAck i)
    with assms(2) b ok log_ok_ops(1) [OF ok] show ?thesis
      by (auto simp: ProcessBatchReplicationAck_def lg_inv_def rbind_eq_Inr Let_def split: prod.splits)
  next
    case (ForwardBatchData gen pos bs)
    let ?home = "ucast (GET_REGION_ID gen) :: RegionId"
    obtain f1 f2 where f: "first_time cf from = (f1, f2)" by fastforce
    with assms(2) ForwardBatchData obtain batch g1 l where mb: "my_batch cf f2 bs = Inr batch"
      and g1: "(if ?home = local_reg cf then rbind (LocalLog_AddBatchId gen pos (b_id batch) (lg_local_log g)) (\<lambda>ll.
               Inr (g\<lparr>lg_local_log := ll\<rparr>)) else Inr g) = Inr g1"
      and l: "BatchLog_AddBatch batch (log_at ?home g1) = Inr l" and g': "g' = set_log ?home l g1"
      and out: "out = (if f1 then [LSend (ForwardBatchData gen pos bs) (lg_other_replicas g) (MakeLogChannel ?home)] else []) @
          (if f2 then distribute_batch cf gen pos bs else [])"
      by (auto simp: ProcessForwardBatchData_def Let_def rbind_eq_Inr)
    from assms(3) ForwardBatchData mb f have D: "D (b_id batch) = batch" and B: "?home = local_reg cf \<longrightarrow> B gen pos = b_id batch"
      by (auto simp: agrees_event_def)
    have "ll_bounded Sl B c (lg_local_log g1) \<and> (\<forall>q. log_at q g1 = log_at q g)"
      using g1 B b ll_bounded_AddBatchId [OF b, of gen pos "b_id batch"] by (auto simp: rbind_eq_Inr split: if_splits)
    then have "lg_inv Sl B S D c k g'" using g' ok log_ok_ops(2) [OF ok D, of ?home l] l by (auto simp: lg_inv_def)
    moreover have "emitted r out = []" unfolding out by (auto intro!: emitted_sends simp: distribute_batch_def split: if_splits)
    ultimately show ?thesis using ForwardBatchData by simp
  next
    case (LocalBatchOrder s gen leader)
    with assms(2,3) obtain ll where "LocalLog_AddSlot s gen leader (lg_local_log g) = Inr ll" "g' = g\<lparr>lg_local_log := ll\<rparr>"
      "emitted r out = []" "Sl s = (gen, leader)"
      by (auto simp: ProcessLocalBatchOrder_def rbind_eq_Inr agrees_event_def)
    with ll_bounded_AddSlot [OF b] ok LocalBatchOrder show ?thesis by (simp add: lg_inv_def)
  next
    case (RemoteBatchOrder i s home ack)
    then have "S (ucast home) s = i" using assms(3) by (simp add: agrees_event_def)
    from log_ok_ops(3) [OF ok this] assms(2) b ok RemoteBatchOrder show ?thesis
      by (auto simp: ProcessRemoteBatchOrder_def lg_inv_def rbind_eq_Inr Let_def split: prod.splits)
  qed
qed

lemma log_manager_run:
  assumes "run_ops (LogManager_OnInternalRequestReceived iter cf) g evs = Inr (g', outs)" "lg_inv Sl B S D c k g"
    and "\<forall>ev\<in>set evs. agrees_event cf Sl B S D ev" "c + length (filter is_local_order evs) \<le> 2 ^ 32"
    and "\<And>n. n < 2 ^ 32 \<Longrightarrow> S (local_reg cf) (of_nat n) = fst (snd (ll_spec Sl B n))"
  shows "emitted r outs = map (\<lambda>p. Unbatch (D (S r p))) (consecutive (of_nat (k r)) (length (emitted r outs)))"
  using assms(1-4)
proof (induction evs arbitrary: g outs c k)
  case Nil
  then show ?case by simp
next
  case (Cons ev evs)
  obtain now sender req where ev: "ev = (now, sender, req)" by (cases ev) auto
  from Cons.prems(1) obtain g3 o1 o2 where step: "LogManager_OnInternalRequestReceived iter cf g ev = Inr (g3, o1)"
    and rest: "run_ops (LogManager_OnInternalRequestReceived iter cf) g3 evs = Inr (g', o2)" and outs: "outs = o1 @ o2"
    by (rule run_ops_ConsE)
  from step ev obtain g1 p1 g2 p2 rs p3 where p: "process_log_request cf now sender req g = Inr (g1, p1)"
    and a: "advance_local cf now g1 = Inr (g2, p2)" and d: "drain_logs rs g2 = Inr (g3, p3)" and o1: "o1 = p1 @ p2 @ p3"
    by (auto simp: LogManager_OnInternalRequestReceived_def AdvanceLog_def rbind_eq_Inr)
  let ?c = "c + (if is_local_order ev then 1 else 0)"
  have P: "lg_inv Sl B S D ?c k g1 \<and> emitted r p1 = []" for r
    using process_log_request_inv [OF Cons.prems(2) p] Cons.prems(3) ev by simp
  have A: "lg_inv Sl B S D ?c k g2 \<and> emitted r p2 = []" for r
    by (rule advance_local_inv [OF conjunct1 [OF P] a _ assms(5)]) (use Cons.prems(4) in auto)
  from drain_logs_inv [OF conjunct1 [OF A] d] obtain k' where k': "lg_inv Sl B S D ?c k' g3"
    "\<And>r. k' r = k r + length (emitted r p3)"
    "\<And>r. emitted r p3 = map (\<lambda>p. Unbatch (D (S r p))) (consecutive (of_nat (k r)) (length (emitted r p3)))" by blast
  have ih: "emitted r o2 = map (\<lambda>p. Unbatch (D (S r p))) (consecutive (of_nat (k' r)) (length (emitted r o2)))"
    by (rule Cons.IH [OF rest k'(1)]) (use Cons.prems(3,4) in auto)
  have e: "emitted r outs = emitted r p3 @ emitted r o2" using outs o1 P A by simp
  show ?case unfolding e length_append consecutive_add map_append using k'(2,3) [of r] ih by simp
qed

text \<open>
  C3: agreement of the logs.  Let the messages agree with some decisions: the order of the
  local slots, the batches of each generator, the slots of the other regions and the data
  of the batches.  Then, in whatever order the messages arrive, the transactions that
  a log manager hands to the scheduler for a region are those of the batches of slots 0,
  1, 2, ... of the log of that region, without a gap and unbatched in order; the slots of
  the local region are filled by the local ordering.  Two log managers that see the same
  decisions therefore emit, for each region, the same sequence, one possibly further.
\<close>

theorem log_manager_agreement:
  assumes "run_ops (LogManager_OnInternalRequestReceived iter cf) (LogManager_new cf) evs = Inr (g, outs)"
    and "\<forall>ev\<in>set evs. agrees_event cf Sl B S D ev" "length (filter is_local_order evs) \<le> 2 ^ 32"
    and "\<forall>n<2 ^ 32. S (local_reg cf) (of_nat n) = fst (snd (ll_spec Sl B n))"
  shows "emitted r outs = map (\<lambda>p. Unbatch (D (S r p))) (consecutive 0 (length (emitted r outs)))"
proof -
  have "ll_agrees Sl B 0 0 LocalLog_new" by (simp add: ll_agrees_def LocalLog_new_def AsyncLog_new_def turn_def)
  then have "lg_inv Sl B S D 0 (\<lambda>_. 0) (LogManager_new cf)"
    by (auto simp: lg_inv_def ll_bounded_def LogManager_new_def log_at_def log_ok_new LocalLog_new_def AsyncLog_new_def
        intro!: exI [of _ 0])
  from log_manager_run [OF assms(1) this assms(2)] assms(3,4) show ?thesis by simp
qed

definition sample_log_cf :: Configuration where
  "sample_log_cf = \<lparr>cf_config = sample_config [sample_region [''a'', ''b''], sample_region [''c'', ''d'']] 2 SimplePartitioning,
     cf_local_address = ''b'', cf_local_region = 0, cf_local_replica = 0, cf_local_partition = 1,
     cf_local_machine_id = 1, cf_all_addresses = Map.empty, cf_all_machine_ids = [], cf_replication_order = []\<rparr>"

definition sample_batch :: "Transaction Batch" where
  "sample_batch = \<lparr>b_id = 7, b_transactions = [default_txn], b_events = []\<rparr>"

definition sample_log_events :: "log_event list" where
  "sample_log_events = [(0, MakeMachineId 1 0 0, RemoteBatchOrder 7 0 1 False),
     (0, MakeMachineId 1 0 0, ForwardBatchData (MakeMachineId 1 0 0) 0 [sample_batch, sample_batch])]"

lemma sample_log_eval:
  "local_reg sample_log_cf = 0" "local_rep sample_log_cf = 0" "local_part sample_log_cf = 1"
  "cf_local_partition sample_log_cf = 1" "num_partitions sample_log_cf = 2"
  "first_time sample_log_cf (MakeMachineId 1 0 0) = (True, True)" "ucast (GET_REGION_ID (MakeMachineId 1 0 0)) = (1 :: RegionId)"
  using unpack_make_machine_id [of 1 0 0]
  by (simp_all add: local_reg_def local_rep_def local_part_def sample_log_cf_def num_partitions_def sample_config_def
      first_time_def UnpackMachineId_def)

theorem log_manager_agreement_witness:
  "\<exists>g outs. run_ops (LogManager_OnInternalRequestReceived (\<lambda>_. [1]) sample_log_cf) (LogManager_new sample_log_cf) sample_log_events =
       Inr (g, outs) \<and> length (emitted 1 outs) = 1 \<and> emitted 1 outs = [Unbatch sample_batch]"
proof -
  obtain g outs where r: "run_ops (LogManager_OnInternalRequestReceived (\<lambda>_. [1]) sample_log_cf) (LogManager_new sample_log_cf)
      sample_log_events = Inr (g, outs)" and l: "length (emitted 1 outs) = 1"
    by (simp add: sample_log_events_def LogManager_OnInternalRequestReceived_def ProcessRemoteBatchOrder_def
        ProcessForwardBatchData_def my_batch_def distribute_batch_def AdvanceLog_def LogManager_new_def log_at_def set_log_def
        advance_local.simps drain_log.simps sample_log_eval Let_def async_log_defs batch_log_defs local_log_defs BatchLog_UpdateReadyBatches.simps sample_batch_def)
  have a: "\<forall>ev\<in>set sample_log_events. agrees_event sample_log_cf (\<lambda>_. (0, 0)) (\<lambda>_ _. 7) (\<lambda>_ _. 7) (\<lambda>_. sample_batch) ev"
    by (auto simp: sample_log_events_def agrees_event_def my_batch_def sample_log_eval sample_batch_def)
  have c: "length (filter is_local_order sample_log_events) \<le> 2 ^ 32" by (simp add: sample_log_events_def)
  have n: "\<forall>n<2 ^ 32. (\<lambda>_ _. 7) (local_reg sample_log_cf) (of_nat n :: uint32) = fst (snd (ll_spec (\<lambda>_. (0, 0)) (\<lambda>_ _. 7) n))"
    by (simp add: ll_spec_def Let_def)
  from log_manager_agreement [OF r a c n, of 1] l have "emitted 1 outs = [Unbatch sample_batch]"
    by (simp add: consecutive_def)
  with r l show ?thesis by blast
qed

end
