(* ===== verification/Batcher.thy ===== *)
theory Batcher
  imports Log_Manager
begin

section \<open>Sequencer and batcher\<close>

text \<open>
  \<^verbatim>\<open>module/sequencer.cpp\<close> and \<^verbatim>\<open>sequencer_components/batcher.cpp\<close>: transactions homed at a region are
  put into batches, one sub-batch per partition; a timer sends all full batches, proposing
  each to the local ordering and distributing its data.  A transaction with a future
  timestamp is buffered until its time.  The random draw that delays a batch is the
  argument \<open>delayed\<close> of the timer, one flag per batch; the clock is \<open>now\<close>.
\<close>

record BatcherEnv =
  be_config :: Configuration
  be_counterless :: bool
  be_ddr :: bool
  be_bypass :: bool
  be_sync :: bool
  be_max_batch_size :: nat
  be_rrr :: bool

record Batcher =
  bt_batch_id_counter :: uint64
  bt_batches :: "Transaction Batch list list"
  bt_current_batch_size :: nat
  bt_total_batch_size :: nat
  bt_future_txns :: "((int \<times> TxnId) \<times> Transaction) list"

text \<open>\<open>BSendPart p\<close> is a message to the machine of partition \<open>p\<close> of the own region and replica.\<close>

datatype BatcherOut =
    BPropose MachineId
  | BSendPart nat LogRequest Channel
  | BSend LogRequest "MachineId list" Channel
  | BDelayed LogRequest "MachineId list" Channel
  | BScheduleSend
  | BScheduleFuture int
  | BSignal
  | BToBatcher Transaction

definition Batcher_batch_id :: "BatcherEnv \<Rightarrow> uint64 \<Rightarrow> BatchId" where
  "Batcher_batch_id env counter = push_bit kMachineIdBits counter OR ucast (cf_local_machine_id (be_config env))"

definition Batcher_NewBatch :: "BatcherEnv \<Rightarrow> Batcher \<Rightarrow> Batcher" where
  "Batcher_NewBatch env b =
     (let counter = bt_batch_id_counter b + 1;
        new_batch = replicate (num_partitions (be_config env))
          \<lparr>b_id = Batcher_batch_id env counter, b_transactions = [], b_events = []\<rparr> in
      b\<lparr>bt_current_batch_size := 0, bt_batch_id_counter := counter, bt_batches := bt_batches b @ [new_batch]\<rparr>)"

definition Batcher_StartOver :: "BatcherEnv \<Rightarrow> Batcher \<Rightarrow> Batcher" where
  "Batcher_StartOver env b = Batcher_NewBatch env (b\<lparr>bt_total_batch_size := 0, bt_batches := []\<rparr>)"

definition Batcher_new :: "BatcherEnv \<Rightarrow> Batcher" where
  "Batcher_new env = Batcher_StartOver env \<lparr>bt_batch_id_counter = 0, bt_batches = [], bt_current_batch_size = 0,
     bt_total_batch_size = 0, bt_future_txns = []\<rparr>"




subsection \<open>Transactions with a future timestamp\<close>






subsection \<open>Sending the batches\<close>

text \<open>\<^verbatim>\<open>generator_position\<close> is a signed integer: its remainder keeps the sign.\<close>

definition remote_part :: "BatcherEnv \<Rightarrow> uint32 \<Rightarrow> nat \<Rightarrow> nat \<Rightarrow> nat \<Rightarrow> int" where
  "remote_part env pos i n me =
     (let np = int (num_partitions (be_config env)) in
      if be_rrr env then sint pos smod np else (int i + int n - int me) smod int n smod np)"

definition batch_destinations :: "BatcherEnv \<Rightarrow> uint32 \<Rightarrow> MachineId list" where
  "batch_destinations env pos =
     (let cf = be_config env; nr = num_regions cf; nrep = num_replicas (cf_local_region cf) cf in
      concat (map (\<lambda>reg.
        if reg \<noteq> cf_local_region cf
        then [MakeMachineId (of_nat reg) 0 (of_int (remote_part env pos reg nr (cf_local_region cf)))]
        else map (\<lambda>rep. MakeMachineId (of_nat reg) (of_nat rep) (of_int (remote_part env pos rep nrep (cf_local_replica cf))))
               (filter (\<lambda>rep. rep \<noteq> cf_local_replica cf) [0..<nrep])) [0..<nr]))"

definition NewBatchForwardingMessage :: "BatcherEnv \<Rightarrow> Transaction Batch list \<Rightarrow> uint32 \<Rightarrow> LogRequest" where
  "NewBatchForwardingMessage env batch pos = ForwardBatchData (cf_local_machine_id (be_config env)) pos batch"

text \<open>A delayed batch leaves the whole function: the batches after it are not sent.\<close>

fun send_batches :: "BatcherEnv \<Rightarrow> uint32 \<Rightarrow> (nat \<Rightarrow> bool) \<Rightarrow> Transaction Batch list list \<Rightarrow> BatcherOut list" where
  "send_batches env pos delayed [] = []"
| "send_batches env pos delayed (batch # batches) =
     (let cf = be_config env; ch = MakeLogChannel (local_reg cf);
        msg = NewBatchForwardingMessage env batch pos; dests = batch_destinations env pos in
      BPropose (cf_local_machine_id cf) #
      map (\<lambda>p. BSendPart p (NewBatchForwardingMessage env [batch ! p] pos) ch) [0..<num_partitions cf] @
      (if delayed 0 then [BDelayed msg dests ch]
       else BSend msg dests ch # send_batches env (pos + 1) (\<lambda>i. delayed (Suc i)) batches))"

definition SendBatches :: "BatcherEnv \<Rightarrow> (nat \<Rightarrow> bool) \<Rightarrow> Batcher \<Rightarrow> BatcherOut list" where
  "SendBatches env delayed b =
     (let generator_position = ucast (bt_batch_id_counter b - of_nat (length (bt_batches b))) in
      send_batches env generator_position delayed (bt_batches b))"

definition Batcher_timer :: "BatcherEnv \<Rightarrow> (nat \<Rightarrow> bool) \<Rightarrow> Batcher \<Rightarrow> Batcher \<times> BatcherOut list" where
  "Batcher_timer env delayed b = (Batcher_StartOver env b, SendBatches env delayed b)"

subsection \<open>Sequencer\<close>


subsection \<open>Positions of the batches\<close>



text \<open>
  The batches sent to partition \<open>p\<close> of the own replica and those sent to the other regions
  and replicas, with their generators and positions, and the values proposed to the local
  ordering.
\<close>

fun part_data :: "nat \<Rightarrow> BatcherOut list \<Rightarrow> ((MachineId \<times> uint32) \<times> Transaction Batch) list" where
  "part_data p [] = []"
| "part_data p (BSendPart q (ForwardBatchData gen pos [b]) ch # os) =
     (if q = p then ((gen, pos), b) # part_data p os else part_data p os)"
| "part_data p (_ # os) = part_data p os"

fun remote_data :: "BatcherOut list \<Rightarrow> ((MachineId \<times> uint32) \<times> Transaction Batch list) list" where
  "remote_data [] = []"
| "remote_data (BSend (ForwardBatchData gen pos bs) dests ch # os) = ((gen, pos), bs) # remote_data os"
| "remote_data (_ # os) = remote_data os"

fun batch_proposals :: "BatcherOut list \<Rightarrow> MachineId list" where
  "batch_proposals [] = []"
| "batch_proposals (BPropose machine_id # os) = machine_id # batch_proposals os"
| "batch_proposals (_ # os) = batch_proposals os"

lemma part_data_append [simp]: "part_data p (xs @ ys) = part_data p xs @ part_data p ys"
  by (induction p xs rule: part_data.induct) auto

lemma remote_data_append [simp]: "remote_data (xs @ ys) = remote_data xs @ remote_data ys"
  by (induction xs rule: remote_data.induct) auto

lemma batch_proposals_append [simp]: "batch_proposals (xs @ ys) = batch_proposals xs @ batch_proposals ys"
  by (induction xs rule: batch_proposals.induct) auto

lemma part_data_sends:
  "part_data p (map (\<lambda>q. BSendPart q (NewBatchForwardingMessage env [f q] pos) ch) [0..<n]) =
     (if p < n then [((cf_local_machine_id (be_config env), pos), f p)] else [])"
  "remote_data (map (\<lambda>q. BSendPart q (g q) ch) qs) = []"
  "batch_proposals (map (\<lambda>q. BSendPart q (g q) ch) qs) = []"
proof -
  show "part_data p (map (\<lambda>q. BSendPart q (NewBatchForwardingMessage env [f q] pos) ch) [0..<n]) =
      (if p < n then [((cf_local_machine_id (be_config env), pos), f p)] else [])"
    by (induction n) (auto simp: NewBatchForwardingMessage_def)
  show "remote_data (map (\<lambda>q. BSendPart q (g q) ch) qs) = []" by (induction qs) auto
  show "batch_proposals (map (\<lambda>q. BSendPart q (g q) ch) qs) = []" by (induction qs) auto
qed

text \<open>\<open>n\<close> batches were sent before; the ids of the pending ones continue the count.\<close>

definition batch_ids_ok :: "BatcherEnv \<Rightarrow> nat \<Rightarrow> Transaction Batch list \<Rightarrow> bool" where
  "batch_ids_ok env k batch \<longleftrightarrow> length batch = num_partitions (be_config env) \<and>
     (\<forall>b\<in>set batch. b_id b = Batcher_batch_id env (of_nat (k + 1)))"

definition batcher_inv :: "BatcherEnv \<Rightarrow> nat \<Rightarrow> Batcher \<Rightarrow> bool" where
  "batcher_inv env n b \<longleftrightarrow> bt_batch_id_counter b = of_nat (n + length (bt_batches b)) \<and>
     (\<forall>j<length (bt_batches b). batch_ids_ok env (n + j) (bt_batches b ! j))"

lemma NewBatch_inv: "batcher_inv env n b \<Longrightarrow> batcher_inv env n (Batcher_NewBatch env b)"
  by (auto simp: batcher_inv_def Batcher_NewBatch_def Let_def nth_append batch_ids_ok_def less_Suc_eq add.commute)

lemma StartOver_inv: "batcher_inv env n b \<Longrightarrow> batcher_inv env (n + length (bt_batches b)) (Batcher_StartOver env b)"
  unfolding Batcher_StartOver_def by (rule NewBatch_inv) (simp add: batcher_inv_def)




lemma batcher_inv_future [simp]: "batcher_inv env n (b\<lparr>bt_future_txns := x\<rparr>) = batcher_inv env n b"
  by (simp add: batcher_inv_def)

lemma send_batches_data:
  assumes "p < num_partitions (be_config env)" "\<And>i. \<not> delayed i"
  shows "part_data p (send_batches env pos delayed bs) =
      map (\<lambda>(k, batch). ((cf_local_machine_id (be_config env), k), batch ! p)) (zip (consecutive pos (length bs)) bs) \<and>
    remote_data (send_batches env pos delayed bs) =
      map (\<lambda>(k, batch). ((cf_local_machine_id (be_config env), k), batch)) (zip (consecutive pos (length bs)) bs) \<and>
    batch_proposals (send_batches env pos delayed bs) = replicate (length bs) (cf_local_machine_id (be_config env))"
  using assms(2)
proof (induction bs arbitrary: pos delayed)
  case (Cons batch bs)
  have d: "\<not> delayed 0" "\<And>i. \<not> delayed (Suc i)" using Cons.prems by simp_all
  note ih = Cons.IH [of "\<lambda>i. delayed (Suc i)" "pos + 1", OF d(2)]
  have z: "zip (consecutive pos (length (batch # bs))) (batch # bs) =
      (pos, batch) # zip (consecutive (pos + 1) (length bs)) bs"
    by (simp add: consecutive_Suc)
  have "remote_data (BSend (NewBatchForwardingMessage env batch pos) ds ch # os) =
      ((cf_local_machine_id (be_config env), pos), batch) # remote_data os" for ds ch os
    by (simp add: NewBatchForwardingMessage_def)
  then show ?case unfolding z using d(1) assms(1) ih by (simp add: Let_def part_data_sends)
qed simp






lemma batcher_inv_new: "batcher_inv env 0 (Batcher_new env)"
  unfolding Batcher_new_def Batcher_StartOver_def by (rule NewBatch_inv) (simp add: batcher_inv_def)


definition sample_batcher :: BatcherEnv where
  "sample_batcher = \<lparr>be_config = sample_log_cf, be_counterless = False, be_ddr = False, be_bypass = False, be_sync = False,
     be_max_batch_size = 1, be_rrr = False\<rparr>"


text \<open>
  A delayed batch loses the batches after it.  When the first pending batch is delayed,
  it is the only one the partitions of the replica receive, and the next timer, even without
  a delay, continues after the positions of all of them, so the positions in
  between are never sent.
\<close>

theorem delayed_batch_leaves_gap:
  assumes "batcher_inv env n b" "p < num_partitions (be_config env)" "bt_batches b \<noteq> []" "delayed 0"
    and "Batcher_timer env delayed b = (b1, out1)" "Batcher_timer env (\<lambda>_. False) b1 = (b2, out2)"
  shows "map (snd \<circ> fst) (part_data p out1) = [of_nat n] \<and> map (snd \<circ> fst) (part_data p out2) = [of_nat (n + length (bt_batches b))]"
proof -
  have pos: "(ucast (bt_batch_id_counter c - of_nat (length (bt_batches c))) :: uint32) = of_nat k" if "batcher_inv env k c" for c k
    using that by (simp add: batcher_inv_def unsigned_of_nat word_of_nat_eq_iff)
  from assms(3) obtain x xs where x: "bt_batches b = x # xs" by (cases "bt_batches b") auto
  have "map (snd \<circ> fst) (part_data p out1) = [of_nat n]"
    using assms(2,4,5) pos [OF assms(1)] x by (auto simp: Batcher_timer_def SendBatches_def Let_def part_data_sends)
  moreover have b1: "b1 = Batcher_StartOver env b" using assms(5) by (simp add: Batcher_timer_def)
  have inv: "batcher_inv env (n + length (bt_batches b)) b1" using StartOver_inv [OF assms(1)] b1 by simp
  obtain y where "bt_batches b1 = [y]" unfolding b1 by (simp add: Batcher_StartOver_def Batcher_NewBatch_def Let_def)
  moreover have "out2 = send_batches env (of_nat (n + length (bt_batches b))) (\<lambda>_. False) (bt_batches b1)"
    using assms(6) pos [OF inv] by (simp add: Batcher_timer_def SendBatches_def Let_def)
  ultimately show ?thesis
    using send_batches_data [OF assms(2), of "\<lambda>_. False" "of_nat (n + length (bt_batches b))" "bt_batches b1"]
    by (simp add: consecutive_def)
qed

theorem delayed_batch_leaves_gap_witness:
  "let b = Batcher_NewBatch sample_batcher (Batcher_new sample_batcher); (b1, out1) = Batcher_timer sample_batcher (\<lambda>_. True) b;
       (b2, out2) = Batcher_timer sample_batcher (\<lambda>_. False) b1 in
   map (snd \<circ> fst) (part_data 1 out1) = [0] \<and> map (snd \<circ> fst) (part_data 1 out2) = [2]"
proof -
  let ?b = "Batcher_NewBatch sample_batcher (Batcher_new sample_batcher)"
  obtain b1 out1 where 1: "Batcher_timer sample_batcher (\<lambda>_. True) ?b = (b1, out1)" by fastforce
  obtain b2 out2 where 2: "Batcher_timer sample_batcher (\<lambda>_. False) b1 = (b2, out2)" by fastforce
  have l: "length (bt_batches ?b) = 2" by (simp add: Batcher_new_def Batcher_StartOver_def Batcher_NewBatch_def Let_def)
  then have ne: "bt_batches ?b \<noteq> []" by auto
  have np: "1 < num_partitions (be_config sample_batcher)" by (simp add: sample_batcher_def sample_log_eval)
  from delayed_batch_leaves_gap [OF NewBatch_inv [OF batcher_inv_new] np ne _ 1 2] l 1 2 show ?thesis by simp
qed

end
