(* ===== verification/Multi_Home_Orderer.thy ===== *)
theory Multi_Home_Orderer
  imports Log_Manager "HOL-Library.Sublist"
begin

section \<open>The multi-home orderer (\<^verbatim>\<open>module/multi_home_orderer.cpp\<close>)\<close>

text \<open>
  When multi-home transactions are ordered globally, each orderer collects them into a
  batch with one sub-batch per region, proposes the id of the batch to the global Paxos
  and sends every region its sub-batch.  The orderer of a region puts the batches into
  the decided order with a \<open>BatchLog\<close> and hands the transactions to the sequencer.  Timer
  callbacks are the event \<open>MhTimer\<close>; the time stamps of \<^verbatim>\<open>RECORD\<close> are left out.
\<close>

record MultiHomeOrderer =
  mo_batch_per_reg :: "Transaction Batch option list"
  mo_batch_id_counter :: uint64
  mo_batch_size :: int
  mo_log :: "Transaction BatchLog"

datatype MhEvent =
    MhForwardTxn Transaction
  | MhBatchData "Transaction Batch list"
  | MhBatchOrder SlotId BatchId
  | MhTimer

datatype MhOut =
    MhSchedule
  | MhPropose BatchId MachineId
  | MhSendData "Transaction Batch" MachineId
  | MhToSequencer Transaction

definition mh_batch_id :: "Configuration \<Rightarrow> uint64 \<Rightarrow> BatchId" where
  "mh_batch_id cf counter = push_bit kMachineIdBits counter OR ucast (cf_local_machine_id cf)"

definition Mh_NewBatch :: "Configuration \<Rightarrow> MultiHomeOrderer \<Rightarrow> MultiHomeOrderer" where
  "Mh_NewBatch cf m =
     (let counter = mo_batch_id_counter m + 1 in
      m\<lparr>mo_batch_id_counter := counter, mo_batch_size := 0,
        mo_batch_per_reg := map (\<lambda>_. Some \<lparr>b_id = mh_batch_id cf counter, b_transactions = [], b_events = []\<rparr>)
          (mo_batch_per_reg m)\<rparr>)"

definition MultiHomeOrderer_new :: "Configuration \<Rightarrow> MultiHomeOrderer" where
  "MultiHomeOrderer_new cf = Mh_NewBatch cf
     \<lparr>mo_batch_per_reg = replicate (num_regions cf) None, mo_batch_id_counter = 0, mo_batch_size = 0,
      mo_log = BatchLog_new\<rparr>"

text \<open>
  \<^verbatim>\<open>AddToBatch\<close> indexes the vector of batches by the involved regions; the last copy is
  moved, which needs at least one region.
\<close>

fun add_to_regions :: "Transaction \<Rightarrow> uint32 list \<Rightarrow> Transaction Batch option list \<Rightarrow>
    Transaction Batch option list result" where
  "add_to_regions txn [] batches = Inr batches"
| "add_to_regions txn (r # rs) batches =
     (if length batches \<le> unat r then Inl (Undefined ''batch_per_reg_[regions[i]]'')
      else case batches ! unat r of
        None \<Rightarrow> Inl (Undefined ''null batch'')
      | Some b \<Rightarrow> add_to_regions txn rs (batches[unat r := Some (b\<lparr>b_transactions := b_transactions b @ [txn]\<rparr>)]))"

definition AddToBatch :: "Transaction \<Rightarrow> MultiHomeOrderer \<Rightarrow> (MultiHomeOrderer \<times> MhOut list) result" where
  "AddToBatch txn m =
     (if ti_involved_regions (tx_internal txn) = [] then Inl (Undefined ''regions[regions.size() - 1]'')
      else rbind (add_to_regions txn (ti_involved_regions (tx_internal txn)) (mo_batch_per_reg m)) (\<lambda>batches.
        let size' = mo_batch_size m + 1 in
        Inr (m\<lparr>mo_batch_per_reg := batches, mo_batch_size := size'\<rparr>, if size' = 1 then [MhSchedule] else [])))"

fun release_batches :: "nat \<Rightarrow> nat \<Rightarrow> Transaction Batch option list \<Rightarrow> MhOut list result" where
  "release_batches part reg [] = Inr []"
| "release_batches part reg (b # bs) =
     (case b of
        None \<Rightarrow> Inl (Undefined ''AddAllocated(nullptr)'')
      | Some batch \<Rightarrow> rbind (release_batches part (Suc reg) bs) (\<lambda>outs.
          Inr (MhSendData batch (MakeMachineId (of_nat reg) 0 (of_nat part)) # outs)))"

definition Mh_SendBatch :: "Configuration \<Rightarrow> MultiHomeOrderer \<Rightarrow> (MultiHomeOrderer \<times> MhOut list) result" where
  "Mh_SendBatch cf m =
     rbind (release_batches (leader_partition_for_multi_home_ordering cf) 0 (mo_batch_per_reg m)) (\<lambda>outs.
       Inr (m\<lparr>mo_batch_per_reg := map (\<lambda>_. None) (mo_batch_per_reg m)\<rparr>,
            MhPropose (mh_batch_id cf (mo_batch_id_counter m))
              (MakeMachineId (of_nat (leader_region_for_multi_home_ordering cf)) 0 0) # outs))"

definition Mh_AdvanceLog :: "MultiHomeOrderer \<Rightarrow> (MultiHomeOrderer \<times> MhOut list) result" where
  "Mh_AdvanceLog m = rbind (drain_log (mo_log m)) (\<lambda>(l, bs).
     Inr (m\<lparr>mo_log := l\<rparr>, map MhToSequencer (concat (map Unbatch bs))))"

definition Mh_ProcessForwardBatchData ::
    "Transaction Batch list \<Rightarrow> MultiHomeOrderer \<Rightarrow> (MultiHomeOrderer \<times> MhOut list) result" where
  "Mh_ProcessForwardBatchData batches m =
     (if batches = [] then Inl (Undefined ''ReleaseLast'')
      else rbind (BatchLog_AddBatch (last batches) (mo_log m)) (\<lambda>l. Mh_AdvanceLog (m\<lparr>mo_log := l\<rparr>)))"

definition Mh_ProcessForwardBatchOrder ::
    "int \<Rightarrow> SlotId \<Rightarrow> BatchId \<Rightarrow> MultiHomeOrderer \<Rightarrow> (MultiHomeOrderer \<times> MhOut list) result" where
  "Mh_ProcessForwardBatchOrder now slot batch_id m =
     rbind (BatchLog_AddSlot now slot batch_id 0 (mo_log m)) (\<lambda>l. Mh_AdvanceLog (m\<lparr>mo_log := l\<rparr>))"

definition Mh_timer :: "Configuration \<Rightarrow> MultiHomeOrderer \<Rightarrow> (MultiHomeOrderer \<times> MhOut list) result" where
  "Mh_timer cf m = rbind (Mh_SendBatch cf m) (\<lambda>(m1, outs). Inr (Mh_NewBatch cf m1, outs))"

fun Mh_OnInternalRequestReceived ::
    "Configuration \<Rightarrow> int \<Rightarrow> MultiHomeOrderer \<Rightarrow> MhEvent \<Rightarrow> (MultiHomeOrderer \<times> MhOut list) result" where
  "Mh_OnInternalRequestReceived cf now m (MhForwardTxn txn) = AddToBatch txn m"
| "Mh_OnInternalRequestReceived cf now m (MhBatchData batches) = Mh_ProcessForwardBatchData batches m"
| "Mh_OnInternalRequestReceived cf now m (MhBatchOrder slot batch_id) = Mh_ProcessForwardBatchOrder now slot batch_id m"
| "Mh_OnInternalRequestReceived cf now m MhTimer = Mh_timer cf m"

definition mh_step :: "Configuration \<Rightarrow> MultiHomeOrderer \<Rightarrow> int \<times> MhEvent \<Rightarrow> (MultiHomeOrderer \<times> MhOut list) result" where
  "mh_step cf m ev = Mh_OnInternalRequestReceived cf (fst ev) m (snd ev)"

subsection \<open>What an orderer sends to a region\<close>

definition involves :: "nat \<Rightarrow> Transaction \<Rightarrow> bool" where
  "involves r txn \<longleftrightarrow> r \<in> unat ` set (ti_involved_regions (tx_internal txn))"

definition append_txn :: "Transaction \<Rightarrow> Transaction Batch \<Rightarrow> Transaction Batch" where
  "append_txn txn b = b\<lparr>b_transactions := b_transactions b @ [txn]\<rparr>"

lemma add_to_regions_nth:
  assumes "add_to_regions txn rs batches = Inr batches'" "distinct rs"
  shows "length batches' = length batches \<and> (\<forall>r < length batches. batches' ! r =
    (if r \<in> unat ` set rs then map_option (append_txn txn) (batches ! r) else batches ! r))"
  using assms
proof (induction rs arbitrary: batches)
  case (Cons q rs)
  from Cons.prems(1) obtain b where q: "unat q < length batches" "batches ! unat q = Some b"
    and rest: "add_to_regions txn rs (batches[unat q := Some (append_txn txn b)]) = Inr batches'"
    by (auto simp: append_txn_def split: if_splits option.splits)
  have "unat q \<notin> unat ` set rs" using Cons.prems(2) by (metis distinct.simps(2) imageE unsigned_word_eqI)
  with Cons.IH [OF rest] Cons.prems(2) q show ?case by (auto simp: nth_list_update)
qed simp

lemma collected_batch:
  assumes "run_ops (\<lambda>m t. AddToBatch t m) m ts = Inr (m', outs)"
    and "\<forall>t\<in>set ts. distinct (ti_involved_regions (tx_internal t))"
    and "r < length (mo_batch_per_reg m)" "mo_batch_per_reg m ! r = Some b"
  shows "r < length (mo_batch_per_reg m') \<and>
    mo_batch_per_reg m' ! r = Some (b\<lparr>b_transactions := b_transactions b @ filter (involves r) ts\<rparr>)"
  using assms
proof (induction ts arbitrary: m b outs)
  case (Cons t ts)
  from Cons.prems(1) obtain m1 o1 o2 where s: "AddToBatch t m = Inr (m1, o1)"
    and rest: "run_ops (\<lambda>m t. AddToBatch t m) m1 ts = Inr (m', o2)" by (rule run_ops_ConsE)
  from s obtain bs where a: "add_to_regions t (ti_involved_regions (tx_internal t)) (mo_batch_per_reg m) = Inr bs"
    and m1: "mo_batch_per_reg m1 = bs" by (auto simp: AddToBatch_def Let_def result_simps split: if_splits)
  have d: "distinct (ti_involved_regions (tx_internal t))" using Cons.prems(2) by simp
  define b1 where "b1 = (if involves r t then append_txn t b else b)"
  have "r < length (mo_batch_per_reg m1)" "mo_batch_per_reg m1 ! r = Some b1"
    using add_to_regions_nth [OF a d] Cons.prems(3,4) m1 by (auto simp: b1_def involves_def)
  from Cons.IH [OF rest _ this] Cons.prems(2) show ?case by (simp add: b1_def append_txn_def)
qed simp

lemma released_batch:
  assumes "release_batches part reg bs = Inr outs" "MhSendData b d \<in> set outs"
  shows "\<exists>i < length bs. bs ! i = Some b \<and> d = MakeMachineId (of_nat (reg + i)) 0 (of_nat part)"
  using assms
proof (induction bs arbitrary: reg outs)
  case (Cons c bs)
  from Cons.prems(1) obtain c' os where c: "c = Some c'" "release_batches part (Suc reg) bs = Inr os"
    "outs = MhSendData c' (MakeMachineId (of_nat reg) 0 (of_nat part)) # os"
    by (auto simp: result_simps split: option.splits)
  show ?case
  proof (cases "MhSendData b d \<in> set os")
    case True
    with Cons.IH [OF c(2)] obtain i where "i < length bs" "bs ! i = Some b"
      "d = MakeMachineId (of_nat (Suc reg + i)) 0 (of_nat part)" by blast
    then show ?thesis by (intro exI [of _ "Suc i"]) simp
  next
    case False
    with Cons.prems(2) c show ?thesis by (intro exI [of _ 0]) simp
  qed
qed simp

text \<open>
  \<open>mh_sent D i\<close>: batch \<open>i\<close> was collected by some orderer, starting from an empty batch, and
  \<open>D r i\<close> is the sub-batch it sends to region \<open>r\<close>.  The involved regions of a transaction are
  distinct, as \<open>PopulateInvolvedRegions\<close> leaves them.
\<close>

definition mh_sent :: "(nat \<Rightarrow> BatchId \<Rightarrow> Transaction Batch) \<Rightarrow> nat set \<Rightarrow> BatchId \<Rightarrow> bool" where
  "mh_sent D rs i \<longleftrightarrow> (\<exists>cf m0 ts m outs m' sends.
     run_ops (\<lambda>m t. AddToBatch t m) (Mh_NewBatch cf m0) ts = Inr (m, outs) \<and>
     (\<forall>t\<in>set ts. distinct (ti_involved_regions (tx_internal t))) \<and>
     Mh_SendBatch cf m = Inr (m', sends) \<and> num_regions cf \<le> 256 \<and> length (mo_batch_per_reg m0) = num_regions cf \<and>
     (\<forall>r\<in>rs. r < num_regions cf \<and>
        MhSendData (D r i) (MakeMachineId (of_nat r) 0 (of_nat (leader_partition_for_multi_home_ordering cf))) \<in> set sends))"

lemma run_AddToBatch_length:
  "run_ops (\<lambda>m t. AddToBatch t m) m ts = Inr (m', outs) \<Longrightarrow>
   length (mo_batch_per_reg m') = length (mo_batch_per_reg m)"
proof (induction ts arbitrary: m outs)
  case (Cons t ts)
  have l: "add_to_regions t rs bs = Inr bs' \<Longrightarrow> length bs' = length bs" for rs bs bs'
    by (induction rs arbitrary: bs) (auto split: if_splits option.splits)
  from Cons show ?case
    by (auto elim!: run_ops_ConsE simp: AddToBatch_def Let_def result_simps split: if_splits dest!: l)
qed simp

lemma mh_sent_filter:
  assumes "mh_sent D rs i"
  shows "\<exists>ts e. \<forall>r\<in>rs. b_transactions (D r i) = filter (involves r) ts \<and> b_events (D r i) = e"
proof -
  from assms obtain cf m0 ts m outs m' sends where
    run: "run_ops (\<lambda>m t. AddToBatch t m) (Mh_NewBatch cf m0) ts = Inr (m, outs)"
    and d: "\<forall>t\<in>set ts. distinct (ti_involved_regions (tx_internal t))"
    and send: "Mh_SendBatch cf m = Inr (m', sends)" and small: "num_regions cf \<le> 256"
    and len0: "length (mo_batch_per_reg m0) = num_regions cf"
    and sent: "\<And>r. r \<in> rs \<Longrightarrow> r < num_regions cf \<and>
      MhSendData (D r i) (MakeMachineId (of_nat r) 0 (of_nat (leader_partition_for_multi_home_ordering cf))) \<in> set sends"
    unfolding mh_sent_def by blast
  have len: "length (mo_batch_per_reg m) = num_regions cf"
    using run_AddToBatch_length [OF run] len0 by (simp add: Mh_NewBatch_def Let_def)
  from send obtain os where os: "release_batches (leader_partition_for_multi_home_ordering cf) 0 (mo_batch_per_reg m) = Inr os"
    and sends: "MhSendData b x \<in> set sends \<longleftrightarrow> MhSendData b x \<in> set os" for b x
    by (auto simp: Mh_SendBatch_def result_simps)
  have "b_transactions (D r i) = filter (involves r) ts \<and> b_events (D r i) = []" if "r \<in> rs" for r
  proof -
    have "MhSendData (D r i) (MakeMachineId (of_nat r) 0 (of_nat (leader_partition_for_multi_home_ordering cf))) \<in> set os"
      using sent [OF that] sends by blast
    from released_batch [OF os this] obtain k where k: "k < num_regions cf" "mo_batch_per_reg m ! k = Some (D r i)"
      "MakeMachineId (of_nat r) 0 (of_nat (leader_partition_for_multi_home_ordering cf)) =
       MakeMachineId (of_nat k) 0 (of_nat (leader_partition_for_multi_home_ordering cf))" by (auto simp: len)
    from arg_cong [OF k(3), of UnpackMachineId] have "(of_nat r :: RegionId) = of_nat k" by (simp add: unpack_make_machine_id)
    with sent [OF that] k(1) small have "r = k"
      using of_nat_word_inj [where ?'a = 8, of r k] by simp
    moreover have "mo_batch_per_reg (Mh_NewBatch cf m0) ! k =
        Some \<lparr>b_id = mh_batch_id cf (mo_batch_id_counter m0 + 1), b_transactions = [], b_events = []\<rparr>"
      using k(1) len0 by (simp add: Mh_NewBatch_def Let_def)
    ultimately show ?thesis using collected_batch [OF run d, of k] k(1,2) len0
      by (auto simp: Mh_NewBatch_def Let_def)
  qed
  then show ?thesis by blast
qed

subsection \<open>The global order\<close>

fun mh_released :: "MhOut list \<Rightarrow> Transaction list" where
  "mh_released [] = []"
| "mh_released (MhToSequencer t # os) = t # mh_released os"
| "mh_released (_ # os) = mh_released os"

lemma mh_released_append [simp]: "mh_released (xs @ ys) = mh_released xs @ mh_released ys"
  by (induction xs rule: mh_released.induct) auto

lemma mh_released_map [simp]: "mh_released (map MhToSequencer ts) = ts"
  by (induction ts) auto

text \<open>
  An event agrees with the decided slots \<open>S\<close> and with the data of the batches: the batch
  data that region \<open>r\<close> receives was sent to it by an orderer.
\<close>

fun mh_agrees :: "(SlotId \<Rightarrow> BatchId) \<Rightarrow> (nat \<Rightarrow> BatchId \<Rightarrow> Transaction Batch) \<Rightarrow> nat set \<Rightarrow> nat \<Rightarrow> MhEvent \<Rightarrow> bool" where
  "mh_agrees S D rs r (MhBatchOrder slot i) \<longleftrightarrow> S slot = i"
| "mh_agrees S D rs r (MhBatchData bs) \<longleftrightarrow> D r (b_id (last bs)) = last bs \<and> mh_sent D rs (b_id (last bs))"
| "mh_agrees S D rs r _ \<longleftrightarrow> True"

lemma Mh_AdvanceLog_ok:
  assumes "Mh_AdvanceLog m = Inr (m', outs)" "log_ok S D n (mo_log m)"
  shows "\<exists>k. log_ok S D (n + k) (mo_log m') \<and>
    mh_released outs = concat (map (\<lambda>p. Unbatch (D (S p))) (consecutive (of_nat n) k))"
proof -
  from assms(1) obtain l bs where d: "drain_log (mo_log m) = Inr (l, bs)" "mo_log m' = l"
    "outs = map MhToSequencer (concat (map Unbatch bs))"
    by (auto simp: Mh_AdvanceLog_def result_simps)
  from drain_log_ok [OF assms(2) d(1)] have ok: "log_ok S D (n + length bs) l"
    and bs: "bs = map (\<lambda>p. D (S p)) (consecutive (of_nat n) (length bs))" by auto
  have "map Unbatch bs = map (\<lambda>p. Unbatch (D (S p))) (consecutive (of_nat n) (length bs))"
    by (subst bs) (simp add: comp_def)
  with ok d show ?thesis by auto
qed

lemma mh_step_ok:
  assumes "mh_step cf m ev = Inr (m', outs)" "log_ok S D n (mo_log m)"
    and "\<And>slot i. snd ev = MhBatchOrder slot i \<Longrightarrow> S slot = i"
    and "\<And>bs. snd ev = MhBatchData bs \<Longrightarrow> D (b_id (last bs)) = last bs"
  shows "\<exists>k. log_ok S D (n + k) (mo_log m') \<and>
    mh_released outs = concat (map (\<lambda>p. Unbatch (D (S p))) (consecutive (of_nat n) k))"
proof (cases "snd ev")
  case (MhForwardTxn t)
  with assms(1,2) show ?thesis
    by (intro exI [of _ 0]) (auto simp: mh_step_def AddToBatch_def Let_def result_simps split: if_splits)
next
  case (MhBatchData bs)
  with assms(1) obtain l where l: "BatchLog_AddBatch (last bs) (mo_log m) = Inr l"
    and a: "Mh_AdvanceLog (m\<lparr>mo_log := l\<rparr>) = Inr (m', outs)"
    by (auto simp: mh_step_def Mh_ProcessForwardBatchData_def result_simps split: if_splits)
  show ?thesis using Mh_AdvanceLog_ok [OF a] log_ok_ops(2) [OF assms(2) assms(4) [OF MhBatchData] l] by simp
next
  case (MhBatchOrder slot i)
  with assms(1) obtain l where l: "BatchLog_AddSlot (fst ev) slot i 0 (mo_log m) = Inr l"
    and a: "Mh_AdvanceLog (m\<lparr>mo_log := l\<rparr>) = Inr (m', outs)"
    by (auto simp: mh_step_def Mh_ProcessForwardBatchOrder_def result_simps)
  show ?thesis using Mh_AdvanceLog_ok [OF a] log_ok_ops(3) [OF assms(2) assms(3) [OF MhBatchOrder] l] by simp
next
  case MhTimer
  have "mh_released os = []" if "release_batches part reg bs = Inr os" for part reg bs os
    using that by (induction bs arbitrary: reg os) (auto simp: result_simps split: option.splits)
  with assms(1,2) MhTimer show ?thesis
    by (intro exI [of _ 0]) (auto simp: mh_step_def Mh_timer_def Mh_SendBatch_def Mh_NewBatch_def Let_def result_simps)
qed

lemma mh_run_ok:
  assumes "run_ops (mh_step cf) m evs = Inr (m', outs)" "log_ok S D n (mo_log m)"
    and "\<And>t slot i. (t, MhBatchOrder slot i) \<in> set evs \<Longrightarrow> S slot = i"
    and "\<And>t bs. (t, MhBatchData bs) \<in> set evs \<Longrightarrow> D (b_id (last bs)) = last bs"
  shows "\<exists>k. mh_released outs = concat (map (\<lambda>p. Unbatch (D (S p))) (consecutive (of_nat n) k))"
  using assms
proof (induction evs arbitrary: m n outs)
  case Nil
  then show ?case by (intro exI [of _ 0]) simp
next
  case (Cons ev evs)
  from Cons.prems(1) obtain m1 o1 o2 where s: "mh_step cf m ev = Inr (m1, o1)"
    and rest: "run_ops (mh_step cf) m1 evs = Inr (m', o2)" and o: "outs = o1 @ o2" by (rule run_ops_ConsE)
  have ev: "\<And>slot i. snd ev = MhBatchOrder slot i \<Longrightarrow> S slot = i"
    "\<And>bs. snd ev = MhBatchData bs \<Longrightarrow> D (b_id (last bs)) = last bs"
    using Cons.prems(3,4) by (metis list.set_intros(1) prod.collapse)+
  from mh_step_ok [OF s Cons.prems(2) ev] obtain k1 where k1: "log_ok S D (n + k1) (mo_log m1)"
    "mh_released o1 = concat (map (\<lambda>p. Unbatch (D (S p))) (consecutive (of_nat n) k1))" by blast
  from Cons.IH [OF rest k1(1)] Cons.prems(3,4) obtain k2 where
    "mh_released o2 = concat (map (\<lambda>p. Unbatch (D (S p))) (consecutive (of_nat (n + k1)) k2))"
    by (meson list.set_intros(2))
  with k1(2) o show ?case by (intro exI [of _ "k1 + k2"]) (simp add: consecutive_add)
qed

definition shared :: "nat \<Rightarrow> nat \<Rightarrow> Transaction list \<Rightarrow> Transaction list" where
  "shared r1 r2 = filter (\<lambda>t. involves r1 t \<and> involves r2 t)"

lemma shared_Unbatch:
  assumes "mh_sent D {r1, r2} i"
  shows "shared r1 r2 (Unbatch (D r1 i)) = shared r1 r2 (Unbatch (D r2 i))"
proof -
  from mh_sent_filter [OF assms] obtain ts e where
    t: "b_transactions (D r1 i) = filter (involves r1) ts" "b_transactions (D r2 i) = filter (involves r2) ts"
    and e: "b_events (D r1 i) = e" "b_events (D r2 i) = e" by auto
  have i: "involves r (upd_internal (\<lambda>i. i\<lparr>ti_events := ti_events i @ e\<rparr>) x) = involves r x" for r x
    by (simp add: involves_def)
  show ?thesis
    unfolding shared_def Unbatch_eq t e filter_map comp_def i filter_filter
    by (rule arg_cong [where f = "map _"], rule filter_cong) auto
qed

lemma prefix_consecutive: "k \<le> n \<Longrightarrow> prefix (concat (map f (consecutive a k))) (concat (map f (consecutive a n)))"
  using consecutive_add [of a k "n - k"] by simp

lemma shared_concat: "shared r1 r2 (concat xss) = concat (map (shared r1 r2) xss)"
  by (simp add: shared_def filter_concat)

text \<open>
  C7: multi-home transactions are globally ordered: the orderers of two regions, each fed
  in its own order and at its own pace with the decisions of the global Paxos and with
  the sub-batches that the orderers of all regions sent, hand the transactions that
  involve both regions to their sequencers in the same order, one possibly further than
  the other.
\<close>
theorem multi_home_global_order:
  assumes "run_ops (mh_step cf1) (MultiHomeOrderer_new cf1) evs1 = Inr (m1, outs1)"
    and "run_ops (mh_step cf2) (MultiHomeOrderer_new cf2) evs2 = Inr (m2, outs2)"
    and "\<forall>ev\<in>set evs1. mh_agrees S D {r1, r2} r1 (snd ev)"
    and "\<forall>ev\<in>set evs2. mh_agrees S D {r1, r2} r2 (snd ev)"
  shows "prefix (shared r1 r2 (mh_released outs1)) (shared r1 r2 (mh_released outs2)) \<or>
    prefix (shared r1 r2 (mh_released outs2)) (shared r1 r2 (mh_released outs1))"
proof -
  define dummy where "dummy = \<lparr>b_id = 0, b_transactions = [] :: Transaction list, b_events = []\<rparr>"
  define E :: "nat \<Rightarrow> BatchId \<Rightarrow> Transaction Batch" where "E r i = (if mh_sent D {r1, r2} i then D r i else dummy)" for r i
  define G where "G p = shared r1 r2 (Unbatch (E r1 (S p)))" for p
  have G2: "shared r1 r2 (Unbatch (E r2 (S p))) = G p" for p
    unfolding G_def E_def by (simp add: shared_Unbatch [symmetric])
  have new: "log_ok S (E r) 0 (mo_log (MultiHomeOrderer_new cf))" for r cf
    by (simp add: MultiHomeOrderer_new_def Mh_NewBatch_def Let_def log_ok_new)
  have a1: "S slot = i" if "(t, MhBatchOrder slot i) \<in> set evs1" for t slot i
    using that assms(3) by fastforce
  have a2: "S slot = i" if "(t, MhBatchOrder slot i) \<in> set evs2" for t slot i
    using that assms(4) by fastforce
  have d1: "E r1 (b_id (last bs)) = last bs" if "(t, MhBatchData bs) \<in> set evs1" for t bs
    using that assms(3) by (fastforce simp: E_def)
  have d2: "E r2 (b_id (last bs)) = last bs" if "(t, MhBatchData bs) \<in> set evs2" for t bs
    using that assms(4) by (fastforce simp: E_def)
  obtain k1 where "mh_released outs1 = concat (map (\<lambda>p. Unbatch (E r1 (S p))) (consecutive 0 k1))"
    using mh_run_ok [OF assms(1) new [of r1], simplified] a1 d1 by blast
  moreover obtain k2 where "mh_released outs2 = concat (map (\<lambda>p. Unbatch (E r2 (S p))) (consecutive 0 k2))"
    using mh_run_ok [OF assms(2) new [of r2], simplified] a2 d2 by blast
  ultimately have "shared r1 r2 (mh_released outs1) = concat (map G (consecutive 0 k1))"
    "shared r1 r2 (mh_released outs2) = concat (map G (consecutive 0 k2))"
    by (simp_all add: shared_concat comp_def G2 G_def [symmetric])
  then show ?thesis using prefix_consecutive [of k1 k2 G 0] prefix_consecutive [of k2 k1 G 0] by (cases "k1 \<le> k2") auto
qed

definition mh_sample_config :: Configuration where
  "mh_sample_config = \<lparr>cf_config = sample_config [sample_region [''a''], sample_region [''b'']] 1 NoPartitioning,
     cf_local_address = ''a'', cf_local_region = 0, cf_local_replica = 0, cf_local_partition = 0,
     cf_local_machine_id = 0, cf_all_addresses = Map.empty, cf_all_machine_ids = [], cf_replication_order = []\<rparr>"

definition mh_sample_txn :: Transaction where
  "mh_sample_txn = default_txn\<lparr>tx_internal := default_internal\<lparr>ti_id := 5, ti_involved_regions := [0, 1]\<rparr>\<rparr>"

definition mh_sample_batch :: "Transaction Batch" where
  "mh_sample_batch = \<lparr>b_id = mh_batch_id mh_sample_config 1, b_transactions = [mh_sample_txn], b_events = []\<rparr>"

lemma mh_sample_sent: "mh_sent (\<lambda>_ _. mh_sample_batch) {0, 1} i"
proof -
  let ?m0 = "\<lparr>mo_batch_per_reg = [None, None], mo_batch_id_counter = 0, mo_batch_size = 0, mo_log = BatchLog_new\<rparr>"
  have n: "num_regions mh_sample_config = 2"
    by (simp add: num_regions_def mh_sample_config_def sample_config_def)
  show ?thesis
    unfolding mh_sent_def
    by (rule exI [of _ mh_sample_config], rule exI [of _ ?m0], rule exI [of _ "[mh_sample_txn]"])
      (simp add: AddToBatch_def Mh_NewBatch_def Mh_SendBatch_def mh_sample_txn_def mh_sample_batch_def n)
qed

theorem multi_home_global_order_witness:
  "let evs1 = [(0, MhBatchData [mh_sample_batch]), (0, MhBatchOrder 0 (b_id mh_sample_batch))];
       evs2 = [(3, MhBatchOrder 0 (b_id mh_sample_batch))];
       run = run_ops (mh_step mh_sample_config) (MultiHomeOrderer_new mh_sample_config) in
   \<exists>m1 m2 outs1 outs2. run evs1 = Inr (m1, outs1) \<and> run evs2 = Inr (m2, outs2) \<and>
     shared 0 1 (mh_released outs1) = [mh_sample_txn] \<and>
     prefix (shared 0 1 (mh_released outs2)) (shared 0 1 (mh_released outs1))"
proof -
  let ?i = "b_id mh_sample_batch"
  let ?run = "run_ops (mh_step mh_sample_config) (MultiHomeOrderer_new mh_sample_config)"
  let ?evs1 = "[(0, MhBatchData [mh_sample_batch]), (0, MhBatchOrder 0 ?i)]"
  let ?evs2 = "[(3, MhBatchOrder 0 ?i)]"
  have e: "Unbatch mh_sample_batch = [mh_sample_txn]"
    by (simp add: Unbatch_eq mh_sample_batch_def mh_sample_txn_def upd_internal_def)
  note defs = mh_step_def Mh_ProcessForwardBatchData_def Mh_ProcessForwardBatchOrder_def Mh_AdvanceLog_def
    MultiHomeOrderer_new_def Mh_NewBatch_def model_defs BatchLog_UpdateReadyBatches.simps drain_log.simps
  obtain m1 where m1: "?run ?evs1 = Inr (m1, [MhToSequencer mh_sample_txn])"
    by (simp add: defs e)
  obtain m2 where m2: "?run ?evs2 = Inr (m2, [])"
    by (simp add: defs)
  have sh: "shared 0 1 [mh_sample_txn] = [mh_sample_txn]"
    by (simp add: shared_def involves_def mh_sample_txn_def)
  have "\<forall>ev\<in>set ?evs1. mh_agrees (\<lambda>_. ?i) (\<lambda>_ _. mh_sample_batch) {0, 1} 0 (snd ev)"
    "\<forall>ev\<in>set ?evs2. mh_agrees (\<lambda>_. ?i) (\<lambda>_ _. mh_sample_batch) {0, 1} 1 (snd ev)"
    by (simp_all add: mh_sample_sent del: One_nat_def)
  from multi_home_global_order [OF m1 m2 this]
  have "prefix (shared 0 1 (mh_released [])) (shared 0 1 (mh_released [MhToSequencer mh_sample_txn]))"
    by (simp add: shared_def)
  moreover have "shared 0 1 (mh_released [MhToSequencer mh_sample_txn]) = [mh_sample_txn]" by (simp only: sh mh_released.simps)
  ultimately show ?thesis using m1 m2 unfolding Let_def by blast
qed

end
