(* ===== verification/Server.thy ===== *)
theory Server
  imports Config
begin

section \<open>The server (\<^verbatim>\<open>module/server.cpp\<close>, \<^verbatim>\<open>common/rate_limiter.h\<close>)\<close>

text \<open>
  The server gives every client request an id, rejects or forwards transactions, collects
  the sub-transactions that the partitions send back and answers the client.  What
  arrives at the client socket and the messages of the other modules are inputs of the
  handlers, the clock is the argument \<open>now\<close> (nanoseconds), and the JSON text of
  \<^verbatim>\<open>ProcessStatsRequest\<close>, rendered by rapidjson, is the argument \<open>json\<close>.  The time stamps of
  \<^verbatim>\<open>RECORD\<close> are left out.
\<close>

subsection \<open>The rate limiter\<close>

record RateLimiter =
  rl_time_per_req :: uint64
  rl_time :: uint64
  rl_last_check :: int

definition RateLimiter_new :: "int \<Rightarrow> int \<Rightarrow> RateLimiter" where
  "RateLimiter_new now req_per_sec =
     \<lparr>rl_time_per_req = (if 0 < req_per_sec then of_int (1000000000 div req_per_sec) else 0),
      rl_time = 0, rl_last_check = now\<rparr>"

definition RateLimiter_Request :: "int \<Rightarrow> RateLimiter \<Rightarrow> bool \<times> RateLimiter" where
  "RateLimiter_Request now l =
     (let time1 = rl_time l + of_int (now - rl_last_check l);
        time2 = (if 500000000 < time1 then 500000000 else time1);
        l1 = l\<lparr>rl_time := time2, rl_last_check := now\<rparr> in
      if rl_time_per_req l \<le> time2 then (True, l1\<lparr>rl_time := time2 - rl_time_per_req l\<rparr>) else (False, l1))"

fun granted :: "RateLimiter \<Rightarrow> int list \<Rightarrow> nat \<times> RateLimiter" where
  "granted l [] = (0, l)"
| "granted l (now # nows) =
     (case RateLimiter_Request now l of (ok, l1) \<Rightarrow>
        case granted l1 nows of (n, l2) \<Rightarrow> ((if ok then Suc n else n), l2))"

subsection \<open>Finished transactions\<close>

record FinishedTransaction =
  ft_req :: "Transaction option"
  ft_remaining_partitions :: uint64

definition FinishedTransaction_new :: "nat \<Rightarrow> FinishedTransaction" where
  "FinishedTransaction_new involved_partitions = \<lparr>ft_req = None, ft_remaining_partitions = of_nat involved_partitions\<rparr>"

definition AddSubTxn :: "Transaction \<Rightarrow> uint32 \<Rightarrow> FinishedTransaction \<Rightarrow> (bool \<times> FinishedTransaction) result" where
  "AddSubTxn new_txn part f =
     (let remaining = ft_remaining_partitions f - 1 in
      rbind (case ft_req f of
          None \<Rightarrow> Inr (upd_internal (\<lambda>i. i\<lparr>ti_involved_partitions := [part]\<rparr>) new_txn)
        | Some txn \<Rightarrow> rbind (MergeTransaction txn new_txn) (\<lambda>merged.
            Inr (upd_internal (\<lambda>i. i\<lparr>ti_involved_partitions := ti_involved_partitions i @ [part]\<rparr>) merged)))
        (\<lambda>txn. Inr (remaining = 0, \<lparr>ft_req = Some txn, ft_remaining_partitions = remaining\<rparr>)))"

definition ReleaseTxn :: "FinishedTransaction \<Rightarrow> Transaction option" where
  "ReleaseTxn f = ft_req f"

subsection \<open>The server\<close>

record PendingResponse =
  pr_identity :: string
  pr_stream_id :: uint32

record Server =
  sv_rate_limiter :: RateLimiter
  sv_txn_id_counter :: uint64
  sv_pending_responses :: "TxnId \<rightharpoonup> PendingResponse"
  sv_finished_txns :: "TxnId \<rightharpoonup> FinishedTransaction"
  sv_offline_machines :: "MachineId set"

datatype StatsModule = StatsServer | StatsForwarder | StatsMhOrderer | StatsSequencer | StatsScheduler | StatsInvalid

datatype ApiRequest = ApiTxn Transaction | ApiStats StatsModule nat | ApiMetrics string | ApiOther

datatype ApiResponse = TxnResponse Transaction | StatsResponse string | MetricsResponse

datatype SocketInput = NoMessage | IdentityOnly | BadBody | ApiMessage string uint32 ApiRequest

datatype ServerOut =
    ToClient string uint32 ApiResponse
  | ToForwarder Transaction
  | StatsTo TxnId nat Channel
  | FlushMetrics string

definition Server_new :: "Configuration \<Rightarrow> int \<Rightarrow> int \<Rightarrow> Server" where
  "Server_new cf now tps_limit = \<lparr>sv_rate_limiter = RateLimiter_new now tps_limit, sv_txn_id_counter = 0,
     sv_pending_responses = Map.empty, sv_finished_txns = Map.empty,
     sv_offline_machines = set (cf_all_machine_ids cf) - {cf_local_machine_id cf}\<rparr>"

definition NextTxnId :: "Configuration \<Rightarrow> Server \<Rightarrow> TxnId \<times> Server" where
  "NextTxnId cf s = (let c = sv_txn_id_counter s + 1 in
     (TXN_ID (cf_local_machine_id cf) c, s\<lparr>sv_txn_id_counter := c\<rparr>))"

definition SendResponseToClient :: "TxnId \<Rightarrow> ApiResponse \<Rightarrow> Server \<Rightarrow> Server \<times> ServerOut list" where
  "SendResponseToClient txn_id res s =
     (case sv_pending_responses s txn_id of
        None \<Rightarrow> (s, [])
      | Some p \<Rightarrow> (s\<lparr>sv_pending_responses := (sv_pending_responses s)(txn_id := None)\<rparr>,
          [ToClient (pr_identity p) (pr_stream_id p) res]))"

definition SendTxnToClient :: "Transaction \<Rightarrow> Server \<Rightarrow> Server \<times> ServerOut list" where
  "SendTxnToClient txn s = SendResponseToClient (tx_id txn) (TxnResponse txn) s"

definition PreprocessTxn :: "Transaction \<Rightarrow> Transaction" where
  "PreprocessTxn txn = upd_internal (\<lambda>i. i\<lparr>ti_type := UNKNOWN, ti_involved_regions := [], ti_involved_partitions := [],
       ti_active_partitions := [], ti_timestamp := 0\<rparr>)
     (txn\<lparr>tx_status := NOT_STARTED,
          tx_keys := map (\<lambda>kv. kv\<lparr>kv_entry := (kv_entry kv)\<lparr>ve_metadata := None\<rparr>\<rparr>) (tx_keys txn)\<rparr>)"

text \<open>
  The id and the coordinator that the server gives a transaction, and the two checks
  before it is accepted.  The status is the one the client sent unless a check sets it.
\<close>

definition stamp_txn :: "Configuration \<Rightarrow> TxnId \<Rightarrow> Transaction \<Rightarrow> Transaction" where
  "stamp_txn cf txn_id = upd_internal (\<lambda>i. i\<lparr>ti_id := txn_id, ti_coordinating_server := cf_local_machine_id cf\<rparr>)"

definition check_txn :: "Configuration \<Rightarrow> Transaction \<Rightarrow> Transaction" where
  "check_txn cf txn =
     (if tx_keys txn = [] then txn\<lparr>tx_status := ABORTED, tx_abort_reason := ''txn accesses no key''\<rparr>
      else if is_remaster txn \<and> num_regions cf = 1
      then txn\<lparr>tx_status := ABORTED, tx_abort_reason := ''remaster txn cannot be used when there is only a single region''\<rparr>
      else txn)"

definition process_client_txn :: "Configuration \<Rightarrow> int \<Rightarrow> TxnId \<Rightarrow> Transaction \<Rightarrow> Server \<Rightarrow> Server \<times> ServerOut list" where
  "process_client_txn cf now txn_id txn0 s =
     (let txn = stamp_txn cf txn_id txn0; (ok, l) = RateLimiter_Request now (sv_rate_limiter s);
        s1 = s\<lparr>sv_rate_limiter := l\<rparr> in
      if \<not> ok then SendTxnToClient (txn\<lparr>tx_status := ABORTED, tx_abort_code := RATE_LIMITED\<rparr>) s1
      else let txn1 = check_txn cf txn in
        if tx_status txn1 = ABORTED then SendTxnToClient txn1 s1
        else (s1, [ToForwarder (PreprocessTxn txn1)]))"

datatype InternalResponse = InternalStats TxnId string | InternalOther

fun Server_OnInternalResponseReceived :: "InternalResponse \<Rightarrow> Server \<Rightarrow> Server \<times> ServerOut list" where
  "Server_OnInternalResponseReceived (InternalStats i json) s = SendResponseToClient i (StatsResponse json) s"
| "Server_OnInternalResponseReceived InternalOther s = SendResponseToClient 0 (StatsResponse []) s"

fun process_stats :: "string \<Rightarrow> TxnId \<Rightarrow> StatsModule \<Rightarrow> nat \<Rightarrow> Server \<Rightarrow> Server \<times> ServerOut list" where
  "process_stats json i StatsServer level s = Server_OnInternalResponseReceived (InternalStats i json) s"
| "process_stats json i StatsForwarder level s = (s, [StatsTo i level 2])"
| "process_stats json i StatsMhOrderer level s = (s, [StatsTo i level 5])"
| "process_stats json i StatsSequencer level s = (s, [StatsTo i level 3])"
| "process_stats json i StatsScheduler level s = (s, [StatsTo i level 7])"
| "process_stats json i StatsInvalid level s = (s, [])"

fun Server_OnCustomSocket :: "Configuration \<Rightarrow> int \<Rightarrow> string \<Rightarrow> SocketInput \<Rightarrow> Server \<Rightarrow> bool \<times> Server \<times> ServerOut list" where
  "Server_OnCustomSocket cf now json (ApiMessage identity stream_id request) s =
     (let (txn_id, s0) = NextTxnId cf s;
        s1 = (case sv_pending_responses s0 txn_id of
            Some _ \<Rightarrow> s0
          | None \<Rightarrow> s0\<lparr>sv_pending_responses := (sv_pending_responses s0)
              (txn_id \<mapsto> \<lparr>pr_identity = identity, pr_stream_id = stream_id\<rparr>)\<rparr>) in
      (True, case request of
         ApiTxn txn \<Rightarrow> process_client_txn cf now txn_id txn s1
       | ApiStats m level \<Rightarrow> process_stats json txn_id m level s1
       | ApiMetrics prefix \<Rightarrow> (case SendResponseToClient txn_id MetricsResponse s1 of (s2, out) \<Rightarrow> (s2, FlushMetrics prefix # out))
       | ApiOther \<Rightarrow> (s1\<lparr>sv_pending_responses := (sv_pending_responses s1)(txn_id := None)\<rparr>, [])))"
| "Server_OnCustomSocket cf now json _ s = (False, s, [])"

definition ProcessFinishedSubtxn :: "MachineId \<Rightarrow> Transaction \<Rightarrow> Server \<Rightarrow> (Server \<times> ServerOut list) result" where
  "ProcessFinishedSubtxn from txn s =
     (let txn_id = tx_id txn in
      if sv_pending_responses s txn_id = None then Inr (s, [])
      else let part = GET_PARTITION_ID from;
          finished_txn = (case sv_finished_txns s txn_id of
              None \<Rightarrow> FinishedTransaction_new (length (ti_involved_partitions (tx_internal txn)))
            | Some f \<Rightarrow> f) in
        rbind (AddSubTxn txn part finished_txn) (\<lambda>(complete, f).
          let s1 = s\<lparr>sv_finished_txns := (sv_finished_txns s)(txn_id \<mapsto> f)\<rparr> in
          if complete then
            (case ReleaseTxn f of
               None \<Rightarrow> Inl (Undefined ''SendTxnToClient(nullptr)'')
             | Some t \<Rightarrow> (case SendTxnToClient t s1 of (s2, out) \<Rightarrow>
                 Inr (s2\<lparr>sv_finished_txns := (sv_finished_txns s2)(txn_id := None)\<rparr>, out)))
          else Inr (s1, [])))"

datatype ServerRequest = ServerSignal MachineId | FinishedSubtxn MachineId Transaction | ServerOther

fun Server_OnInternalRequestReceived :: "ServerRequest \<Rightarrow> Server \<Rightarrow> (Server \<times> ServerOut list) result" where
  "Server_OnInternalRequestReceived (ServerSignal from) s =
     Inr (s\<lparr>sv_offline_machines := sv_offline_machines s - {from}\<rparr>, [])"
| "Server_OnInternalRequestReceived (FinishedSubtxn from txn) s = ProcessFinishedSubtxn from txn s"
| "Server_OnInternalRequestReceived ServerOther s = Inr (s, [])"

datatype ServerEvent =
    FromClient int string SocketInput
  | FromModule ServerRequest
  | FromModuleResponse InternalResponse

fun server_step :: "Configuration \<Rightarrow> Server \<Rightarrow> ServerEvent \<Rightarrow> (Server \<times> ServerOut list) result" where
  "server_step cf s (FromClient now json m) = Inr (snd (Server_OnCustomSocket cf now json m s))"
| "server_step cf s (FromModule r) = Server_OnInternalRequestReceived r s"
| "server_step cf s (FromModuleResponse r) = Inr (Server_OnInternalResponseReceived r s)"

subsection \<open>The rate limiter keeps its rate\<close>

lemma unat_of_nat_64: "n < 2 ^ 64 \<Longrightarrow> unat (of_nat n :: uint64) = n"
  by (simp add: unsigned_of_nat take_bit_nat_eq_self)

lemma RateLimiter_Request_budget:
  assumes "RateLimiter_Request now l = (ok, l')" "unat (rl_time l) \<le> 500000000"
    and "rl_last_check l \<le> now" "now - rl_last_check l \<le> 2 ^ 63"
  shows "rl_last_check l' = now" "rl_time_per_req l' = rl_time_per_req l" "unat (rl_time l') \<le> 500000000"
    "(if ok then unat (rl_time_per_req l) else 0) + unat (rl_time l') \<le> unat (rl_time l) + nat (now - rl_last_check l)"
proof -
  let ?d = "of_int (now - rl_last_check l) :: uint64"
  define t1 where "t1 = rl_time l + ?d"
  define t2 where "t2 = (if 500000000 < t1 then 500000000 else t1)"
  have d: "?d = of_nat (nat (now - rl_last_check l))" using assms(3) by simp
  have ud: "unat ?d = nat (now - rl_last_check l)"
    unfolding d by (rule unat_of_nat_64) (use assms(4) in simp)
  have "nat (now - rl_last_check l) \<le> 2 ^ 63" using assms(4) by (simp add: nat_le_iff)
  with assms(2) have "unat (rl_time l) + unat ?d < 2 ^ LENGTH(64)" unfolding ud by simp
  then have "unat t1 = unat (rl_time l) + unat ?d" unfolding t1_def by (simp only: unat_add_lem)
  then have t1: "unat t1 = unat (rl_time l) + nat (now - rl_last_check l)" by (simp only: ud)
  have t2: "unat t2 \<le> 500000000" "unat t2 \<le> unat t1"
    by (auto simp: t2_def word_less_nat_alt)
  have r: "RateLimiter_Request now l =
    (if rl_time_per_req l \<le> t2 then (True, l\<lparr>rl_time := t2 - rl_time_per_req l, rl_last_check := now\<rparr>)
     else (False, l\<lparr>rl_time := t2, rl_last_check := now\<rparr>))"
    by (simp add: RateLimiter_Request_def Let_def t1_def t2_def)
  have sub: "rl_time_per_req l \<le> t2 \<Longrightarrow> unat (t2 - rl_time_per_req l) = unat t2 - unat (rl_time_per_req l)"
    by (rule unat_sub)
  show "rl_last_check l' = now" "rl_time_per_req l' = rl_time_per_req l" "unat (rl_time l') \<le> 500000000"
    "(if ok then unat (rl_time_per_req l) else 0) + unat (rl_time l') \<le> unat (rl_time l) + nat (now - rl_last_check l)"
    using assms(1) t2 t1 sub unfolding r by (auto split: if_splits simp: word_le_nat_alt)
qed

lemma granted_budget:
  assumes "granted l nows = (n, l')" "unat (rl_time l) \<le> 500000000" "sorted (rl_last_check l # nows)"
    and "last (rl_last_check l # nows) - rl_last_check l \<le> 2 ^ 63"
  shows "n * unat (rl_time_per_req l) + unat (rl_time l') \<le>
    unat (rl_time l) + nat (last (rl_last_check l # nows) - rl_last_check l)"
  using assms
proof (induction nows arbitrary: l n)
  case (Cons now nows)
  from Cons.prems(1) obtain ok l1 n1 where r: "RateLimiter_Request now l = (ok, l1)"
    and g: "granted l1 nows = (n1, l')" and n: "n = (if ok then Suc n1 else n1)"
    by (auto split: prod.splits)
  have m: "now \<le> last (now # nows)" using Cons.prems(3) by (cases nows) auto
  have "rl_last_check l \<le> now" "now - rl_last_check l \<le> 2 ^ 63" using Cons.prems(3,4) m by auto
  note b = RateLimiter_Request_budget [OF r Cons.prems(2) this]
  have "n1 * unat (rl_time_per_req l1) + unat (rl_time l') \<le>
      unat (rl_time l1) + nat (last (rl_last_check l1 # nows) - rl_last_check l1)"
    using Cons.prems(3,4) b(1,3) m by (intro Cons.IH [OF g]) auto
  with b n m \<open>rl_last_check l \<le> now\<close> show ?case by (auto split: if_splits)
qed simp

text \<open>
  C37: the rate limiter of the server grants at most the configured rate: over any sequence of
  requests the granted requests, each worth \<open>1000000000 div req_per_sec\<close> nanoseconds, never
  exceed the time since the limiter was created.
\<close>
theorem rate_limiter_bound:
  assumes "0 < req_per_sec" and "sorted (start # nows)" and "last (start # nows) - start \<le> 2 ^ 63"
  shows "int (fst (granted (RateLimiter_new start req_per_sec) nows)) * (1000000000 div req_per_sec)
    \<le> last (start # nows) - start"
proof -
  obtain n l' where g: "granted (RateLimiter_new start req_per_sec) nows = (n, l')" by fastforce
  have "start \<le> last (start # nows)" using assms(2) by (cases nows) auto
  have "1000000000 div req_per_sec \<le> 1000000000" "0 \<le> 1000000000 div req_per_sec"
    using assms(1) zdiv_mono2 [of 1000000000 1 req_per_sec] by (auto simp: pos_imp_zdiv_nonneg_iff)
  then have "unat (of_int (1000000000 div req_per_sec) :: uint64) = nat (1000000000 div req_per_sec)"
    using unat_of_nat_64 [of "nat (1000000000 div req_per_sec)"] by simp
  with granted_budget [OF g] assms have "n * nat (1000000000 div req_per_sec) \<le> nat (last (start # nows) - start)"
    by (simp add: RateLimiter_new_def)
  then have "int (n * nat (1000000000 div req_per_sec)) \<le> int (nat (last (start # nows) - start))"
    by (simp only: of_nat_le_iff)
  then show ?thesis using g \<open>start \<le> _\<close> \<open>0 \<le> 1000000000 div req_per_sec\<close> by simp
qed

theorem rate_limiter_bound_witness:
  "fst (granted (RateLimiter_new 0 4) [100, 250000000, 250000001, 600000000]) = 2 \<and>
   int (fst (granted (RateLimiter_new 0 4) [100, 250000000, 250000001, 600000000])) * 250000000 \<le> 600000000"
  using rate_limiter_bound [of 4 0 "[100, 250000000, 250000001, 600000000]"]
  by (simp add: RateLimiter_new_def RateLimiter_Request_def Let_def)

text \<open>
  C38: with a limit of one transaction per second the rate limiter refuses every request: a
  request costs a whole second, while the saved-up time is capped at half a second.
\<close>
theorem tps_limit_one_refuses_all:
  "fst (granted (RateLimiter_new start 1) nows) = 0"
proof -
  have "fst (granted l nows) = 0" if "rl_time_per_req l = 1000000000" for l
    using that
  proof (induction nows arbitrary: l)
    case (Cons now nows)
    define t where "t = rl_time l + of_int (now - rl_last_check l)"
    have le: "\<not> rl_time_per_req l \<le> (if 500000000 < t then 500000000 else t)"
      using Cons.prems by (auto simp: word_le_nat_alt word_less_nat_alt)
    then have "RateLimiter_Request now l =
        (False, l\<lparr>rl_time := if 500000000 < t then 500000000 else t, rl_last_check := now\<rparr>)"
      by (simp only: RateLimiter_Request_def Let_def t_def [symmetric] if_False)
    then show ?case using Cons.IH Cons.prems by (simp add: case_prod_beta)
  qed simp
  then show ?thesis by (simp add: RateLimiter_new_def)
qed

subsection \<open>Answering\<close>

fun answered :: "ServerOut list \<Rightarrow> TxnId list" where
  "answered [] = []"
| "answered (ToClient _ _ (TxnResponse t) # os) = tx_id t # answered os"
| "answered (_ # os) = answered os"

lemma answered_append [simp]: "answered (xs @ ys) = answered xs @ answered ys"
  by (induction xs rule: answered.induct) auto

lemma tx_id_simps [simp]:
  "tx_id (stamp_txn cf i t) = i" "tx_id (check_txn cf t) = tx_id t" "tx_id (PreprocessTxn t) = tx_id t"
  "tx_id (t\<lparr>tx_status := a\<rparr>) = tx_id t" "tx_id (t\<lparr>tx_abort_code := b\<rparr>) = tx_id t"
  by (simp_all add: tx_id_def stamp_txn_def check_txn_def PreprocessTxn_def)

text \<open>A step answers only pending requests, each once, and then they are no longer pending.\<close>

definition answers :: "Server \<Rightarrow> Server \<Rightarrow> ServerOut list \<Rightarrow> bool" where
  "answers s s' outs \<longleftrightarrow> sv_txn_id_counter s' = sv_txn_id_counter s \<and>
     dom (sv_pending_responses s') \<subseteq> dom (sv_pending_responses s) \<and> distinct (answered outs) \<and>
     set (answered outs) \<subseteq> dom (sv_pending_responses s) - dom (sv_pending_responses s')"

lemma answers_SendResponse:
  assumes "SendResponseToClient i res s = (s', outs)" "\<And>t. res = TxnResponse t \<Longrightarrow> tx_id t = i"
  shows "answers s s' outs"
  using assms by (cases res) (auto simp: SendResponseToClient_def answers_def split: option.splits if_splits)

lemma answers_SendTxn: "SendTxnToClient t s = (s', outs) \<Longrightarrow> answers s s' outs"
  unfolding SendTxnToClient_def by (rule answers_SendResponse) auto

lemma answers_finished [simp]: "answers (s\<lparr>sv_finished_txns := x\<rparr>) s' outs = answers s s' outs"
  "answers s (s'\<lparr>sv_finished_txns := x\<rparr>) outs = answers s s' outs"
  "answers (s\<lparr>sv_rate_limiter := l\<rparr>) s' outs = answers s s' outs" "answers s s []" "answers s s [ToForwarder t]" "answers s s [StatsTo i n c]"
  "answers s (s'\<lparr>sv_offline_machines := ms\<rparr>) outs = answers s s' outs"
  "answers s (s'\<lparr>sv_rate_limiter := l\<rparr>) outs = answers s s' outs"
  by (simp_all add: answers_def)

lemma answers_client_txn: "process_client_txn cf now i txn s = (s', outs) \<Longrightarrow> answers s s' outs"
  by (auto simp: process_client_txn_def Let_def dest!: answers_SendTxn split: prod.splits if_splits)

lemma answers_stats: "process_stats json i m level s = (s', outs) \<Longrightarrow> answers s s' outs"
  by (cases m) (auto dest!: answers_SendResponse)

lemma answers_response: "Server_OnInternalResponseReceived r s = (s', outs) \<Longrightarrow> answers s s' outs"
  by (cases r) (auto dest!: answers_SendResponse)

lemma answers_request: "Server_OnInternalRequestReceived r s = Inr (s', outs) \<Longrightarrow> answers s s' outs"
proof (cases r)
  case (FinishedSubtxn m txn)
  moreover assume "Server_OnInternalRequestReceived r s = Inr (s', outs)"
  ultimately show ?thesis
    by (auto simp: ProcessFinishedSubtxn_def Let_def result_simps dest!: answers_SendTxn
        split: if_splits option.splits prod.splits)
qed auto

definition ids_up_to :: "Configuration \<Rightarrow> nat \<Rightarrow> TxnId set" where
  "ids_up_to cf n = (\<lambda>k. TXN_ID (cf_local_machine_id cf) (of_nat k)) ` {1..n}"

lemma next_id_fresh:
  assumes "Suc n < 2 ^ 32"
  shows "TXN_ID (cf_local_machine_id cf) (of_nat (Suc n)) \<notin> ids_up_to cf n"
proof
  assume "TXN_ID (cf_local_machine_id cf) (of_nat (Suc n)) \<in> ids_up_to cf n"
  then obtain k where k: "k \<le> n" "TXN_ID (cf_local_machine_id cf) (of_nat (Suc n)) = TXN_ID (cf_local_machine_id cf) (of_nat k)"
    by (auto simp: ids_up_to_def)
  have small: "(of_nat j :: uint64) < 2 ^ 32" if "j < 2 ^ 32" for j
    using that unat_of_nat_64 [of j] by (simp add: word_less_nat_alt)
  from TXN_ID_inject [OF k(2)] small [of "Suc n"] small [of k] assms k(1) have "(of_nat (Suc n) :: uint64) = of_nat k" by simp
  then have "unat (of_nat (Suc n) :: uint64) = unat (of_nat k :: uint64)" by (rule arg_cong)
  with assms k(1) show False by (simp add: unat_of_nat_64 del: of_nat_Suc)
qed

fun client_requests :: "ServerEvent list \<Rightarrow> nat" where
  "client_requests [] = 0"
| "client_requests (FromClient now json (ApiMessage i st r) # evs) = Suc (client_requests evs)"
| "client_requests (_ # evs) = client_requests evs"

definition server_inv :: "Configuration \<Rightarrow> nat \<Rightarrow> TxnId list \<Rightarrow> Server \<Rightarrow> bool" where
  "server_inv cf n done s \<longleftrightarrow> sv_txn_id_counter s = of_nat n \<and> distinct done \<and>
     dom (sv_pending_responses s) \<subseteq> ids_up_to cf n \<and> set done \<subseteq> ids_up_to cf n \<and>
     dom (sv_pending_responses s) \<inter> set done = {}"

lemma server_inv_answers:
  assumes "server_inv cf n done s" "answers s s' outs"
  shows "server_inv cf n (done @ answered outs) s'"
  using assms unfolding server_inv_def answers_def answered_append distinct_append set_append
  by (intro conjI; blast?) auto

lemma server_inv_request:
  assumes "server_inv cf n done s" "Suc n < 2 ^ 32"
    and "Server_OnCustomSocket cf now json (ApiMessage i st r) s = (b, s', outs)"
  shows "server_inv cf (Suc n) (done @ answered outs) s'"
proof -
  let ?id = "TXN_ID (cf_local_machine_id cf) (of_nat (Suc n))"
  let ?s0 = "s\<lparr>sv_txn_id_counter := of_nat (Suc n)\<rparr>"
  let ?s1 = "?s0\<lparr>sv_pending_responses := (sv_pending_responses s)(?id \<mapsto> \<lparr>pr_identity = i, pr_stream_id = st\<rparr>)\<rparr>"
  have fresh: "?id \<notin> ids_up_to cf n" by (rule next_id_fresh [OF assms(2)])
  have mono: "ids_up_to cf (Suc n) = insert ?id (ids_up_to cf n)"
    by (auto simp: ids_up_to_def atLeastAtMostSuc_conv simp del: of_nat_Suc)
  have inv1: "server_inv cf (Suc n) done ?s1"
    using assms(1) fresh unfolding server_inv_def mono by auto
  have "sv_pending_responses s ?id = None" using assms(1) fresh unfolding server_inv_def by auto
  then have out: "Server_OnCustomSocket cf now json (ApiMessage i st r) s = (True,
      case r of ApiTxn txn \<Rightarrow> process_client_txn cf now ?id txn ?s1
       | ApiStats m level \<Rightarrow> process_stats json ?id m level ?s1
       | ApiMetrics prefix \<Rightarrow> (case SendResponseToClient ?id MetricsResponse ?s1 of (s2, out) \<Rightarrow> (s2, FlushMetrics prefix # out))
       | ApiOther \<Rightarrow> (?s1\<lparr>sv_pending_responses := (sv_pending_responses ?s1)(?id := None)\<rparr>, []))"
    using assms(1) by (cases r) (simp_all add: NextTxnId_def Let_def server_inv_def add.commute)
  have res: "(s', outs) = (case r of ApiTxn txn \<Rightarrow> process_client_txn cf now ?id txn ?s1
       | ApiStats m level \<Rightarrow> process_stats json ?id m level ?s1
       | ApiMetrics prefix \<Rightarrow> (case SendResponseToClient ?id MetricsResponse ?s1 of (s2, out) \<Rightarrow> (s2, FlushMetrics prefix # out))
       | ApiOther \<Rightarrow> (?s1\<lparr>sv_pending_responses := (sv_pending_responses ?s1)(?id := None)\<rparr>, []))"
    using assms(3) unfolding out by simp
  have "answers ?s1 s' outs"
  proof (cases r)
    case (ApiTxn t)
    then show ?thesis using res by (simp add: answers_client_txn [OF sym] del: of_nat_Suc)
  next
    case (ApiStats m level)
    then show ?thesis using res by (simp add: answers_stats [OF sym] del: of_nat_Suc)
  next
    case (ApiMetrics p)
    then show ?thesis using res by (auto simp: answers_def SendResponseToClient_def split: if_splits)
  next
    case ApiOther
    then show ?thesis using res by (auto simp: answers_def split: if_splits)
  qed
  with inv1 show ?thesis by (rule server_inv_answers)
qed

lemma server_run_inv:
  assumes "run_ops (server_step cf) s evs = Inr (s', outs)" "server_inv cf n done s"
    and "n + client_requests evs < 2 ^ 32"
  shows "server_inv cf (n + client_requests evs) (done @ answered outs) s'"
  using assms
proof (induction evs arbitrary: s n "done" outs)
  case (Cons ev evs)
  from Cons.prems(1) obtain s1 o1 o2 where st: "server_step cf s ev = Inr (s1, o1)"
    and rest: "run_ops (server_step cf) s1 evs = Inr (s', o2)" and o: "outs = o1 @ o2" by (rule run_ops_ConsE)
  show ?case
  proof (cases "\<exists>now json i st r. ev = FromClient now json (ApiMessage i st r)")
    case True
    then obtain now json i st' r where ev: "ev = FromClient now json (ApiMessage i st' r)" by blast
    obtain b where "Server_OnCustomSocket cf now json (ApiMessage i st' r) s = (b, s1, o1)"
      using st unfolding ev by (cases "Server_OnCustomSocket cf now json (ApiMessage i st' r) s") auto
    from server_inv_request [OF Cons.prems(2) _ this] Cons.prems(3) ev
    have "server_inv cf (Suc n) (done @ answered o1) s1" by simp
    from Cons.IH [OF rest this] Cons.prems(3) ev o show ?thesis by simp
  next
    case False
    have "client_requests (ev # evs) = client_requests evs \<and> answers s s1 o1"
    proof (cases ev)
      case (FromClient now json m)
      with False st show ?thesis by (cases m) auto
    qed (use st in \<open>auto dest: answers_request answers_response\<close>)
    then have c: "client_requests (ev # evs) = client_requests evs" and a: "answers s s1 o1" by auto
    from Cons.IH [OF rest server_inv_answers [OF Cons.prems(2) a]] Cons.prems(3) c o show ?thesis by simp
  qed
qed simp

text \<open>
  C9: the server answers a transaction at most once: over any run with fewer than \<open>2^32\<close> client
  requests, whatever messages the other modules send and in whatever order, no two
  transaction responses carry the same transaction id.
\<close>
theorem server_answers_once:
  assumes "run_ops (server_step cf) (Server_new cf now tps) evs = Inr (s, outs)" and "client_requests evs < 2 ^ 32"
  shows "distinct (answered outs)"
  using server_run_inv [OF assms(1), of 0 "[]"] assms(2) by (simp add: server_inv_def Server_new_def)

definition sample_kv_txn :: Transaction where
  "sample_kv_txn = default_txn\<lparr>tx_keys := [\<lparr>kv_key = ''a'', kv_entry = \<lparr>ve_value = [], ve_new_value = [],
     ve_type = KeyRead, ve_metadata = None\<rparr>\<rparr>]\<rparr>"

definition sample_sub :: "TxnId \<Rightarrow> TransactionStatus \<Rightarrow> Transaction" where
  "sample_sub i st = sample_kv_txn\<lparr>tx_internal := default_internal\<lparr>ti_id := i, ti_involved_partitions := [0, 1]\<rparr>, tx_status := st\<rparr>"

subsection \<open>Collecting the sub-transactions\<close>

definition aborted_in :: "FinishedTransaction \<Rightarrow> bool" where
  "aborted_in f = (case ft_req f of None \<Rightarrow> False | Some t \<Rightarrow> tx_status t = ABORTED)"

definition parts_in :: "FinishedTransaction \<Rightarrow> uint32 list" where
  "parts_in f = (case ft_req f of None \<Rightarrow> [] | Some t \<Rightarrow> ti_involved_partitions (tx_internal t))"

definition keys_in :: "FinishedTransaction \<Rightarrow> Key set" where
  "keys_in f = (case ft_req f of None \<Rightarrow> {} | Some t \<Rightarrow> kv_key ` set (tx_keys t))"

definition collects :: "TxnId \<Rightarrow> TransactionType \<Rightarrow> FinishedTransaction \<Rightarrow> bool" where
  "collects i ty f \<longleftrightarrow> (\<forall>t. ft_req f = Some t \<longrightarrow> tx_id t = i \<and> ti_type (tx_internal t) = ty)"

lemma AddSubTxn_collects:
  assumes "collects i ty f" "tx_id x = i" "ti_type (tx_internal x) = ty"
  shows "\<exists>f' t. AddSubTxn x part f = Inr (ft_remaining_partitions f - 1 = 0, f') \<and> collects i ty f' \<and> ft_req f' = Some t \<and>
    ft_remaining_partitions f' = ft_remaining_partitions f - 1 \<and>
    aborted_in f' = (aborted_in f \<or> tx_status x = ABORTED) \<and> parts_in f' = parts_in f @ [part] \<and>
    (\<not> aborted_in f' \<longrightarrow> keys_in f' = keys_in f \<union> kv_key ` set (tx_keys x))"
proof (cases "ft_req f")
  case None
  with assms show ?thesis
    by (simp add: AddSubTxn_def collects_def aborted_in_def parts_in_def keys_in_def tx_id_def)
next
  case (Some t)
  with assms have "same_txn t x" by (simp add: collects_def same_txn_def)
  then obtain m where m: "MergeTransaction t x = Inr m" using MergeTransaction_Inr_iff by blast
  have p: "ti_involved_partitions (tx_internal m) = ti_involved_partitions (tx_internal t)"
    using m by (auto simp: MergeTransaction_def Let_def split: if_splits)
  let ?u = "upd_internal (\<lambda>i. i\<lparr>ti_involved_partitions := ti_involved_partitions i @ [part]\<rparr>) m"
  let ?f = "\<lparr>ft_req = Some ?u, ft_remaining_partitions = ft_remaining_partitions f - 1\<rparr>"
  note mt = MergeTransaction_Inr [OF m]
  have "AddSubTxn x part f = Inr (ft_remaining_partitions f - 1 = 0, ?f)" by (simp add: AddSubTxn_def Some m)
  moreover have "collects i ty ?f" using mt Some assms(1) by (simp add: collects_def same_txn_def tx_id_def)
  moreover have "aborted_in ?f = (aborted_in f \<or> tx_status x = ABORTED)" using mt Some by (simp add: aborted_in_def)
  moreover have "parts_in ?f = parts_in f @ [part]" by (simp add: parts_in_def Some p)
  moreover have "keys_in ?f = keys_in f \<union> kv_key ` set (tx_keys x)" if "\<not> aborted_in ?f"
  proof -
    from that mt have "tx_keys m = tx_keys t @ filter (\<lambda>kv. kv_key kv \<notin> kv_key ` set (tx_keys t)) (tx_keys x)"
      by (simp add: aborted_in_def)
    then show ?thesis by (auto simp: keys_in_def Some)
  qed
  ultimately show ?thesis by (intro exI [of _ ?f] exI [of _ ?u]) simp
qed

abbreviation finished_step :: "Server \<Rightarrow> MachineId \<times> Transaction \<Rightarrow> (Server \<times> ServerOut list) result" where
  "finished_step s x \<equiv> ProcessFinishedSubtxn (fst x) (snd x) s"

lemma collect_subtxns:
  assumes "sv_pending_responses s i = Some p" "subs \<noteq> []" "length subs < 2 ^ 64"
    and "sv_finished_txns s i = Some f \<or> sv_finished_txns s i = None \<and>
      f = FinishedTransaction_new (length (ti_involved_partitions (tx_internal (snd (hd subs)))))"
    and "collects i ty f" "ft_remaining_partitions f = of_nat (length subs)"
    and "\<forall>x\<in>set subs. tx_id (snd x) = i \<and> ti_type (tx_internal (snd x)) = ty"
  shows "\<exists>s' t. run_ops finished_step s subs = Inr (s', [ToClient (pr_identity p) (pr_stream_id p) (TxnResponse t)]) \<and>
    sv_pending_responses s' i = None \<and> sv_finished_txns s' i = None \<and> tx_id t = i \<and>
    (tx_status t = ABORTED \<longleftrightarrow> aborted_in f \<or> (\<exists>x\<in>set subs. tx_status (snd x) = ABORTED)) \<and>
    ti_involved_partitions (tx_internal t) = parts_in f @ map (GET_PARTITION_ID \<circ> fst) subs \<and>
    (tx_status t \<noteq> ABORTED \<longrightarrow> kv_key ` set (tx_keys t) = keys_in f \<union> (\<Union>x\<in>set subs. kv_key ` set (tx_keys (snd x))))"
  using assms
proof (induction subs arbitrary: s f)
  case (Cons x subs)
  let ?part = "GET_PARTITION_ID (fst x)"
  have x: "tx_id (snd x) = i" "ti_type (tx_internal (snd x)) = ty" using Cons.prems(7) by auto
  from AddSubTxn_collects [OF Cons.prems(5) x] obtain f' t where
    a: "AddSubTxn (snd x) ?part f = Inr (ft_remaining_partitions f - 1 = 0, f')" "ft_req f' = Some t"
    and f': "collects i ty f'" "ft_remaining_partitions f' = ft_remaining_partitions f - 1"
      "aborted_in f' = (aborted_in f \<or> tx_status (snd x) = ABORTED)" "parts_in f' = parts_in f @ [?part]"
      "\<not> aborted_in f' \<longrightarrow> keys_in f' = keys_in f \<union> kv_key ` set (tx_keys (snd x))" by blast
  have rem: "ft_remaining_partitions f - 1 = of_nat (length subs)" using Cons.prems(6) by simp
  have cur: "(case sv_finished_txns s i of None \<Rightarrow> FinishedTransaction_new (length (ti_involved_partitions (tx_internal (snd x))))
      | Some f \<Rightarrow> f) = f" using Cons.prems(4) by auto
  have tid: "tx_id t = i" using f'(1) a(2) by (simp add: collects_def)
  show ?case
  proof (cases "subs = []")
    case True
    let ?s' = "s\<lparr>sv_finished_txns := (sv_finished_txns s)(i := None), sv_pending_responses := (sv_pending_responses s)(i := None)\<rparr>"
    have st: "finished_step s x = Inr (?s', [ToClient (pr_identity p) (pr_stream_id p) (TxnResponse t)])"
      using Cons.prems(1) a rem tid True
      by (simp add: ProcessFinishedSubtxn_def x cur ReleaseTxn_def SendTxnToClient_def SendResponseToClient_def)
    have t: "aborted_in f' = (tx_status t = ABORTED)" "parts_in f' = ti_involved_partitions (tx_internal t)"
      "keys_in f' = kv_key ` set (tx_keys t)"
      by (simp_all add: aborted_in_def parts_in_def keys_in_def a(2))
    show ?thesis
      by (rule exI [of _ ?s'], rule exI [of _ t]) (use True st tid f'(3-5) t in simp)
  next
    case False
    have "unat (of_nat (length subs) :: uint64) \<noteq> 0" using False Cons.prems(3) by (subst unat_of_nat_64) auto
    then have "(of_nat (length subs) :: uint64) \<noteq> 0" by force
    then have st: "finished_step s x = Inr (s\<lparr>sv_finished_txns := (sv_finished_txns s)(i \<mapsto> f')\<rparr>, [])"
      using Cons.prems(1) a rem by (simp add: ProcessFinishedSubtxn_def x cur)
    have "\<exists>s' t. run_ops finished_step (s\<lparr>sv_finished_txns := (sv_finished_txns s)(i \<mapsto> f')\<rparr>) subs =
        Inr (s', [ToClient (pr_identity p) (pr_stream_id p) (TxnResponse t)]) \<and>
      sv_pending_responses s' i = None \<and> sv_finished_txns s' i = None \<and> tx_id t = i \<and>
      (tx_status t = ABORTED \<longleftrightarrow> aborted_in f' \<or> (\<exists>x\<in>set subs. tx_status (snd x) = ABORTED)) \<and>
      ti_involved_partitions (tx_internal t) = parts_in f' @ map (GET_PARTITION_ID \<circ> fst) subs \<and>
      (tx_status t \<noteq> ABORTED \<longrightarrow> kv_key ` set (tx_keys t) = keys_in f' \<union> (\<Union>x\<in>set subs. kv_key ` set (tx_keys (snd x))))"
      using Cons.prems(3,7) False f'(1,2) rem by (intro Cons.IH) (simp_all add: Cons.prems(1))
    then obtain s' u where u: "run_ops finished_step (s\<lparr>sv_finished_txns := (sv_finished_txns s)(i \<mapsto> f')\<rparr>) subs =
        Inr (s', [ToClient (pr_identity p) (pr_stream_id p) (TxnResponse u)])"
      "sv_pending_responses s' i = None" "sv_finished_txns s' i = None" "tx_id u = i"
      "tx_status u = ABORTED \<longleftrightarrow> aborted_in f' \<or> (\<exists>x\<in>set subs. tx_status (snd x) = ABORTED)"
      "ti_involved_partitions (tx_internal u) = parts_in f' @ map (GET_PARTITION_ID \<circ> fst) subs"
      "tx_status u \<noteq> ABORTED \<longrightarrow> kv_key ` set (tx_keys u) = keys_in f' \<union> (\<Union>x\<in>set subs. kv_key ` set (tx_keys (snd x)))"
      by (elim exE conjE) (rule that)
    have A: "run_ops finished_step s (x # subs) = Inr (s', [ToClient (pr_identity p) (pr_stream_id p) (TxnResponse u)])"
      by (simp add: st u(1))
    have B: "tx_status u = ABORTED \<longleftrightarrow> aborted_in f \<or> (\<exists>y\<in>set (x # subs). tx_status (snd y) = ABORTED)"
      unfolding u(5) f'(3) by simp
    have C: "ti_involved_partitions (tx_internal u) = parts_in f @ map (GET_PARTITION_ID \<circ> fst) (x # subs)"
      by (simp add: u(6) f'(4))
    have D: "kv_key ` set (tx_keys u) = keys_in f \<union> (\<Union>y\<in>set (x # subs). kv_key ` set (tx_keys (snd y)))"
      if "tx_status u \<noteq> ABORTED"
      using that u(5,7) f'(5) by (simp add: Un_assoc)
    show ?thesis by (intro exI [of _ s'] exI [of _ u] conjI impI A B C D u(2-4); assumption)
  qed
qed simp

text \<open>
  C8: the server answers the client exactly when the last involved partition has reported,
  whatever the order of the reports: the only response is the merge of the
  sub-transactions, it is aborted exactly when one of them is, lists the reporting
  partitions, and otherwise carries the keys of all of them; the server then forgets
  the transaction.
\<close>
theorem server_merges_subtxns:
  assumes "sv_pending_responses s i = Some p" and "sv_finished_txns s i = None"
    and "subs \<noteq> []" and "length subs < 2 ^ 64"
    and "\<forall>x\<in>set subs. tx_id (snd x) = i \<and> ti_type (tx_internal (snd x)) = ty \<and>
      length (ti_involved_partitions (tx_internal (snd x))) = length subs"
  shows "\<exists>s' t. run_ops finished_step s subs = Inr (s', [ToClient (pr_identity p) (pr_stream_id p) (TxnResponse t)]) \<and>
    sv_pending_responses s' i = None \<and> sv_finished_txns s' i = None \<and> tx_id t = i \<and>
    (tx_status t = ABORTED \<longleftrightarrow> (\<exists>x\<in>set subs. tx_status (snd x) = ABORTED)) \<and>
    ti_involved_partitions (tx_internal t) = map (GET_PARTITION_ID \<circ> fst) subs \<and>
    (tx_status t \<noteq> ABORTED \<longrightarrow> kv_key ` set (tx_keys t) = (\<Union>x\<in>set subs. kv_key ` set (tx_keys (snd x))))"
proof -
  let ?f = "FinishedTransaction_new (length subs)"
  have "length (ti_involved_partitions (tx_internal (snd (hd subs)))) = length subs" using assms(3,5) by simp
  then have "sv_finished_txns s i = Some ?f \<or> sv_finished_txns s i = None \<and>
      ?f = FinishedTransaction_new (length (ti_involved_partitions (tx_internal (snd (hd subs)))))" using assms(2) by simp
  from collect_subtxns [OF assms(1,3,4) this, of ty] assms(5) show ?thesis
    by (simp add: collects_def FinishedTransaction_new_def aborted_in_def parts_in_def keys_in_def)
qed

definition sample_server :: Server where
  "sample_server = \<lparr>sv_rate_limiter = RateLimiter_new 0 0, sv_txn_id_counter = 0,
     sv_pending_responses = [5 \<mapsto> \<lparr>pr_identity = ''c'', pr_stream_id = 9\<rparr>], sv_finished_txns = Map.empty,
     sv_offline_machines = {}\<rparr>"

lemma sample_sub_sel:
  "tx_id (sample_sub i st) = i" "ti_type (tx_internal (sample_sub i st)) = UNKNOWN" "tx_status (sample_sub i st) = st"
  "length (ti_involved_partitions (tx_internal (sample_sub i st))) = 2"
  by (simp_all add: sample_sub_def tx_id_def default_internal_def)

theorem server_merges_subtxns_witness:
  "let subs = [(1 :: MachineId, sample_sub 5 COMMITTED), (0, sample_sub 5 ABORTED)] in
   \<exists>s' t. run_ops finished_step sample_server subs = Inr (s', [ToClient ''c'' 9 (TxnResponse t)]) \<and> tx_status t = ABORTED"
proof -
  let ?p = "\<lparr>pr_identity = ''c'', pr_stream_id = 9\<rparr>"
  let ?subs = "[(1 :: MachineId, sample_sub 5 COMMITTED), (0, sample_sub 5 ABORTED)]"
  have h: "sv_pending_responses sample_server 5 = Some ?p" "sv_finished_txns sample_server 5 = None" "?subs \<noteq> []"
    "length ?subs < 2 ^ 64" "\<forall>x\<in>set ?subs. tx_id (snd x) = 5 \<and> ti_type (tx_internal (snd x)) = UNKNOWN \<and>
      length (ti_involved_partitions (tx_internal (snd x))) = length ?subs"
    by (simp_all add: sample_server_def sample_sub_sel)
  have ab: "\<exists>x\<in>set ?subs. tx_status (snd x) = ABORTED" by (simp add: sample_sub_sel)
  obtain s' t where "run_ops finished_step sample_server ?subs = Inr (s', [ToClient (pr_identity ?p) (pr_stream_id ?p) (TxnResponse t)])"
    "tx_status t = ABORTED" using server_merges_subtxns [OF h] ab by blast
  then show ?thesis unfolding Let_def PendingResponse.simps by blast
qed

definition server_sample_config :: Configuration where
  "server_sample_config = \<lparr>cf_config = sample_config [sample_region [''a'']] 1 NoPartitioning,
     cf_local_address = ''a'', cf_local_region = 0, cf_local_replica = 0, cf_local_partition = 0,
     cf_local_machine_id = 0, cf_all_addresses = Map.empty, cf_all_machine_ids = [], cf_replication_order = []\<rparr>"

theorem server_answers_once_witness:
  "let evs = [FromClient 0 [] (ApiMessage ''c'' 9 (ApiTxn default_txn)), FromClient 1 [] (ApiMessage ''c'' 10 (ApiTxn default_txn))] in
   \<exists>s outs. run_ops (server_step server_sample_config) (Server_new server_sample_config 0 0) evs = Inr (s, outs) \<and>
     length (answered outs) = 2 \<and> distinct (answered outs)"
proof -
  let ?evs = "[FromClient 0 [] (ApiMessage ''c'' 9 (ApiTxn default_txn)), FromClient 1 [] (ApiMessage ''c'' 10 (ApiTxn default_txn))]"
  obtain s outs where r: "run_ops (server_step server_sample_config) (Server_new server_sample_config 0 0) ?evs = Inr (s, outs)"
    "length (answered outs) = 2"
    by (simp add: NextTxnId_def process_client_txn_def RateLimiter_Request_def RateLimiter_new_def Server_new_def Let_def
        SendTxnToClient_def SendResponseToClient_def check_txn_def stamp_txn_def tx_id_def default_txn_def)
  from server_answers_once [OF r(1)] r show ?thesis by auto
qed

end
