(* ===== verification/Forwarder.thy ===== *)
theory Forwarder
  imports Storage Server
begin

section \<open>The forwarder (\<^verbatim>\<open>module/forwarder.cpp\<close>)\<close>

text \<open>
  The forwarder finds the home regions of the keys of a transaction, asking the forwarders
  of the other partitions of the region for the keys they store, and sends the
  transaction to a sequencer or to the multi-home orderer.  The lookup index, an interface in the
  code, is the argument \<open>index\<close>; the random draw of a partition and the clock are arguments, and so is the
  floating-point average of a window of latencies, \<open>fe_avg_ns\<close>.
\<close>

record ForwarderEnv =
  fe_config :: Configuration
  fe_counterless :: bool
  fe_index :: "Key \<Rightarrow> Metadata option"
  fe_initializer :: MetadataInitializer
  fe_timestamp_buffer_us :: int
  fe_avg_ns :: "RollingWindow \<Rightarrow> int"

type_synonym LookupRequest = "Key list \<times> TxnId list"

record Forwarder =
  fw_pending_transactions :: "TxnId \<rightharpoonup> Transaction"
  fw_lookup_request :: "LookupRequest list"
  fw_batch_size :: int
  fw_latencies_ns :: "RollingWindow list"

datatype ForwarderOut =
    FwToSequencer Transaction
  | FwToOrderer Transaction
  | FwSend Transaction "MachineId list" Channel
  | FwLookup LookupRequest MachineId
  | FwLookupResponse "TxnId list" "(Key \<times> Metadata) list" MachineId
  | FwPing int nat MachineId
  | FwSchedule

definition Forwarder_new :: "Configuration \<Rightarrow> Forwarder" where
  "Forwarder_new cf = \<lparr>fw_pending_transactions = Map.empty, fw_lookup_request = replicate (num_partitions cf) ([], []),
     fw_batch_size = 0, fw_latencies_ns = replicate (num_regions cf) (RollingWindow_new (avg_latency_window_size cf))\<rparr>"

definition latency_probe :: "ForwarderEnv \<Rightarrow> int \<Rightarrow> ForwarderOut list" where
  "latency_probe env now = map (\<lambda>r. FwPing now r
     (MakeMachineId (of_nat r) 0 (of_nat (leader_partition_for_multi_home_ordering (fe_config env)))))
     [0..<num_regions (fe_config env)]"

definition fe_part :: "ForwarderEnv \<Rightarrow> Key \<Rightarrow> uint32 result" where
  "fe_part env = compute_partition (MakeSharder (fe_config env))"

definition lookup_metadata :: "ForwarderEnv \<Rightarrow> Key \<Rightarrow> Metadata result" where
  "lookup_metadata env key = (case fe_index env key of Some m \<Rightarrow> Inr m | None \<Rightarrow> Compute (fe_initializer env) key)"

definition set_metadata :: "Metadata \<Rightarrow> KeyValueEntry \<Rightarrow> KeyValueEntry" where
  "set_metadata m kv = kv\<lparr>kv_entry := (kv_entry kv)\<lparr>ve_metadata := Some m\<rparr>\<rparr>"

fun lookup_keys :: "ForwarderEnv \<Rightarrow> KeyValueEntry list \<Rightarrow> LookupRequest list \<Rightarrow> bool \<Rightarrow>
    (KeyValueEntry list \<times> LookupRequest list \<times> bool) result" where
  "lookup_keys env [] reqs need_remote = Inr ([], reqs, need_remote)"
| "lookup_keys env (kv # kvs) reqs need_remote =
     (if num_regions (fe_config env) = 1
      then rbind (lookup_keys env kvs reqs need_remote) (\<lambda>(ks, r). Inr (set_metadata (mk_Metadata 0 0) kv # ks, r))
      else rbind (fe_part env (kv_key kv)) (\<lambda>partition.
        if partition = of_nat (cf_local_partition (fe_config env))
        then rbind (lookup_metadata env (kv_key kv)) (\<lambda>m.
          rbind (lookup_keys env kvs reqs need_remote) (\<lambda>(ks, r). Inr (set_metadata m kv # ks, r)))
        else if length reqs \<le> unat partition then Inl (Undefined ''partitioned_lookup_request_[partition]'')
        else rbind (lookup_keys env kvs
            (reqs[unat partition := (fst (reqs ! unat partition) @ [kv_key kv], snd (reqs ! unat partition))]) True)
          (\<lambda>(ks, r). Inr (kv # ks, r))))"

definition ChooseRandomPartition :: "nat \<Rightarrow> Transaction \<Rightarrow> uint32 result" where
  "ChooseRandomPartition draw txn =
     (if draw < length (ti_involved_partitions (tx_internal txn)) then Inr (ti_involved_partitions (tx_internal txn) ! draw)
      else Inl (Undefined ''involved_partitions(idx)''))"

definition max_avg_latency :: "ForwarderEnv \<Rightarrow> uint32 list \<Rightarrow> Forwarder \<Rightarrow> int result" where
  "max_avg_latency env regs w = foldl (\<lambda>acc reg. rbind acc (\<lambda>m.
      if length (fw_latencies_ns w) \<le> unat reg then Inl (Undefined ''latencies_ns_[reg]'')
      else Inr (max m (fe_avg_ns env (fw_latencies_ns w ! unat reg))))) (Inr 0) regs"

definition route_txn :: "ForwarderEnv \<Rightarrow> int \<Rightarrow> nat \<Rightarrow> Transaction \<Rightarrow> Forwarder \<Rightarrow> ForwarderOut list result" where
  "route_txn env now draw txn w =
     (let cf = fe_config env; home_region = kv_master (hd (tx_keys txn));
        part = of_nat (leader_partition_for_multi_home_ordering cf); regs = ti_involved_regions (tx_internal txn);
        destinations = map (\<lambda>reg. MakeMachineId (ucast reg) 0 part) regs in
      case ti_type (tx_internal txn) of
        UNKNOWN \<Rightarrow> Inr []
      | SINGLE_HOME \<Rightarrow>
          if home_region = of_nat (cf_local_region cf) then Inr [FwToSequencer txn]
          else rbind (ChooseRandomPartition draw txn) (\<lambda>partition.
            Inr [FwSend txn [MakeMachineId (ucast home_region) 0 (ucast partition)] 3])
      | MULTI_HOME_OR_LOCK_ONLY \<Rightarrow>
          if pc_bypass_mh_orderer (cf_config cf)
          then if pc_synchronized_batching (cf_config cf)
            then rbind (max_avg_latency env regs w) (\<lambda>latency.
              Inr [FwSend (upd_internal (\<lambda>i. i\<lparr>ti_timestamp := now + latency + 1000 * fe_timestamp_buffer_us env,
                  ti_mh_depart := now\<rparr>) txn) destinations 3])
            else Inr [FwSend txn destinations 3]
          else if rg_shrink_mh_orderer (pc_regions (cf_config cf) ! cf_local_region cf)
            then Inr [FwSend txn [MakeMachineId (of_nat (cf_local_region cf)) 0 part] 5]
            else Inr [FwToOrderer txn])"

definition Forward :: "ForwarderEnv \<Rightarrow> int \<Rightarrow> nat \<Rightarrow> Transaction \<Rightarrow> Forwarder \<Rightarrow> ForwarderOut list result" where
  "Forward env now draw txn w =
     rbind (PopulateInvolvedRegions (fe_counterless env) txn) (\<lambda>t. route_txn env now draw t w)"

definition ProcessForwardTxn ::
    "ForwarderEnv \<Rightarrow> int \<Rightarrow> nat \<Rightarrow> Transaction \<Rightarrow> Forwarder \<Rightarrow> (Forwarder \<times> ForwarderOut list) result" where
  "ProcessForwardTxn env now draw txn0 w =
     (case PopulateInvolvedPartitions (fe_part env) (of_nat (num_partitions (fe_config env))) txn0 of
        Inl (RuntimeError what) \<Rightarrow> if what = ''invalid_argument'' then Inr (w, []) else Inl (RuntimeError what)
      | Inl e \<Rightarrow> Inl e
      | Inr txn1 \<Rightarrow>
          rbind (lookup_keys env (tx_keys txn1) (fw_lookup_request w) False) (\<lambda>(keys, reqs, need_remote_lookup).
          let txn = txn1\<lparr>tx_keys := keys\<rparr>; w1 = w\<lparr>fw_lookup_request := reqs\<rparr> in
          if \<not> need_remote_lookup
          then rbind (Forward env now draw (SetTransactionType (fe_counterless env) txn) w1) (\<lambda>out. Inr (w1, out))
          else let reqs1 = foldl (\<lambda>rs p. if p = of_nat (cf_local_partition (fe_config env)) then rs
                 else rs[unat p := (fst (rs ! unat p), snd (rs ! unat p) @ [tx_id txn])]) reqs (ti_involved_partitions (tx_internal txn)) in
            Inr (w1\<lparr>fw_lookup_request := reqs1, fw_batch_size := fw_batch_size w + 1,
                    fw_pending_transactions := (fw_pending_transactions w)(tx_id txn \<mapsto> txn)\<rparr>,
                 if fw_batch_size w + 1 = 1 then [FwSchedule] else [])))"

definition SendLookupMasterRequestBatch :: "ForwarderEnv \<Rightarrow> Forwarder \<Rightarrow> Forwarder \<times> ForwarderOut list" where
  "SendLookupMasterRequestBatch env w =
     (let cf = fe_config env in
      (w\<lparr>fw_lookup_request := map (\<lambda>r. if snd r = [] then r else ([], [])) (fw_lookup_request w), fw_batch_size := 0\<rparr>,
       map (\<lambda>(p, r). FwLookup r (MakeMachineId (of_nat (cf_local_region cf)) (of_nat (cf_local_replica cf)) (of_nat p)))
         (filter (\<lambda>(p, r). snd r \<noteq> []) (enumerate 0 (fw_lookup_request w)))))"

fun lookup_results :: "ForwarderEnv \<Rightarrow> Key list \<Rightarrow> (Key \<times> Metadata) list result" where
  "lookup_results env [] = Inr []"
| "lookup_results env (key # keys) =
     rbind (is_local_key (MakeSharder (fe_config env)) key) (\<lambda>is_local.
       if is_local
       then rbind (lookup_metadata env key) (\<lambda>m. rbind (lookup_results env keys) (\<lambda>rs. Inr ((key, m) # rs)))
       else lookup_results env keys)"

definition ProcessLookUpMasterRequest :: "ForwarderEnv \<Rightarrow> MachineId \<Rightarrow> LookupRequest \<Rightarrow> ForwarderOut list result" where
  "ProcessLookUpMasterRequest env from req =
     rbind (lookup_results env (fst req)) (\<lambda>rs. Inr [FwLookupResponse (snd req) rs from])"

text \<open>The index built from a response maps a key to its last entry.\<close>

definition fill_metadata :: "(Key \<times> Metadata) list \<Rightarrow> KeyValueEntry \<Rightarrow> KeyValueEntry" where
  "fill_metadata results kv =
     (if ve_metadata (kv_entry kv) \<noteq> None then kv
      else case map_of (rev results) (kv_key kv) of None \<Rightarrow> kv | Some m \<Rightarrow> set_metadata m kv)"

fun update_pending :: "ForwarderEnv \<Rightarrow> int \<Rightarrow> nat \<Rightarrow> (Key \<times> Metadata) list \<Rightarrow> TxnId list \<Rightarrow> Forwarder \<Rightarrow>
    (Forwarder \<times> ForwarderOut list) result" where
  "update_pending env now draw results [] w = Inr (w, [])"
| "update_pending env now draw results (txn_id # txn_ids) w =
     (case fw_pending_transactions w txn_id of
        None \<Rightarrow> update_pending env now draw results txn_ids w
      | Some txn0 \<Rightarrow>
          let txn = SetTransactionType (fe_counterless env) (txn0\<lparr>tx_keys := map (fill_metadata results) (tx_keys txn0)\<rparr>) in
          rbind (if ti_type (tx_internal txn) \<noteq> UNKNOWN
                 then rbind (Forward env now draw txn w) (\<lambda>out.
                   Inr (w\<lparr>fw_pending_transactions := (fw_pending_transactions w)(txn_id := None)\<rparr>, out))
                 else Inr (w\<lparr>fw_pending_transactions := (fw_pending_transactions w)(txn_id \<mapsto> txn)\<rparr>, [])) (\<lambda>(w1, out1).
          rbind (update_pending env now draw results txn_ids w1) (\<lambda>(w2, out2). Inr (w2, out1 @ out2))))"

definition UpdateMasterInfo :: "ForwarderEnv \<Rightarrow> int \<Rightarrow> nat \<Rightarrow> TxnId list \<Rightarrow> (Key \<times> Metadata) list \<Rightarrow> Forwarder \<Rightarrow>
    (Forwarder \<times> ForwarderOut list) result" where
  "UpdateMasterInfo env now draw txn_ids results w = update_pending env now draw results txn_ids w"

definition UpdateLatency :: "nat \<Rightarrow> int \<Rightarrow> int \<Rightarrow> Forwarder \<Rightarrow> Forwarder result" where
  "UpdateLatency dst src_time dst_time w =
     (if length (fw_latencies_ns w) \<le> dst then Inl (Undefined ''latencies_ns_[pong.dst()]'')
      else Inr (w\<lparr>fw_latencies_ns := (fw_latencies_ns w)[dst := RollingWindow_Add (dst_time - src_time) (fw_latencies_ns w ! dst)]\<rparr>))"

datatype ForwarderEvent =
    FwForwardTxn Transaction
  | FwLookupMaster MachineId LookupRequest
  | FwLookupResult "TxnId list" "(Key \<times> Metadata) list"
  | FwPong nat int int
  | FwBatchTimer
  | FwProbeTimer
  | FwOther

fun forwarder_step :: "ForwarderEnv \<Rightarrow> int \<Rightarrow> nat \<Rightarrow> Forwarder \<Rightarrow> ForwarderEvent \<Rightarrow> (Forwarder \<times> ForwarderOut list) result" where
  "forwarder_step env now draw w (FwForwardTxn txn) = ProcessForwardTxn env now draw txn w"
| "forwarder_step env now draw w (FwLookupMaster m req) = rbind (ProcessLookUpMasterRequest env m req) (\<lambda>out. Inr (w, out))"
| "forwarder_step env now draw w (FwLookupResult ids results) = UpdateMasterInfo env now draw ids results w"
| "forwarder_step env now draw w (FwPong dst src_time dst_time) = rbind (UpdateLatency dst src_time dst_time w) (\<lambda>w1. Inr (w1, []))"
| "forwarder_step env now draw w FwBatchTimer = Inr (SendLookupMasterRequestBatch env w)"
| "forwarder_step env now draw w FwProbeTimer = Inr (w, latency_probe env now)"
| "forwarder_step env now draw w FwOther = Inr (w, [])"

subsection \<open>The forwarders of a region\<close>

text \<open>
  The forwarders of one region share the configuration up to the local partition; \<open>pt\<close> gives
  the partition of a key and \<open>M\<close> what the forwarder of that partition knows about it.
\<close>

definition peers_of :: "Configuration \<Rightarrow> (nat \<Rightarrow> ForwarderEnv) \<Rightarrow> bool" where
  "peers_of cf peers \<longleftrightarrow> (\<forall>q. fe_config (peers q) = cf\<lparr>cf_local_partition := q\<rparr>) \<and>
     num_partitions cf \<le> 2 ^ 16 \<and> num_regions cf \<noteq> 1"

definition placed :: "Configuration \<Rightarrow> (nat \<Rightarrow> ForwarderEnv) \<Rightarrow> (Key \<Rightarrow> nat) \<Rightarrow> (Key \<Rightarrow> Metadata) \<Rightarrow> Key \<Rightarrow> bool" where
  "placed cf peers pt M key \<longleftrightarrow> compute_partition (MakeSharder cf) key = Inr (of_nat (pt key)) \<and>
     pt key < num_partitions cf \<and> lookup_metadata (peers (pt key)) key = Inr (M key)"

lemma MakeSharder_local:
  "MakeSharder (cf\<lparr>cf_local_partition := q\<rparr>) = (MakeSharder cf)\<lparr>sh_local_partition := of_nat q\<rparr>"
  by (cases "pc_partitioning (cf_config cf)") (simp_all add: MakeSharder_def num_partitions_def num_regions_def)

lemma compute_partition_local [simp]: "compute_partition (s\<lparr>sh_local_partition := q\<rparr>) = compute_partition s"
  by (cases "sh_kind s") (simp_all add: fun_eq_iff compute_partition_def)

lemma peers_config [simp]:
  assumes "peers_of cf peers"
  shows "fe_part (peers q) = compute_partition (MakeSharder cf)" "num_regions (fe_config (peers q)) \<noteq> 1"
    "num_regions (fe_config (peers q)) \<noteq> Suc 0"
    "num_partitions (fe_config (peers q)) = num_partitions cf" "cf_local_partition (fe_config (peers q)) = q"
    "cf_local_region (fe_config (peers q)) = cf_local_region cf" "cf_local_replica (fe_config (peers q)) = cf_local_replica cf"
    "MakeSharder (fe_config (peers q)) = (MakeSharder cf)\<lparr>sh_local_partition := of_nat q\<rparr>"
  using assms by (simp_all add: peers_of_def fe_part_def MakeSharder_local num_partitions_def num_regions_def)

lemma of_nat_partition_inj:
  assumes "p < 2 ^ 16" "q < 2 ^ 16"
  shows "(of_nat p :: uint32) = of_nat q \<longleftrightarrow> p = q" "unat (of_nat p :: uint32) = p"
    "(of_nat p :: uint16) = of_nat q \<longleftrightarrow> p = q" "unat (of_nat p :: uint16) = p"
proof -
  show u: "unat (of_nat p :: uint32) = p" "unat (of_nat p :: uint16) = p"
    using assms by (simp_all add: unsigned_of_nat take_bit_nat_eq_self)
  have v: "unat (of_nat q :: uint32) = q" "unat (of_nat q :: uint16) = q"
    using assms by (simp_all add: unsigned_of_nat take_bit_nat_eq_self)
  show "(of_nat p :: uint32) = of_nat q \<longleftrightarrow> p = q" "(of_nat p :: uint16) = of_nat q \<longleftrightarrow> p = q"
    using u v by metis+
qed

text \<open>The keys of a transaction of which the metadata of the partitions in \<open>A\<close> is known.\<close>

definition known :: "(Key \<Rightarrow> nat) \<Rightarrow> (Key \<Rightarrow> Metadata) \<Rightarrow> nat set \<Rightarrow> KeyValueEntry \<Rightarrow> KeyValueEntry" where
  "known pt M A kv = (if pt (kv_key kv) \<in> A then set_metadata (M (kv_key kv)) kv else kv)"

definition keys_at :: "(Key \<Rightarrow> nat) \<Rightarrow> nat \<Rightarrow> KeyValueEntry list \<Rightarrow> Key list" where
  "keys_at pt q kvs = map kv_key (filter (\<lambda>kv. pt (kv_key kv) = q) kvs)"

lemma set_metadata_sel [simp]:
  "kv_key (set_metadata m kv) = kv_key kv" "ve_metadata (kv_entry (set_metadata m kv)) = Some m"
  by (simp_all add: set_metadata_def)

lemma known_key [simp]: "kv_key (known pt M A kv) = kv_key kv"
  by (simp add: known_def)

lemma lookup_keys_spec:
  assumes "peers_of cf peers" "L < num_partitions cf" "\<forall>kv\<in>set kvs. placed cf peers pt M (kv_key kv)"
    and "length reqs = num_partitions cf"
  shows "lookup_keys (peers L) kvs reqs b = Inr (map (known pt M {L}) kvs,
      map (\<lambda>q. if q = L then reqs ! q else (fst (reqs ! q) @ keys_at pt q kvs, snd (reqs ! q))) [0..<num_partitions cf],
      b \<or> (\<exists>kv\<in>set kvs. pt (kv_key kv) \<noteq> L))"
  using assms(3,4)
proof (induction kvs arbitrary: reqs b)
  case Nil
  then show ?case by (auto simp: keys_at_def intro!: nth_equalityI)
next
  case (Cons kv kvs)
  let ?p = "pt (kv_key kv)"
  from Cons.prems have pl: "placed cf peers pt M (kv_key kv)" and p: "?p < num_partitions cf"
    and part: "compute_partition (MakeSharder cf) (kv_key kv) = Inr (of_nat ?p)" by (auto simp: placed_def)
  have n: "num_partitions cf \<le> 2 ^ 16" using assms(1) by (simp add: peers_of_def)
  have inj: "(of_nat ?p :: uint32) = of_nat L \<longleftrightarrow> ?p = L" and up: "unat (of_nat ?p :: uint32) = ?p"
    using of_nat_partition_inj [of ?p L] p assms(2) n by auto
  show ?case
  proof (cases "?p = L")
    case True
    then have "lookup_metadata (peers L) (kv_key kv) = Inr (M (kv_key kv))" using pl by (simp add: placed_def)
    with True Cons.IH [of reqs b] Cons.prems assms(1) part show ?thesis
      by (simp add: known_def keys_at_def)
  next
    case False
    define reqs1 where "reqs1 = reqs[?p := (fst (reqs ! ?p) @ [kv_key kv], snd (reqs ! ?p))]"
    have l1: "length reqs1 = num_partitions cf" using Cons.prems(2) by (simp add: reqs1_def)
    have "lookup_keys (peers L) (kv # kvs) reqs b = rbind (lookup_keys (peers L) kvs reqs1 True) (\<lambda>(ks, r). Inr (kv # ks, r))"
      using False inj up part p Cons.prems(2) assms(1) by (simp add: reqs1_def)
    also have "\<dots> = Inr (kv # map (known pt M {L}) kvs,
      map (\<lambda>q. if q = L then reqs1 ! q else (fst (reqs1 ! q) @ keys_at pt q kvs, snd (reqs1 ! q))) [0..<num_partitions cf], True)"
      using Cons.IH [OF _ l1, of True] Cons.prems(1) by simp
    also have "map (\<lambda>q. if q = L then reqs1 ! q else (fst (reqs1 ! q) @ keys_at pt q kvs, snd (reqs1 ! q))) [0..<num_partitions cf] =
      map (\<lambda>q. if q = L then reqs ! q else (fst (reqs ! q) @ keys_at pt q (kv # kvs), snd (reqs ! q))) [0..<num_partitions cf]"
      using False p Cons.prems(2) by (auto simp: reqs1_def keys_at_def nth_list_update)
    finally show ?thesis using False by (simp add: known_def)
  qed
qed

lemma populate_spec:
  assumes "peers_of cf peers" "\<forall>kv\<in>set (tx_keys txn). placed cf peers pt M (kv_key kv)"
  shows "\<exists>qs act. PopulateInvolvedPartitions (compute_partition (MakeSharder cf)) (of_nat (num_partitions cf)) txn =
      Inr (upd_internal (\<lambda>i. i\<lparr>ti_involved_partitions := ti_involved_partitions i @ map of_nat qs,
        ti_active_partitions := ti_active_partitions i @ act\<rparr>) txn) \<and>
    distinct qs \<and> set qs = (\<lambda>kv. pt (kv_key kv)) ` set (tx_keys txn)"
proof -
  let ?n = "num_partitions cf"
  have n: "?n \<le> 2 ^ 16" using assms(1) by (simp add: peers_of_def)
  have un: "unat (of_nat ?n :: uint32) = ?n" using n by (simp add: unsigned_of_nat take_bit_nat_eq_self)
  have up: "compute_partition (MakeSharder cf) (kv_key kv) = Inr (of_nat (pt (kv_key kv)))"
    "unat (of_nat (pt (kv_key kv)) :: uint32) = pt (kv_key kv)" "pt (kv_key kv) < ?n" if "kv \<in> set (tx_keys txn)" for kv
    using assms(2) that n of_nat_partition_inj(2) [of "pt (kv_key kv)" 0] by (auto simp: placed_def)
  then have "\<exists>p. compute_partition (MakeSharder cf) (kv_key kv) = Inr p \<and> unat p < ?n" if "kv \<in> set (tx_keys txn)" for kv
    using that by auto
  from involved_loop_spec [of "tx_keys txn" "compute_partition (MakeSharder cf)" ?n "replicate ?n False" "replicate ?n False", OF this]
  obtain inv act where loop: "involved_loop (compute_partition (MakeSharder cf)) (tx_keys txn) (replicate ?n False) (replicate ?n False) = Inr (inv, act)"
    and r: "set (raised inv) = {unat p | p kv. kv \<in> set (tx_keys txn) \<and> compute_partition (MakeSharder cf) (kv_key kv) = Inr p}"
    by auto
  have "set (raised inv) = (\<lambda>kv. pt (kv_key kv)) ` set (tx_keys txn)"
  proof (unfold r, intro equalityI subsetI)
    fix q assume "q \<in> {unat p | p kv. kv \<in> set (tx_keys txn) \<and> compute_partition (MakeSharder cf) (kv_key kv) = Inr p}"
    then obtain kv p where "kv \<in> set (tx_keys txn)" "compute_partition (MakeSharder cf) (kv_key kv) = Inr p" "q = unat p" by blast
    then show "q \<in> (\<lambda>kv. pt (kv_key kv)) ` set (tx_keys txn)" using up [of kv] by auto
  next
    fix q assume "q \<in> (\<lambda>kv. pt (kv_key kv)) ` set (tx_keys txn)"
    then obtain kv where kv: "kv \<in> set (tx_keys txn)" "q = pt (kv_key kv)" by blast
    then show "q \<in> {unat p | p kv. kv \<in> set (tx_keys txn) \<and> compute_partition (MakeSharder cf) (kv_key kv) = Inr p}"
      using up [OF kv(1)] by force
  qed
  then show ?thesis using loop
    by (intro exI [of _ "raised inv"] exI [of _ "map of_nat (raised act)"]) (simp add: PopulateInvolvedPartitions_def un)
qed

lemma add_txn_ids_spec:
  assumes "distinct qs" "\<forall>q\<in>set qs. q < n" "n \<le> 2 ^ 16" "L < n" "length rs = n"
  shows "foldl (\<lambda>rs p. if p = of_nat L then rs else rs[unat p := (fst (rs ! unat p), snd (rs ! unat p) @ [i])]) rs
      (map (of_nat :: nat \<Rightarrow> uint32) qs) =
    map (\<lambda>q. if q \<in> set qs \<and> q \<noteq> L then (fst (rs ! q), snd (rs ! q) @ [i]) else rs ! q) [0..<n]"
  using assms(1,2,5)
proof (induction qs arbitrary: rs)
  case Nil
  then show ?case by (auto intro!: nth_equalityI)
next
  case (Cons q qs)
  have e: "(of_nat q :: uint32) = of_nat L \<longleftrightarrow> q = L" "unat (of_nat q :: uint32) = q"
    using of_nat_partition_inj [of q L] Cons.prems(2) assms(3,4) by auto
  show ?case
    using Cons e by (auto simp: nth_list_update)
qed

subsection \<open>From the lookup to the forwarding\<close>

definition forwarded :: "ForwarderOut list \<Rightarrow> ForwarderOut list" where
  "forwarded = filter (\<lambda>out. case out of FwSchedule \<Rightarrow> False | FwLookup _ _ \<Rightarrow> False | _ \<Rightarrow> True)"

text \<open>A lookup request reaches the forwarder of its partition, and the response comes back.\<close>

fun exchange :: "(nat \<Rightarrow> ForwarderEnv) \<Rightarrow> nat \<Rightarrow> int \<Rightarrow> nat \<Rightarrow> MachineId \<Rightarrow> Forwarder \<Rightarrow> ForwarderOut \<Rightarrow>
    (Forwarder \<times> ForwarderOut list) result" where
  "exchange peers L now draw me w (FwLookup req m) =
     rbind (ProcessLookUpMasterRequest (peers (unat (GET_PARTITION_ID m))) me req) (\<lambda>resp.
       case resp of
         [FwLookupResponse ids results _] \<Rightarrow> UpdateMasterInfo (peers L) now draw ids results w
       | _ \<Rightarrow> Inr (w, []))"
| "exchange peers L now draw me w _ = Inr (w, [])"

definition lookup_msg :: "Configuration \<Rightarrow> (Key \<Rightarrow> nat) \<Rightarrow> KeyValueEntry list \<Rightarrow> TxnId \<Rightarrow> nat \<Rightarrow> ForwarderOut" where
  "lookup_msg cf pt kvs i q = FwLookup (keys_at pt q kvs, [i])
     (MakeMachineId (of_nat (cf_local_region cf)) (of_nat (cf_local_replica cf)) (of_nat q))"

lemma partition_of_machine: "q < 2 ^ 16 \<Longrightarrow> unat (GET_PARTITION_ID (MakeMachineId a b (of_nat q))) = q"
proof -
  assume q: "q < 2 ^ 16"
  have "ucast (GET_PARTITION_ID (MakeMachineId a b (of_nat q))) = (of_nat q :: uint16)"
    using unpack_make_machine_id [of a b "of_nat q"] by (simp add: UnpackMachineId_def)
  moreover have "unat (ucast (GET_PARTITION_ID (MakeMachineId a b (of_nat q))) :: uint16) =
      unat (GET_PARTITION_ID (MakeMachineId a b (of_nat q)))"
    by (simp add: machine_id_fields unsigned_take_bit_eq unsigned_ucast_eq)
  ultimately show ?thesis using of_nat_partition_inj(4) [OF q q] by simp
qed

lemma lookup_results_spec:
  assumes "peers_of cf peers" "\<forall>k\<in>set keys. placed cf peers pt M k \<and> pt k = q" "q < num_partitions cf"
  shows "lookup_results (peers q) keys = Inr (map (\<lambda>k. (k, M k)) keys)"
  using assms(2)
proof (induction keys)
  case (Cons k keys)
  then have "lookup_results (peers q) keys = Inr (map (\<lambda>k. (k, M k)) keys)" by simp
  moreover have "placed cf peers pt M k" "pt k = q" using Cons.prems by auto
  ultimately show ?case by (simp add: is_local_key_def placed_def peers_config [OF assms(1)])
qed simp

lemma fill_known:
  assumes "ve_metadata (kv_entry kv) = None" "kv \<in> set kvs"
  shows "fill_metadata (map (\<lambda>k. (k, M k)) (keys_at pt q kvs)) (known pt M A kv) = known pt M (insert q A) kv"
proof -
  have m: "map_of (rev (map (\<lambda>k. (k, M k)) ks)) k = (if k \<in> set ks then Some (M k) else None)" for ks k
    by (simp only: rev_map map_of_map_restrict) (simp add: restrict_map_def)
  have "kv_key kv \<in> set (keys_at pt q kvs) \<longleftrightarrow> pt (kv_key kv) = q" using assms(2) by (auto simp: keys_at_def)
  then show ?thesis using assms(1) by (auto simp: fill_metadata_def known_def m simp del: rev_map)
qed

lemma Forward_latencies:
  assumes "fw_latencies_ns w = fw_latencies_ns w'"
  shows "Forward env now draw t w = Forward env now draw t w'"
proof -
  have "max_avg_latency env rs w = max_avg_latency env rs w'" for rs
    by (simp only: max_avg_latency_def assms)
  then show ?thesis by (simp only: Forward_def route_txn_def)
qed

lemma Forward_forwarded:
  assumes "Forward env now draw t w = Inr out"
  shows "forwarded out = out"
proof -
  from assms obtain x where "route_txn env now draw x w = Inr out" by (auto simp: Forward_def result_simps)
  then show ?thesis
    by (cases "ti_type (tx_internal x)") (auto simp: route_txn_def Let_def result_simps forwarded_def split: if_splits)
qed

lemma upd_unknown:
  assumes "ti_type (tx_internal t) = UNKNOWN"
  shows "upd_internal (\<lambda>i. i\<lparr>ti_type := UNKNOWN\<rparr>) t = t"
proof -
  have "(tx_internal t)\<lparr>ti_type := UNKNOWN\<rparr> = tx_internal t" using assms by (cases "tx_internal t") simp
  then show ?thesis by (simp add: upd_internal_def)
qed

lemma SetTransactionType_unknown:
  assumes "tx_keys t \<noteq> []"
  shows "ti_type (tx_internal (SetTransactionType c t)) = UNKNOWN \<longleftrightarrow> (\<exists>kv\<in>set (tx_keys t). ve_metadata (kv_entry kv) = None)"
    and "\<exists>kv\<in>set (tx_keys t). ve_metadata (kv_entry kv) = None \<Longrightarrow> ti_type (tx_internal t) = UNKNOWN \<Longrightarrow> SetTransactionType c t = t"
proof -
  show "ti_type (tx_internal (SetTransactionType c t)) = UNKNOWN \<longleftrightarrow> (\<exists>kv\<in>set (tx_keys t). ve_metadata (kv_entry kv) = None)"
  proof (cases "\<exists>kv\<in>set (tx_keys t). ve_metadata (kv_entry kv) = None")
    case True
    then have "SetTransactionType c t = upd_internal (\<lambda>i. i\<lparr>ti_type := UNKNOWN\<rparr>) t"
      by (simp only: SetTransactionType_def simp_thms if_True)
    with True show ?thesis by simp
  next
    case False
    have "(ti_type (tx_internal (if P then upd_internal (\<lambda>i. i\<lparr>ti_type := SINGLE_HOME, ti_home := h\<rparr>) t
        else upd_internal (\<lambda>i. i\<lparr>ti_type := MULTI_HOME_OR_LOCK_ONLY, ti_home := - 1\<rparr>) t)) = UNKNOWN) = False" for P h by simp
    with assms False show ?thesis by (simp only: SetTransactionType_def Let_def simp_thms if_False)
  qed
  assume "\<exists>kv\<in>set (tx_keys t). ve_metadata (kv_entry kv) = None" "ti_type (tx_internal t) = UNKNOWN"
  then show "SetTransactionType c t = t"
    using upd_unknown by (simp only: SetTransactionType_def simp_thms if_True)
qed

lemma exchange_step:
  assumes "peers_of cf peers" "\<forall>kv\<in>set kvs. placed cf peers pt M (kv_key kv) \<and> ve_metadata (kv_entry kv) = None"
    and "kvs \<noteq> []" "q < num_partitions cf" "ti_type (tx_internal T) = UNKNOWN"
    and "fw_pending_transactions w = [i \<mapsto> T\<lparr>tx_keys := map (known pt M A) kvs\<rparr>]"
  shows "exchange peers L now draw me w (lookup_msg cf pt kvs i q) =
    (if \<exists>kv\<in>set kvs. pt (kv_key kv) \<notin> insert q A
     then Inr (w\<lparr>fw_pending_transactions := [i \<mapsto> T\<lparr>tx_keys := map (known pt M (insert q A)) kvs\<rparr>]\<rparr>, [])
     else rbind (Forward (peers L) now draw (SetTransactionType (fe_counterless (peers L))
         (T\<lparr>tx_keys := map (known pt M (insert q A)) kvs\<rparr>)) w) (\<lambda>out.
       Inr (w\<lparr>fw_pending_transactions := Map.empty\<rparr>, out)))"
proof -
  let ?c = "fe_counterless (peers L)"
  let ?T = "T\<lparr>tx_keys := map (known pt M (insert q A)) kvs\<rparr>"
  have n: "num_partitions cf \<le> 2 ^ 16" using assms(1) by (simp add: peers_of_def)
  have res: "lookup_results (peers q) (keys_at pt q kvs) = Inr (map (\<lambda>k. (k, M k)) (keys_at pt q kvs))"
    using assms(2,4) by (intro lookup_results_spec [OF assms(1)]) (auto simp: keys_at_def)
  have fill: "map (fill_metadata (map (\<lambda>k. (k, M k)) (keys_at pt q kvs))) (map (known pt M A) kvs) =
      map (known pt M (insert q A)) kvs"
    using fill_known [of _ kvs M pt q A] assms(2) by simp
  have ex: "exchange peers L now draw me w (lookup_msg cf pt kvs i q) =
      update_pending (peers L) now draw (map (\<lambda>k. (k, M k)) (keys_at pt q kvs)) [i] w"
    using assms(4) n by (simp add: lookup_msg_def ProcessLookUpMasterRequest_def partition_of_machine res UpdateMasterInfo_def)
  have none: "(\<exists>kv\<in>set (tx_keys ?T). ve_metadata (kv_entry kv) = None) \<longleftrightarrow> (\<exists>kv\<in>set kvs. pt (kv_key kv) \<notin> insert q A)"
    using assms(2) by (force simp: known_def)
  have ty: "ti_type (tx_internal (SetTransactionType ?c ?T)) = UNKNOWN \<longleftrightarrow> (\<exists>kv\<in>set kvs. pt (kv_key kv) \<notin> insert q A)"
    using SetTransactionType_unknown(1) [of ?T ?c] assms(3) unfolding none by simp
  have same: "\<exists>kv\<in>set kvs. pt (kv_key kv) \<notin> insert q A \<Longrightarrow> SetTransactionType ?c ?T = ?T"
    using SetTransactionType_unknown(2) [of ?T ?c] assms(3,5) unfolding none by simp
  have up: "(T\<lparr>tx_keys := map (known pt M A) kvs\<rparr>)\<lparr>tx_keys := map (fill_metadata (map (\<lambda>k. (k, M k)) (keys_at pt q kvs)))
      (tx_keys (T\<lparr>tx_keys := map (known pt M A) kvs\<rparr>))\<rparr> = ?T" using fill by simp
  show ?thesis
  proof (cases "\<exists>kv\<in>set kvs. pt (kv_key kv) \<notin> insert q A")
    case True
    then show ?thesis unfolding ex update_pending.simps assms(6) fun_upd_same option.case Let_def up
      using ty same [OF True] by simp
  next
    case False
    then show ?thesis unfolding ex update_pending.simps assms(6) fun_upd_same option.case Let_def up
      using ty by (simp add: rbind_assoc)
  qed
qed

definition with_masters :: "(Key \<Rightarrow> Metadata) \<Rightarrow> Transaction \<Rightarrow> Transaction" where
  "with_masters M T = T\<lparr>tx_keys := map (\<lambda>kv. set_metadata (M (kv_key kv)) kv) (tx_keys T)\<rparr>"

lemma known_all: "\<forall>kv\<in>set kvs. pt (kv_key kv) \<in> A \<Longrightarrow> map (known pt M A) kvs = map (\<lambda>kv. set_metadata (M (kv_key kv)) kv) kvs"
  by (simp add: known_def)

lemma exchange_run:
  assumes "peers_of cf peers" "\<forall>kv\<in>set (tx_keys T). placed cf peers pt M (kv_key kv) \<and> ve_metadata (kv_entry kv) = None"
    and "ti_type (tx_internal T) = UNKNOWN" "distinct qs" "qs \<noteq> []" "A \<inter> set qs = {}"
    and "(\<lambda>kv. pt (kv_key kv)) ` set (tx_keys T) \<subseteq> A \<union> set qs" "set qs \<subseteq> (\<lambda>kv. pt (kv_key kv)) ` set (tx_keys T)"
    and "fw_pending_transactions w = [i \<mapsto> T\<lparr>tx_keys := map (known pt M A) (tx_keys T)\<rparr>]"
    and "Forward (peers L) now draw (SetTransactionType (fe_counterless (peers L)) (with_masters M T)) w = Inr out"
  shows "\<exists>w'. run_ops (exchange peers L now draw me) w (map (lookup_msg cf pt (tx_keys T) i) qs) = Inr (w', out) \<and>
    fw_pending_transactions w' = Map.empty"
  using assms(4-10)
proof (induction qs arbitrary: w A)
  case (Cons q qs)
  from Cons.prems(5) assms(2) have q: "q < num_partitions cf" and ne: "tx_keys T \<noteq> []" by (auto simp: placed_def)
  note st = exchange_step [OF assms(1,2) ne q assms(3) Cons.prems(6), of L now draw me]
  show ?case
  proof (cases "qs = []")
    case True
    then have all: "\<forall>kv\<in>set (tx_keys T). pt (kv_key kv) \<in> insert q A" using Cons.prems(4) by auto
    then show ?thesis
      using True st Cons.prems(7) known_all [OF all, of M] by (simp add: with_masters_def)
  next
    case False
    then have "hd qs \<in> set qs" by simp
    then have more: "\<exists>kv\<in>set (tx_keys T). pt (kv_key kv) \<notin> insert q A" using Cons.prems(1,3,5) by force
    let ?w = "w\<lparr>fw_pending_transactions := [i \<mapsto> T\<lparr>tx_keys := map (known pt M (insert q A)) (tx_keys T)\<rparr>]\<rparr>"
    have "Forward (peers L) now draw (SetTransactionType (fe_counterless (peers L)) (with_masters M T)) ?w = Inr out"
      using Cons.prems(7) Forward_latencies [of ?w w] by simp
    then obtain w' where "run_ops (exchange peers L now draw me) ?w (map (lookup_msg cf pt (tx_keys T) i) qs) = Inr (w', out)"
      "fw_pending_transactions w' = Map.empty"
      using Cons.IH [of "insert q A" ?w] Cons.prems(1,3,4,5) False by auto
    then show ?thesis using st more by simp
  qed
qed simp

lemma mset_map_permutation:
  assumes "mset ys = mset (map f xs)"
  obtains zs where "ys = map f zs" "mset zs = mset xs"
proof -
  from assms have "\<exists>zs. ys = map f zs \<and> mset zs = mset xs"
  proof (induction ys arbitrary: xs)
    case (Cons y ys)
    then have "y \<in> set (map f xs)" by (metis list.set_intros(1) mset_eq_setD)
    then obtain as x bs where x: "xs = as @ x # bs" "f x = y" by (auto dest: split_list)
    with Cons.prems have "mset ys = mset (map f (as @ bs))" by simp
    from Cons.IH [OF this] obtain zs where "ys = map f zs" "mset zs = mset (as @ bs)" by blast
    with x show ?case by (intro exI [of _ "x # zs"]) simp
  qed simp
  then show ?thesis using that by blast
qed

lemma PreprocessTxn_sel [simp]:
  "ti_type (tx_internal (PreprocessTxn t)) = UNKNOWN" "ti_involved_partitions (tx_internal (PreprocessTxn t)) = []"
  "kv \<in> set (tx_keys (PreprocessTxn t)) \<Longrightarrow> ve_metadata (kv_entry kv) = None"
  "(\<forall>kv\<in>set (tx_keys (PreprocessTxn t)). P (kv_key kv)) \<longleftrightarrow> (\<forall>kv\<in>set (tx_keys t). P (kv_key kv))"
  by (auto simp: PreprocessTxn_def)

lemma process_forward_spec:
  assumes "peers_of cf peers" "L < num_partitions cf"
    and "\<forall>kv\<in>set (tx_keys txn). placed cf peers pt M (kv_key kv)" "ti_involved_partitions (tx_internal txn) = []"
    and "PopulateInvolvedPartitions (compute_partition (MakeSharder cf)) (of_nat (num_partitions cf)) txn = Inr T"
  defines "remote \<equiv> filter (\<lambda>q. q \<in> (\<lambda>kv. pt (kv_key kv)) ` set (tx_keys txn) \<and> q \<noteq> L) [0..<num_partitions cf]"
  shows "if remote = []
    then \<exists>w1. fw_pending_transactions w1 = Map.empty \<and> fw_latencies_ns w1 = fw_latencies_ns (Forwarder_new cf) \<and>
      snd (SendLookupMasterRequestBatch (peers L) w1) = [] \<and>
      ProcessForwardTxn (peers L) now draw txn (Forwarder_new cf) =
        rbind (Forward (peers L) now draw (SetTransactionType (fe_counterless (peers L)) (with_masters M T)) w1) (\<lambda>out. Inr (w1, out))
    else \<exists>w1. ProcessForwardTxn (peers L) now draw txn (Forwarder_new cf) = Inr (w1, [FwSchedule]) \<and>
      fw_pending_transactions w1 = [tx_id T \<mapsto> T\<lparr>tx_keys := map (known pt M {L}) (tx_keys T)\<rparr>] \<and>
      fw_latencies_ns w1 = fw_latencies_ns (Forwarder_new cf) \<and>
      snd (SendLookupMasterRequestBatch (peers L) w1) = map (lookup_msg cf pt (tx_keys T) (tx_id T)) remote"
proof -
  let ?n = "num_partitions cf" and ?kvs = "tx_keys T" and ?f = "\<lambda>kv. pt (kv_key kv)"
  from populate_spec [OF assms(1,3)] assms(5) obtain qs act where
    T: "T = upd_internal (\<lambda>i. i\<lparr>ti_involved_partitions := ti_involved_partitions i @ map of_nat qs,
        ti_active_partitions := ti_active_partitions i @ act\<rparr>) txn"
    and qs: "distinct qs" "set qs = ?f ` set (tx_keys txn)" by auto
  have kvs: "?kvs = tx_keys txn" and inv: "ti_involved_partitions (tx_internal T) = map of_nat qs"
    using assms(4) by (simp_all add: T)
  have n: "?n \<le> 2 ^ 16" using assms(1) by (simp add: peers_of_def)
  have lt: "pt (kv_key kv) < ?n" if "kv \<in> set ?kvs" for kv using assms(3) that by (auto simp: kvs placed_def)
  define R1 where "R1 = map (\<lambda>q. if q = L then ([], []) else (keys_at pt q ?kvs, [] :: TxnId list)) [0..<?n]"
  have "lookup_keys (peers L) ?kvs (replicate ?n ([], [])) False =
      Inr (map (known pt M {L}) ?kvs, R1, \<exists>kv\<in>set ?kvs. ?f kv \<noteq> L)"
    using lookup_keys_spec [OF assms(1,2), of ?kvs pt M "replicate ?n ([], [])" False] assms(3)
    by (simp add: kvs R1_def cong: map_cong if_cong)
  then have lk: "lookup_keys (peers L) ?kvs (fw_lookup_request (Forwarder_new cf)) False =
      Inr (map (known pt M {L}) ?kvs, R1, \<exists>kv\<in>set ?kvs. ?f kv \<noteq> L)" by (simp add: Forwarder_new_def)
  have rem: "remote = [] \<longleftrightarrow> \<not> (\<exists>kv\<in>set ?kvs. ?f kv \<noteq> L)"
    using lt by (force simp: remote_def kvs filter_empty_conv)
  show ?thesis
  proof (cases "remote = []")
    case True
    then have none: "(\<exists>kv\<in>set ?kvs. ?f kv \<noteq> L) = False" using rem by blast
    let ?w = "(Forwarder_new cf)\<lparr>fw_lookup_request := R1\<rparr>"
    have "map (known pt M {L}) ?kvs = map (\<lambda>kv. set_metadata (M (kv_key kv)) kv) ?kvs"
      using none by (intro known_all) auto
    then have wm: "T\<lparr>tx_keys := map (known pt M {L}) ?kvs\<rparr> = with_masters M T" by (simp only: with_masters_def)
    have "ProcessForwardTxn (peers L) now draw txn (Forwarder_new cf) =
        rbind (Forward (peers L) now draw (SetTransactionType (fe_counterless (peers L)) (with_masters M T)) ?w) (\<lambda>out. Inr (?w, out))"
      by (simp add: ProcessForwardTxn_def peers_config [OF assms(1)] assms(5) lk [unfolded none] wm Let_def)
    moreover have "snd (SendLookupMasterRequestBatch (peers L) ?w) = []"
      by (auto simp: SendLookupMasterRequestBatch_def Let_def R1_def enumerate_map_upt filter_empty_conv)
    ultimately show ?thesis using True by (auto simp: Forwarder_new_def intro!: exI [of _ ?w])
  next
    case False
    then have some: "(\<exists>kv\<in>set ?kvs. ?f kv \<noteq> L) = True" using rem by blast
    define R2 where "R2 = map (\<lambda>q. if q = L then ([], []) else (keys_at pt q ?kvs, if q \<in> set qs then [tx_id T] else [])) [0..<?n]"
    have "\<forall>q\<in>set qs. q < ?n" using qs(2) lt by (auto simp: kvs)
    from add_txn_ids_spec [OF qs(1) this n assms(2), of R1 "tx_id T"]
    have R2: "foldl (\<lambda>rs p. if p = of_nat L then rs else rs[unat p := (fst (rs ! unat p), snd (rs ! unat p) @ [tx_id T])]) R1
        (map (of_nat :: nat \<Rightarrow> uint32) qs) = R2"
      by (simp add: R1_def R2_def cong: map_cong if_cong)
    let ?T = "T\<lparr>tx_keys := map (known pt M {L}) ?kvs\<rparr>"
    let ?w = "(Forwarder_new cf)\<lparr>fw_lookup_request := R2, fw_batch_size := 1, fw_pending_transactions := [tx_id T \<mapsto> ?T]\<rparr>"
    have "tx_id ?T = tx_id T" by (simp add: tx_id_def)
    then have "ProcessForwardTxn (peers L) now draw txn (Forwarder_new cf) = Inr (?w, [FwSchedule])"
      by (simp add: ProcessForwardTxn_def peers_config [OF assms(1)] assms(5) lk [unfolded some] inv R2 Let_def cong: if_cong)
        (simp add: Forwarder_new_def)
    moreover have "snd (SendLookupMasterRequestBatch (peers L) ?w) = map (lookup_msg cf pt ?kvs (tx_id T)) remote"
      using assms(1) qs(2)
      by (simp add: SendLookupMasterRequestBatch_def Let_def R2_def enumerate_map_upt filter_map comp_def remote_def lookup_msg_def)
        (auto simp: lookup_msg_def intro!: map_cong filter_cong)
    ultimately show ?thesis using False by (auto intro!: exI [of _ ?w])
  qed
qed

text \<open>
  C10: the forwarders of a region find the home of every key: when a transaction accepted by
  the server is the first to reach a forwarder, and the lookup requests this causes are answered by the
  forwarders of the other partitions, in any order, the transaction is forwarded exactly
  once, after the last answer, with the metadata that the forwarder of each key's partition
  has for the key, and is no longer pending.
\<close>
theorem forwarder_finds_masters:
  assumes "peers_of cf peers" "L < num_partitions cf" "tx_keys t \<noteq> []"
    and "\<forall>kv\<in>set (tx_keys t). placed cf peers pt M (kv_key kv)"
    and "PopulateInvolvedPartitions (compute_partition (MakeSharder cf)) (of_nat (num_partitions cf)) (PreprocessTxn t) = Inr T"
    and "Forward (peers L) now draw (SetTransactionType (fe_counterless (peers L)) (with_masters M T)) (Forwarder_new cf) = Inr out"
  shows "\<exists>w1 out1. ProcessForwardTxn (peers L) now draw (PreprocessTxn t) (Forwarder_new cf) = Inr (w1, out1) \<and>
    (\<forall>arrived. mset arrived = mset (snd (SendLookupMasterRequestBatch (peers L) w1)) \<longrightarrow>
      (\<exists>w3 out2. run_ops (exchange peers L now draw me) (fst (SendLookupMasterRequestBatch (peers L) w1)) arrived = Inr (w3, out2) \<and>
        fw_pending_transactions w3 = Map.empty \<and> forwarded (out1 @ out2) = out))"
proof -
  let ?n = "num_partitions cf" and ?t = "PreprocessTxn t" and ?f = "\<lambda>kv. pt (kv_key kv)"
  let ?R = "SetTransactionType (fe_counterless (peers L)) (with_masters M T)"
  define remote where "remote = filter (\<lambda>q. q \<in> ?f ` set (tx_keys ?t) \<and> q \<noteq> L) [0..<?n]"
  have pl: "\<forall>kv\<in>set (tx_keys ?t). placed cf peers pt M (kv_key kv)" using assms(4) by simp
  note spec = process_forward_spec [OF assms(1,2) pl PreprocessTxn_sel(2) assms(5), of now draw, folded remote_def]
  have T: "tx_keys T = tx_keys ?t" "ti_type (tx_internal T) = UNKNOWN"
    using populate_spec [OF assms(1) pl] assms(5) by auto
  have Fw: "Forward (peers L) now draw ?R w = Inr out" if "fw_latencies_ns w = fw_latencies_ns (Forwarder_new cf)" for w
    using assms(6) Forward_latencies [OF that] by simp
  show ?thesis
  proof (cases "remote = []")
    case True
    with spec obtain w1 where w1: "fw_pending_transactions w1 = Map.empty" "fw_latencies_ns w1 = fw_latencies_ns (Forwarder_new cf)"
      "snd (SendLookupMasterRequestBatch (peers L) w1) = []"
      "ProcessForwardTxn (peers L) now draw ?t (Forwarder_new cf) = rbind (Forward (peers L) now draw ?R w1) (\<lambda>out. Inr (w1, out))"
      by auto
    have "fw_pending_transactions (fst (SendLookupMasterRequestBatch (peers L) w1)) = Map.empty"
      using w1(1) by (simp add: SendLookupMasterRequestBatch_def Let_def)
    then show ?thesis using Fw [OF w1(2)] Forward_forwarded [OF assms(6)] w1(3,4)
      by (intro exI [of _ w1] exI [of _ out]) simp
  next
    case False
    with spec obtain w1 where w1: "ProcessForwardTxn (peers L) now draw ?t (Forwarder_new cf) = Inr (w1, [FwSchedule])"
      "fw_pending_transactions w1 = [tx_id T \<mapsto> T\<lparr>tx_keys := map (known pt M {L}) (tx_keys T)\<rparr>]"
      "fw_latencies_ns w1 = fw_latencies_ns (Forwarder_new cf)"
      "snd (SendLookupMasterRequestBatch (peers L) w1) = map (lookup_msg cf pt (tx_keys T) (tx_id T)) remote" by auto
    let ?w2 = "fst (SendLookupMasterRequestBatch (peers L) w1)"
    have w2: "fw_pending_transactions ?w2 = fw_pending_transactions w1" "fw_latencies_ns ?w2 = fw_latencies_ns (Forwarder_new cf)"
      using w1(3) by (simp_all add: SendLookupMasterRequestBatch_def Let_def)
    have run: "\<exists>w3. run_ops (exchange peers L now draw me) ?w2 arrived = Inr (w3, out) \<and> fw_pending_transactions w3 = Map.empty"
      if arr: "mset arrived = mset (map (lookup_msg cf pt (tx_keys T) (tx_id T)) remote)" for arrived
    proof -
      from arr obtain qs where qs: "arrived = map (lookup_msg cf pt (tx_keys T) (tx_id T)) qs" "mset qs = mset remote"
        by (rule mset_map_permutation)
      have set: "set qs = ?f ` set (tx_keys T) - {L}" and d: "distinct qs"
        using mset_eq_setD [OF qs(2)] mset_eq_imp_distinct_iff [OF qs(2)] pl by (auto simp: remote_def T placed_def)
      have "qs \<noteq> []" using False qs(2) by auto
      then show ?thesis unfolding qs(1) using w1(2) w2 T pl Fw set
        by (intro exchange_run [OF assms(1) _ T(2) d, where A = "{L}"]) auto
    qed
    have "forwarded ([FwSchedule] @ out) = out" using Forward_forwarded [OF assms(6)] by (simp add: forwarded_def)
    with run w1(1,4) show ?thesis by (intro exI [of _ w1] exI [of _ "[FwSchedule]"]) fastforce
  qed
qed

definition fw_sample_config :: Configuration where
  "fw_sample_config = \<lparr>cf_config = sample_config [sample_region [''a'', ''b''], sample_region [''c'', ''d'']] 2 SimplePartitioning,
     cf_local_address = ''a'', cf_local_region = 0, cf_local_replica = 0, cf_local_partition = 0,
     cf_local_machine_id = 0, cf_all_addresses = Map.empty, cf_all_machine_ids = [], cf_replication_order = []\<rparr>"

definition fw_sample_peers :: "nat \<Rightarrow> ForwarderEnv" where
  "fw_sample_peers q = \<lparr>fe_config = fw_sample_config\<lparr>cf_local_partition := q\<rparr>, fe_counterless = False,
     fe_index = Map.empty, fe_initializer = ConstantMetadataInitializer 0, fe_timestamp_buffer_us = 0, fe_avg_ns = (\<lambda>_. 0)\<rparr>"

definition fw_sample_txn :: Transaction where
  "fw_sample_txn = default_txn\<lparr>tx_keys := [sample_kv ''1'' KeyWrite 0, sample_kv ''2'' KeyRead 0]\<rparr>"

definition fw_sample_part :: "Key \<Rightarrow> nat" where
  "fw_sample_part key = (if key = ''1'' then 1 else 0)"

lemma fw_sample_config_sel: "num_partitions fw_sample_config = 2" "num_regions fw_sample_config = 2"
  by (simp_all add: fw_sample_config_def num_partitions_def num_regions_def sample_config_def)

lemma fw_sample_ok: "peers_of fw_sample_config fw_sample_peers"
  by (simp add: peers_of_def fw_sample_peers_def fw_sample_config_sel)

lemma fw_sample_placed: "\<forall>kv\<in>set (tx_keys fw_sample_txn).
    placed fw_sample_config fw_sample_peers fw_sample_part (\<lambda>_. mk_Metadata 0 0) (kv_key kv)"
  by (simp add: placed_def fw_sample_txn_def fw_sample_part_def sample_kv_def fw_sample_config_sel compute_partition_def
      MakeSharder_def SimpleSharder_compute_partition_def stoll_def parse_int_def isspace_def is_digit_def
      lookup_metadata_def fw_sample_peers_def)
    (simp add: fw_sample_config_def sample_config_def num_partitions_def SimpleSharder_compute_partition_def
      stoll_def parse_int_def isspace_def is_digit_def signed_modulo_int_def signed_divide_int_def)

lemma fw_sample_forward:
  assumes "tx_keys T = tx_keys (PreprocessTxn fw_sample_txn)"
  shows "\<exists>t. Forward (fw_sample_peers 0) now draw (SetTransactionType (fe_counterless (fw_sample_peers 0))
    (with_masters (\<lambda>_. mk_Metadata 0 0) T)) w = Inr [FwToSequencer t]"
proof -
  have keys: "tx_keys (with_masters (\<lambda>_. mk_Metadata 0 0) T) = map (set_metadata (mk_Metadata 0 0)) (tx_keys (PreprocessTxn fw_sample_txn))"
    using assms by (simp add: with_masters_def)
  have m: "md_master (mk_Metadata 0 0) = 0" by (simp add: mk_Metadata_def)
  show ?thesis
    by (simp add: Forward_def m route_txn_def PopulateInvolvedRegions_def SetTransactionType_def keys PreprocessTxn_def fw_sample_txn_def
        fw_sample_peers_def kv_master_def metadata_def fw_sample_config_def is_remaster_def)
qed

theorem forwarder_finds_masters_witness:
  "\<exists>w1 out1 t. ProcessForwardTxn (fw_sample_peers 0) 0 0 (PreprocessTxn fw_sample_txn) (Forwarder_new fw_sample_config) = Inr (w1, out1) \<and>
    (\<forall>arrived. mset arrived = mset (snd (SendLookupMasterRequestBatch (fw_sample_peers 0) w1)) \<longrightarrow>
      (\<exists>w3 out2. run_ops (exchange fw_sample_peers 0 0 0 0) (fst (SendLookupMasterRequestBatch (fw_sample_peers 0) w1)) arrived = Inr (w3, out2) \<and>
        fw_pending_transactions w3 = Map.empty \<and> forwarded (out1 @ out2) = [FwToSequencer t]))"
proof -
  let ?pl = "placed fw_sample_config fw_sample_peers fw_sample_part (\<lambda>_. mk_Metadata 0 0)"
  have "\<forall>kv\<in>set (tx_keys (PreprocessTxn fw_sample_txn)). ?pl (kv_key kv)" using fw_sample_placed by simp
  from populate_spec [OF fw_sample_ok this] obtain T where
    T: "PopulateInvolvedPartitions (compute_partition (MakeSharder fw_sample_config)) (of_nat (num_partitions fw_sample_config))
      (PreprocessTxn fw_sample_txn) = Inr T" "tx_keys T = tx_keys (PreprocessTxn fw_sample_txn)" by force
  obtain t where t: "Forward (fw_sample_peers 0) 0 0 (SetTransactionType (fe_counterless (fw_sample_peers 0))
      (with_masters (\<lambda>_. mk_Metadata 0 0) T)) (Forwarder_new fw_sample_config) = Inr [FwToSequencer t]"
    using fw_sample_forward [OF T(2)] by blast
  have "0 < num_partitions fw_sample_config" "tx_keys fw_sample_txn \<noteq> []" by (simp_all add: fw_sample_config_sel fw_sample_txn_def)
  from forwarder_finds_masters [OF fw_sample_ok this fw_sample_placed T(1) t, of 0] show ?thesis by blast
qed

end
