(* ===== verification/Tables.thy ===== *)
theory Tables
  imports Execution "HOL-Library.AList"
begin

section \<open>Typed tables over the key-value store\<close>

text \<open>
  The relational layer of the TPC-C and MovR engines (\<^verbatim>\<open>execution/tpcc/\<close>): data types and
  scalars, the class template \<^verbatim>\<open>Table<Schema>\<close>, and the three storage adapters a table
  works on: the key-value store itself, the entries of a transaction, and the generator of the
  key list of a transaction.  \<^verbatim>\<open>execution/movr/\<close> holds a copy of the same template.
  The abstract class \<^verbatim>\<open>StorageAdapter\<close> is a record of its virtual methods over the state
  \<open>'a\<close> of the object.
\<close>

subsection \<open>Types and scalars\<close>

datatype DataTypeName = INT8 | INT16 | INT32 | INT64 | FIXED_TEXT

datatype DataType = Int8Type | Int16Type | Int32Type | Int64Type | FixedTextType nat

fun type_name :: "DataType \<Rightarrow> DataTypeName" where
  "type_name Int8Type = INT8"
| "type_name Int16Type = INT16"
| "type_name Int32Type = INT32"
| "type_name Int64Type = INT64"
| "type_name (FixedTextType w) = FIXED_TEXT"

fun type_size :: "DataType \<Rightarrow> nat" where
  "type_size Int8Type = 1"
| "type_size Int16Type = 2"
| "type_size Int32Type = 4"
| "type_size Int64Type = 8"
| "type_size (FixedTextType w) = w"

definition DataType_eq :: "DataType \<Rightarrow> DataType \<Rightarrow> bool" where
  "DataType_eq dt1 dt2 \<longleftrightarrow> type_name dt1 = type_name dt2 \<and>
     (type_name dt1 = FIXED_TEXT \<longrightarrow> type_size dt1 = type_size dt2)"

text \<open>A text scalar has the width of its type and a buffer, which the type does not constrain.\<close>

datatype Scalar = Int8Scalar "8 word" | Int16Scalar "16 word" | Int32Scalar "32 word" | Int64Scalar "64 word"
  | FixedTextScalar nat string

fun scalar_type :: "Scalar \<Rightarrow> DataType" where
  "scalar_type (Int8Scalar v) = Int8Type"
| "scalar_type (Int16Scalar v) = Int16Type"
| "scalar_type (Int32Scalar v) = Int32Type"
| "scalar_type (Int64Scalar v) = Int64Type"
| "scalar_type (FixedTextScalar w b) = FixedTextType w"

fun le_encode :: "nat \<Rightarrow> nat \<Rightarrow> string" where
  "le_encode 0 v = []"
| "le_encode (Suc n) v = char_of (v mod 256) # le_encode n (v div 256)"

fun scalar_data :: "Scalar \<Rightarrow> string" where
  "scalar_data (Int8Scalar v) = le_encode 1 (unat v)"
| "scalar_data (Int16Scalar v) = le_encode 2 (unat v)"
| "scalar_data (Int32Scalar v) = le_encode 4 (unat v)"
| "scalar_data (Int64Scalar v) = le_encode 8 (unat v)"
| "scalar_data (FixedTextScalar w b) = b"

text \<open>The first \<^verbatim>\<open>type->size()\<close> bytes at \<^verbatim>\<open>data()\<close>; fewer bytes there are an access past the end.\<close>

definition scalar_bytes :: "Scalar \<Rightarrow> string result" where
  "scalar_bytes s = (let n = type_size (scalar_type s) in
     if length (scalar_data s) < n then Inl (Undefined ''read past the end of a scalar'') else Inr (take n (scalar_data s)))"

definition MakeFixedTextScalar :: "DataType \<Rightarrow> string \<Rightarrow> Scalar result" where
  "MakeFixedTextScalar type d =
     (if type_name type \<noteq> FIXED_TEXT then Inl (CheckFailed ''type->name() == DataTypeName::FIXED_TEXT'')
      else if length d \<noteq> type_size type then Inl (CheckFailed ''Size does not match'')
      else Inr (FixedTextScalar (type_size type) d))"

text \<open>\<open>d\<close> are the bytes from the address the scalar is read at up to the end of the buffer.\<close>

definition MakeScalar :: "DataType \<Rightarrow> string \<Rightarrow> Scalar result" where
  "MakeScalar type d =
     (let n = type_size type; v = le_bytes (take n d) in
      if length d < n then Inl (Undefined ''read past the end of a column'')
      else case type of
        Int8Type \<Rightarrow> Inr (Int8Scalar (of_nat v))
      | Int16Type \<Rightarrow> Inr (Int16Scalar (of_nat v))
      | Int32Type \<Rightarrow> Inr (Int32Scalar (of_nat v))
      | Int64Type \<Rightarrow> Inr (Int64Scalar (of_nat v))
      | FixedTextType w \<Rightarrow> MakeFixedTextScalar type (take n d))"

fun Scalar_eq :: "Scalar \<Rightarrow> Scalar \<Rightarrow> bool" where
  "Scalar_eq (Int8Scalar a) (Int8Scalar b) = (a = b)"
| "Scalar_eq (Int16Scalar a) (Int16Scalar b) = (a = b)"
| "Scalar_eq (Int32Scalar a) (Int32Scalar b) = (a = b)"
| "Scalar_eq (Int64Scalar a) (Int64Scalar b) = (a = b)"
| "Scalar_eq (FixedTextScalar v a) (FixedTextScalar w b) = (v = w \<and> a = b)"
| "Scalar_eq _ _ = False"

text \<open>\<^verbatim>\<open>UncheckedCast\<close> followed by a use as the cast type; a wrong cast is undefined.\<close>

fun as_int8 :: "Scalar \<Rightarrow> 8 word result" where
  "as_int8 (Int8Scalar v) = Inr v"
| "as_int8 _ = Inl (Undefined ''UncheckedCast<Int8Scalar>'')"

fun as_int16 :: "Scalar \<Rightarrow> 16 word result" where
  "as_int16 (Int16Scalar v) = Inr v"
| "as_int16 _ = Inl (Undefined ''UncheckedCast<Int16Scalar>'')"

fun as_int32 :: "Scalar \<Rightarrow> 32 word result" where
  "as_int32 (Int32Scalar v) = Inr v"
| "as_int32 _ = Inl (Undefined ''UncheckedCast<Int32Scalar>'')"

fun as_int64 :: "Scalar \<Rightarrow> 64 word result" where
  "as_int64 (Int64Scalar v) = Inr v"
| "as_int64 _ = Inl (Undefined ''UncheckedCast<Int64Scalar>'')"

fun as_text :: "Scalar \<Rightarrow> (nat \<times> string) result" where
  "as_text (FixedTextScalar w b) = Inr (w, b)"
| "as_text _ = Inl (Undefined ''UncheckedCast<FixedTextScalar>'')"

subsection \<open>Storage adapters\<close>

record 'a StorageAdapter =
  ad_Read :: "Key \<Rightarrow> 'a \<Rightarrow> (Value option \<times> 'a) result"
  ad_Insert :: "Key \<Rightarrow> Value \<Rightarrow> 'a \<Rightarrow> (bool \<times> 'a) result"
  ad_Update :: "Key \<Rightarrow> (Value \<Rightarrow> Value result) \<Rightarrow> 'a \<Rightarrow> (bool \<times> 'a) result"
  ad_Delete :: "Key \<Rightarrow> 'a \<Rightarrow> (bool \<times> 'a) result"

subsubsection \<open>The key-value store\<close>

record 's KVAdapter =
  ka_storage :: 's
  ka_buffer :: "string list"

definition KV_Read :: "('s \<Rightarrow> Key \<Rightarrow> Record option \<times> 's) \<Rightarrow> Key \<Rightarrow> 's KVAdapter \<Rightarrow> (Value option \<times> 's KVAdapter) result" where
  "KV_Read read key a =
     (case read (ka_storage a) key of
        (None, s) \<Rightarrow> Inr (None, a\<lparr>ka_storage := s\<rparr>)
      | (Some r, s) \<Rightarrow> Inr (Some (Record_to_string r),
          a\<lparr>ka_storage := s, ka_buffer := ka_buffer a @ [Record_to_string r]\<rparr>))"

definition KV_Insert ::
  "('s \<Rightarrow> Key \<Rightarrow> Record \<Rightarrow> bool \<times> 's) \<Rightarrow> (Key \<Rightarrow> Metadata result) \<Rightarrow> Key \<Rightarrow> Value \<Rightarrow> 's KVAdapter \<Rightarrow> (bool \<times> 's KVAdapter) result" where
  "KV_Insert write compute key v a =
     rbind (compute key) (\<lambda>m.
       Inr (True, a\<lparr>ka_storage := snd (write (ka_storage a) key (SetMetadata m (SetValue v Record_default)))\<rparr>))"

definition KVStorageAdapter ::
  "('s \<Rightarrow> Key \<Rightarrow> Record option \<times> 's) \<Rightarrow> ('s \<Rightarrow> Key \<Rightarrow> Record \<Rightarrow> bool \<times> 's) \<Rightarrow> (Key \<Rightarrow> Metadata result) \<Rightarrow> 's KVAdapter StorageAdapter" where
  "KVStorageAdapter read write compute =
     \<lparr>ad_Read = KV_Read read, ad_Insert = KV_Insert write compute,
      ad_Update = (\<lambda>_ _ _. Inl (RuntimeError ''Update is unimplemented in KVStorageAdapter'')),
      ad_Delete = (\<lambda>_ _. Inl (RuntimeError ''Delete is unimplemented in KVStorageAdapter''))\<rparr>"

subsubsection \<open>The entries of a transaction\<close>

record TxnAdapter =
  ta_txn :: Transaction
  ta_index :: "(Key \<times> nat) list"

fun emplace_keys :: "Key list \<Rightarrow> nat \<Rightarrow> (Key \<times> nat) list \<Rightarrow> (Key \<times> nat) list" where
  "emplace_keys [] i idx = idx"
| "emplace_keys (k # ks) i idx = emplace_keys ks (Suc i) (if map_of idx k = None then idx @ [(k, i)] else idx)"

definition TxnAdapter_new :: "Transaction \<Rightarrow> TxnAdapter" where
  "TxnAdapter_new txn = \<lparr>ta_txn = txn, ta_index = emplace_keys (map kv_key (tx_keys txn)) 0 []\<rparr>"

definition CheckIndexSize :: "TxnAdapter \<Rightarrow> unit result" where
  "CheckIndexSize a = (if length (ta_index a) = length (tx_keys (ta_txn a)) then Inr ()
     else Inl (CheckFailed ''Size of key list in the transaction has changed''))"

definition keys_at :: "TxnAdapter \<Rightarrow> nat \<Rightarrow> ValueEntry result" where
  "keys_at a i = (if i < length (tx_keys (ta_txn a)) then Inr (kv_entry (tx_keys (ta_txn a) ! i))
     else Inl (Undefined ''txn_.keys(i)''))"

definition Txn_Read :: "Key \<Rightarrow> TxnAdapter \<Rightarrow> (Value option \<times> TxnAdapter) result" where
  "Txn_Read key a =
     rbind (CheckIndexSize a) (\<lambda>_.
       case map_of (ta_index a) key of
         None \<Rightarrow> Inr (None, a)
       | Some i \<Rightarrow> rbind (keys_at a i) (\<lambda>e. Inr (Some (ve_value e), a)))"

definition Txn_Insert :: "Key \<Rightarrow> Value \<Rightarrow> TxnAdapter \<Rightarrow> (bool \<times> TxnAdapter) result" where
  "Txn_Insert key v a =
     rbind (CheckIndexSize a) (\<lambda>_.
       case map_of (ta_index a) key of
         None \<Rightarrow> Inr (False, a)
       | Some i \<Rightarrow> rbind (keys_at a i) (\<lambda>e.
           if ve_type e \<noteq> KeyWrite then Inr (False, a)
           else Inr (True, a\<lparr>ta_txn := set_new_value i v (ta_txn a)\<rparr>)))"

definition Txn_Update :: "Key \<Rightarrow> (Value \<Rightarrow> Value result) \<Rightarrow> TxnAdapter \<Rightarrow> (bool \<times> TxnAdapter) result" where
  "Txn_Update key update_fn a =
     rbind (CheckIndexSize a) (\<lambda>_.
       case map_of (ta_index a) key of
         None \<Rightarrow> Inr (False, a)
       | Some i \<Rightarrow> rbind (keys_at a i) (\<lambda>e.
           if ve_type e \<noteq> KeyWrite \<or> ve_value e = [] then Inr (False, a)
           else rbind (update_fn (ve_value e)) (\<lambda>v.
             Inr (True, a\<lparr>ta_txn := set_new_value i v (ta_txn a)\<rparr>))))"

text \<open>\<open>n\<close> swaps from position \<open>i\<close>, each of which moves the next key to the front and re-indexes it.\<close>

fun shift_keys :: "nat \<Rightarrow> nat \<Rightarrow> KeyValueEntry list \<Rightarrow> (Key \<times> nat) list \<Rightarrow> KeyValueEntry list \<times> (Key \<times> nat) list" where
  "shift_keys 0 i kvs idx = (kvs, idx)"
| "shift_keys (Suc n) i kvs idx =
     (let kvs1 = kvs[i := kvs ! Suc i, Suc i := kvs ! i] in
      shift_keys n (Suc i) kvs1 (AList.update (kv_key (kvs1 ! i)) i idx))"

definition Txn_Delete :: "Key \<Rightarrow> TxnAdapter \<Rightarrow> (bool \<times> TxnAdapter) result" where
  "Txn_Delete key a =
     rbind (CheckIndexSize a) (\<lambda>_.
       case map_of (ta_index a) key of
         None \<Rightarrow> Inr (False, a)
       | Some i \<Rightarrow>
           let txn = ta_txn a; (kvs, idx) = shift_keys (length (tx_keys txn) - 1 - i) i (tx_keys txn) (ta_index a) in
           Inr (True, \<lparr>ta_txn = txn\<lparr>tx_keys := butlast kvs, tx_deleted_keys := tx_deleted_keys txn @ [key]\<rparr>,
                 ta_index = AList.delete key idx\<rparr>))"

definition TxnStorageAdapter :: "TxnAdapter StorageAdapter" where
  "TxnStorageAdapter = \<lparr>ad_Read = Txn_Read, ad_Insert = Txn_Insert, ad_Update = Txn_Update, ad_Delete = Txn_Delete\<rparr>"

subsubsection \<open>The generator of the key list\<close>

record KeyGenAdapter =
  kg_txn :: Transaction
  kg_index :: "(Key \<times> KeyType) list"
  kg_finalized :: bool

definition KeyGenAdapter_new :: "Transaction \<Rightarrow> KeyGenAdapter" where
  "KeyGenAdapter_new txn = \<lparr>kg_txn = txn, kg_index = [], kg_finalized = False\<rparr>"

definition NewReadKey :: "Key \<Rightarrow> KeyGenAdapter \<Rightarrow> KeyGenAdapter" where
  "NewReadKey key a = (if kg_finalized a then a
     else if map_of (kg_index a) key = None then a\<lparr>kg_index := kg_index a @ [(key, KeyRead)]\<rparr> else a)"

definition NewWriteKey :: "Key \<Rightarrow> KeyGenAdapter \<Rightarrow> KeyGenAdapter" where
  "NewWriteKey key a = (if kg_finalized a then a else a\<lparr>kg_index := AList.update key KeyWrite (kg_index a)\<rparr>)"

definition TxnKeyGenStorageAdapter :: "KeyGenAdapter StorageAdapter" where
  "TxnKeyGenStorageAdapter =
     \<lparr>ad_Read = (\<lambda>key a. Inr (None, NewReadKey key a)),
      ad_Insert = (\<lambda>key _ a. Inr (False, NewWriteKey key a)),
      ad_Update = (\<lambda>key _ a. Inr (False, NewWriteKey key a)),
      ad_Delete = (\<lambda>key a. Inr (False, NewWriteKey key a))\<rparr>"

text \<open>\<open>order\<close> is the order in which the hash table is traversed.\<close>

definition Finialize :: "((Key \<times> KeyType) list \<Rightarrow> (Key \<times> KeyType) list) \<Rightarrow> KeyGenAdapter \<Rightarrow> KeyGenAdapter" where
  "Finialize order a =
     a\<lparr>kg_txn := (kg_txn a)\<lparr>tx_keys := map (\<lambda>(k, t). \<lparr>kv_key = k,
         kv_entry = \<lparr>ve_value = [], ve_new_value = [], ve_type = t, ve_metadata = None\<rparr>\<rparr>) (order (kg_index a))\<rparr>,
       kg_finalized := True\<rparr>"

subsection \<open>Tables\<close>

record Schema =
  kId :: nat
  kPKeySize :: nat
  kGroupedColumns :: bool
  ColumnTypes :: "DataType list"

definition kNumColumns :: "Schema \<Rightarrow> nat" where
  "kNumColumns sc = length (ColumnTypes sc)"

definition column_offset :: "Schema \<Rightarrow> nat \<Rightarrow> nat" where
  "column_offset sc i = sum_list (map type_size (drop (kPKeySize sc) (take i (ColumnTypes sc))))"

definition non_pkey_columns :: "Schema \<Rightarrow> nat list" where
  "non_pkey_columns sc = [kPKeySize sc..<kNumColumns sc]"

fun traverse :: "('a \<Rightarrow> 'b result) \<Rightarrow> 'a list \<Rightarrow> 'b list result" where
  "traverse f [] = Inr []"
| "traverse f (x # xs) = rbind (f x) (\<lambda>y. rbind (traverse f xs) (\<lambda>ys. Inr (y # ys)))"

definition ValidateType :: "Schema \<Rightarrow> Scalar \<times> nat \<Rightarrow> unit result" where
  "ValidateType sc vc =
     (if kNumColumns sc \<le> snd vc then Inl (Undefined ''ColumnTypes[col]'')
      else if type_name (scalar_type (fst vc)) = type_name (ColumnTypes sc ! snd vc) then Inr ()
      else Inl (CheckFailed ''Invalid column type''))"

text \<open>The part of a storage key without the column.\<close>

definition MakeStorageKey :: "Schema \<Rightarrow> Scalar list \<Rightarrow> Key result" where
  "MakeStorageKey sc values =
     (if length values < kPKeySize sc then Inl (CheckFailed ''Number of values needs to be equal or larger than primary key size'')
      else rbind (traverse (ValidateType sc) (zip values [0..<kPKeySize sc])) (\<lambda>_.
        rbind (traverse scalar_bytes (take (kPKeySize sc) values)) (\<lambda>bs.
          Inr (hd bs @ char_of (kId sc) # concat (tl bs)))))"

definition MakeStorageKeys :: "Schema \<Rightarrow> Scalar list \<Rightarrow> nat list \<Rightarrow> Key list result" where
  "MakeStorageKeys sc values columns =
     rbind (MakeStorageKey sc values) (\<lambda>key.
       Inr (map (\<lambda>col. key @ [char_of col]) (if columns = [] then non_pkey_columns sc else columns)))"

definition pkey_at :: "Scalar list \<Rightarrow> nat \<Rightarrow> Scalar result" where
  "pkey_at pkey i = (if i < length pkey then Inr (pkey ! i) else Inl (Undefined ''pkey[i]''))"

definition decode_column :: "Schema \<Rightarrow> Value \<Rightarrow> nat \<Rightarrow> Scalar result" where
  "decode_column sc encoded i =
     (if kNumColumns sc \<le> i then Inl (Undefined ''ColumnTypes[i]'')
      else if length encoded < column_offset sc i then Inl (Undefined ''encoded_columns + column_offsets_[i]'')
      else MakeScalar (ColumnTypes sc ! i) (drop (column_offset sc i) encoded))"

definition SelectGrouped :: "Schema \<Rightarrow> 'a StorageAdapter \<Rightarrow> Scalar list \<Rightarrow> nat list \<Rightarrow> 'a \<Rightarrow> (Scalar list \<times> 'a) result" where
  "SelectGrouped sc ad pkey columns st =
     rbind (MakeStorageKey sc pkey) (\<lambda>key.
     rbind (ad_Read ad key st) (\<lambda>(v, st1).
       case v of
         None \<Rightarrow> Inr ([], st1)
       | Some encoded \<Rightarrow>
           if columns = [] then
             rbind (traverse (decode_column sc encoded) (non_pkey_columns sc)) (\<lambda>vs. Inr (pkey @ vs, st1))
           else
             rbind (traverse (\<lambda>i. if i < kPKeySize sc then pkey_at pkey i else decode_column sc encoded i) columns)
               (\<lambda>vs. Inr (vs, st1))))"

fun select_columns ::
  "Schema \<Rightarrow> 'a StorageAdapter \<Rightarrow> Scalar list \<Rightarrow> (nat \<times> Key) list \<Rightarrow> 'a \<Rightarrow> (Scalar list \<times> bool \<times> 'a) result" where
  "select_columns sc ad pkey [] st = Inr ([], False, st)"
| "select_columns sc ad pkey (ck # cks) st =
     (if fst ck < kPKeySize sc then
        rbind (pkey_at pkey (fst ck)) (\<lambda>v.
        rbind (select_columns sc ad pkey cks st) (\<lambda>r. Inr (v # fst r, snd r)))
      else
        rbind (ad_Read ad (snd ck) st) (\<lambda>(v, st1).
          case v of
            None \<Rightarrow> select_columns sc ad pkey cks st1
          | Some d \<Rightarrow>
              if d = [] then select_columns sc ad pkey cks st1
              else if kNumColumns sc \<le> fst ck then Inl (Undefined ''ColumnTypes[col]'')
              else rbind (MakeScalar (ColumnTypes sc ! fst ck) d) (\<lambda>s.
                   rbind (select_columns sc ad pkey cks st1) (\<lambda>r. Inr (s # fst r, True, snd (snd r))))))"

definition SelectUngrouped :: "Schema \<Rightarrow> 'a StorageAdapter \<Rightarrow> Scalar list \<Rightarrow> nat list \<Rightarrow> 'a \<Rightarrow> (Scalar list \<times> 'a) result" where
  "SelectUngrouped sc ad pkey columns st =
     rbind (MakeStorageKeys sc pkey columns) (\<lambda>keys.
     rbind (select_columns sc ad pkey (zip (if columns = [] then non_pkey_columns sc else columns) keys) st)
       (\<lambda>(vs, value_found, st1).
         Inr (if \<not> value_found then [] else if columns = [] then pkey @ vs else vs, st1)))"

definition Select :: "Schema \<Rightarrow> 'a StorageAdapter \<Rightarrow> Scalar list \<Rightarrow> nat list \<Rightarrow> 'a \<Rightarrow> (Scalar list \<times> 'a) result" where
  "Select sc ad pkey columns st =
     (if kGroupedColumns sc then SelectGrouped sc ad pkey columns st else SelectUngrouped sc ad pkey columns st)"

text \<open>\<^verbatim>\<open>std::string::replace\<close> of \<open>n\<close> characters at a position.\<close>

definition string_replace :: "nat \<Rightarrow> nat \<Rightarrow> string \<Rightarrow> string \<Rightarrow> string result" where
  "string_replace pos n new s = (if length s < pos then Inl (OutOfRange ''basic_string::replace'')
     else Inr (take pos s @ new @ drop (pos + n) s))"

fun replace_columns :: "Schema \<Rightarrow> (nat \<times> Scalar) list \<Rightarrow> Value \<Rightarrow> Value result" where
  "replace_columns sc [] stored = Inr stored"
| "replace_columns sc (cv # cvs) stored =
     rbind (scalar_bytes (snd cv)) (\<lambda>d.
     rbind (string_replace (column_offset sc (fst cv)) (type_size (scalar_type (snd cv))) d stored)
       (replace_columns sc cvs))"

fun update_columns :: "'a StorageAdapter \<Rightarrow> (Key \<times> Scalar) list \<Rightarrow> 'a \<Rightarrow> (bool \<times> 'a) result" where
  "update_columns ad [] st = Inr (True, st)"
| "update_columns ad (kv # kvs) st =
     rbind (ad_Update ad (fst kv) (\<lambda>_. scalar_bytes (snd kv)) st) (\<lambda>(ok, st1).
     rbind (update_columns ad kvs st1) (\<lambda>(ok', st2). Inr (ok \<and> ok', st2)))"

definition Table_Update ::
  "Schema \<Rightarrow> 'a StorageAdapter \<Rightarrow> Scalar list \<Rightarrow> nat list \<Rightarrow> Scalar list \<Rightarrow> 'a \<Rightarrow> (bool \<times> 'a) result" where
  "Table_Update sc ad pkey columns values st =
     (if length columns \<noteq> length values then Inl (CheckFailed ''Number of values does not match number of columns'')
      else rbind (traverse (ValidateType sc) (zip values columns)) (\<lambda>_.
        if kGroupedColumns sc then
          rbind (MakeStorageKey sc pkey) (\<lambda>key. ad_Update ad key (replace_columns sc (zip columns values)) st)
        else
          rbind (MakeStorageKeys sc pkey columns) (\<lambda>keys. update_columns ad (zip keys values) st)))"

fun insert_columns :: "'a StorageAdapter \<Rightarrow> (Key \<times> Scalar) list \<Rightarrow> 'a \<Rightarrow> (bool \<times> 'a) result" where
  "insert_columns ad [] st = Inr (True, st)"
| "insert_columns ad (kv # kvs) st =
     rbind (scalar_bytes (snd kv)) (\<lambda>d.
     rbind (ad_Insert ad (fst kv) d st) (\<lambda>(ok, st1).
     rbind (insert_columns ad kvs st1) (\<lambda>(ok', st2). Inr (ok \<and> ok', st2))))"

definition Table_Insert :: "Schema \<Rightarrow> 'a StorageAdapter \<Rightarrow> Scalar list \<Rightarrow> 'a \<Rightarrow> (bool \<times> 'a) result" where
  "Table_Insert sc ad values st =
     (if length values \<noteq> kNumColumns sc then Inl (CheckFailed ''Number of values does not match number of columns'')
      else rbind (traverse (ValidateType sc) (zip (drop (kPKeySize sc) values) (non_pkey_columns sc))) (\<lambda>_.
        if kGroupedColumns sc then
          rbind (traverse scalar_bytes (drop (kPKeySize sc) values)) (\<lambda>bs.
          rbind (MakeStorageKey sc values) (\<lambda>key. ad_Insert ad key (concat bs) st))
        else
          rbind (MakeStorageKeys sc values []) (\<lambda>keys.
            insert_columns ad (zip keys (drop (kPKeySize sc) values)) st)))"

fun delete_keys :: "'a StorageAdapter \<Rightarrow> Key list \<Rightarrow> 'a \<Rightarrow> (bool \<times> 'a) result" where
  "delete_keys ad [] st = Inr (True, st)"
| "delete_keys ad (k # ks) st =
     rbind (ad_Delete ad k st) (\<lambda>(ok, st1). rbind (delete_keys ad ks st1) (\<lambda>(ok', st2). Inr (ok \<and> ok', st2)))"

definition Table_Delete :: "Schema \<Rightarrow> 'a StorageAdapter \<Rightarrow> Scalar list \<Rightarrow> 'a \<Rightarrow> (bool \<times> 'a) result" where
  "Table_Delete sc ad pkey st =
     (if kGroupedColumns sc then rbind (MakeStorageKey sc pkey) (\<lambda>key. ad_Delete ad key st)
      else rbind (MakeStorageKeys sc pkey []) (\<lambda>keys. delete_keys ad keys st))"

subsection \<open>Encoding of scalars\<close>

lemma length_le_encode [simp]: "length (le_encode n v) = n"
  by (induction n arbitrary: v) auto

lemma le_bytes_encode: "v < 256 ^ n \<Longrightarrow> le_bytes (le_encode n v) = v"
proof (induction n arbitrary: v)
  case (Suc n)
  from Suc.prems have "v div 256 < 256 ^ n" by (simp add: less_mult_imp_div_less mult.commute)
  from Suc.IH [OF this] show ?case by (simp add: of_char_of)
qed simp

fun scalar_ok :: "Scalar \<Rightarrow> bool" where
  "scalar_ok (FixedTextScalar w b) = (length b = w)"
| "scalar_ok _ = True"

lemma length_scalar_data: "scalar_ok s \<Longrightarrow> length (scalar_data s) = type_size (scalar_type s)"
  by (cases s) auto

lemma scalar_bytes_ok: "scalar_ok s \<Longrightarrow> scalar_bytes s = Inr (scalar_data s)"
  by (simp add: scalar_bytes_def length_scalar_data Let_def)

lemma le_bytes_unat:
  "le_bytes (le_encode 1 (unat (a :: 8 word))) = unat a" "le_bytes (le_encode 2 (unat (b :: 16 word))) = unat b"
  "le_bytes (le_encode 4 (unat (c :: 32 word))) = unat c" "le_bytes (le_encode 8 (unat (d :: 64 word))) = unat d"
  using unsigned_less [where ?'a = nat, of a] unsigned_less [where ?'a = nat, of b]
    unsigned_less [where ?'a = nat, of c] unsigned_less [where ?'a = nat, of d]
  by (auto intro!: le_bytes_encode simp del: le_encode.simps)

lemma MakeScalar_data: "scalar_ok s \<Longrightarrow> MakeScalar (scalar_type s) (scalar_data s @ r) = Inr s"
  by (cases s) (auto simp: MakeScalar_def MakeFixedTextScalar_def Let_def le_bytes_unat simp del: le_encode.simps One_nat_def)

lemma scalar_data_inject:
  assumes "scalar_type a = scalar_type b" "scalar_ok a" "scalar_ok b" "scalar_data a = scalar_data b"
  shows "a = b"
  using MakeScalar_data [OF assms(2), of "[]"] MakeScalar_data [OF assms(3), of "[]"] assms(1,4) by simp

lemma concat_data_inject:
  assumes "map scalar_type as = map scalar_type bs" "list_all scalar_ok as" "list_all scalar_ok bs"
    and "concat (map scalar_data as) = concat (map scalar_data bs)"
  shows "as = bs"
  using assms
proof (induction as arbitrary: bs)
  case (Cons a as)
  from Cons.prems(1) obtain b bs' where bs: "bs = b # bs'" by (cases bs) auto
  with Cons.prems have "length (scalar_data a) = length (scalar_data b)" by (simp add: length_scalar_data)
  with Cons.prems bs have "scalar_data a = scalar_data b" "concat (map scalar_data as) = concat (map scalar_data bs')" by auto
  with Cons bs show ?case by (auto intro: scalar_data_inject)
qed simp

subsection \<open>Rows and their keys\<close>

definition schema_ok :: "Schema \<Rightarrow> bool" where
  "schema_ok sc \<longleftrightarrow> 0 < kPKeySize sc \<and> kPKeySize sc < kNumColumns sc \<and> kNumColumns sc \<le> 256 \<and> kId sc < 256 \<and>
     list_all (\<lambda>t. 0 < type_size t) (ColumnTypes sc)"

definition pkey_ok :: "Schema \<Rightarrow> Scalar list \<Rightarrow> bool" where
  "pkey_ok sc pkey \<longleftrightarrow> map scalar_type pkey = take (kPKeySize sc) (ColumnTypes sc) \<and> list_all scalar_ok pkey"

definition row_ok :: "Schema \<Rightarrow> Scalar list \<Rightarrow> bool" where
  "row_ok sc row \<longleftrightarrow> map scalar_type row = ColumnTypes sc \<and> list_all scalar_ok row"

definition storage_key :: "Schema \<Rightarrow> Scalar list \<Rightarrow> Key" where
  "storage_key sc pkey = scalar_data (hd pkey) @ char_of (kId sc) # concat (map scalar_data (tl pkey))"

lemma traverse_ok: "(\<And>x. x \<in> set xs \<Longrightarrow> f x = Inr (g x)) \<Longrightarrow> traverse f xs = Inr (map g xs)"
  by (induction xs) auto

lemma row_ok_pkey: "row_ok sc row \<Longrightarrow> pkey_ok sc (take (kPKeySize sc) row)"
  unfolding row_ok_def pkey_ok_def by (metis append_take_drop_id list_all_append take_map)

lemma row_ok_length: "row_ok sc row \<Longrightarrow> length row = kNumColumns sc"
  unfolding row_ok_def kNumColumns_def by (metis length_map)

lemma row_ok_nth: "row_ok sc row \<Longrightarrow> i < kNumColumns sc \<Longrightarrow> scalar_type (row ! i) = ColumnTypes sc ! i \<and> scalar_ok (row ! i)"
  by (metis row_ok_def row_ok_length list_all_length nth_map)

lemma pkey_ok_length: "pkey_ok sc pkey \<Longrightarrow> kPKeySize sc \<le> kNumColumns sc \<Longrightarrow> length pkey = kPKeySize sc"
  unfolding pkey_ok_def kNumColumns_def by (metis length_map length_take min.absorb2)

lemma MakeStorageKey_ok:
  assumes "schema_ok sc" "pkey_ok sc (take (kPKeySize sc) values)"
  shows "MakeStorageKey sc values = Inr (storage_key sc (take (kPKeySize sc) values))"
proof -
  let ?n = "kPKeySize sc" and ?p = "take (kPKeySize sc) values"
  have len: "?n \<le> kNumColumns sc" "0 < ?n" using assms(1) by (auto simp: schema_ok_def)
  have n: "length ?p = ?n" by (rule pkey_ok_length [OF assms(2) len(1)])
  then have le: "?n \<le> length values" by simp
  have t: "scalar_type (values ! i) = ColumnTypes sc ! i" if "i < ?n" for i
    using assms(2) that le len(1) unfolding pkey_ok_def kNumColumns_def
    by (metis (no_types, lifting) length_map n nth_map nth_take)
  have "traverse (ValidateType sc) (zip values [0..<?n]) = Inr (map (\<lambda>_. ()) (zip values [0..<?n]))"
    by (rule traverse_ok) (use t le len(1) in \<open>auto simp: ValidateType_def set_zip\<close>)
  moreover have "traverse scalar_bytes ?p = Inr (map scalar_data ?p)"
    by (rule traverse_ok) (use assms(2) in \<open>auto simp: pkey_ok_def list_all_iff scalar_bytes_ok\<close>)
  moreover have "?p \<noteq> []" using n len(2) by auto
  ultimately show ?thesis using le by (simp add: MakeStorageKey_def storage_key_def hd_map map_tl)
qed

lemma storage_key_inject:
  assumes "schema_ok sc" "pkey_ok sc p" "pkey_ok sc q" "storage_key sc p @ x = storage_key sc q @ y" "length x = length y"
  shows "p = q \<and> x = y"
proof -
  have "length p = kPKeySize sc" "length q = kPKeySize sc" "0 < kPKeySize sc"
    using assms(1-3) by (auto simp: schema_ok_def intro: pkey_ok_length)
  then obtain a as b bs where pq: "p = a # as" "q = b # bs" by (metis length_greater_0_conv list.exhaust_sel)
  have ty: "map scalar_type (a # as) = map scalar_type (b # bs)" "list_all scalar_ok (a # as)" "list_all scalar_ok (b # bs)"
    using assms(2,3) pq by (auto simp: pkey_ok_def)
  have "length (scalar_data a) = length (scalar_data b)" using ty by (simp add: length_scalar_data)
  with assms(4,5) pq have "scalar_data a = scalar_data b" "concat (map scalar_data as) = concat (map scalar_data bs)" "x = y"
    by (auto simp: storage_key_def)
  with ty have "concat (map scalar_data (a # as)) = concat (map scalar_data (b # bs))" by simp
  from concat_data_inject [OF ty this] pq \<open>x = y\<close> show ?thesis by simp
qed

text \<open>The keys that hold a row: one for the row, or one for each column outside of the primary key.\<close>

definition row_keys :: "Schema \<Rightarrow> Scalar list \<Rightarrow> Key set" where
  "row_keys sc pkey = (if kGroupedColumns sc then {storage_key sc pkey}
     else (\<lambda>i. storage_key sc pkey @ [char_of i]) ` set (non_pkey_columns sc))"

lemma row_keys_disjoint:
  assumes "schema_ok sc" "pkey_ok sc p" "pkey_ok sc q" "p \<noteq> q"
  shows "row_keys sc p \<inter> row_keys sc q = {}"
  using storage_key_inject [OF assms(1-3), of "[]" "[]"] storage_key_inject [OF assms(1-3), of "[_]" "[_]"] assms(4)
  by (auto simp: row_keys_def)

lemma char_of_inject: "a < 256 \<Longrightarrow> b < 256 \<Longrightarrow> char_of (a :: nat) = (char_of b :: char) \<Longrightarrow> a = b"
  by (metis mod_less of_char_of)

lemma row_keys_disjoint_tables:
  assumes "schema_ok sc" "schema_ok sc'" "pkey_ok sc p" "pkey_ok sc' q" "kId sc \<noteq> kId sc'"
    and "type_size (hd (ColumnTypes sc)) = type_size (hd (ColumnTypes sc'))"
  shows "row_keys sc p \<inter> row_keys sc' q = {}"
proof -
  have nth: "k ! type_size (hd (ColumnTypes s)) = char_of (kId s)"
    if s: "schema_ok s" and r: "pkey_ok s r" and k: "k \<in> row_keys s r" for k s r
  proof -
    have "length r = kPKeySize s" "0 < kPKeySize s" "ColumnTypes s \<noteq> []"
      using s r by (auto simp: schema_ok_def kNumColumns_def intro: pkey_ok_length [unfolded kNumColumns_def])
    then obtain a as t ts where "r = a # as" "ColumnTypes s = t # ts" "scalar_type a = t" "scalar_ok a"
      using r by (cases r; cases "ColumnTypes s"; cases "kPKeySize s") (auto simp: pkey_ok_def)
    with k show ?thesis
      by (auto simp: row_keys_def storage_key_def nth_append length_scalar_data split: if_splits)
  qed
  have "kId sc < 256" "kId sc' < 256" using assms(1,2) by (auto simp: schema_ok_def)
  with assms(5) have "char_of (kId sc) \<noteq> (char_of (kId sc') :: char)" using char_of_inject by blast
  with nth [OF assms(1,3)] nth [OF assms(2,4)] assms(6) show ?thesis by force
qed

subsection \<open>Round trips through a store\<close>

definition stored :: "Schema \<Rightarrow> (Key \<rightharpoonup> Value) \<Rightarrow> Scalar list \<Rightarrow> nat list \<Rightarrow> bool" where
  "stored sc m row cs \<longleftrightarrow>
     (let key = storage_key sc (take (kPKeySize sc) row) in
      if kGroupedColumns sc then m key = Some (concat (map scalar_data (drop (kPKeySize sc) row)))
      else \<forall>i\<in>set cs. kPKeySize sc \<le> i \<longrightarrow> m (key @ [char_of i]) = Some (scalar_data (row ! i)))"

lemma stored_cong:
  "(\<And>k. k \<in> row_keys sc (take (kPKeySize sc) row) \<Longrightarrow> m' k = m k) \<Longrightarrow> \<forall>c\<in>set cs. c < kNumColumns sc \<Longrightarrow>
     stored sc m row cs \<Longrightarrow> stored sc m' row cs"
  by (auto simp: stored_def row_keys_def non_pkey_columns_def Let_def)

lemma stored_subset:
  "stored sc m row (non_pkey_columns sc) \<Longrightarrow> \<forall>c\<in>set cs. c < kNumColumns sc \<Longrightarrow> stored sc m row cs"
  by (auto simp: stored_def non_pkey_columns_def Let_def)

lemma decode_column_ok:
  assumes "row_ok sc row" "kPKeySize sc \<le> i" "i < kNumColumns sc"
  shows "decode_column sc (concat (map scalar_data (drop (kPKeySize sc) row))) i = Inr (row ! i)"
proof -
  let ?n = "kPKeySize sc" and ?vs = "drop (kPKeySize sc) row"
  have len: "length row = kNumColumns sc" by (rule row_ok_length [OF assms(1)])
  have ok: "\<And>v. v \<in> set row \<Longrightarrow> scalar_ok v" using assms(1) by (auto simp: row_ok_def list_all_iff)
  have split: "?vs = take (i - ?n) ?vs @ row ! i # drop (Suc (i - ?n)) ?vs"
    using id_take_nth_drop [of "i - ?n" ?vs] assms(2,3) len by simp
  define pre where "pre = concat (map scalar_data (take (i - ?n) ?vs))"
  define post where "post = concat (map scalar_data (drop (Suc (i - ?n)) ?vs))"
  have types: "ColumnTypes sc = map scalar_type row" using assms(1) by (simp add: row_ok_def)
  have "map type_size (drop ?n (take i (ColumnTypes sc))) = map (type_size \<circ> scalar_type) (drop ?n (take i row))"
    by (simp add: types drop_map take_map)
  also have "\<dots> = map (length \<circ> scalar_data) (drop ?n (take i row))"
    by (rule map_cong) (auto simp: length_scalar_data ok dest!: in_set_dropD in_set_takeD)
  finally have off: "column_offset sc i = length pre"
    by (simp add: column_offset_def drop_take pre_def length_concat comp_def)
  have enc: "concat (map scalar_data ?vs) = pre @ scalar_data (row ! i) @ post"
    unfolding pre_def post_def by (subst split) simp
  have "MakeScalar (ColumnTypes sc ! i) (scalar_data (row ! i) @ post) = Inr (row ! i)"
    using row_ok_nth [OF assms(1,3)] MakeScalar_data [of "row ! i" post] by simp
  then show ?thesis unfolding decode_column_def enc off using assms(3) by simp
qed

text \<open>An adapter that can be read, and one that can also be filled.\<close>

locale row_reader =
  fixes ad :: "'a StorageAdapter"
    and inv :: "'a \<Rightarrow> bool"
    and content :: "'a \<Rightarrow> Key \<rightharpoonup> Value"
  assumes read_law: "inv st \<Longrightarrow> \<exists>st'. ad_Read ad k st = Inr (content st k, st') \<and> inv st' \<and> content st' = content st"
begin

lemma select_columns_ok:
  assumes "inv st" "row_ok sc row" "schema_ok sc"
    and "\<And>c k. (c, k) \<in> set cks \<Longrightarrow> c < kNumColumns sc"
    and "\<And>c k. (c, k) \<in> set cks \<Longrightarrow> kPKeySize sc \<le> c \<Longrightarrow> content st k = Some (scalar_data (row ! c))"
  shows "\<exists>st'. select_columns sc ad (take (kPKeySize sc) row) cks st =
      Inr (map (\<lambda>ck. row ! fst ck) cks, \<exists>ck\<in>set cks. kPKeySize sc \<le> fst ck, st') \<and> inv st' \<and> content st' = content st"
  using assms(1,4,5)
proof (induction cks arbitrary: st)
  case (Cons ck cks)
  obtain c k where ck: "ck = (c, k)" by (cases ck)
  have IH: "\<exists>st'. select_columns sc ad (take (kPKeySize sc) row) cks st1 =
      Inr (map (\<lambda>ck. row ! fst ck) cks, \<exists>ck\<in>set cks. kPKeySize sc \<le> fst ck, st') \<and> inv st' \<and> content st' = content st1"
    if "inv st1" "content st1 = content st" for st1
    by (rule Cons.IH) (use Cons.prems(2,3) that in auto)
  have c: "c < kNumColumns sc" using Cons.prems(2) ck by auto
  note ty = row_ok_nth [OF assms(2) c]
  show ?case
  proof (cases "c < kPKeySize sc")
    case True
    with IH [OF Cons.prems(1)] row_ok_length [OF assms(2)] c show ?thesis by (auto simp: ck pkey_at_def)
  next
    case False
    obtain st1 where st1: "ad_Read ad k st = Inr (Some (scalar_data (row ! c)), st1)" "inv st1" "content st1 = content st"
      using read_law [OF Cons.prems(1), of k] Cons.prems(3) [of c k] False ck by auto
    have "0 < type_size (ColumnTypes sc ! c)" using assms(3) c by (auto simp: schema_ok_def list_all_length kNumColumns_def)
    then have "scalar_data (row ! c) \<noteq> []" using ty length_scalar_data [of "row ! c"] by auto
    moreover have "MakeScalar (ColumnTypes sc ! c) (scalar_data (row ! c)) = Inr (row ! c)"
      using ty MakeScalar_data [of "row ! c" "[]"] by simp
    ultimately show ?thesis using IH [OF st1(2,3)] st1 False c by (auto simp: ck)
  qed
qed auto

lemma Select_stored:
  assumes "inv st" "row_ok sc row" "schema_ok sc" "stored sc (content st) row (if cs = [] then non_pkey_columns sc else cs)"
    and "\<forall>c\<in>set cs. c < kNumColumns sc" "cs \<noteq> [] \<longrightarrow> kGroupedColumns sc \<or> (\<exists>c\<in>set cs. kPKeySize sc \<le> c)"
  shows "\<exists>st'. Select sc ad (take (kPKeySize sc) row) cs st = Inr (if cs = [] then row else map ((!) row) cs, st') \<and>
    inv st' \<and> content st' = content st"
proof -
  let ?n = "kPKeySize sc" and ?p = "take (kPKeySize sc) row"
  have len: "length row = kNumColumns sc" "?n < kNumColumns sc"
    using row_ok_length [OF assms(2)] assms(3) by (auto simp: schema_ok_def)
  have key: "MakeStorageKey sc ?p = Inr (storage_key sc ?p)"
    using MakeStorageKey_ok [OF assms(3), of ?p] row_ok_pkey [OF assms(2)] by simp
  have all: "row = ?p @ map ((!) row) (non_pkey_columns sc)"
    unfolding non_pkey_columns_def len(1) [symmetric] by (metis append_take_drop_id map_nth drop_map drop_upt plus_nat.add_0)
  show ?thesis
  proof (cases "kGroupedColumns sc")
    case True
    let ?e = "concat (map scalar_data (drop ?n row))"
    obtain st' where st': "ad_Read ad (storage_key sc ?p) st = Inr (Some ?e, st')" "inv st'" "content st' = content st"
      using read_law [OF assms(1), of "storage_key sc ?p"] assms(4) True by (auto simp: stored_def Let_def)
    have "traverse (decode_column sc ?e) (non_pkey_columns sc) = Inr (map ((!) row) (non_pkey_columns sc))"
      by (rule traverse_ok) (use decode_column_ok [OF assms(2)] in \<open>auto simp: non_pkey_columns_def\<close>)
    moreover have "traverse (\<lambda>i. if i < ?n then pkey_at ?p i else decode_column sc ?e i) cs = Inr (map ((!) row) cs)"
      by (rule traverse_ok) (use decode_column_ok [OF assms(2)] assms(5) len in \<open>auto simp: pkey_at_def\<close>)
    ultimately show ?thesis using True st' key all [symmetric] by (auto simp: Select_def SelectGrouped_def)
  next
    case False
    define ds where "ds = (if cs = [] then non_pkey_columns sc else cs)"
    define cks where "cks = map (\<lambda>c. (c, storage_key sc ?p @ [char_of c])) ds"
    have sub: "\<forall>c\<in>set ds. c < kNumColumns sc" "\<exists>c\<in>set ds. ?n \<le> c"
      using assms(5,6) len(2) False by (auto simp: ds_def non_pkey_columns_def)
    have keys: "MakeStorageKeys sc ?p cs = Inr (map (\<lambda>col. storage_key sc ?p @ [char_of col]) ds)"
      by (simp add: MakeStorageKeys_def key ds_def)
    have z: "zip ds (map (\<lambda>col. storage_key sc ?p @ [char_of col]) ds) = cks"
      by (simp add: cks_def zip_map2 zip_same_conv_map)
    have c1: "c < kNumColumns sc" if "(c, k) \<in> set cks" for c k using that sub(1) by (auto simp: cks_def)
    have c2: "content st k = Some (scalar_data (row ! c))" if "(c, k) \<in> set cks" "?n \<le> c" for c k
      using that assms(4) False unfolding ds_def [symmetric] by (auto simp: cks_def stored_def Let_def)
    have "\<exists>st'. select_columns sc ad ?p cks st = Inr (map (\<lambda>ck. row ! fst ck) cks, \<exists>ck\<in>set cks. ?n \<le> fst ck, st') \<and>
        inv st' \<and> content st' = content st"
      by (rule select_columns_ok [OF assms(1-3)]) (fact c1, fact c2)
    moreover have "map (\<lambda>ck. row ! fst ck) cks = map ((!) row) ds" "\<exists>ck\<in>set cks. ?n \<le> fst ck"
      using sub(2) by (auto simp: cks_def)
    ultimately obtain st' where st': "select_columns sc ad ?p cks st = Inr (map ((!) row) ds, True, st')"
      "inv st'" "content st' = content st" by auto
    then have "Select sc ad ?p cs st = Inr (if cs = [] then ?p @ map ((!) row) ds else map ((!) row) ds, st')"
      using False z by (simp add: Select_def SelectUngrouped_def keys flip: ds_def)
    with st' show ?thesis by (cases "cs = []") (simp_all add: ds_def flip: all)
  qed
qed

end

locale row_store = row_reader ad inv content
  for ad :: "'a StorageAdapter" and inv :: "'a \<Rightarrow> bool" and content :: "'a \<Rightarrow> Key \<rightharpoonup> Value" +
  fixes key_ok :: "Key \<Rightarrow> bool"
  assumes insert_law: "inv st \<Longrightarrow> key_ok k \<Longrightarrow>
      \<exists>st'. ad_Insert ad k v st = Inr (True, st') \<and> inv st' \<and> content st' = (content st)(k \<mapsto> v)"
begin

lemma insert_columns_ok:
  assumes "inv st" "\<And>k v. (k, v) \<in> set kvs \<Longrightarrow> key_ok k \<and> scalar_ok v"
  shows "\<exists>st'. insert_columns ad kvs st = Inr (True, st') \<and> inv st' \<and>
    content st' = content st ++ map_of (rev (map (\<lambda>(k, v). (k, scalar_data v)) kvs))"
  using assms
proof (induction kvs arbitrary: st)
  case (Cons kv kvs)
  obtain k v where kv: "kv = (k, v)" by (cases kv)
  then have ok: "key_ok k" "scalar_ok v" using Cons.prems(2) [of k v] by auto
  obtain st1 where st1: "ad_Insert ad k (scalar_data v) st = Inr (True, st1)" "inv st1"
      "content st1 = (content st)(k \<mapsto> scalar_data v)"
    using insert_law [OF Cons.prems(1) ok(1)] by blast
  have "\<exists>st'. insert_columns ad kvs st1 = Inr (True, st') \<and> inv st' \<and>
      content st' = content st1 ++ map_of (rev (map (\<lambda>(k, v). (k, scalar_data v)) kvs))"
    by (rule Cons.IH [OF st1(2)]) (use Cons.prems(2) in auto)
  then show ?case using st1 kv ok(2) by (auto simp: scalar_bytes_ok)
qed auto

lemma Table_Insert_stored:
  assumes "inv st" "row_ok sc row" "schema_ok sc" "\<forall>k\<in>row_keys sc (take (kPKeySize sc) row). key_ok k"
  shows "\<exists>st'. Table_Insert sc ad row st = Inr (True, st') \<and> inv st' \<and> stored sc (content st') row (non_pkey_columns sc) \<and>
    (\<forall>k. k \<notin> row_keys sc (take (kPKeySize sc) row) \<longrightarrow> content st' k = content st k)"
proof -
  let ?n = "kPKeySize sc" and ?p = "take (kPKeySize sc) row" and ?cs = "non_pkey_columns sc"
  have len: "length row = kNumColumns sc" "?n < kNumColumns sc"
    using row_ok_length [OF assms(2)] assms(3) by (auto simp: schema_ok_def)
  have key: "MakeStorageKey sc row = Inr (storage_key sc ?p)"
    by (rule MakeStorageKey_ok [OF assms(3) row_ok_pkey [OF assms(2)]])
  have dr: "drop ?n row = map ((!) row) ?cs"
    unfolding non_pkey_columns_def len(1) [symmetric] by (metis map_nth drop_map drop_upt plus_nat.add_0)
  have ok: "\<And>v. v \<in> set row \<Longrightarrow> scalar_ok v" using assms(2) by (auto simp: row_ok_def list_all_iff)
  have val: "traverse (ValidateType sc) (zip (drop ?n row) ?cs) = Inr (map (\<lambda>_. ()) (zip (drop ?n row) ?cs))"
    by (rule traverse_ok) (use row_ok_nth [OF assms(2)] len in \<open>auto simp: ValidateType_def set_zip non_pkey_columns_def\<close>)
  show ?thesis
  proof (cases "kGroupedColumns sc")
    case True
    have "traverse scalar_bytes (drop ?n row) = Inr (map scalar_data (drop ?n row))"
      by (rule traverse_ok) (auto simp: scalar_bytes_ok ok dest: in_set_dropD)
    moreover obtain st' where "ad_Insert ad (storage_key sc ?p) (concat (map scalar_data (drop ?n row))) st = Inr (True, st')"
        "inv st'" "content st' = (content st)(storage_key sc ?p \<mapsto> concat (map scalar_data (drop ?n row)))"
      using insert_law [OF assms(1), of "storage_key sc ?p"] assms(4) True by (auto simp: row_keys_def)
    ultimately show ?thesis using True len key val by (auto simp: Table_Insert_def stored_def Let_def row_keys_def)
  next
    case False
    let ?k = "\<lambda>c. storage_key sc ?p @ [char_of c]"
    let ?kvs = "zip (map ?k ?cs) (drop ?n row)"
    have kvs: "?kvs = map (\<lambda>c. (?k c, row ! c)) ?cs" unfolding dr by (simp add: zip_map_map zip_same_conv_map)
    have sub: "c < 256 \<and> ?n \<le> c \<and> c < kNumColumns sc" if "c \<in> set ?cs" for c
      using that assms(3) by (auto simp: non_pkey_columns_def schema_ok_def)
    have "key_ok k \<and> scalar_ok v" if "(k, v) \<in> set ?kvs" for k v
      using that assms(4) False row_ok_nth [OF assms(2)] sub unfolding kvs by (auto simp: row_keys_def)
    from insert_columns_ok [OF assms(1) this] obtain st' where
      st': "insert_columns ad ?kvs st = Inr (True, st')" "inv st'"
      "content st' = content st ++ map_of (rev (map (\<lambda>(k, v). (k, scalar_data v)) ?kvs))" by blast
    let ?m = "map_of (rev (map (\<lambda>(k, v). (k, scalar_data v)) ?kvs))"
    have inj: "inj_on ?k (set ?cs)" using sub by (auto simp: inj_on_def dest!: char_of_inject)
    have m: "?m = map_of (map (\<lambda>c. (?k c, scalar_data (row ! c))) (rev ?cs))" unfolding kvs by (simp add: rev_map comp_def)
    have "?m (?k c) = Some (scalar_data (row ! c))" if "c \<in> set ?cs" for c
      unfolding m using that inj by (intro map_of_is_SomeI) (auto simp: distinct_map comp_def non_pkey_columns_def)
    moreover have "?m k = None" if "k \<notin> ?k ` set ?cs" for k
      unfolding m using that by (auto simp: map_of_eq_None_iff)
    ultimately show ?thesis using False st' len key val
      by (auto simp: Table_Insert_def MakeStorageKeys_def stored_def Let_def row_keys_def map_add_def)
  qed
qed

end

end
