(* ===== verification/Table_Access.thy ===== *)
theory Table_Access
  imports Tables
begin

section \<open>Access to tables from a transaction\<close>

text \<open>
  What the table operations do on the three adapters: reading values of the right size gives
  scalars of the column types, writes keep the values a transaction has read, and the generator
  of the key list collects the keys of every access.
\<close>

subsection \<open>Values of the right size\<close>

lemma le_encode_bytes: "le_encode (length d) (le_bytes d) = d"
proof (induction d)
  case (Cons c d)
  have "(of_char c + 256 * le_bytes d) mod 256 = (of_char c :: nat)" "(of_char c + 256 * le_bytes d) div 256 = le_bytes d"
    using of_char_mod_256 [where ?'a = nat, of c] by (simp_all add: mod_eq_self_iff_div_eq_0)
  then show ?case using Cons.IH by simp
qed simp

lemma le_bytes_less: "le_bytes d < 256 ^ length d"
proof (induction d)
  case (Cons c d)
  have "(of_char c :: nat) < 256" by (metis mod_less_divisor of_char_mod_256 zero_less_numeral)
  then have "of_char c + 256 * le_bytes d < 256 * Suc (le_bytes d)" by simp
  also have "\<dots> \<le> 256 * 256 ^ length d" using Cons.IH by (intro mult_le_mono) simp_all
  finally show ?case by simp
qed simp

lemma scalar_exists: "length d = type_size t \<Longrightarrow> \<exists>s. scalar_type s = t \<and> scalar_ok s \<and> scalar_data s = d"
proof (cases t)
  case Int8Type
  assume "length d = type_size t"
  with Int8Type show ?thesis using le_bytes_less [of d] le_encode_bytes [of d]
    by (intro exI [of _ "Int8Scalar (of_nat (le_bytes d))"]) (simp add: unsigned_of_nat take_bit_nat_eq_self del: le_encode.simps)
next
  case Int16Type
  assume "length d = type_size t"
  with Int16Type show ?thesis using le_bytes_less [of d] le_encode_bytes [of d]
    by (intro exI [of _ "Int16Scalar (of_nat (le_bytes d))"]) (simp add: unsigned_of_nat take_bit_nat_eq_self del: le_encode.simps)
next
  case Int32Type
  assume "length d = type_size t"
  with Int32Type show ?thesis using le_bytes_less [of d] le_encode_bytes [of d]
    by (intro exI [of _ "Int32Scalar (of_nat (le_bytes d))"]) (simp add: unsigned_of_nat take_bit_nat_eq_self del: le_encode.simps)
next
  case Int64Type
  assume "length d = type_size t"
  with Int64Type show ?thesis using le_bytes_less [of d] le_encode_bytes [of d]
    by (intro exI [of _ "Int64Scalar (of_nat (le_bytes d))"]) (simp add: unsigned_of_nat take_bit_nat_eq_self del: le_encode.simps)
next
  case (FixedTextType w)
  assume "length d = type_size t"
  with FixedTextType show ?thesis by (intro exI [of _ "FixedTextScalar w d"]) simp
qed

lemma scalars_exist:
  "length d = sum_list (map type_size ts) \<Longrightarrow>
     \<exists>vs. map scalar_type vs = ts \<and> list_all scalar_ok vs \<and> concat (map scalar_data vs) = d"
proof (induction ts arbitrary: d)
  case (Cons t ts)
  from Cons.prems obtain s where s: "scalar_type s = t" "scalar_ok s" "scalar_data s = take (type_size t) d"
    using scalar_exists [of "take (type_size t) d" t] by auto
  from Cons.prems Cons.IH [of "drop (type_size t) d"] obtain vs where
    "map scalar_type vs = ts" "list_all scalar_ok vs" "concat (map scalar_data vs) = drop (type_size t) d" by auto
  with s show ?case by (intro exI [of _ "s # vs"]) simp
qed simp

definition row_size :: "Schema \<Rightarrow> nat" where
  "row_size sc = sum_list (map type_size (drop (kPKeySize sc) (ColumnTypes sc)))"

text \<open>The keys an access to the given columns of a row uses, and that they hold values of the right size.\<close>

definition column_keys :: "Schema \<Rightarrow> Scalar list \<Rightarrow> nat list \<Rightarrow> Key set" where
  "column_keys sc pkey cs = (if kGroupedColumns sc then {storage_key sc pkey}
     else (\<lambda>i. storage_key sc pkey @ [char_of i]) ` {c \<in> set cs. kPKeySize sc \<le> c})"

definition well_stored :: "Schema \<Rightarrow> (Key \<rightharpoonup> Value) \<Rightarrow> Scalar list \<Rightarrow> nat list \<Rightarrow> bool" where
  "well_stored sc m pkey cs \<longleftrightarrow>
     (if kGroupedColumns sc then map_option length (m (storage_key sc pkey)) = Some (row_size sc)
      else \<forall>c\<in>set cs. kPKeySize sc \<le> c \<longrightarrow>
        map_option length (m (storage_key sc pkey @ [char_of c])) = Some (type_size (ColumnTypes sc ! c)))"

lemma well_stored_row:
  assumes "schema_ok sc" "pkey_ok sc pkey" "well_stored sc m pkey cs" "\<forall>c\<in>set cs. c < kNumColumns sc"
  shows "\<exists>row. row_ok sc row \<and> take (kPKeySize sc) row = pkey \<and> stored sc m row cs"
proof -
  let ?n = "kPKeySize sc"
  have n: "length pkey = ?n" "?n < kNumColumns sc"
    using assms(1,2) pkey_ok_length [OF assms(2)] by (auto simp: schema_ok_def)
  show ?thesis
  proof (cases "kGroupedColumns sc")
    case True
    then obtain d where d: "m (storage_key sc pkey) = Some d" "length d = row_size sc"
      using assms(3) by (auto simp: well_stored_def)
    obtain vs where vs: "map scalar_type vs = drop ?n (ColumnTypes sc)" "list_all scalar_ok vs" "concat (map scalar_data vs) = d"
      using scalars_exist d(2) unfolding row_size_def by blast
    have "row_ok sc (pkey @ vs)" using vs assms(2) by (simp add: row_ok_def pkey_ok_def)
    then show ?thesis using True d(1) vs(3) n by (intro exI [of _ "pkey @ vs"]) (auto simp: stored_def Let_def)
  next
    case False
    have "\<exists>s. scalar_type s = ColumnTypes sc ! c \<and> scalar_ok s \<and>
        (c \<in> set cs \<longrightarrow> m (storage_key sc pkey @ [char_of c]) = Some (scalar_data s))" if "?n \<le> c" for c
      using scalar_exists [of "replicate (type_size (ColumnTypes sc ! c)) CHR 0x00" "ColumnTypes sc ! c"]
        scalar_exists [of _ "ColumnTypes sc ! c"] assms(3) False that
      by (cases "c \<in> set cs") (fastforce simp: well_stored_def)+
    then obtain f where f: "\<And>c. ?n \<le> c \<Longrightarrow> scalar_type (f c) = ColumnTypes sc ! c \<and> scalar_ok (f c) \<and>
        (c \<in> set cs \<longrightarrow> m (storage_key sc pkey @ [char_of c]) = Some (scalar_data (f c)))" by metis
    let ?row = "pkey @ map f (non_pkey_columns sc)"
    have "map (scalar_type \<circ> f) (non_pkey_columns sc) = drop ?n (ColumnTypes sc)"
      by (rule nth_equalityI) (use f n in \<open>auto simp: non_pkey_columns_def kNumColumns_def\<close>)
    then have "row_ok sc ?row" using assms(2) f by (auto simp: row_ok_def pkey_ok_def list_all_iff non_pkey_columns_def)
    moreover have "?row ! c = f c" if "c \<in> set cs" "?n \<le> c" for c
      using that n assms(4) by (auto simp: nth_append non_pkey_columns_def)
    ultimately show ?thesis using False f n by (intro exI [of _ ?row]) (auto simp: stored_def Let_def)
  qed
qed

context row_reader
begin

lemma Select_typed:
  assumes "inv st" "schema_ok sc" "pkey_ok sc pkey" "well_stored sc (content st) pkey cs"
    and "cs \<noteq> []" "\<forall>c\<in>set cs. kPKeySize sc \<le> c \<and> c < kNumColumns sc"
  shows "\<exists>vs st'. Select sc ad pkey cs st = Inr (vs, st') \<and> inv st' \<and> content st' = content st \<and>
    map scalar_type vs = map ((!) (ColumnTypes sc)) cs \<and> list_all scalar_ok vs"
proof -
  obtain row where row: "row_ok sc row" "take (kPKeySize sc) row = pkey" "stored sc (content st) row cs"
    using well_stored_row [OF assms(2-4)] assms(6) by auto
  have "\<exists>st'. Select sc ad (take (kPKeySize sc) row) cs st = Inr (if cs = [] then row else map ((!) row) cs, st') \<and>
      inv st' \<and> content st' = content st"
    by (rule Select_stored [OF assms(1) row(1) assms(2)])
      (use row(3) assms(5,6) in \<open>auto simp: neq_Nil_conv\<close>)
  then show ?thesis using row(1,2) assms(5,6) row_ok_nth [OF row(1)]
    by (auto simp: list_all_iff intro!: exI [of _ "map ((!) row) cs"])
qed

end

subsection \<open>The adapters as stores\<close>

interpretation kv_rows: row_store "KVStorageAdapter (MemOnlyStorage_Read hash) (MemOnlyStorage_Write hash) compute"
    "\<lambda>a. chm_inv hash (ka_storage a)" "\<lambda>a k. map_option Record_to_string (chm_map hash (ka_storage a) k)"
    "\<lambda>k. \<exists>m. compute k = Inr m" for hash compute
proof (unfold_locales, goal_cases)
  case (1 st k)
  obtain r s where r: "MemOnlyStorage_Read hash (ka_storage st) k = (r, s)" by fastforce
  from mem.read_law [OF 1 r] r show ?case by (cases "chm_map hash (ka_storage st) k") (auto simp: KVStorageAdapter_def KV_Read_def)
next
  case (2 st k v)
  then obtain m where m: "compute k = Inr m" by blast
  obtain b s where w: "MemOnlyStorage_Write hash (ka_storage st) k (SetMetadata m (SetValue v Record_default)) = (b, s)" by fastforce
  from mem.write_law [OF 2(1) w] w m show ?case
    by (auto simp: KVStorageAdapter_def KV_Insert_def model_defs fun_eq_iff)
qed

definition ta_ok :: "TxnAdapter \<Rightarrow> bool" where
  "ta_ok a \<longleftrightarrow> length (ta_index a) = length (tx_keys (ta_txn a)) \<and>
     (\<forall>k i. map_of (ta_index a) k = Some i \<longrightarrow> i < length (tx_keys (ta_txn a)) \<and> kv_key (tx_keys (ta_txn a) ! i) = k)"

definition ta_view :: "TxnAdapter \<Rightarrow> Key \<rightharpoonup> KeyType \<times> Value" where
  "ta_view a k = map_option (\<lambda>i. let e = kv_entry (tx_keys (ta_txn a) ! i) in (ve_type e, ve_value e)) (map_of (ta_index a) k)"

interpretation txn_rows: row_reader TxnStorageAdapter "\<lambda>a. ta_ok a \<and> ta_view a = w" "\<lambda>a k. map_option snd (ta_view a k)" for w
proof (unfold_locales, goal_cases)
  case (1 st k)
  then show ?case
    by (cases "map_of (ta_index st) k")
      (auto simp: TxnStorageAdapter_def Txn_Read_def CheckIndexSize_def keys_at_def ta_ok_def ta_view_def Let_def)
qed

lemma set_new_value_view:
  assumes "ta_ok a" "map_of (ta_index a) k = Some i"
  shows "ta_ok (a\<lparr>ta_txn := set_new_value i v (ta_txn a)\<rparr>) \<and> ta_view (a\<lparr>ta_txn := set_new_value i v (ta_txn a)\<rparr>) = ta_view a"
proof -
  let ?ks = "tx_keys (ta_txn a)" and ?ks' = "tx_keys (set_new_value i v (ta_txn a))"
  have "length ?ks' = length ?ks" by (simp add: set_new_value_def)
  moreover have "kv_key (?ks' ! j) = kv_key (?ks ! j) \<and> ve_type (kv_entry (?ks' ! j)) = ve_type (kv_entry (?ks ! j)) \<and>
      ve_value (kv_entry (?ks' ! j)) = ve_value (kv_entry (?ks ! j))" if "j < length ?ks" for j
    using that by (cases "i = j") (simp_all add: set_new_value_def)
  ultimately show ?thesis using assms
    by (auto simp: ta_ok_def ta_view_def Let_def fun_eq_iff intro!: option.map_cong)
qed

lemma Txn_Insert_view:
  assumes "ta_ok a" "ta_view a k = Some (KeyWrite, v0)"
  shows "\<exists>a'. Txn_Insert k v a = Inr (True, a') \<and> ta_ok a' \<and> ta_view a' = ta_view a"
  using assms set_new_value_view [OF assms(1)]
  by (auto simp: Txn_Insert_def CheckIndexSize_def keys_at_def ta_view_def Let_def ta_ok_def)

lemma Txn_Update_view:
  assumes "ta_ok a" "ta_view a k = Some (KeyWrite, v0)" "v0 \<noteq> []" "f v0 = Inr v"
  shows "\<exists>a'. Txn_Update k f a = Inr (True, a') \<and> ta_ok a' \<and> ta_view a' = ta_view a"
  using assms set_new_value_view [OF assms(1)]
  by (auto simp: Txn_Update_def CheckIndexSize_def keys_at_def ta_view_def Let_def ta_ok_def)

subsection \<open>Writes on the entries of a transaction\<close>

lemma column_end:
  assumes "kPKeySize sc \<le> c" "c < kNumColumns sc"
  shows "column_offset sc c + type_size (ColumnTypes sc ! c) \<le> row_size sc"
proof -
  let ?ts = "drop (kPKeySize sc) (ColumnTypes sc)" and ?i = "c - kPKeySize sc"
  have i: "?i < length ?ts" using assms by (auto simp: kNumColumns_def)
  have "row_size sc = sum_list (map type_size (take ?i ?ts @ ?ts ! ?i # drop (Suc ?i) ?ts))"
    unfolding row_size_def using id_take_nth_drop [OF i] by simp
  moreover have "?ts ! ?i = ColumnTypes sc ! c" using assms by (simp add: kNumColumns_def)
  ultimately show ?thesis by (simp add: column_offset_def drop_take)
qed

lemma replace_columns_ok:
  assumes "\<forall>(c, v)\<in>set cvs. scalar_ok v \<and> scalar_type v = ColumnTypes sc ! c \<and> kPKeySize sc \<le> c \<and> c < kNumColumns sc"
    and "length d = row_size sc"
  shows "\<exists>d'. replace_columns sc cvs d = Inr d' \<and> length d' = row_size sc"
  using assms
proof (induction cvs arbitrary: d)
  case (Cons cv cvs)
  obtain c v where cv: "cv = (c, v)" by (cases cv)
  with Cons.prems(1) have v: "scalar_ok v" "scalar_type v = ColumnTypes sc ! c" "kPKeySize sc \<le> c" "c < kNumColumns sc" by auto
  let ?d = "take (column_offset sc c) d @ scalar_data v @ drop (column_offset sc c + type_size (scalar_type v)) d"
  have "string_replace (column_offset sc c) (type_size (scalar_type v)) (scalar_data v) d = Inr ?d" "length ?d = row_size sc"
    using column_end [OF v(3,4)] v Cons.prems(2) by (auto simp: string_replace_def length_scalar_data)
  with Cons.IH [of ?d] Cons.prems(1) v(1) cv show ?case by (auto simp: scalar_bytes_ok)
qed simp

lemma validate_columns:
  assumes "map scalar_type vs = map ((!) (ColumnTypes sc)) cs" "\<forall>c\<in>set cs. c < kNumColumns sc"
  shows "traverse (ValidateType sc) (zip vs cs) = Inr (map (\<lambda>_. ()) (zip vs cs))"
proof (rule traverse_ok)
  fix vc
  assume "vc \<in> set (zip vs cs)"
  then obtain i where i: "vc = (vs ! i, cs ! i)" "i < length vs" "i < length cs" by (auto simp: set_zip)
  then have "scalar_type (vs ! i) = ColumnTypes sc ! (cs ! i)" using assms(1) by (metis nth_map)
  then show "ValidateType sc vc = Inr ()" using i assms(2) by (simp add: ValidateType_def not_le)
qed

lemma update_columns_view:
  assumes "ta_ok a" "\<forall>(k, v)\<in>set kvs. scalar_ok v \<and> (\<exists>d. ta_view a k = Some (KeyWrite, d) \<and> d \<noteq> [])"
  shows "\<exists>a'. update_columns TxnStorageAdapter kvs a = Inr (True, a') \<and> ta_ok a' \<and> ta_view a' = ta_view a"
  using assms
proof (induction kvs arbitrary: a)
  case (Cons kv kvs)
  obtain k v d where kv: "kv = (k, v)" "scalar_ok v" "ta_view a k = Some (KeyWrite, d)" "d \<noteq> []"
    using Cons.prems(2) by (cases kv) auto
  from Txn_Update_view [OF Cons.prems(1) kv(3,4), of "\<lambda>_. scalar_bytes v"] scalar_bytes_ok [OF kv(2)]
  obtain a1 where a1: "Txn_Update k (\<lambda>_. scalar_bytes v) a = Inr (True, a1)" "ta_ok a1" "ta_view a1 = ta_view a" by blast
  with Cons.IH [OF a1(2)] Cons.prems(2) obtain a' where
    "update_columns TxnStorageAdapter kvs a1 = Inr (True, a')" "ta_ok a'" "ta_view a' = ta_view a" by auto
  with a1 kv(1) show ?case by (auto simp: TxnStorageAdapter_def)
qed simp

lemma Table_Update_view:
  assumes "ta_ok a" "schema_ok sc" "pkey_ok sc pkey" "well_stored sc (\<lambda>k. map_option snd (ta_view a k)) pkey cs"
    and "\<forall>k\<in>column_keys sc pkey cs. \<exists>d. ta_view a k = Some (KeyWrite, d)"
    and "cs \<noteq> []" "\<forall>c\<in>set cs. kPKeySize sc \<le> c \<and> c < kNumColumns sc"
    and "map scalar_type vs = map ((!) (ColumnTypes sc)) cs" "list_all scalar_ok vs"
  shows "\<exists>a'. Table_Update sc TxnStorageAdapter pkey cs vs a = Inr (True, a') \<and> ta_ok a' \<and> ta_view a' = ta_view a"
proof -
  have len: "length vs = length cs" using assms(8) by (metis length_map)
  have pos: "0 < type_size (ColumnTypes sc ! c)" if "c < kNumColumns sc" for c
    using that assms(2) by (auto simp: schema_ok_def list_all_length kNumColumns_def)
  have pk: "take (kPKeySize sc) pkey = pkey" using pkey_ok_length [OF assms(3)] assms(2) by (simp add: schema_ok_def)
  have key: "MakeStorageKey sc pkey = Inr (storage_key sc pkey)" using MakeStorageKey_ok [OF assms(2), of pkey] assms(3) pk by simp
  have val: "traverse (ValidateType sc) (zip vs cs) = Inr (map (\<lambda>_. ()) (zip vs cs))"
    by (rule validate_columns [OF assms(8)]) (use assms(7) in auto)
  have nth: "scalar_type (vs ! i) = ColumnTypes sc ! (cs ! i) \<and> scalar_ok (vs ! i)" if "i < length cs" for i
    using that assms(8,9) len by (metis list_all_length nth_map)
  show ?thesis
  proof (cases "kGroupedColumns sc")
    case True
    then obtain d where d: "ta_view a (storage_key sc pkey) = Some (KeyWrite, d)" "length d = row_size sc"
      using assms(4,5) by (auto simp: well_stored_def column_keys_def)
    have "0 < row_size sc" using column_end [of sc "hd cs"] pos [of "hd cs"] assms(6,7) by fastforce
    with d(2) have "d \<noteq> []" by auto
    moreover have "\<forall>(c, v)\<in>set (zip cs vs). scalar_ok v \<and> scalar_type v = ColumnTypes sc ! c \<and> kPKeySize sc \<le> c \<and> c < kNumColumns sc"
      using nth assms(7) len by (auto simp: set_zip)
    from replace_columns_ok [OF this d(2)] obtain d' where "replace_columns sc (zip cs vs) d = Inr d'" by blast
    ultimately show ?thesis using Txn_Update_view [OF assms(1) d(1)] True len val key
      by (simp add: Table_Update_def TxnStorageAdapter_def)
  next
    case False
    let ?kvs = "zip (map (\<lambda>col. storage_key sc pkey @ [char_of col]) cs) vs"
    have "\<exists>d. ta_view a k = Some (KeyWrite, d) \<and> d \<noteq> []" if "k = storage_key sc pkey @ [char_of c]" "c \<in> set cs" for k c
    proof -
      have "k \<in> column_keys sc pkey cs" using that assms(7) False by (auto simp: column_keys_def)
      with assms(5) obtain d where d: "ta_view a k = Some (KeyWrite, d)" by blast
      then have "length d = type_size (ColumnTypes sc ! c)" using that assms(4,7) False by (auto simp: well_stored_def)
      with d pos [of c] assms(7) that show ?thesis by auto
    qed
    then have "\<forall>(k, v)\<in>set ?kvs. scalar_ok v \<and> (\<exists>d. ta_view a k = Some (KeyWrite, d) \<and> d \<noteq> [])"
      using nth len by (auto simp: set_zip)
    from update_columns_view [OF assms(1) this] show ?thesis using False assms(6) len val key
      by (simp add: Table_Update_def MakeStorageKeys_def)
  qed
qed

text \<open>
  An inserted row may have text of any width: only the names of the types are compared.  Of each
  scalar as many bytes are stored as its own type has.  The tables the engines insert into are
  grouped.
\<close>

definition scalar_prefix :: "Scalar \<Rightarrow> string" where
  "scalar_prefix s = take (type_size (scalar_type s)) (scalar_data s)"

definition insertable :: "Schema \<Rightarrow> Scalar list \<Rightarrow> bool" where
  "insertable sc row \<longleftrightarrow> pkey_ok sc (take (kPKeySize sc) row) \<and>
     list_all (\<lambda>s. type_size (scalar_type s) \<le> length (scalar_data s)) row \<and>
     map (type_name \<circ> scalar_type) row = map type_name (ColumnTypes sc)"

lemma Table_Insert_grouped:
  assumes "schema_ok sc" "kGroupedColumns sc" "insertable sc row"
  shows "Table_Insert sc ad row st =
    ad_Insert ad (storage_key sc (take (kPKeySize sc) row)) (concat (map scalar_prefix (drop (kPKeySize sc) row))) st"
proof -
  let ?n = "kPKeySize sc"
  have names: "map (type_name \<circ> scalar_type) row = map type_name (ColumnTypes sc)" using assms(3) by (simp add: insertable_def)
  from arg_cong [OF this, of length] have len: "length row = kNumColumns sc" by (simp add: kNumColumns_def)
  have nm: "type_name (scalar_type (row ! i)) = type_name (ColumnTypes sc ! i)" if "i < kNumColumns sc" for i
    using arg_cong [OF names, of "\<lambda>xs. xs ! i"] that len by (simp add: kNumColumns_def)
  have "traverse (ValidateType sc) (zip (drop ?n row) (non_pkey_columns sc)) = Inr (map (\<lambda>_. ()) (zip (drop ?n row) (non_pkey_columns sc)))"
    by (rule traverse_ok) (use nm len in \<open>auto simp: ValidateType_def set_zip non_pkey_columns_def\<close>)
  moreover have "traverse scalar_bytes (drop ?n row) = Inr (map scalar_prefix (drop ?n row))"
    by (rule traverse_ok) (use assms(3) in \<open>auto simp: insertable_def list_all_iff scalar_bytes_def scalar_prefix_def Let_def not_less dest: in_set_dropD\<close>)
  moreover have "MakeStorageKey sc row = Inr (storage_key sc (take ?n row))"
    by (rule MakeStorageKey_ok [OF assms(1)]) (use assms(3) in \<open>simp add: insertable_def\<close>)
  ultimately show ?thesis using assms(2) len by (simp add: Table_Insert_def)
qed

lemma Table_Insert_view:
  assumes "ta_ok a" "schema_ok sc" "kGroupedColumns sc" "insertable sc row"
    and "ta_view a (storage_key sc (take (kPKeySize sc) row)) = Some (KeyWrite, d)"
  shows "\<exists>a'. Table_Insert sc TxnStorageAdapter row a = Inr (True, a') \<and> ta_ok a' \<and> ta_view a' = ta_view a"
  using Txn_Insert_view [OF assms(1,5)] Table_Insert_grouped [OF assms(2-4), of TxnStorageAdapter]
  by (simp add: TxnStorageAdapter_def)

lemma emplace_keys_distinct:
  "distinct ks \<Longrightarrow> set ks \<inter> fst ` set idx = {} \<Longrightarrow> emplace_keys ks i idx = idx @ zip ks [i..<i + length ks]"
proof (induction ks arbitrary: i idx)
  case (Cons k ks)
  then have "map_of idx k = None" by (auto simp: map_of_eq_None_iff)
  moreover have "[i..<i + length (k # ks)] = i # [Suc i..<Suc i + length ks]" by (simp add: upt_conv_Cons del: upt_Suc)
  ultimately show ?case using Cons.IH [of "idx @ [(k, i)]" "Suc i"] Cons.prems by (simp del: upt_Suc)
qed simp

lemma TxnAdapter_new_view:
  assumes "distinct (map kv_key (tx_keys txn))"
  shows "ta_ok (TxnAdapter_new txn)"
    and "kv \<in> set (tx_keys txn) \<Longrightarrow>
      ta_view (TxnAdapter_new txn) (kv_key kv) = Some (ve_type (kv_entry kv), ve_value (kv_entry kv))"
proof -
  let ?ks = "map kv_key (tx_keys txn)"
  have idx: "ta_index (TxnAdapter_new txn) = zip ?ks [0..<length ?ks]"
    using emplace_keys_distinct [OF assms, of "[]" 0] by (simp add: TxnAdapter_new_def)
  have m: "map_of (zip ?ks [0..<length ?ks]) k = Some i \<longleftrightarrow> i < length ?ks \<and> ?ks ! i = k" for k i
    using assms by (subst map_of_eq_Some_iff) (auto simp: set_zip)
  then show "ta_ok (TxnAdapter_new txn)" unfolding ta_ok_def idx by (auto simp: TxnAdapter_new_def)
  assume "kv \<in> set (tx_keys txn)"
  then obtain i where "i < length (tx_keys txn)" "tx_keys txn ! i = kv" by (auto simp: in_set_conv_nth)
  with m [of "kv_key kv" i] show "ta_view (TxnAdapter_new txn) (kv_key kv) = Some (ve_type (kv_entry kv), ve_value (kv_entry kv))"
    unfolding ta_view_def idx by (simp add: TxnAdapter_new_def Let_def)
qed

subsection \<open>Key generation\<close>

definition kg_has :: "KeyGenAdapter \<Rightarrow> Key \<Rightarrow> KeyType \<Rightarrow> bool" where
  "kg_has a k t \<longleftrightarrow> (\<exists>t'. map_of (kg_index a) k = Some t' \<and> (t = KeyWrite \<longrightarrow> t' = KeyWrite))"

definition kg_ok :: "KeyGenAdapter \<Rightarrow> bool" where
  "kg_ok a \<longleftrightarrow> \<not> kg_finalized a \<and> distinct (map fst (kg_index a))"

text \<open>
  A step of the generator adds keys, and never turns a written key into a read one.  \<open>d\<close> is
  what the step demands: pairs of a key and the way it is accessed.
\<close>

type_synonym demand = "(Key \<times> KeyType) set"

definition kg_step :: "KeyGenAdapter \<Rightarrow> demand \<Rightarrow> KeyGenAdapter \<Rightarrow> bool" where
  "kg_step a d a' \<longleftrightarrow> kg_ok a' \<and> (\<forall>k t. kg_has a k t \<longrightarrow> kg_has a' k t) \<and> (\<forall>(k, t)\<in>d. kg_has a' k t)"

lemma kg_step_refl: "kg_ok a \<Longrightarrow> kg_step a {} a"
  by (simp add: kg_step_def)

lemma kg_step_trans: "kg_step a d b \<Longrightarrow> kg_step b d' c \<Longrightarrow> kg_step a (d \<union> d') c"
  by (auto simp: kg_step_def)

lemma demand_insert: "{(k, t)} \<union> ks \<times> {t} = insert k ks \<times> {t}"
  by auto

lemma NewReadKey_step: "kg_ok a \<Longrightarrow> kg_step a {(k, KeyRead)} (NewReadKey k a)"
  by (auto simp: kg_step_def kg_ok_def kg_has_def NewReadKey_def map_add_def map_of_eq_None_iff split: option.splits)

lemma NewWriteKey_step: "kg_ok a \<Longrightarrow> kg_step a {(k, KeyWrite)} (NewWriteKey k a)"
  by (auto simp: kg_step_def kg_ok_def kg_has_def NewWriteKey_def update_conv' distinct_update)

lemma select_columns_keygen:
  assumes "kg_ok a" "\<forall>ck\<in>set cks. kPKeySize sc \<le> fst ck"
  shows "\<exists>a'. select_columns sc TxnKeyGenStorageAdapter pkey cks a = Inr ([], False, a') \<and> kg_step a ((snd ` set cks) \<times> {KeyRead}) a'"
  using assms
proof (induction cks arbitrary: a)
  case Nil
  then show ?case by (simp add: kg_step_refl)
next
  case (Cons ck cks)
  note st = NewReadKey_step [OF Cons.prems(1), of "snd ck"]
  then have "kg_ok (NewReadKey (snd ck) a)" by (simp add: kg_step_def)
  from Cons.IH [OF this] Cons.prems(2) obtain a' where
    a': "select_columns sc TxnKeyGenStorageAdapter pkey cks (NewReadKey (snd ck) a) = Inr ([], False, a')"
    "kg_step (NewReadKey (snd ck) a) ((snd ` set cks) \<times> {KeyRead}) a'" by auto
  with kg_step_trans [OF st a'(2), unfolded demand_insert] Cons.prems(2) show ?case
    by (simp add: TxnKeyGenStorageAdapter_def not_less)
qed

lemma Select_keygen:
  assumes "kg_ok a" "schema_ok sc" "pkey_ok sc pkey" "cs \<noteq> []" "\<forall>c\<in>set cs. kPKeySize sc \<le> c"
  shows "\<exists>a'. Select sc TxnKeyGenStorageAdapter pkey cs a = Inr ([], a') \<and> kg_step a (column_keys sc pkey cs \<times> {KeyRead}) a'"
proof -
  have pk: "take (kPKeySize sc) pkey = pkey" using pkey_ok_length [OF assms(3)] assms(2) by (simp add: schema_ok_def)
  have key: "MakeStorageKey sc pkey = Inr (storage_key sc pkey)" using MakeStorageKey_ok [OF assms(2), of pkey] assms(3) pk by simp
  let ?cks = "zip cs (map (\<lambda>col. storage_key sc pkey @ [char_of col]) cs)"
  have cks: "?cks = map (\<lambda>c. (c, storage_key sc pkey @ [char_of c])) cs" by (simp add: zip_map2 zip_same_conv_map)
  have "\<exists>a'. select_columns sc TxnKeyGenStorageAdapter pkey ?cks a = Inr ([], False, a') \<and> kg_step a ((snd ` set ?cks) \<times> {KeyRead}) a'"
    by (rule select_columns_keygen [OF assms(1)]) (use assms(5) in \<open>auto simp: cks\<close>)
  moreover have "snd ` set ?cks = (\<lambda>i. storage_key sc pkey @ [char_of i]) ` {c \<in> set cs. kPKeySize sc \<le> c}"
    using assms(5) unfolding cks by (auto simp: image_image)
  ultimately show ?thesis using NewReadKey_step [OF assms(1)] assms(4) key
    by (auto simp: Select_def SelectGrouped_def SelectUngrouped_def MakeStorageKeys_def column_keys_def TxnKeyGenStorageAdapter_def)
qed

lemma update_columns_keygen:
  assumes "kg_ok a"
  shows "\<exists>ok a'. update_columns TxnKeyGenStorageAdapter kvs a = Inr (ok, a') \<and> kg_step a ((fst ` set kvs) \<times> {KeyWrite}) a'"
  using assms
proof (induction kvs arbitrary: a)
  case Nil
  then show ?case by (auto simp: kg_step_refl)
next
  case (Cons kv kvs)
  note st = NewWriteKey_step [OF Cons.prems, of "fst kv"]
  then have "kg_ok (NewWriteKey (fst kv) a)" by (simp add: kg_step_def)
  from Cons.IH [OF this] obtain ok a' where
    a': "update_columns TxnKeyGenStorageAdapter kvs (NewWriteKey (fst kv) a) = Inr (ok, a')"
    "kg_step (NewWriteKey (fst kv) a) ((fst ` set kvs) \<times> {KeyWrite}) a'" by auto
  with kg_step_trans [OF st a'(2), unfolded demand_insert] show ?case
    by (intro exI [of _ False] exI [of _ a']) (simp add: TxnKeyGenStorageAdapter_def)
qed

lemma Table_Update_keygen:
  assumes "kg_ok a" "schema_ok sc" "pkey_ok sc pkey" "cs \<noteq> []" "\<forall>c\<in>set cs. kPKeySize sc \<le> c \<and> c < kNumColumns sc"
    and "length vs = length cs" "traverse (ValidateType sc) (zip vs cs) = Inr us"
  shows "\<exists>ok a'. Table_Update sc TxnKeyGenStorageAdapter pkey cs vs a = Inr (ok, a') \<and> kg_step a (column_keys sc pkey cs \<times> {KeyWrite}) a'"
proof -
  have pk: "take (kPKeySize sc) pkey = pkey" using pkey_ok_length [OF assms(3)] assms(2) by (simp add: schema_ok_def)
  have key: "MakeStorageKey sc pkey = Inr (storage_key sc pkey)" using MakeStorageKey_ok [OF assms(2), of pkey] assms(3) pk by simp
  let ?kvs = "zip (map (\<lambda>col. storage_key sc pkey @ [char_of col]) cs) vs"
  have "fst ` set ?kvs = (\<lambda>i. storage_key sc pkey @ [char_of i]) ` set cs"
    using assms(6) by (simp flip: set_map)
  moreover have "{c \<in> set cs. kPKeySize sc \<le> c} = set cs" using assms(5) by auto
  ultimately show ?thesis
    using update_columns_keygen [OF assms(1), of ?kvs] NewWriteKey_step [OF assms(1)] assms(4,6,7) key
    by (auto simp: Table_Update_def MakeStorageKeys_def column_keys_def TxnKeyGenStorageAdapter_def)
qed

lemma Table_Insert_keygen:
  assumes "kg_ok a" "schema_ok sc" "kGroupedColumns sc" "insertable sc row"
  shows "\<exists>ok a'. Table_Insert sc TxnKeyGenStorageAdapter row a = Inr (ok, a') \<and>
    kg_step a {(storage_key sc (take (kPKeySize sc) row), KeyWrite)} a'"
  using NewWriteKey_step [OF assms(1)] Table_Insert_grouped [OF assms(2-4), of TxnKeyGenStorageAdapter]
  by (auto simp: TxnKeyGenStorageAdapter_def)

end
