(* ===== verification/Tpcc.thy ===== *)
theory Tpcc
  imports Table_Access
begin

section \<open>The TPC-C engine\<close>

text \<open>
  \<^verbatim>\<open>execution/tpcc/\<close> and \<^verbatim>\<open>execution/tpcc.cpp\<close>: the schemas of the nine tables, the five
  transactions with their phases \<^verbatim>\<open>Read\<close>, \<^verbatim>\<open>Compute\<close> and \<^verbatim>\<open>Write\<close>, and the engine
  that runs the transaction a procedure names.  A transaction works on any storage adapter.
  The arithmetic on 32 and 64 bits is signed: an overflow is undefined.  Narrower results are
  reduced to their width.
\<close>

subsection \<open>Constants and metadata\<close>

definition kLinePerOrder :: nat where "kLinePerOrder = 10"

definition kTotalItems :: nat where "kTotalItems = 200"

definition TPCCMetadataInitializer_Compute :: "uint32 \<Rightarrow> uint32 \<Rightarrow> Key \<Rightarrow> Metadata result" where
  "TPCCMetadataInitializer_Compute nr np key =
     (if length key < 4 then Inl (CheckFailed ''Invalid key'')
      else if nr = 0 \<or> np = 0 then Inl (Undefined ''division by zero'')
      else let warehouse_id = of_nat (le_bytes (take 4 key)) :: uint32 in
        Inr (mk_Metadata ((warehouse_id - 1) div np mod nr) 0))"

subsection \<open>Schemas\<close>

datatype TableId = WAREHOUSE | DISTRICT | CUSTOMER | HISTORY | NEW_ORDER | ORDER | ORDER_LINE | ITEM | STOCK

fun table_id :: "TableId \<Rightarrow> nat" where
  "table_id WAREHOUSE = 0"
| "table_id DISTRICT = 1"
| "table_id CUSTOMER = 2"
| "table_id HISTORY = 3"
| "table_id NEW_ORDER = 4"
| "table_id ORDER = 5"
| "table_id ORDER_LINE = 6"
| "table_id ITEM = 7"
| "table_id STOCK = 8"

definition WarehouseSchema :: Schema where
  "WarehouseSchema = \<lparr>kId = table_id WAREHOUSE, kPKeySize = 1, kGroupedColumns = False,
     ColumnTypes = [Int32Type, FixedTextType 10, FixedTextType 71, Int32Type, Int64Type]\<rparr>"

definition DistrictSchema :: Schema where
  "DistrictSchema = \<lparr>kId = table_id DISTRICT, kPKeySize = 2, kGroupedColumns = False,
     ColumnTypes = [Int32Type, Int8Type, FixedTextType 10, FixedTextType 71, Int32Type, Int64Type, Int32Type]\<rparr>"

definition CustomerSchema :: Schema where
  "CustomerSchema = \<lparr>kId = table_id CUSTOMER, kPKeySize = 3, kGroupedColumns = False,
     ColumnTypes = [Int32Type, Int8Type, Int32Type, FixedTextType 34, FixedTextType 71, FixedTextType 16, Int64Type,
       FixedTextType 2, Int64Type, Int32Type, Int64Type, Int64Type, Int16Type, Int16Type, FixedTextType 250]\<rparr>"

definition HistorySchema :: Schema where
  "HistorySchema = \<lparr>kId = table_id HISTORY, kPKeySize = 4, kGroupedColumns = True,
     ColumnTypes = [Int32Type, Int8Type, Int32Type, Int32Type, Int8Type, Int32Type, Int64Type, Int32Type, FixedTextType 24]\<rparr>"

definition NewOrderSchema :: Schema where
  "NewOrderSchema = \<lparr>kId = table_id NEW_ORDER, kPKeySize = 3, kGroupedColumns = True,
     ColumnTypes = [Int32Type, Int8Type, Int32Type, Int8Type]\<rparr>"

definition OrderSchema :: Schema where
  "OrderSchema = \<lparr>kId = table_id ORDER, kPKeySize = 3, kGroupedColumns = True,
     ColumnTypes = [Int32Type, Int8Type, Int32Type, Int32Type, Int64Type, Int8Type, Int8Type, Int8Type]\<rparr>"

definition OrderLineSchema :: Schema where
  "OrderLineSchema = \<lparr>kId = table_id ORDER_LINE, kPKeySize = 4, kGroupedColumns = True,
     ColumnTypes = [Int32Type, Int8Type, Int32Type, Int8Type, Int32Type, Int32Type, Int64Type, Int8Type, Int32Type,
       FixedTextType 24]\<rparr>"

definition ItemSchema :: Schema where
  "ItemSchema = \<lparr>kId = table_id ITEM, kPKeySize = 2, kGroupedColumns = True,
     ColumnTypes = [Int32Type, Int32Type, Int32Type, FixedTextType 24, Int32Type, FixedTextType 50]\<rparr>"

definition StockSchema :: Schema where
  "StockSchema = \<lparr>kId = table_id STOCK, kPKeySize = 2, kGroupedColumns = True,
     ColumnTypes = [Int32Type, Int32Type, Int16Type, FixedTextType 240, Int32Type, Int16Type, Int16Type, FixedTextType 50]\<rparr>"

lemmas schema_defs = WarehouseSchema_def DistrictSchema_def CustomerSchema_def HistorySchema_def NewOrderSchema_def
  OrderSchema_def OrderLineSchema_def ItemSchema_def StockSchema_def

text \<open>The enumerators of the columns the transactions name.\<close>

abbreviation (input) "Warehouse_NAME \<equiv> (1::nat)"
abbreviation (input) "Warehouse_ADDRESS \<equiv> (2::nat)"
abbreviation (input) "Warehouse_TAX \<equiv> (3::nat)"
abbreviation (input) "Warehouse_YTD \<equiv> (4::nat)"
abbreviation (input) "District_NAME \<equiv> (2::nat)"
abbreviation (input) "District_ADDRESS \<equiv> (3::nat)"
abbreviation (input) "District_TAX \<equiv> (4::nat)"
abbreviation (input) "District_YTD \<equiv> (5::nat)"
abbreviation (input) "District_NEXT_O_ID \<equiv> (6::nat)"
abbreviation (input) "Customer_FULL_NAME \<equiv> (3::nat)"
abbreviation (input) "Customer_ADDRESS \<equiv> (4::nat)"
abbreviation (input) "Customer_PHONE \<equiv> (5::nat)"
abbreviation (input) "Customer_SINCE \<equiv> (6::nat)"
abbreviation (input) "Customer_CREDIT \<equiv> (7::nat)"
abbreviation (input) "Customer_CREDIT_LIM \<equiv> (8::nat)"
abbreviation (input) "Customer_DISCOUNT \<equiv> (9::nat)"
abbreviation (input) "Customer_BALANCE \<equiv> (10::nat)"
abbreviation (input) "Customer_YTD_PAYMENT \<equiv> (11::nat)"
abbreviation (input) "Customer_PAYMENT_CNT \<equiv> (12::nat)"
abbreviation (input) "Customer_DELIVERY_CNT \<equiv> (13::nat)"
abbreviation (input) "Customer_DATA \<equiv> (14::nat)"
abbreviation (input) "History_DATA \<equiv> (8::nat)"
abbreviation (input) "Order_C_ID \<equiv> (3::nat)"
abbreviation (input) "Order_ENTRY_D \<equiv> (4::nat)"
abbreviation (input) "Order_CARRIER_ID \<equiv> (5::nat)"
abbreviation (input) "OrderLine_I_ID \<equiv> (4::nat)"
abbreviation (input) "OrderLine_SUPPLY_W_ID \<equiv> (5::nat)"
abbreviation (input) "OrderLine_DELIVERY_D \<equiv> (6::nat)"
abbreviation (input) "OrderLine_QUANTITY \<equiv> (7::nat)"
abbreviation (input) "OrderLine_AMOUNT \<equiv> (8::nat)"
abbreviation (input) "Item_NAME \<equiv> (3::nat)"
abbreviation (input) "Item_PRICE \<equiv> (4::nat)"
abbreviation (input) "Item_DATA \<equiv> (5::nat)"
abbreviation (input) "Stock_QUANTITY \<equiv> (2::nat)"
abbreviation (input) "Stock_ALL_DIST \<equiv> (3::nat)"

subsection \<open>Phases of a transaction\<close>

text \<open>
  The statements of a phase run one after the other whether or not an earlier one failed; the
  result is the conjunction of their flags.  \<open>select_stage\<close> is the pattern
  \<^verbatim>\<open>if (auto res = t.Select(...); !res.empty()) {...} else {...}\<close>, \<open>write_stage\<close> the pattern
  \<^verbatim>\<open>if (!t.Update(...)) {...}\<close>.
\<close>

type_synonym ('t, 'a) stage = "'t \<Rightarrow> 'a \<Rightarrow> (bool \<times> 't \<times> 'a) result"

fun stages :: "('t, 'a) stage list \<Rightarrow> ('t, 'a) stage" where
  "stages [] t st = Inr (True, t, st)"
| "stages (f # fs) t st =
     rbind (f t st) (\<lambda>r. rbind (stages fs (fst (snd r)) (snd (snd r))) (\<lambda>r'. Inr (fst r \<and> fst r', snd r')))"

definition select_stage ::
  "Schema \<Rightarrow> 'a StorageAdapter \<Rightarrow> ('t \<Rightarrow> Scalar list) \<Rightarrow> nat list \<Rightarrow> (Scalar list \<Rightarrow> 't \<Rightarrow> 't result) \<Rightarrow> ('t \<Rightarrow> bool \<times> 't) \<Rightarrow>
     ('t, 'a) stage" where
  "select_stage sc ad pkey cs assign missing t st =
     rbind (Select sc ad (pkey t) cs st) (\<lambda>(res, st1).
       if res \<noteq> [] then rbind (assign res t) (\<lambda>t1. Inr (True, t1, st1))
       else Inr (fst (missing t), snd (missing t), st1))"

definition write_stage :: "('t \<Rightarrow> 'a \<Rightarrow> (bool \<times> 'a) result) \<Rightarrow> ('t \<Rightarrow> bool \<times> 't) \<Rightarrow> ('t, 'a) stage" where
  "write_stage f failed t st =
     rbind (f t st) (\<lambda>(ok, st1). if ok then Inr (True, t, st1) else Inr (fst (failed t), snd (failed t), st1))"

text \<open>\<^verbatim>\<open>TPCCTransaction::Execute\<close>.\<close>

definition Execute :: "('t, 'a) stage \<Rightarrow> ('t \<Rightarrow> 't result) \<Rightarrow> ('t, 'a) stage \<Rightarrow> ('t, 'a) stage" where
  "Execute read compute write t st =
     rbind (read t st) (\<lambda>(ok, t1, st1).
       if \<not> ok then Inr (False, t1, st1)
       else rbind (compute t1) (\<lambda>t2. write t2 st1))"

text \<open>\<^verbatim>\<open>SetError\<close> keeps the first error.\<close>

definition SetError :: "string \<Rightarrow> string \<Rightarrow> string" where
  "SetError new old = (if old = [] then new else old)"

definition res_at :: "Scalar list \<Rightarrow> nat \<Rightarrow> Scalar result" where
  "res_at res i = (if i < length res then Inr (res ! i) else Inl (Undefined ''res[i]''))"

definition signed_result :: "int \<Rightarrow> 'a::len word result" where
  "signed_result v = (if - (2 ^ (LENGTH('a) - 1)) \<le> v \<and> v < 2 ^ (LENGTH('a) - 1) then Inr (of_int v)
     else Inl (Undefined ''signed overflow''))"

subsection \<open>New-Order\<close>

record OrderLine =
  ol_id :: int
  ol_supply_w_id :: int
  ol_item_id :: int
  ol_quantity :: int

record OrderLineScalar =
  a_id :: "8 word"
  a_supply_w_id :: "32 word"
  a_item_id :: "32 word"
  a_quantity :: "8 word"
  amount :: "32 word"
  dist_info :: "nat \<times> string"
  s_quantity :: "16 word"
  i_price :: "32 word"

record NewOrderTxn =
  no_w_id :: "32 word"
  no_d_id :: "8 word"
  no_c_id :: "32 word"
  no_o_id :: "32 word"
  no_datetime :: "64 word"
  no_ol :: "OrderLineScalar list"
  no_i_w_id :: "32 word"
  no_w_tax :: "32 word"
  no_c_discount :: "32 word"
  no_c_last :: "nat \<times> string"
  no_c_credit :: "nat \<times> string"
  no_d_tax :: "32 word"
  no_d_next_o_id :: "32 word"
  no_new_d_next_o_id :: "32 word"
  no_all_local :: "8 word"
  no_error :: string

definition NewOrderTxn_new :: "int \<Rightarrow> int \<Rightarrow> int \<Rightarrow> int \<Rightarrow> int \<Rightarrow> int \<Rightarrow> OrderLine list \<Rightarrow> NewOrderTxn" where
  "NewOrderTxn_new w_id d_id c_id o_id datetime i_w_id ol =
     \<lparr>no_w_id = of_int w_id, no_d_id = of_int d_id, no_c_id = of_int c_id, no_o_id = of_int o_id,
      no_datetime = of_int datetime,
      no_ol = map (\<lambda>l. \<lparr>a_id = of_int (ol_id l), a_supply_w_id = of_int (ol_supply_w_id l),
        a_item_id = of_int (ol_item_id l), a_quantity = of_int (ol_quantity l), amount = 0, dist_info = (0, []),
        s_quantity = 0, i_price = 0\<rparr>) ol,
      no_i_w_id = of_int i_w_id, no_w_tax = 0, no_c_discount = 0, no_c_last = (0, []), no_c_credit = (0, []),
      no_d_tax = 0, no_d_next_o_id = 0, no_new_d_next_o_id = 0, no_all_local = 0, no_error = []\<rparr>"

definition no_fail :: "string \<Rightarrow> NewOrderTxn \<Rightarrow> bool \<times> NewOrderTxn" where
  "no_fail e t = (False, t\<lparr>no_error := SetError e (no_error t)\<rparr>)"

definition no_read_warehouse :: "'a StorageAdapter \<Rightarrow> (NewOrderTxn, 'a) stage" where
  "no_read_warehouse ad = select_stage WarehouseSchema ad (\<lambda>t. [Int32Scalar (no_w_id t)]) [Warehouse_TAX]
     (\<lambda>res t. rbind (res_at res 0) (\<lambda>r0. rbind (as_int32 r0) (\<lambda>v. Inr (t\<lparr>no_w_tax := v\<rparr>))))
     (no_fail ''Warehouse does not exist'')"

definition no_read_customer :: "'a StorageAdapter \<Rightarrow> (NewOrderTxn, 'a) stage" where
  "no_read_customer ad = select_stage CustomerSchema ad
     (\<lambda>t. [Int32Scalar (no_w_id t), Int8Scalar (no_d_id t), Int32Scalar (no_c_id t)])
     [Customer_DISCOUNT, Customer_FULL_NAME, Customer_CREDIT]
     (\<lambda>res t. rbind (res_at res 0) (\<lambda>r0. rbind (as_int32 r0) (\<lambda>v0.
        rbind (res_at res 1) (\<lambda>r1. rbind (as_text r1) (\<lambda>v1.
        rbind (res_at res 2) (\<lambda>r2. rbind (as_text r2) (\<lambda>v2.
          Inr (t\<lparr>no_c_discount := v0, no_c_last := v1, no_c_credit := v2\<rparr>))))))))
     (no_fail ''The customer does not exist'')"

definition no_read_district :: "'a StorageAdapter \<Rightarrow> (NewOrderTxn, 'a) stage" where
  "no_read_district ad = select_stage DistrictSchema ad (\<lambda>t. [Int32Scalar (no_w_id t), Int8Scalar (no_d_id t)])
     [District_TAX, District_NEXT_O_ID]
     (\<lambda>res t. rbind (res_at res 0) (\<lambda>r0. rbind (as_int32 r0) (\<lambda>v0.
        rbind (res_at res 1) (\<lambda>r1. rbind (as_int32 r1) (\<lambda>v1.
          Inr (t\<lparr>no_d_tax := v0, no_d_next_o_id := v1\<rparr>))))))
     (no_fail ''The district does not exist'')"

definition upd_line :: "nat \<Rightarrow> (OrderLineScalar \<Rightarrow> OrderLineScalar) \<Rightarrow> NewOrderTxn \<Rightarrow> NewOrderTxn" where
  "upd_line i f t = t\<lparr>no_ol := (no_ol t)[i := f (no_ol t ! i)]\<rparr>"

definition no_read_item :: "'a StorageAdapter \<Rightarrow> nat \<Rightarrow> (NewOrderTxn, 'a) stage" where
  "no_read_item ad i = select_stage ItemSchema ad
     (\<lambda>t. [Int32Scalar (no_i_w_id t), Int32Scalar (a_item_id (no_ol t ! i))]) [Item_PRICE, Item_NAME, Item_DATA]
     (\<lambda>res t. rbind (res_at res 0) (\<lambda>r0. rbind (as_int32 r0) (\<lambda>v. Inr (upd_line i (\<lambda>l. l\<lparr>i_price := v\<rparr>) t))))
     (no_fail ''The item does not exist'')"

definition no_read_stock :: "'a StorageAdapter \<Rightarrow> nat \<Rightarrow> (NewOrderTxn, 'a) stage" where
  "no_read_stock ad i = select_stage StockSchema ad
     (\<lambda>t. [Int32Scalar (a_supply_w_id (no_ol t ! i)), Int32Scalar (a_item_id (no_ol t ! i))]) [Stock_QUANTITY, Stock_ALL_DIST]
     (\<lambda>res t. rbind (res_at res 0) (\<lambda>r0. rbind (as_int16 r0) (\<lambda>v0.
        rbind (res_at res 1) (\<lambda>r1.
          if length (scalar_data r1) < 24 then Inl (Undefined ''stock_res[1]->data()'')
          else rbind (MakeFixedTextScalar (FixedTextType 24) (take 24 (scalar_data r1))) (\<lambda>s. rbind (as_text s) (\<lambda>v1.
            Inr (upd_line i (\<lambda>l. l\<lparr>s_quantity := v0, dist_info := v1\<rparr>) t)))))))
     (no_fail ''Stock of the item does not exist'')"

definition NewOrderTxn_Read :: "'a StorageAdapter \<Rightarrow> (NewOrderTxn, 'a) stage" where
  "NewOrderTxn_Read ad t st =
     stages ([no_read_warehouse ad, no_read_customer ad, no_read_district ad] @
       concat (map (\<lambda>i. [no_read_item ad i, no_read_stock ad i]) [0..<length (no_ol t)])) t st"

definition compute_line :: "OrderLineScalar \<Rightarrow> OrderLineScalar result" where
  "compute_line l =
     rbind (signed_result (sint (a_quantity l) * sint (i_price l))) (\<lambda>am.
       Inr (l\<lparr>amount := am,
         s_quantity := (if sint (a_quantity l) < sint (s_quantity l)
           then of_int (sint (s_quantity l) - sint (a_quantity l))
           else of_int (sint (s_quantity l) - (sint (a_quantity l) - 91)))\<rparr>))"

definition NewOrderTxn_Compute :: "NewOrderTxn \<Rightarrow> NewOrderTxn result" where
  "NewOrderTxn_Compute t =
     rbind (signed_result (sint (no_d_next_o_id t) + 1)) (\<lambda>o_id.
     rbind (traverse compute_line (no_ol t)) (\<lambda>ol.
       Inr (t\<lparr>no_new_d_next_o_id := o_id, no_ol := ol,
         no_all_local := (if \<forall>l\<in>set (no_ol t). a_supply_w_id l = no_w_id t then 1 else 0)\<rparr>)))"

definition no_update_district :: "'a StorageAdapter \<Rightarrow> (NewOrderTxn, 'a) stage" where
  "no_update_district ad = write_stage (\<lambda>t. Table_Update DistrictSchema ad
     [Int32Scalar (no_w_id t), Int8Scalar (no_d_id t)] [District_NEXT_O_ID] [Int32Scalar (no_new_d_next_o_id t)])
     (no_fail ''Cannot update District'')"

definition order_row :: "NewOrderTxn \<Rightarrow> Scalar list" where
  "order_row t = [Int32Scalar (no_w_id t), Int8Scalar (no_d_id t), Int32Scalar (no_o_id t), Int32Scalar (no_c_id t),
     Int64Scalar (no_datetime t), Int8Scalar 0, Int8Scalar (of_nat (length (no_ol t))), Int8Scalar (no_all_local t)]"

definition no_insert_order :: "'a StorageAdapter \<Rightarrow> (NewOrderTxn, 'a) stage" where
  "no_insert_order ad = write_stage (\<lambda>t. Table_Insert OrderSchema ad (order_row t)) (no_fail ''Cannot insert into Order'')"

definition new_order_row :: "NewOrderTxn \<Rightarrow> Scalar list" where
  "new_order_row t = [Int32Scalar (no_w_id t), Int8Scalar (no_d_id t), Int32Scalar (no_o_id t), Int8Scalar 0]"

definition no_insert_new_order :: "'a StorageAdapter \<Rightarrow> (NewOrderTxn, 'a) stage" where
  "no_insert_new_order ad = write_stage (\<lambda>t. Table_Insert NewOrderSchema ad (new_order_row t)) (no_fail ''Cannot insert into NewOrder'')"

definition no_update_stock :: "'a StorageAdapter \<Rightarrow> nat \<Rightarrow> (NewOrderTxn, 'a) stage" where
  "no_update_stock ad i = write_stage (\<lambda>t. Table_Update StockSchema ad
     [Int32Scalar (a_supply_w_id (no_ol t ! i)), Int32Scalar (a_item_id (no_ol t ! i))] [Stock_QUANTITY]
     [Int16Scalar (s_quantity (no_ol t ! i))])
     (no_fail ''Cannot update Stock'')"

definition order_line_row :: "NewOrderTxn \<Rightarrow> nat \<Rightarrow> Scalar list" where
  "order_line_row t i = (let l = no_ol t ! i in
     [Int32Scalar (no_w_id t), Int8Scalar (no_d_id t), Int32Scalar (no_o_id t), Int8Scalar (a_id l),
      Int32Scalar (a_item_id l), Int32Scalar (a_supply_w_id l), Int64Scalar 0, Int8Scalar (a_quantity l),
      Int32Scalar (amount l), FixedTextScalar (fst (dist_info l)) (snd (dist_info l))])"

definition no_insert_line :: "'a StorageAdapter \<Rightarrow> nat \<Rightarrow> (NewOrderTxn, 'a) stage" where
  "no_insert_line ad i = write_stage (\<lambda>t. Table_Insert OrderLineSchema ad (order_line_row t i))
     (no_fail ''Cannot insert to OrderLine'')"

definition NewOrderTxn_Write :: "'a StorageAdapter \<Rightarrow> (NewOrderTxn, 'a) stage" where
  "NewOrderTxn_Write ad t st =
     stages ([no_update_district ad, no_insert_order ad, no_insert_new_order ad] @
       concat (map (\<lambda>i. [no_update_stock ad i, no_insert_line ad i]) [0..<length (no_ol t)])) t st"

subsection \<open>Payment\<close>

record PaymentTxn =
  pay_w_id :: "32 word"
  pay_d_id :: "8 word"
  pay_c_w_id :: "32 word"
  pay_c_d_id :: "8 word"
  pay_c_id :: "32 word"
  pay_amount :: "32 word"
  pay_datetime :: "64 word"
  pay_h_id :: "32 word"
  pay_w_name :: "nat \<times> string"
  pay_w_address :: "nat \<times> string"
  pay_w_ytd :: "64 word"
  pay_d_name :: "nat \<times> string"
  pay_d_address :: "nat \<times> string"
  pay_d_ytd :: "64 word"
  pay_c_full_name :: "nat \<times> string"
  pay_c_address :: "nat \<times> string"
  pay_c_phone :: "nat \<times> string"
  pay_c_since :: "64 word"
  pay_c_credit :: "nat \<times> string"
  pay_c_credit_lim :: "64 word"
  pay_c_discount :: "32 word"
  pay_c_balance :: "64 word"
  pay_c_ytd_payment :: "64 word"
  pay_c_payment_cnt :: "16 word"
  pay_c_data :: "nat \<times> string"
  pay_new_w_ytd :: "64 word"
  pay_new_d_ytd :: "64 word"
  pay_new_c_balance :: "64 word"
  pay_new_c_ytd_payment :: "64 word"
  pay_new_c_payment_cnt :: "16 word"
  pay_new_h_data :: "nat \<times> string"
  pay_error :: string

definition PaymentTxn_new :: "int \<Rightarrow> int \<Rightarrow> int \<Rightarrow> int \<Rightarrow> int \<Rightarrow> int \<Rightarrow> int \<Rightarrow> int \<Rightarrow> PaymentTxn" where
  "PaymentTxn_new w_id d_id c_w_id c_d_id c_id amt datetime h_id =
     \<lparr>pay_w_id = of_int w_id, pay_d_id = of_int d_id, pay_c_w_id = of_int c_w_id, pay_c_d_id = of_int c_d_id,
      pay_c_id = of_int c_id, pay_amount = of_int amt, pay_datetime = of_int datetime, pay_h_id = of_int h_id,
      pay_w_name = (0, []), pay_w_address = (0, []), pay_w_ytd = 0, pay_d_name = (0, []), pay_d_address = (0, []),
      pay_d_ytd = 0, pay_c_full_name = (0, []), pay_c_address = (0, []), pay_c_phone = (0, []), pay_c_since = 0,
      pay_c_credit = (0, []), pay_c_credit_lim = 0, pay_c_discount = 0, pay_c_balance = 0, pay_c_ytd_payment = 0,
      pay_c_payment_cnt = 0, pay_c_data = (0, []), pay_new_w_ytd = 0, pay_new_d_ytd = 0, pay_new_c_balance = 0,
      pay_new_c_ytd_payment = 0, pay_new_c_payment_cnt = 0, pay_new_h_data = (0, []), pay_error = []\<rparr>"

definition pay_fail :: "string \<Rightarrow> PaymentTxn \<Rightarrow> bool \<times> PaymentTxn" where
  "pay_fail e t = (False, t\<lparr>pay_error := SetError e (pay_error t)\<rparr>)"

definition pay_read_warehouse :: "'a StorageAdapter \<Rightarrow> (PaymentTxn, 'a) stage" where
  "pay_read_warehouse ad = select_stage WarehouseSchema ad (\<lambda>t. [Int32Scalar (pay_w_id t)])
     [Warehouse_NAME, Warehouse_ADDRESS, Warehouse_YTD]
     (\<lambda>res t. rbind (res_at res 0) (\<lambda>r0. rbind (as_text r0) (\<lambda>v0.
        rbind (res_at res 1) (\<lambda>r1. rbind (as_text r1) (\<lambda>v1.
        rbind (res_at res 2) (\<lambda>r2. rbind (as_int64 r2) (\<lambda>v2.
          Inr (t\<lparr>pay_w_name := v0, pay_w_address := v1, pay_w_ytd := v2\<rparr>))))))))
     (pay_fail ''Warehouse does not exist'')"

definition pay_read_district :: "'a StorageAdapter \<Rightarrow> (PaymentTxn, 'a) stage" where
  "pay_read_district ad = select_stage DistrictSchema ad (\<lambda>t. [Int32Scalar (pay_w_id t), Int8Scalar (pay_d_id t)])
     [District_NAME, District_ADDRESS, District_YTD]
     (\<lambda>res t. rbind (res_at res 0) (\<lambda>r0. rbind (as_text r0) (\<lambda>v0.
        rbind (res_at res 1) (\<lambda>r1. rbind (as_text r1) (\<lambda>v1.
        rbind (res_at res 2) (\<lambda>r2. rbind (as_int64 r2) (\<lambda>v2.
          Inr (t\<lparr>pay_d_name := v0, pay_d_address := v1, pay_d_ytd := v2\<rparr>))))))))
     (pay_fail ''District does not exist'')"

definition pay_read_customer :: "'a StorageAdapter \<Rightarrow> (PaymentTxn, 'a) stage" where
  "pay_read_customer ad = select_stage CustomerSchema ad
     (\<lambda>t. [Int32Scalar (pay_c_w_id t), Int8Scalar (pay_c_d_id t), Int32Scalar (pay_c_id t)])
     [Customer_FULL_NAME, Customer_ADDRESS, Customer_PHONE, Customer_SINCE, Customer_CREDIT, Customer_CREDIT_LIM,
      Customer_DISCOUNT, Customer_BALANCE, Customer_YTD_PAYMENT, Customer_PAYMENT_CNT, Customer_DATA]
     (\<lambda>res t. rbind (res_at res 0) (\<lambda>r0. rbind (as_text r0) (\<lambda>v0.
        rbind (res_at res 1) (\<lambda>r1. rbind (as_text r1) (\<lambda>v1.
        rbind (res_at res 2) (\<lambda>r2. rbind (as_text r2) (\<lambda>v2.
        rbind (res_at res 3) (\<lambda>r3. rbind (as_int64 r3) (\<lambda>v3.
        rbind (res_at res 4) (\<lambda>r4. rbind (as_text r4) (\<lambda>v4.
        rbind (res_at res 5) (\<lambda>r5. rbind (as_int64 r5) (\<lambda>v5.
        rbind (res_at res 6) (\<lambda>r6. rbind (as_int32 r6) (\<lambda>v6.
        rbind (res_at res 7) (\<lambda>r7. rbind (as_int64 r7) (\<lambda>v7.
        rbind (res_at res 8) (\<lambda>r8. rbind (as_int64 r8) (\<lambda>v8.
        rbind (res_at res 9) (\<lambda>r9. rbind (as_int16 r9) (\<lambda>v9.
        rbind (res_at res 10) (\<lambda>r10. rbind (as_text r10) (\<lambda>v10.
          Inr (t\<lparr>pay_c_full_name := v0, pay_c_address := v1, pay_c_phone := v2, pay_c_since := v3, pay_c_credit := v4,
            pay_c_credit_lim := v5, pay_c_discount := v6, pay_c_balance := v7, pay_c_ytd_payment := v8,
            pay_c_payment_cnt := v9, pay_c_data := v10\<rparr>))))))))))))))))))))))))
     (pay_fail ''Customer does not exist'')"

definition PaymentTxn_Read :: "'a StorageAdapter \<Rightarrow> (PaymentTxn, 'a) stage" where
  "PaymentTxn_Read ad = stages [pay_read_warehouse ad, pay_read_district ad, pay_read_customer ad]"

definition PaymentTxn_Compute :: "PaymentTxn \<Rightarrow> PaymentTxn result" where
  "PaymentTxn_Compute t =
     rbind (signed_result (sint (pay_w_ytd t) + sint (pay_amount t))) (\<lambda>w_ytd.
     rbind (signed_result (sint (pay_d_ytd t) + sint (pay_amount t))) (\<lambda>d_ytd.
     rbind (signed_result (sint (pay_c_balance t) - sint (pay_amount t))) (\<lambda>balance.
     rbind (signed_result (sint (pay_c_ytd_payment t) + sint (pay_amount t))) (\<lambda>ytd_payment.
       Inr (t\<lparr>pay_new_w_ytd := w_ytd, pay_new_d_ytd := d_ytd, pay_new_c_balance := balance,
         pay_new_c_ytd_payment := ytd_payment, pay_new_c_payment_cnt := of_int (sint (pay_c_payment_cnt t) + 1),
         pay_new_h_data := (fst (pay_new_h_data t), snd (pay_w_name t) @ ''    '' @ snd (pay_d_name t))\<rparr>)))))"

definition pay_update_warehouse :: "'a StorageAdapter \<Rightarrow> (PaymentTxn, 'a) stage" where
  "pay_update_warehouse ad = write_stage (\<lambda>t. Table_Update WarehouseSchema ad [Int32Scalar (pay_w_id t)] [Warehouse_YTD]
     [Int64Scalar (pay_new_w_ytd t)]) (pay_fail ''Cannot update Warehouse'')"

definition pay_update_district :: "'a StorageAdapter \<Rightarrow> (PaymentTxn, 'a) stage" where
  "pay_update_district ad = write_stage (\<lambda>t. Table_Update DistrictSchema ad
     [Int32Scalar (pay_w_id t), Int8Scalar (pay_d_id t)] [District_YTD] [Int64Scalar (pay_new_d_ytd t)])
     (pay_fail ''Cannot update District'')"

definition pay_update_customer :: "'a StorageAdapter \<Rightarrow> (PaymentTxn, 'a) stage" where
  "pay_update_customer ad = write_stage (\<lambda>t. Table_Update CustomerSchema ad
     [Int32Scalar (pay_c_w_id t), Int8Scalar (pay_c_d_id t), Int32Scalar (pay_c_id t)]
     [Customer_BALANCE, Customer_YTD_PAYMENT, Customer_PAYMENT_CNT, Customer_DATA]
     [Int64Scalar (pay_new_c_balance t), Int64Scalar (pay_new_c_ytd_payment t), Int16Scalar (pay_new_c_payment_cnt t),
      FixedTextScalar (fst (pay_c_data t)) (snd (pay_c_data t))])
     (pay_fail ''Cannot update Customer'')"

definition history_row :: "PaymentTxn \<Rightarrow> Scalar list" where
  "history_row t = [Int32Scalar (pay_w_id t), Int8Scalar (pay_d_id t), Int32Scalar (pay_c_id t), Int32Scalar (pay_h_id t),
     Int8Scalar (pay_c_d_id t), Int32Scalar (pay_c_w_id t), Int64Scalar (pay_datetime t), Int32Scalar (pay_amount t),
     FixedTextScalar (fst (pay_new_h_data t)) (snd (pay_new_h_data t))]"

text \<open>The result of the insertion is dropped.\<close>

definition pay_insert_history :: "'a StorageAdapter \<Rightarrow> (PaymentTxn, 'a) stage" where
  "pay_insert_history ad = write_stage (\<lambda>t. Table_Insert HistorySchema ad (history_row t)) (\<lambda>t. (True, t))"

definition PaymentTxn_Write :: "'a StorageAdapter \<Rightarrow> (PaymentTxn, 'a) stage" where
  "PaymentTxn_Write ad = stages [pay_update_warehouse ad, pay_update_district ad, pay_update_customer ad, pay_insert_history ad]"

subsection \<open>Order-Status, Delivery and Stock-Level\<close>

text \<open>The result of a selection or a write is dropped.\<close>

definition ignore_select :: "Schema \<Rightarrow> 'a StorageAdapter \<Rightarrow> ('t \<Rightarrow> Scalar list) \<Rightarrow> nat list \<Rightarrow> ('t, 'a) stage" where
  "ignore_select sc ad pkey cs = select_stage sc ad pkey cs (\<lambda>_ t. Inr t) (\<lambda>t. (True, t))"

definition ignore_write :: "('t \<Rightarrow> 'a \<Rightarrow> (bool \<times> 'a) result) \<Rightarrow> ('t, 'a) stage" where
  "ignore_write f = write_stage f (\<lambda>t. (True, t))"

record OrderStatusTxn =
  os_w_id :: "32 word"
  os_d_id :: "8 word"
  os_c_id :: "32 word"
  os_o_id :: "32 word"

definition OrderStatusTxn_new :: "int \<Rightarrow> int \<Rightarrow> int \<Rightarrow> int \<Rightarrow> OrderStatusTxn" where
  "OrderStatusTxn_new w_id d_id c_id o_id =
     \<lparr>os_w_id = of_int w_id, os_d_id = of_int d_id, os_c_id = of_int c_id, os_o_id = of_int o_id\<rparr>"

definition OrderStatusTxn_Read :: "'a StorageAdapter \<Rightarrow> (OrderStatusTxn, 'a) stage" where
  "OrderStatusTxn_Read ad = stages (
     [ignore_select CustomerSchema ad (\<lambda>t. [Int32Scalar (os_w_id t), Int8Scalar (os_d_id t), Int32Scalar (os_c_id t)])
        [Customer_FULL_NAME, Customer_BALANCE],
      ignore_select OrderSchema ad (\<lambda>t. [Int32Scalar (os_w_id t), Int8Scalar (os_d_id t), Int32Scalar (os_o_id t)])
        [Order_ENTRY_D, Order_CARRIER_ID]] @
     map (\<lambda>i. ignore_select OrderLineSchema ad
        (\<lambda>t. [Int32Scalar (os_w_id t), Int8Scalar (os_d_id t), Int32Scalar (os_o_id t), Int8Scalar (of_nat i)])
        [OrderLine_I_ID, OrderLine_SUPPLY_W_ID, OrderLine_QUANTITY, OrderLine_AMOUNT, OrderLine_DELIVERY_D])
       [1..<Suc kLinePerOrder])"

record DeliverTxn =
  dl_w_id :: "32 word"
  dl_d_id :: "8 word"
  dl_no_o_id :: "32 word"
  dl_c_id :: "32 word"
  dl_o_carrier :: "8 word"
  dl_datetime :: "64 word"
  dl_sum_o_amount :: "32 word"
  dl_c_balance :: "64 word"
  dl_c_delivery_cnt :: "16 word"
  dl_new_c_balance :: "64 word"
  dl_new_c_delivery_cnt :: "16 word"

definition DeliverTxn_new :: "int \<Rightarrow> int \<Rightarrow> int \<Rightarrow> int \<Rightarrow> int \<Rightarrow> int \<Rightarrow> DeliverTxn" where
  "DeliverTxn_new w_id d_id n_o_id c_id o_carrier datetime =
     \<lparr>dl_w_id = of_int w_id, dl_d_id = of_int d_id, dl_no_o_id = of_int n_o_id, dl_c_id = of_int c_id,
      dl_o_carrier = of_int o_carrier, dl_datetime = of_int datetime, dl_sum_o_amount = 0, dl_c_balance = 0,
      dl_c_delivery_cnt = 0, dl_new_c_balance = 0, dl_new_c_delivery_cnt = 0\<rparr>"

definition dl_read_line :: "'a StorageAdapter \<Rightarrow> nat \<Rightarrow> (DeliverTxn, 'a) stage" where
  "dl_read_line ad i = select_stage OrderLineSchema ad
     (\<lambda>t. [Int32Scalar (dl_w_id t), Int8Scalar (dl_d_id t), Int32Scalar (dl_no_o_id t), Int8Scalar (of_nat i)])
     [OrderLine_AMOUNT]
     (\<lambda>res t. rbind (res_at res 0) (\<lambda>r0. rbind (as_int32 r0) (\<lambda>v.
        rbind (signed_result (sint (dl_sum_o_amount t) + sint v)) (\<lambda>s. Inr (t\<lparr>dl_sum_o_amount := s\<rparr>)))))
     (\<lambda>t. (True, t))"

definition DeliverTxn_Read :: "'a StorageAdapter \<Rightarrow> (DeliverTxn, 'a) stage" where
  "DeliverTxn_Read ad = stages (
     [ignore_select OrderSchema ad (\<lambda>t. [Int32Scalar (dl_w_id t), Int8Scalar (dl_d_id t), Int32Scalar (dl_no_o_id t)]) [Order_C_ID]] @
     map (dl_read_line ad) [1..<Suc kLinePerOrder] @
     [select_stage CustomerSchema ad (\<lambda>t. [Int32Scalar (dl_w_id t), Int8Scalar (dl_d_id t), Int32Scalar (dl_c_id t)])
        [Customer_BALANCE, Customer_DELIVERY_CNT]
        (\<lambda>res t. rbind (res_at res 0) (\<lambda>r0. rbind (as_int64 r0) (\<lambda>v0.
           rbind (res_at res 1) (\<lambda>r1. rbind (as_int16 r1) (\<lambda>v1.
             Inr (t\<lparr>dl_c_balance := v0, dl_c_delivery_cnt := v1\<rparr>))))))
        (\<lambda>t. (True, t))])"

definition DeliverTxn_Compute :: "DeliverTxn \<Rightarrow> DeliverTxn result" where
  "DeliverTxn_Compute t =
     rbind (signed_result (sint (dl_c_balance t) + sint (dl_sum_o_amount t))) (\<lambda>b.
       Inr (t\<lparr>dl_new_c_balance := b, dl_new_c_delivery_cnt := of_int (sint (dl_c_delivery_cnt t) + 1)\<rparr>))"

definition DeliverTxn_Write :: "'a StorageAdapter \<Rightarrow> (DeliverTxn, 'a) stage" where
  "DeliverTxn_Write ad = stages (
     [ignore_write (\<lambda>t. Table_Delete NewOrderSchema ad [Int32Scalar (dl_w_id t), Int8Scalar (dl_d_id t), Int32Scalar (dl_no_o_id t)]),
      ignore_write (\<lambda>t. Table_Update OrderSchema ad [Int32Scalar (dl_w_id t), Int8Scalar (dl_d_id t), Int32Scalar (dl_no_o_id t)]
        [Order_CARRIER_ID] [Int8Scalar (dl_o_carrier t)])] @
     map (\<lambda>i. ignore_write (\<lambda>t. Table_Update OrderLineSchema ad
        [Int32Scalar (dl_w_id t), Int8Scalar (dl_d_id t), Int32Scalar (dl_no_o_id t), Int8Scalar (of_nat i)]
        [OrderLine_DELIVERY_D] [Int64Scalar (dl_datetime t)])) [1..<Suc kLinePerOrder] @
     [ignore_write (\<lambda>t. Table_Update CustomerSchema ad [Int32Scalar (dl_w_id t), Int8Scalar (dl_d_id t), Int32Scalar (dl_c_id t)]
        [Customer_BALANCE, Customer_DELIVERY_CNT] [Int64Scalar (dl_new_c_balance t), Int16Scalar (dl_new_c_delivery_cnt t)])])"

record StockLevelTxn =
  sl_w_id :: "32 word"
  sl_d_id :: "8 word"
  sl_o_id :: "32 word"
  sl_i_ids :: "32 word list"

definition StockLevelTxn_new :: "int \<Rightarrow> int \<Rightarrow> int \<Rightarrow> int list \<Rightarrow> StockLevelTxn" where
  "StockLevelTxn_new w_id d_id o_id i_ids =
     \<lparr>sl_w_id = of_int w_id, sl_d_id = of_int d_id, sl_o_id = of_int o_id, sl_i_ids = map of_int i_ids\<rparr>"

definition StockLevelTxn_Read :: "'a StorageAdapter \<Rightarrow> (StockLevelTxn, 'a) stage" where
  "StockLevelTxn_Read ad t st =
     rbind (signed_result (sint (sl_o_id t) - 20) :: 32 word result) (\<lambda>first.
       stages (
         [ignore_select DistrictSchema ad (\<lambda>t. [Int32Scalar (sl_w_id t), Int8Scalar (sl_d_id t)]) [District_NEXT_O_ID]] @
         concat (map (\<lambda>i. map (\<lambda>j. ignore_select OrderLineSchema ad
             (\<lambda>t. [Int32Scalar (sl_w_id t), Int8Scalar (sl_d_id t), Int32Scalar (first + of_nat i), Int8Scalar (of_nat j)])
             [OrderLine_I_ID]) [0..<kLinePerOrder]) [0..<20]) @
         map (\<lambda>i. ignore_select StockSchema ad (\<lambda>t. [Int32Scalar (sl_w_id t), Int32Scalar (sl_i_ids t ! i)]) [Stock_QUANTITY])
           [0..<length (sl_i_ids t)]) t st)"

subsection \<open>The engine\<close>

definition abort_with :: "string \<Rightarrow> Transaction \<Rightarrow> Transaction" where
  "abort_with reason txn = txn\<lparr>tx_status := ABORTED, tx_abort_reason := reason\<rparr>"

type_synonym exec_outcome = "(bool \<times> string \<times> TxnAdapter) result"

fun parse_order_lines :: "string list list \<Rightarrow> OrderLine list option result" where
  "parse_order_lines [] = Inr (Some [])"
| "parse_order_lines (p # ps) =
     (if length p \<noteq> 4 then Inr None
      else
        rbind (stoi (p ! 0)) (\<lambda>i. rbind (stoi (p ! 1)) (\<lambda>sw. rbind (stoi (p ! 2)) (\<lambda>item. rbind (stoi (p ! 3)) (\<lambda>q.
        rbind (parse_order_lines ps) (\<lambda>r.
          Inr (map_option ((#) \<lparr>ol_id = i, ol_supply_w_id = sw, ol_item_id = item, ol_quantity = q\<rparr>) r)))))))"

definition run_new_order :: "string list list \<Rightarrow> string list \<Rightarrow> TxnAdapter \<Rightarrow> exec_outcome" where
  "run_new_order procs args a =
     (if length args \<noteq> 7 \<or> length procs \<noteq> 11 then Inr (False, ''NewOrder Txn - Invalid number of arguments'', a)
      else
        rbind (stoi (args ! 1)) (\<lambda>w_id. rbind (stoi (args ! 2)) (\<lambda>d_id. rbind (stoi (args ! 3)) (\<lambda>c_id.
        rbind (stoi (args ! 4)) (\<lambda>o_id. rbind (stoll (args ! 5)) (\<lambda>datetime. rbind (stoll (args ! 6)) (\<lambda>w_i_id.
        rbind (parse_order_lines (tl procs)) (\<lambda>ol.
          case ol of
            None \<Rightarrow> Inr (False, ''NewOrder Txn - Invalid number of arguments for order line'', a)
          | Some ols \<Rightarrow>
            rbind (Execute (NewOrderTxn_Read TxnStorageAdapter) NewOrderTxn_Compute (NewOrderTxn_Write TxnStorageAdapter)
              (NewOrderTxn_new w_id d_id c_id o_id datetime w_i_id ols) a) (\<lambda>(ok, t, a1).
                Inr (ok, ''NewOrder Txn - '' @ no_error t, a1))))))))))"

definition run_payment :: "string list \<Rightarrow> TxnAdapter \<Rightarrow> exec_outcome" where
  "run_payment args a =
     (if length args \<noteq> 9 then Inr (False, ''Payment Txn - Invalid number of arguments'', a)
      else
        rbind (stoi (args ! 1)) (\<lambda>w_id. rbind (stoi (args ! 2)) (\<lambda>d_id. rbind (stoi (args ! 3)) (\<lambda>c_w_id.
        rbind (stoi (args ! 4)) (\<lambda>c_d_id. rbind (stoi (args ! 5)) (\<lambda>c_id. rbind (stoll (args ! 6)) (\<lambda>amt.
        rbind (stoll (args ! 7)) (\<lambda>datetime. rbind (stoi (args ! 8)) (\<lambda>h_id.
          rbind (Execute (PaymentTxn_Read TxnStorageAdapter) PaymentTxn_Compute (PaymentTxn_Write TxnStorageAdapter)
            (PaymentTxn_new w_id d_id c_w_id c_d_id c_id amt datetime h_id) a) (\<lambda>(ok, t, a1).
              Inr (ok, ''Payment Txn - '' @ pay_error t, a1)))))))))))"

definition run_order_status :: "string list \<Rightarrow> TxnAdapter \<Rightarrow> exec_outcome" where
  "run_order_status args a =
     (if length args \<noteq> 5 then Inr (False, ''OrderStatus Txn - Invalid number of arguments'', a)
      else
        rbind (stoi (args ! 1)) (\<lambda>w_id. rbind (stoi (args ! 2)) (\<lambda>d_id. rbind (stoi (args ! 3)) (\<lambda>c_id.
        rbind (stoi (args ! 4)) (\<lambda>o_id.
          rbind (Execute (OrderStatusTxn_Read TxnStorageAdapter) Inr (\<lambda>t st. Inr (True, t, st))
            (OrderStatusTxn_new w_id d_id c_id o_id) a) (\<lambda>(ok, t, a1). Inr (ok, ''OrderStatus Txn - '', a1)))))))"

definition run_deliver :: "string list \<Rightarrow> TxnAdapter \<Rightarrow> exec_outcome" where
  "run_deliver args a =
     (if length args \<noteq> 7 then Inr (False, ''Deliver Txn - Invalid number of arguments'', a)
      else
        rbind (stoi (args ! 1)) (\<lambda>w_id. rbind (stoi (args ! 2)) (\<lambda>d_id. rbind (stoi (args ! 3)) (\<lambda>n_o_id.
        rbind (stoi (args ! 4)) (\<lambda>c_id. rbind (stoi (args ! 5)) (\<lambda>o_carrier. rbind (stoll (args ! 6)) (\<lambda>datetime.
          rbind (Execute (DeliverTxn_Read TxnStorageAdapter) DeliverTxn_Compute (DeliverTxn_Write TxnStorageAdapter)
            (DeliverTxn_new w_id d_id n_o_id c_id o_carrier datetime) a) (\<lambda>(ok, t, a1). Inr (ok, ''Deliver Txn - '', a1)))))))))"

definition run_stock_level :: "string list list \<Rightarrow> string list \<Rightarrow> TxnAdapter \<Rightarrow> exec_outcome" where
  "run_stock_level procs args a =
     (if length args \<noteq> 4 \<or> length procs \<noteq> 2 then Inr (False, ''StockLevel Txn - Invalid number of arguments'', a)
      else
        rbind (stoi (args ! 1)) (\<lambda>w_id. rbind (stoi (args ! 2)) (\<lambda>d_id. rbind (stoi (args ! 3)) (\<lambda>o_id.
          if length (procs ! 1) \<noteq> kTotalItems then Inr (False, ''StockLevel Txn - Invalid number of items'', a)
          else
            rbind (traverse stoi (procs ! 1)) (\<lambda>i_ids.
              rbind (Execute (StockLevelTxn_Read TxnStorageAdapter) Inr (\<lambda>t st. Inr (True, t, st))
                (StockLevelTxn_new w_id d_id o_id i_ids) a) (\<lambda>(ok, t, a1). Inr (ok, ''StockLevel Txn - '', a1)))))))"

definition TPCCExecution_Execute ::
  "('s \<Rightarrow> Key \<Rightarrow> Record \<Rightarrow> bool \<times> 's) \<Rightarrow> ('s \<Rightarrow> Key \<Rightarrow> bool \<times> 's) \<Rightarrow> (Key \<Rightarrow> bool result) \<Rightarrow>
     Transaction \<Rightarrow> 's \<Rightarrow> (Transaction \<times> 's) result" where
  "TPCCExecution_Execute write delete local txn st =
     (let a = TxnAdapter_new txn; procs = procedures txn in
      if procs = [] \<or> hd procs = [] then Inr (abort_with ''Invalid code'' txn, st)
      else let args = hd procs; txn_name = hd args in
        rbind (if txn_name = ''new_order'' then run_new_order procs args a
               else if txn_name = ''payment'' then run_payment args a
               else if txn_name = ''order_status'' then run_order_status args a
               else if txn_name = ''deliver'' then run_deliver args a
               else if txn_name = ''stock_level'' then run_stock_level procs args a
               else Inr (False, ''Unknown procedure name'', a)) (\<lambda>(ok, reason, a1).
          if \<not> ok then Inr (abort_with reason (ta_txn a1), st)
          else let txn1 = (ta_txn a1)\<lparr>tx_status := COMMITTED\<rparr> in
            rbind (ApplyWrites write delete local txn1 st) (\<lambda>st1. Inr (txn1, st1))))"

end
