(* ===== verification/Tpcc_Correct.thy ===== *)
theory Tpcc_Correct
  imports Tpcc
begin

section \<open>Correctness of the TPC-C transactions\<close>

text \<open>
  The workload runs a transaction once against the generator of the key list and sends the keys
  along; the engine later runs it on the values of these keys.  A transaction uses the same keys
  in both runs, so it commits whenever the rows it reads exist.
\<close>

subsection \<open>The schemas\<close>

definition tpcc_schemas :: "Schema list" where
  "tpcc_schemas = [WarehouseSchema, DistrictSchema, CustomerSchema, HistorySchema, NewOrderSchema, OrderSchema,
     OrderLineSchema, ItemSchema, StockSchema]"

lemma schema_ok_tpcc: "sc \<in> set tpcc_schemas \<Longrightarrow> schema_ok sc"
  by (auto simp: tpcc_schemas_def schema_ok_def kNumColumns_def schema_defs)

lemma tpcc_distinct: "sc \<in> set tpcc_schemas \<Longrightarrow> sc' \<in> set tpcc_schemas \<Longrightarrow> kId sc = kId sc' \<Longrightarrow> sc = sc'"
  by (auto simp: tpcc_schemas_def schema_defs)

lemma tpcc_first: "sc \<in> set tpcc_schemas \<Longrightarrow> hd (ColumnTypes sc) = Int32Type"
  by (auto simp: tpcc_schemas_def schema_defs)

lemmas schemas_ok [simp] = schema_ok_tpcc [of WarehouseSchema, unfolded tpcc_schemas_def, simplified]
  schema_ok_tpcc [of DistrictSchema, unfolded tpcc_schemas_def, simplified]
  schema_ok_tpcc [of CustomerSchema, unfolded tpcc_schemas_def, simplified]
  schema_ok_tpcc [of HistorySchema, unfolded tpcc_schemas_def, simplified]
  schema_ok_tpcc [of NewOrderSchema, unfolded tpcc_schemas_def, simplified]
  schema_ok_tpcc [of OrderSchema, unfolded tpcc_schemas_def, simplified]
  schema_ok_tpcc [of OrderLineSchema, unfolded tpcc_schemas_def, simplified]
  schema_ok_tpcc [of ItemSchema, unfolded tpcc_schemas_def, simplified]
  schema_ok_tpcc [of StockSchema, unfolded tpcc_schemas_def, simplified]

lemma scalar_type_conv [simp]:
  "scalar_type v = Int8Type \<longleftrightarrow> (\<exists>x. v = Int8Scalar x)" "scalar_type v = Int16Type \<longleftrightarrow> (\<exists>x. v = Int16Scalar x)"
  "scalar_type v = Int32Type \<longleftrightarrow> (\<exists>x. v = Int32Scalar x)" "scalar_type v = Int64Type \<longleftrightarrow> (\<exists>x. v = Int64Scalar x)"
  "scalar_type v = FixedTextType n \<longleftrightarrow> (\<exists>b. v = FixedTextScalar n b)"
  by (cases v; auto)+

subsection \<open>Round trip\<close>

lemma key_length:
  assumes "sc \<in> set tpcc_schemas" "pkey_ok sc p" "k \<in> row_keys sc p"
  shows "4 \<le> length k"
proof -
  have "length p = kPKeySize sc" "0 < kPKeySize sc" "ColumnTypes sc \<noteq> []"
    using schema_ok_tpcc [OF assms(1)] pkey_ok_length [OF assms(2)] by (auto simp: schema_ok_def kNumColumns_def)
  then obtain a as where "p = a # as" "scalar_type a = Int32Type" "scalar_ok a"
    using assms(2) tpcc_first [OF assms(1)] by (cases p; cases "ColumnTypes sc"; cases "kPKeySize sc") (auto simp: pkey_ok_def)
  with assms(3) show ?thesis
    by (auto simp: row_keys_def storage_key_def split: if_splits simp del: le_encode.simps)
qed

text \<open>
  C28: what is inserted into a table can be selected again, and inserting another row does not
  disturb it.  For every two of the nine TPC-C tables, a row of the right types in each, and any
  list of columns, inserting both rows into the key-value store succeeds and selecting the first
  one by its primary key returns the inserted values, unless the second row replaces it (same
  table and same primary key).  Selecting without columns returns the whole row.
\<close>

theorem table_roundtrip:
  assumes "sc \<in> set tpcc_schemas" "sc' \<in> set tpcc_schemas" "row_ok sc row" "row_ok sc' row'"
    and "sc \<noteq> sc' \<or> take (kPKeySize sc) row \<noteq> take (kPKeySize sc) row'"
    and "nr \<noteq> 0" "np \<noteq> 0" "chm_inv hash (ka_storage st)"
    and "\<forall>c\<in>set cs. c < kNumColumns sc" "cs \<noteq> [] \<longrightarrow> kGroupedColumns sc \<or> (\<exists>c\<in>set cs. kPKeySize sc \<le> c)"
  shows "\<exists>st1 st2 st3. let ad = KVStorageAdapter (MemOnlyStorage_Read hash) (MemOnlyStorage_Write hash)
        (TPCCMetadataInitializer_Compute nr np) in
    Table_Insert sc ad row st = Inr (True, st1) \<and>
    Table_Insert sc' ad row' st1 = Inr (True, st2) \<and>
    Select sc ad (take (kPKeySize sc) row) cs st2 = Inr (if cs = [] then row else map ((!) row) cs, st3)"
proof -
  let ?compute = "TPCCMetadataInitializer_Compute nr np"
  let ?ad = "KVStorageAdapter (MemOnlyStorage_Read hash) (MemOnlyStorage_Write hash) ?compute"
  let ?p = "take (kPKeySize sc) row" and ?p' = "take (kPKeySize sc') row'"
  note ok = schema_ok_tpcc [OF assms(1)] schema_ok_tpcc [OF assms(2)] row_ok_pkey [OF assms(3)] row_ok_pkey [OF assms(4)]
  have key: "\<exists>m. ?compute k = Inr m" if "s \<in> set tpcc_schemas" "pkey_ok s q" "k \<in> row_keys s q" for s q k
    using key_length [OF that] assms(6,7) by (simp add: TPCCMetadataInitializer_Compute_def Let_def not_less)
  obtain st1 where st1: "Table_Insert sc ?ad row st = Inr (True, st1)" "chm_inv hash (ka_storage st1)"
      "stored sc (\<lambda>k. map_option Record_to_string (chm_map hash (ka_storage st1) k)) row (non_pkey_columns sc)"
    using kv_rows.Table_Insert_stored [OF assms(8,3) ok(1)] key [OF assms(1) ok(3)] by blast
  obtain st2 where st2: "Table_Insert sc' ?ad row' st1 = Inr (True, st2)" "chm_inv hash (ka_storage st2)"
      "\<And>k. k \<notin> row_keys sc' ?p' \<Longrightarrow> map_option Record_to_string (chm_map hash (ka_storage st2) k) =
        map_option Record_to_string (chm_map hash (ka_storage st1) k)"
    using kv_rows.Table_Insert_stored [OF st1(2) assms(4) ok(2)] key [OF assms(2) ok(4)] by blast
  have "row_keys sc ?p \<inter> row_keys sc' ?p' = {}"
  proof (cases "sc = sc'")
    case True
    with assms(5) ok row_keys_disjoint [of sc ?p ?p'] show ?thesis by auto
  next
    case False
    with tpcc_distinct [OF assms(1,2)] tpcc_first [OF assms(1)] tpcc_first [OF assms(2)] ok show ?thesis
      by (intro row_keys_disjoint_tables) auto
  qed
  then have "stored sc (\<lambda>k. map_option Record_to_string (chm_map hash (ka_storage st2) k)) row (non_pkey_columns sc)"
    by (intro stored_cong [OF _ _ st1(3)]) (use st2(3) in \<open>auto simp: non_pkey_columns_def\<close>)
  then have s2: "stored sc (\<lambda>k. map_option Record_to_string (chm_map hash (ka_storage st2) k)) row (if cs = [] then non_pkey_columns sc else cs)"
    using stored_subset [OF _ assms(9)] by simp
  obtain st3 where "Select sc ?ad ?p cs st2 = Inr (if cs = [] then row else map ((!) row) cs, st3)"
    using kv_rows.Select_stored [OF st2(2) assms(3) ok(1) s2 assms(9,10)] by blast
  with st1(1) st2(1) show ?thesis by (auto simp: Let_def)
qed

theorem table_roundtrip_witness:
  "\<exists>st1 st2 st3. let hash = (\<lambda>_. 0); ad = KVStorageAdapter (MemOnlyStorage_Read hash) (MemOnlyStorage_Write hash)
      (TPCCMetadataInitializer_Compute 2 2);
      row = [Int32Scalar 1, Int8Scalar 2, Int32Scalar 3, Int8Scalar 0]; row' = [Int32Scalar 1, Int8Scalar 2, Int32Scalar 4, Int8Scalar 0] in
    Table_Insert NewOrderSchema ad row \<lparr>ka_storage = ConcurrentHashMap_new, ka_buffer = []\<rparr> = Inr (True, st1) \<and>
    Table_Insert NewOrderSchema ad row' st1 = Inr (True, st2) \<and>
    Select NewOrderSchema ad (take 3 row) [] st2 = Inr (row, st3)"
  using table_roundtrip [of NewOrderSchema NewOrderSchema "[Int32Scalar 1, Int8Scalar 2, Int32Scalar 3, Int8Scalar 0]"
      "[Int32Scalar 1, Int8Scalar 2, Int32Scalar 4, Int8Scalar 0]" 2 2 "\<lambda>_. 0" "\<lparr>ka_storage = ConcurrentHashMap_new, ka_buffer = []\<rparr>" "[]"]
    chm_inv_new [of "\<lambda>_. 0"]
  by (simp add: tpcc_schemas_def row_ok_def Let_def NewOrderSchema_def)

subsection \<open>A stage on both adapters\<close>

definition covers :: "(Key \<rightharpoonup> KeyType \<times> Value) \<Rightarrow> demand \<Rightarrow> bool" where
  "covers w d \<longleftrightarrow> (\<forall>(k, t)\<in>d. \<exists>t' v. w k = Some (t', v) \<and> (t = KeyWrite \<longrightarrow> t' = KeyWrite))"

text \<open>
  \<open>f\<close> is a stage on the key generator and \<open>g\<close> the same stage on the entries of a transaction:
  \<open>f\<close> collects the demand \<open>d\<close>, and where the entries meet the demand and the condition \<open>Q\<close> on
  the stored values, \<open>g\<close> succeeds.  \<open>P\<close> is kept by both; \<open>g\<close> leads from \<open>R\<close> to \<open>R'\<close>.
\<close>

definition stage_pair ::
  "('t \<Rightarrow> bool) \<Rightarrow> ('t \<Rightarrow> bool) \<Rightarrow> ('t \<Rightarrow> bool) \<Rightarrow> demand \<Rightarrow> ((Key \<rightharpoonup> KeyType \<times> Value) \<Rightarrow> bool) \<Rightarrow>
     ('t, KeyGenAdapter) stage \<Rightarrow> ('t, TxnAdapter) stage \<Rightarrow> bool" where
  "stage_pair P R R' d Q f g \<longleftrightarrow>
     (\<forall>t a. P t \<longrightarrow> kg_ok a \<longrightarrow> (\<exists>ok t' a'. f t a = Inr (ok, t', a') \<and> P t' \<and> kg_step a d a')) \<and>
     (\<forall>t a. P t \<longrightarrow> R t \<longrightarrow> ta_ok a \<longrightarrow> covers (ta_view a) d \<longrightarrow> Q (ta_view a) \<longrightarrow>
        (\<exists>t' a'. g t a = Inr (True, t', a') \<and> P t' \<and> R' t' \<and> ta_ok a' \<and> ta_view a' = ta_view a))"

lemma covers_Un [simp]: "covers w (d \<union> d') \<longleftrightarrow> covers w d \<and> covers w d'"
  by (simp add: covers_def ball_Un)

lemma stage_pairD:
  assumes "stage_pair P R R' d Q f g"
  shows "P t \<Longrightarrow> kg_ok a \<Longrightarrow> \<exists>ok t' a'. f t a = Inr (ok, t', a') \<and> P t' \<and> kg_step a d a'"
    and "P t \<Longrightarrow> R t \<Longrightarrow> ta_ok b \<Longrightarrow> covers (ta_view b) d \<Longrightarrow> Q (ta_view b) \<Longrightarrow>
      \<exists>t' b'. g t b = Inr (True, t', b') \<and> P t' \<and> R' t' \<and> ta_ok b' \<and> ta_view b' = ta_view b"
  using assms by (auto simp: stage_pair_def)

lemma pair_Nil: "stage_pair P R R {} (\<lambda>_. True) (stages []) (stages [])"
  by (auto simp: stage_pair_def kg_step_refl)

lemma pair_Cons:
  assumes "stage_pair P R R' d Q f g" "stage_pair P R' R'' d' Q' (stages fs) (stages gs)"
  shows "stage_pair P R R'' (d \<union> d') (\<lambda>w. Q w \<and> Q' w) (stages (f # fs)) (stages (g # gs))"
proof -
  have "\<exists>ok t' a'. stages (f # fs) t a = Inr (ok, t', a') \<and> P t' \<and> kg_step a (d \<union> d') a'" if "P t" "kg_ok a" for t a
  proof -
    from stage_pairD(1) [OF assms(1) that] obtain ok t1 a1 where 1: "f t a = Inr (ok, t1, a1)" "P t1" "kg_step a d a1" by blast
    from 1(3) have "kg_ok a1" by (simp add: kg_step_def)
    from stage_pairD(1) [OF assms(2) 1(2) this] obtain ok' t2 a2 where
      2: "stages fs t1 a1 = Inr (ok', t2, a2)" "P t2" "kg_step a1 d' a2" by blast
    show ?thesis using 1 2 kg_step_trans [OF 1(3) 2(3)] by simp
  qed
  moreover have "\<exists>t' a'. stages (g # gs) t a = Inr (True, t', a') \<and> P t' \<and> R'' t' \<and> ta_ok a' \<and> ta_view a' = ta_view a"
    if "P t" "R t" "ta_ok a" "covers (ta_view a) (d \<union> d')" "Q (ta_view a) \<and> Q' (ta_view a)" for t a
  proof -
    from stage_pairD(2) [OF assms(1) that(1-3)] that(4,5)
    obtain t1 a1 where 1: "g t a = Inr (True, t1, a1)" "P t1" "R' t1" "ta_ok a1" "ta_view a1 = ta_view a" by auto
    from stage_pairD(2) [OF assms(2) 1(2-4)] 1(5) that(4,5)
    obtain t2 a2 where "stages gs t1 a1 = Inr (True, t2, a2)" "P t2" "R'' t2" "ta_ok a2" "ta_view a2 = ta_view a1" by auto
    with 1 show ?thesis by simp
  qed
  ultimately show ?thesis by (auto simp: stage_pair_def)
qed

lemma pair_weaken:
  "stage_pair P R R' d Q f g \<Longrightarrow> d = d' \<Longrightarrow> (\<And>w. Q' w \<Longrightarrow> Q w) \<Longrightarrow> stage_pair P R R' d' Q' f g"
  by (simp add: stage_pair_def)

lemma pair_loop:
  assumes "stage_pair P R R d Q (stages fs) (stages gs)"
    and "\<And>i. i \<in> set is \<Longrightarrow> stage_pair P R R (D i) (U i) (F i) (F' i)"
    and "\<And>i. i \<in> set is \<Longrightarrow> stage_pair P R R (E i) (V i) (G i) (G' i)"
  shows "stage_pair P R R (d \<union> (\<Union>i\<in>set is. D i \<union> E i)) (\<lambda>w. Q w \<and> (\<forall>i\<in>set is. U i w \<and> V i w))
    (stages (concat (map (\<lambda>i. [F i, G i]) is) @ fs)) (stages (concat (map (\<lambda>i. [F' i, G' i]) is) @ gs))"
  using assms
proof (induction "is")
  case (Cons i "is")
  have "stage_pair P R R (d \<union> (\<Union>i\<in>set is. D i \<union> E i)) (\<lambda>w. Q w \<and> (\<forall>i\<in>set is. U i w \<and> V i w))
    (stages (concat (map (\<lambda>i. [F i, G i]) is) @ fs)) (stages (concat (map (\<lambda>i. [F' i, G' i]) is) @ gs))"
    by (rule Cons.IH) (use Cons.prems in auto)
  from pair_Cons [OF Cons.prems(2) pair_Cons [OF Cons.prems(3) this], of i i]
  have "stage_pair P R R (D i \<union> (E i \<union> (d \<union> (\<Union>i\<in>set is. D i \<union> E i))))
    (\<lambda>w. U i w \<and> V i w \<and> Q w \<and> (\<forall>i\<in>set is. U i w \<and> V i w))
    (stages (concat (map (\<lambda>i. [F i, G i]) (i # is)) @ fs)) (stages (concat (map (\<lambda>i. [F' i, G' i]) (i # is)) @ gs))" by simp
  then show ?case by (rule pair_weaken) auto
qed simp

lemma pair_select:
  assumes "schema_ok sc" "pkey_ok sc pk" "cs \<noteq> []" "\<forall>c\<in>set cs. kPKeySize sc \<le> c \<and> c < kNumColumns sc"
    and "\<And>t. P t \<Longrightarrow> pkey t = pk" "\<And>t. P t \<Longrightarrow> P (snd (missing t))"
    and "\<And>t vs. P t \<Longrightarrow> R t \<Longrightarrow> map scalar_type vs = map ((!) (ColumnTypes sc)) cs \<Longrightarrow> list_all scalar_ok vs \<Longrightarrow>
      \<exists>t'. assign vs t = Inr t' \<and> P t' \<and> R' t'"
  shows "stage_pair P R R' (column_keys sc pk cs \<times> {KeyRead}) (\<lambda>w. well_stored sc (\<lambda>k. map_option snd (w k)) pk cs)
    (select_stage sc TxnKeyGenStorageAdapter pkey cs assign missing) (select_stage sc TxnStorageAdapter pkey cs assign missing)"
proof -
  have cs: "\<forall>c\<in>set cs. kPKeySize sc \<le> c" using assms(4) by blast
  have "\<exists>ok t' a'. select_stage sc TxnKeyGenStorageAdapter pkey cs assign missing t a = Inr (ok, t', a') \<and> P t' \<and>
      kg_step a (column_keys sc pk cs \<times> {KeyRead}) a'" if "P t" "kg_ok a" for t a
    using Select_keygen [OF \<open>kg_ok a\<close> assms(1-3) cs] assms(5,6) [OF \<open>P t\<close>] by (auto simp: select_stage_def)
  moreover have "\<exists>t' a'. select_stage sc TxnStorageAdapter pkey cs assign missing t a = Inr (True, t', a') \<and> P t' \<and> R' t' \<and>
      ta_ok a' \<and> ta_view a' = ta_view a"
    if "P t" "R t" "ta_ok a" and ws: "well_stored sc (\<lambda>k. map_option snd (ta_view a k)) pk cs" for t a
  proof -
    obtain vs a' where vs: "Select sc TxnStorageAdapter pk cs a = Inr (vs, a')" "ta_ok a' \<and> ta_view a' = ta_view a"
        "map scalar_type vs = map ((!) (ColumnTypes sc)) cs" "list_all scalar_ok vs"
      using txn_rows.Select_typed [of a "ta_view a", OF _ assms(1,2) ws assms(3,4)] \<open>ta_ok a\<close> by auto
    moreover have "vs \<noteq> []" using vs(3) assms(3) by (cases vs) auto
    moreover obtain t' where "assign vs t = Inr t'" "P t'" "R' t'" using assms(7) [OF \<open>P t\<close> \<open>R t\<close> vs(3,4)] by blast
    ultimately show ?thesis using assms(5) [OF \<open>P t\<close>] by (simp add: select_stage_def)
  qed
  ultimately show ?thesis by (auto simp: stage_pair_def)
qed

lemma pair_update:
  assumes "schema_ok sc" "pkey_ok sc pk" "cs \<noteq> []" "\<forall>c\<in>set cs. kPKeySize sc \<le> c \<and> c < kNumColumns sc"
    and "\<And>t. P t \<Longrightarrow> pkey t = pk" "\<And>t. P t \<Longrightarrow> P (snd (failed t))"
    and "\<And>t. P t \<Longrightarrow> length (vs t) = length cs \<and> (\<exists>us. traverse (ValidateType sc) (zip (vs t) cs) = Inr us)"
    and "\<And>t. P t \<Longrightarrow> R t \<Longrightarrow> map scalar_type (vs t) = map ((!) (ColumnTypes sc)) cs \<and> list_all scalar_ok (vs t)"
  shows "stage_pair P R R (column_keys sc pk cs \<times> {KeyWrite}) (\<lambda>w. well_stored sc (\<lambda>k. map_option snd (w k)) pk cs)
    (write_stage (\<lambda>t. Table_Update sc TxnKeyGenStorageAdapter (pkey t) cs (vs t)) failed)
    (write_stage (\<lambda>t. Table_Update sc TxnStorageAdapter (pkey t) cs (vs t)) failed)"
proof -
  have "\<exists>ok t' a'. write_stage (\<lambda>t. Table_Update sc TxnKeyGenStorageAdapter (pkey t) cs (vs t)) failed t a = Inr (ok, t', a') \<and> P t' \<and>
      kg_step a (column_keys sc pk cs \<times> {KeyWrite}) a'" if P: "P t" and "kg_ok a" for t a
  proof -
    obtain us where us: "length (vs t) = length cs" "traverse (ValidateType sc) (zip (vs t) cs) = Inr us" using assms(7) [OF P] by blast
    from Table_Update_keygen [OF \<open>kg_ok a\<close> assms(1-4) us] assms(5) [OF P] assms(6) [OF P] P show ?thesis
      by (auto simp: write_stage_def split: if_splits)
  qed
  moreover have "\<exists>t' a'. write_stage (\<lambda>t. Table_Update sc TxnStorageAdapter (pkey t) cs (vs t)) failed t a = Inr (True, t', a') \<and> P t' \<and>
      R t' \<and> ta_ok a' \<and> ta_view a' = ta_view a"
    if P: "P t" and "R t" "ta_ok a" "covers (ta_view a) (column_keys sc pk cs \<times> {KeyWrite})"
      "well_stored sc (\<lambda>k. map_option snd (ta_view a k)) pk cs" for t a
  proof -
    have "\<forall>k\<in>column_keys sc pk cs. \<exists>d. ta_view a k = Some (KeyWrite, d)" using that(4) by (fastforce simp: covers_def)
    from Table_Update_view [OF that(3) assms(1,2) that(5) this assms(3,4), of "vs t"] assms(8) [OF P that(2)] assms(5) [OF P] that
    show ?thesis by (auto simp: write_stage_def)
  qed
  ultimately show ?thesis by (auto simp: stage_pair_def)
qed

lemma pair_insert:
  assumes "schema_ok sc" "kGroupedColumns sc" "\<And>t. P t \<Longrightarrow> insertable sc (row t)"
    and "\<And>t. P t \<Longrightarrow> take (kPKeySize sc) (row t) = pk" "\<And>t. P t \<Longrightarrow> P (snd (failed t))"
  shows "stage_pair P R R {(storage_key sc pk, KeyWrite)} (\<lambda>_. True)
    (write_stage (\<lambda>t. Table_Insert sc TxnKeyGenStorageAdapter (row t)) failed)
    (write_stage (\<lambda>t. Table_Insert sc TxnStorageAdapter (row t)) failed)"
proof -
  have "\<exists>ok t' a'. write_stage (\<lambda>t. Table_Insert sc TxnKeyGenStorageAdapter (row t)) failed t a = Inr (ok, t', a') \<and> P t' \<and>
      kg_step a {(storage_key sc pk, KeyWrite)} a'" if P: "P t" and "kg_ok a" for t a
    using Table_Insert_keygen [OF \<open>kg_ok a\<close> assms(1,2) assms(3) [OF P]] assms(4,5) [OF P] P
    by (auto simp: write_stage_def split: if_splits)
  moreover have "\<exists>t' a'. write_stage (\<lambda>t. Table_Insert sc TxnStorageAdapter (row t)) failed t a = Inr (True, t', a') \<and> P t' \<and>
      R t' \<and> ta_ok a' \<and> ta_view a' = ta_view a"
    if P: "P t" and "R t" "ta_ok a" and cv: "covers (ta_view a) {(storage_key sc pk, KeyWrite)}" for t a
  proof -
    obtain d where "ta_view a (storage_key sc (take (kPKeySize sc) (row t))) = Some (KeyWrite, d)"
      using cv assms(4) [OF P] by (auto simp: covers_def)
    from Table_Insert_view [OF that(3) assms(1,2) assms(3) [OF P] this] that show ?thesis by (auto simp: write_stage_def)
  qed
  ultimately show ?thesis by (auto simp: stage_pair_def)
qed

subsection \<open>New-Order\<close>

definition line_args :: "OrderLineScalar \<Rightarrow> 8 word \<times> 32 word \<times> 32 word \<times> 8 word" where
  "line_args l = (a_id l, a_supply_w_id l, a_item_id l, a_quantity l)"

text \<open>The arguments do not change, and the copied stock information is as long as its width.\<close>

definition no_like :: "NewOrderTxn \<Rightarrow> NewOrderTxn \<Rightarrow> bool" where
  "no_like t0 t \<longleftrightarrow> no_w_id t = no_w_id t0 \<and> no_d_id t = no_d_id t0 \<and> no_c_id t = no_c_id t0 \<and> no_o_id t = no_o_id t0 \<and>
     no_datetime t = no_datetime t0 \<and> no_i_w_id t = no_i_w_id t0 \<and> map line_args (no_ol t) = map line_args (no_ol t0) \<and>
     list_all (\<lambda>l. fst (dist_info l) \<le> length (snd (dist_info l))) (no_ol t)"

lemma no_like_line:
  assumes "no_like t0 t" "i < length (no_ol t0)"
  shows "length (no_ol t) = length (no_ol t0)" "line_args (no_ol t ! i) = line_args (no_ol t0 ! i)"
    and "fst (dist_info (no_ol t ! i)) \<le> length (snd (dist_info (no_ol t ! i)))"
proof -
  from assms(1) have m: "map line_args (no_ol t) = map line_args (no_ol t0)" by (simp add: no_like_def)
  from arg_cong [OF m, of length] show len: "length (no_ol t) = length (no_ol t0)" by simp
  from arg_cong [OF m, of "\<lambda>xs. xs ! i"] len assms(2) show "line_args (no_ol t ! i) = line_args (no_ol t0 ! i)" by simp
  show "fst (dist_info (no_ol t ! i)) \<le> length (snd (dist_info (no_ol t ! i)))"
    using assms len by (simp add: no_like_def list_all_length)
qed

lemma no_like_upd:
  assumes "no_like t0 t" "line_args (f (no_ol t ! i)) = line_args (no_ol t ! i)"
    and "fst (dist_info (f (no_ol t ! i))) \<le> length (snd (dist_info (f (no_ol t ! i)))) \<or> length (no_ol t) \<le> i"
  shows "no_like t0 (upd_line i f t)"
proof (cases "i < length (no_ol t)")
  case True
  have "map line_args ((no_ol t)[i := f (no_ol t ! i)]) = map line_args (no_ol t)"
    using assms(2) True by (simp add: map_update list_update_same_conv)
  moreover have "list_all (\<lambda>l. fst (dist_info l) \<le> length (snd (dist_info l))) ((no_ol t)[i := f (no_ol t ! i)])"
    using assms(1,3) True by (auto simp: no_like_def list_all_length nth_list_update)
  ultimately show ?thesis using assms(1) by (simp add: no_like_def upd_line_def)
next
  case False
  then show ?thesis using assms(1) by (simp add: no_like_def upd_line_def list_update_beyond)
qed

lemma no_like_fail: "no_like t0 t \<Longrightarrow> no_like t0 (snd (no_fail e t))"
  by (simp add: no_like_def no_fail_def)

lemmas pkey_simps = pkey_ok_def kNumColumns_def schema_defs

definition warehouse_pkey :: "NewOrderTxn \<Rightarrow> Scalar list" where
  "warehouse_pkey t = [Int32Scalar (no_w_id t)]"

definition district_pkey :: "NewOrderTxn \<Rightarrow> Scalar list" where
  "district_pkey t = [Int32Scalar (no_w_id t), Int8Scalar (no_d_id t)]"

definition customer_pkey :: "NewOrderTxn \<Rightarrow> Scalar list" where
  "customer_pkey t = [Int32Scalar (no_w_id t), Int8Scalar (no_d_id t), Int32Scalar (no_c_id t)]"

definition order_pkey :: "NewOrderTxn \<Rightarrow> Scalar list" where
  "order_pkey t = [Int32Scalar (no_w_id t), Int8Scalar (no_d_id t), Int32Scalar (no_o_id t)]"

definition item_pkey :: "NewOrderTxn \<Rightarrow> nat \<Rightarrow> Scalar list" where
  "item_pkey t i = [Int32Scalar (no_i_w_id t), Int32Scalar (a_item_id (no_ol t ! i))]"

definition stock_pkey :: "NewOrderTxn \<Rightarrow> nat \<Rightarrow> Scalar list" where
  "stock_pkey t i = [Int32Scalar (a_supply_w_id (no_ol t ! i)), Int32Scalar (a_item_id (no_ol t ! i))]"

definition line_pkey :: "NewOrderTxn \<Rightarrow> nat \<Rightarrow> Scalar list" where
  "line_pkey t i = order_pkey t @ [Int8Scalar (a_id (no_ol t ! i))]"

lemmas no_pkeys = warehouse_pkey_def district_pkey_def customer_pkey_def order_pkey_def item_pkey_def stock_pkey_def line_pkey_def

abbreviation "row_there sc pk cs w \<equiv> well_stored sc (\<lambda>k. map_option snd (w k)) pk cs"

lemma no_read_warehouse_pair:
  "stage_pair (no_like t0) (\<lambda>_. True) (\<lambda>_. True) (column_keys WarehouseSchema (warehouse_pkey t0) [Warehouse_TAX] \<times> {KeyRead})
     (row_there WarehouseSchema (warehouse_pkey t0) [Warehouse_TAX])
     (no_read_warehouse TxnKeyGenStorageAdapter) (no_read_warehouse TxnStorageAdapter)"
  unfolding no_read_warehouse_def
  by (rule pair_select [OF schemas_ok(1)])
    (auto simp: no_pkeys pkey_simps map_eq_Cons_conv res_at_def no_like_def no_fail_def)

lemma no_read_customer_pair:
  "stage_pair (no_like t0) (\<lambda>_. True) (\<lambda>_. True)
     (column_keys CustomerSchema (customer_pkey t0) [Customer_DISCOUNT, Customer_FULL_NAME, Customer_CREDIT] \<times> {KeyRead})
     (row_there CustomerSchema (customer_pkey t0) [Customer_DISCOUNT, Customer_FULL_NAME, Customer_CREDIT])
     (no_read_customer TxnKeyGenStorageAdapter) (no_read_customer TxnStorageAdapter)"
  unfolding no_read_customer_def
  by (rule pair_select [OF schemas_ok(3)])
    (auto simp: no_pkeys pkey_simps map_eq_Cons_conv res_at_def no_like_def no_fail_def)
lemma no_read_district_pair:
  "stage_pair (no_like t0) (\<lambda>_. True) (\<lambda>_. True)
     (column_keys DistrictSchema (district_pkey t0) [District_TAX, District_NEXT_O_ID] \<times> {KeyRead})
     (row_there DistrictSchema (district_pkey t0) [District_TAX, District_NEXT_O_ID])
     (no_read_district TxnKeyGenStorageAdapter) (no_read_district TxnStorageAdapter)"
  unfolding no_read_district_def
  by (rule pair_select [OF schemas_ok(2)])
    (auto simp: no_pkeys pkey_simps map_eq_Cons_conv res_at_def no_like_def no_fail_def)

lemma no_pkey_line:
  assumes "no_like t0 t" "i < length (no_ol t0)"
  shows "item_pkey t i = item_pkey t0 i" "stock_pkey t i = stock_pkey t0 i" "line_pkey t i = line_pkey t0 i"
  using no_like_line(2) [OF assms] assms(1) by (auto simp: no_pkeys line_args_def no_like_def)

lemma no_read_item_pair:
  assumes "i < length (no_ol t0)"
  shows "stage_pair (no_like t0) (\<lambda>_. True) (\<lambda>_. True)
     (column_keys ItemSchema (item_pkey t0 i) [Item_PRICE, Item_NAME, Item_DATA] \<times> {KeyRead})
     (row_there ItemSchema (item_pkey t0 i) [Item_PRICE, Item_NAME, Item_DATA])
     (no_read_item TxnKeyGenStorageAdapter i) (no_read_item TxnStorageAdapter i)"
  unfolding no_read_item_def item_pkey_def [symmetric]
proof (rule pair_select [OF schemas_ok(8)])
  fix t vs
  assume t: "no_like t0 t" and vs: "map scalar_type vs = map ((!) (ColumnTypes ItemSchema)) [Item_PRICE, Item_NAME, Item_DATA]"
  have "no_like t0 (upd_line i (\<lambda>l. l\<lparr>i_price := v\<rparr>) t)" for v
    by (rule no_like_upd [OF t]) (use no_like_line [OF t assms] in \<open>auto simp: line_args_def\<close>)
  then show "\<exists>t'. rbind (res_at vs 0) (\<lambda>r0. rbind (as_int32 r0) (\<lambda>v. Inr (upd_line i (\<lambda>l. l\<lparr>i_price := v\<rparr>) t))) = Inr t' \<and>
      no_like t0 t' \<and> True"
    using vs by (auto simp: ItemSchema_def map_eq_Cons_conv res_at_def)
qed (use no_pkey_line [OF _ assms] in \<open>auto simp: item_pkey_def pkey_simps no_like_fail\<close>)

lemma no_read_stock_pair:
  assumes "i < length (no_ol t0)"
  shows "stage_pair (no_like t0) (\<lambda>_. True) (\<lambda>_. True)
     (column_keys StockSchema (stock_pkey t0 i) [Stock_QUANTITY, Stock_ALL_DIST] \<times> {KeyRead})
     (row_there StockSchema (stock_pkey t0 i) [Stock_QUANTITY, Stock_ALL_DIST])
     (no_read_stock TxnKeyGenStorageAdapter i) (no_read_stock TxnStorageAdapter i)"
  unfolding no_read_stock_def stock_pkey_def [symmetric]
proof (rule pair_select [OF schemas_ok(9)])
  fix t vs
  assume t: "no_like t0 t" and vs: "map scalar_type vs = map ((!) (ColumnTypes StockSchema)) [Stock_QUANTITY, Stock_ALL_DIST]"
    "list_all scalar_ok vs"
  have "no_like t0 (upd_line i (\<lambda>l. l\<lparr>s_quantity := v, dist_info := (24, b)\<rparr>) t)" if "length b = 24" for v b
    by (rule no_like_upd [OF t]) (use that in \<open>auto simp: line_args_def\<close>)
  then show "\<exists>t'. rbind (res_at vs 0) (\<lambda>r0. rbind (as_int16 r0) (\<lambda>v0.
        rbind (res_at vs 1) (\<lambda>r1.
          if length (scalar_data r1) < 24 then Inl (Undefined ''stock_res[1]->data()'')
          else rbind (MakeFixedTextScalar (FixedTextType 24) (take 24 (scalar_data r1))) (\<lambda>s. rbind (as_text s) (\<lambda>v1.
            Inr (upd_line i (\<lambda>l. l\<lparr>s_quantity := v0, dist_info := v1\<rparr>) t)))))) = Inr t' \<and> no_like t0 t' \<and> True"
    using vs by (auto simp: StockSchema_def map_eq_Cons_conv res_at_def MakeFixedTextScalar_def)
qed (use no_pkey_line [OF _ assms] in \<open>auto simp: stock_pkey_def pkey_simps no_like_fail\<close>)

lemma no_update_district_pair:
  "stage_pair (no_like t0) (\<lambda>_. True) (\<lambda>_. True)
     (column_keys DistrictSchema (district_pkey t0) [District_NEXT_O_ID] \<times> {KeyWrite})
     (row_there DistrictSchema (district_pkey t0) [District_NEXT_O_ID])
     (no_update_district TxnKeyGenStorageAdapter) (no_update_district TxnStorageAdapter)"
  unfolding no_update_district_def
  by (rule pair_update [OF schemas_ok(2)])
    (auto simp: no_pkeys pkey_simps ValidateType_def no_like_def no_fail_def)

lemma no_update_stock_pair:
  assumes "i < length (no_ol t0)"
  shows "stage_pair (no_like t0) (\<lambda>_. True) (\<lambda>_. True)
     (column_keys StockSchema (stock_pkey t0 i) [Stock_QUANTITY] \<times> {KeyWrite})
     (row_there StockSchema (stock_pkey t0 i) [Stock_QUANTITY])
     (no_update_stock TxnKeyGenStorageAdapter i) (no_update_stock TxnStorageAdapter i)"
  unfolding no_update_stock_def stock_pkey_def [symmetric]
  by (rule pair_update [OF schemas_ok(9)])
    (use no_pkey_line [OF _ assms] in \<open>auto simp: stock_pkey_def pkey_simps ValidateType_def no_like_fail\<close>)

lemma no_insert_order_pair:
  "stage_pair (no_like t0) (\<lambda>_. True) (\<lambda>_. True) {(storage_key OrderSchema (order_pkey t0), KeyWrite)} (\<lambda>_. True)
     (no_insert_order TxnKeyGenStorageAdapter) (no_insert_order TxnStorageAdapter)"
  unfolding no_insert_order_def
  by (rule pair_insert [OF schemas_ok(6)])
    (auto simp: order_row_def order_pkey_def insertable_def pkey_simps no_like_fail, auto simp: no_like_def)

lemma no_insert_new_order_pair:
  "stage_pair (no_like t0) (\<lambda>_. True) (\<lambda>_. True) {(storage_key NewOrderSchema (order_pkey t0), KeyWrite)} (\<lambda>_. True)
     (no_insert_new_order TxnKeyGenStorageAdapter) (no_insert_new_order TxnStorageAdapter)"
  unfolding no_insert_new_order_def
  by (rule pair_insert [OF schemas_ok(5)])
    (auto simp: new_order_row_def order_pkey_def insertable_def pkey_simps no_like_fail, auto simp: no_like_def)

lemma no_insert_line_pair:
  assumes "i < length (no_ol t0)"
  shows "stage_pair (no_like t0) (\<lambda>_. True) (\<lambda>_. True) {(storage_key OrderLineSchema (line_pkey t0 i), KeyWrite)} (\<lambda>_. True)
     (no_insert_line TxnKeyGenStorageAdapter i) (no_insert_line TxnStorageAdapter i)"
  unfolding no_insert_line_def
proof (rule pair_insert [OF schemas_ok(7)])
  fix t
  assume t: "no_like t0 t"
  show "insertable OrderLineSchema (order_line_row t i)"
    using no_like_line(3) [OF t assms] by (auto simp: order_line_row_def insertable_def pkey_simps Let_def)
  have "take (kPKeySize OrderLineSchema) (order_line_row t i) = line_pkey t i"
    by (simp add: order_line_row_def line_pkey_def order_pkey_def OrderLineSchema_def Let_def)
  with no_pkey_line(3) [OF t assms] show "take (kPKeySize OrderLineSchema) (order_line_row t i) = line_pkey t0 i" by simp
qed (auto simp: OrderLineSchema_def no_like_fail)
text \<open>The rows a New-Order transaction reads, with the columns it reads of them.\<close>

definition new_order_rows :: "NewOrderTxn \<Rightarrow> (Schema \<times> Scalar list \<times> nat list) list" where
  "new_order_rows t =
     [(WarehouseSchema, warehouse_pkey t, [Warehouse_TAX]),
      (CustomerSchema, customer_pkey t, [Customer_DISCOUNT, Customer_FULL_NAME, Customer_CREDIT]),
      (DistrictSchema, district_pkey t, [District_TAX, District_NEXT_O_ID])] @
     concat (map (\<lambda>i. [(ItemSchema, item_pkey t i, [Item_PRICE, Item_NAME, Item_DATA]),
       (StockSchema, stock_pkey t i, [Stock_QUANTITY, Stock_ALL_DIST])]) [0..<length (no_ol t)])"

definition rows_there :: "(Schema \<times> Scalar list \<times> nat list) list \<Rightarrow> (Key \<rightharpoonup> Value) \<Rightarrow> bool" where
  "rows_there rows m \<longleftrightarrow> (\<forall>(sc, pk, cs)\<in>set rows. well_stored sc m pk cs)"

definition rows_demand :: "(Schema \<times> Scalar list \<times> nat list) list \<Rightarrow> demand" where
  "rows_demand rows = (\<Union>(sc, pk, cs)\<in>set rows. column_keys sc pk cs \<times> {KeyRead})"

lemma pair_cong:
  "stage_pair P R R' d Q f g \<Longrightarrow> (\<And>t a. P t \<Longrightarrow> f' t a = f t a) \<Longrightarrow> (\<And>t a. P t \<Longrightarrow> g' t a = g t a) \<Longrightarrow> stage_pair P R R' d Q f' g'"
  by (simp add: stage_pair_def)

lemma no_like_length: "no_like t0 t \<Longrightarrow> length (no_ol t) = length (no_ol t0)"
  unfolding no_like_def by (metis length_map)

lemma NewOrder_Read_pair:
  "stage_pair (no_like t0) (\<lambda>_. True) (\<lambda>_. True) (rows_demand (new_order_rows t0))
     (\<lambda>w. rows_there (new_order_rows t0) (\<lambda>k. map_option snd (w k)))
     (NewOrderTxn_Read TxnKeyGenStorageAdapter) (NewOrderTxn_Read TxnStorageAdapter)"
proof -
  note loop = pair_loop [OF pair_Nil, of "[0..<length (no_ol t0)]" "no_like t0" "\<lambda>_. True" _ _ _ _ _ _ _ _,
    OF no_read_item_pair no_read_stock_pair, simplified]
  note all = pair_Cons [OF no_read_warehouse_pair pair_Cons [OF no_read_customer_pair pair_Cons [OF no_read_district_pair loop]]]
  show ?thesis
    by (rule pair_cong, rule pair_weaken, rule all)
      (auto simp: rows_demand_def rows_there_def new_order_rows_def NewOrderTxn_Read_def no_like_length simp del: stages.simps)
qed

definition new_order_writes :: "NewOrderTxn \<Rightarrow> demand" where
  "new_order_writes t =
     column_keys DistrictSchema (district_pkey t) [District_NEXT_O_ID] \<times> {KeyWrite} \<union>
     {(storage_key OrderSchema (order_pkey t), KeyWrite), (storage_key NewOrderSchema (order_pkey t), KeyWrite)} \<union>
     (\<Union>i\<in>{..<length (no_ol t)}. column_keys StockSchema (stock_pkey t i) [Stock_QUANTITY] \<times> {KeyWrite} \<union>
       {(storage_key OrderLineSchema (line_pkey t i), KeyWrite)})"

lemma rows_there_line:
  assumes "rows_there (new_order_rows t0) m" "i < length (no_ol t0)"
  shows "well_stored StockSchema m (stock_pkey t0 i) [Stock_QUANTITY]"
  using assms by (fastforce simp: rows_there_def new_order_rows_def well_stored_def StockSchema_def)

lemma rows_there_district:
  "rows_there (new_order_rows t0) m \<Longrightarrow> well_stored DistrictSchema m (district_pkey t0) [District_NEXT_O_ID]"
  by (auto simp: rows_there_def new_order_rows_def well_stored_def DistrictSchema_def)

lemma NewOrder_Write_pair:
  "stage_pair (no_like t0) (\<lambda>_. True) (\<lambda>_. True) (new_order_writes t0)
     (\<lambda>w. rows_there (new_order_rows t0) (\<lambda>k. map_option snd (w k)))
     (NewOrderTxn_Write TxnKeyGenStorageAdapter) (NewOrderTxn_Write TxnStorageAdapter)"
proof -
  note loop = pair_loop [OF pair_Nil, of "[0..<length (no_ol t0)]" "no_like t0" "\<lambda>_. True" _ _ _ _ _ _ _ _,
    OF no_update_stock_pair no_insert_line_pair, simplified]
  note all = pair_Cons [OF no_update_district_pair pair_Cons [OF no_insert_order_pair pair_Cons [OF no_insert_new_order_pair loop]]]
  show ?thesis
    by (rule pair_cong, rule pair_weaken, rule all)
      (auto simp: new_order_writes_def NewOrderTxn_Write_def no_like_length
        intro: rows_there_line rows_there_district simp del: stages.simps)
qed

lemma signed_result_cases:
  obtains (overflow) "(signed_result v :: 'a::len word result) = Inl (Undefined ''signed overflow'')"
  | (fits) x where "signed_result v = Inr (x :: 'a word)"
  by (metis signed_result_def)

lemma compute_lines:
  "traverse compute_line ls = Inl (Undefined ''signed overflow'') \<or>
   (\<exists>ls'. traverse compute_line ls = Inr ls' \<and> map line_args ls' = map line_args ls \<and> map dist_info ls' = map dist_info ls)"
proof (induction ls)
  case (Cons l ls)
  show ?case
  proof (cases "sint (a_quantity l) * sint (i_price l)" rule: signed_result_cases [where ?'a = 32])
    case overflow
    then show ?thesis by (simp add: compute_line_def)
  next
    case (fits x)
    then obtain l' where "compute_line l = Inr l'" "line_args l' = line_args l" "dist_info l' = dist_info l"
      by (simp add: compute_line_def line_args_def)
    with Cons.IH show ?thesis by auto
  qed
qed simp

lemma NewOrder_Compute_like:
  assumes "no_like t0 t"
  shows "NewOrderTxn_Compute t = Inl (Undefined ''signed overflow'') \<or> (\<exists>t'. NewOrderTxn_Compute t = Inr t' \<and> no_like t0 t')"
proof -
  have "list_all (\<lambda>l. fst (dist_info l) \<le> length (snd (dist_info l))) ls" if "map dist_info ls = map dist_info (no_ol t)" for ls
  proof -
    have "list_all (\<lambda>d. fst d \<le> length (snd d)) (map dist_info ls)" using assms that by (simp add: no_like_def list_all_iff)
    then show ?thesis by (simp add: list_all_iff)
  qed
  note lines = this
  show ?thesis
  proof (cases "sint (no_d_next_o_id t) + 1" rule: signed_result_cases [where ?'a = 32])
    case overflow
    then show ?thesis by (simp add: NewOrderTxn_Compute_def)
  next
    case (fits x)
    with compute_lines [of "no_ol t"] assms show ?thesis by (auto simp: NewOrderTxn_Compute_def no_like_def intro!: lines)
  qed
qed

subsection \<open>Generation and execution\<close>

text \<open>
  The generation of the key list in the workload: \<^verbatim>\<open>Read\<close> and \<^verbatim>\<open>Write\<close> of the
  transaction on the generator, then the list itself.  At the partition the values of the keys
  are filled in from the store.
\<close>

definition generate_keys ::
  "((Key \<times> KeyType) list \<Rightarrow> (Key \<times> KeyType) list) \<Rightarrow> ('t, KeyGenAdapter) stage \<Rightarrow> ('t, KeyGenAdapter) stage \<Rightarrow>
     't \<Rightarrow> Transaction \<Rightarrow> Transaction result" where
  "generate_keys order read write t txn =
     rbind (read t (KeyGenAdapter_new txn)) (\<lambda>(_, t1, a1). rbind (write t1 a1) (\<lambda>(_, _, a2). Inr (kg_txn (Finialize order a2))))"

definition fill_values :: "(Key \<Rightarrow> Value) \<Rightarrow> Transaction \<Rightarrow> Transaction" where
  "fill_values db txn = txn\<lparr>tx_keys := map (\<lambda>kv. kv\<lparr>kv_entry := (kv_entry kv)\<lparr>ve_value := db (kv_key kv)\<rparr>\<rparr>) (tx_keys txn)\<rparr>"

lemma filled_view:
  assumes "kg_ok a" "mset (order (kg_index a)) = mset (kg_index a)" "txn = fill_values db (kg_txn (Finialize order a))"
  shows "ta_ok (TxnAdapter_new txn)"
    and "kg_has a k t \<Longrightarrow> \<exists>t'. ta_view (TxnAdapter_new txn) k = Some (t', db k) \<and> (t = KeyWrite \<longrightarrow> t' = KeyWrite)"
proof -
  have keys: "tx_keys txn = map (\<lambda>(k, t). \<lparr>kv_key = k, kv_entry = \<lparr>ve_value = db k, ve_new_value = [], ve_type = t, ve_metadata = None\<rparr>\<rparr>)
      (order (kg_index a))"
    by (simp add: assms(3) fill_values_def Finialize_def comp_def case_prod_beta)
  have "mset (map fst (order (kg_index a))) = mset (map fst (kg_index a))" using assms(2) by (metis mset_map)
  then have "distinct (map fst (order (kg_index a)))" using assms(1) by (metis kg_ok_def distinct_count_atmost_1 set_mset_mset)
  moreover have "map kv_key (tx_keys txn) = map fst (order (kg_index a))" by (simp add: keys comp_def case_prod_beta)
  ultimately have d: "distinct (map kv_key (tx_keys txn))" by simp
  from TxnAdapter_new_view(1) [OF d] show "ta_ok (TxnAdapter_new txn)" .
  assume "kg_has a k t"
  then obtain t' where t': "map_of (kg_index a) k = Some t'" "t = KeyWrite \<longrightarrow> t' = KeyWrite" by (auto simp: kg_has_def)
  then have "(k, t') \<in> set (order (kg_index a))" using map_of_SomeD assms(2) by (metis set_mset_mset)
  then have "\<lparr>kv_key = k, kv_entry = \<lparr>ve_value = db k, ve_new_value = [], ve_type = t', ve_metadata = None\<rparr>\<rparr> \<in> set (tx_keys txn)"
    unfolding keys by force
  from TxnAdapter_new_view(2) [OF d this] t'(2)
  show "\<exists>t'. ta_view (TxnAdapter_new txn) k = Some (t', db k) \<and> (t = KeyWrite \<longrightarrow> t' = KeyWrite)" by simp
qed

lemma generate_keys_step:
  assumes "stage_pair P R R' d Q f g" "stage_pair P S S' d' Q' f' g'" "P t"
    and "\<And>l. mset (order l) = mset l"
  shows "\<exists>txn. generate_keys order f f' t txn0 = Inr txn \<and>
    (\<forall>db. ta_ok (TxnAdapter_new (fill_values db txn)) \<and> covers (ta_view (TxnAdapter_new (fill_values db txn))) (d \<union> d') \<and>
      (\<forall>(k, _)\<in>d \<union> d'. map_option snd (ta_view (TxnAdapter_new (fill_values db txn)) k) = Some (db k)))"
proof -
  have "kg_ok (KeyGenAdapter_new txn0)" by (simp add: kg_ok_def KeyGenAdapter_new_def)
  from stage_pairD(1) [OF assms(1,3) this] obtain ok1 t1 a1 where 1: "f t (KeyGenAdapter_new txn0) = Inr (ok1, t1, a1)" "P t1"
    "kg_step (KeyGenAdapter_new txn0) d a1" by blast
  then have "kg_ok a1" by (simp add: kg_step_def)
  from stage_pairD(1) [OF assms(2) 1(2) this] obtain ok2 t2 a2 where 2: "f' t1 a1 = Inr (ok2, t2, a2)" "kg_step a1 d' a2" by blast
  note st = kg_step_trans [OF 1(3) 2(2)]
  then have a2: "kg_ok a2" and has: "\<And>k t. (k, t) \<in> d \<union> d' \<Longrightarrow> kg_has a2 k t" by (auto simp: kg_step_def)
  have view: "\<exists>t'. ta_view (TxnAdapter_new (fill_values db (kg_txn (Finialize order a2)))) k = Some (t', db k) \<and> (t = KeyWrite \<longrightarrow> t' = KeyWrite)"
    if "(k, t) \<in> d \<union> d'" for k t db
    by (rule filled_view(2) [of a2 order, OF a2 assms(4) refl has [OF that]])
  have "covers (ta_view (TxnAdapter_new (fill_values db (kg_txn (Finialize order a2))))) (d \<union> d')" for db
    unfolding covers_def using view by blast
  moreover have "\<forall>(k, _)\<in>d \<union> d'. map_option snd (ta_view (TxnAdapter_new (fill_values db (kg_txn (Finialize order a2)))) k) = Some (db k)" for db
    using view [of _ _ db] by fastforce
  ultimately show ?thesis using 1(1) 2(1) filled_view(1) [of a2 order, OF a2 assms(4) refl] by (auto simp: generate_keys_def)
qed

lemma rows_there_filled:
  assumes "rows_there rows (\<lambda>k. Some (db k))" "\<forall>(k, _)\<in>d. m k = Some (db k)" "rows_demand rows \<subseteq> d"
    and "\<And>sc pk cs c. (sc, pk, cs) \<in> set rows \<Longrightarrow> c \<in> set cs \<Longrightarrow> kPKeySize sc \<le> c"
  shows "rows_there rows m"
  unfolding rows_there_def
proof clarify
  fix sc pk cs
  assume r: "(sc, pk, cs) \<in> set rows"
  then have "m k = Some (db k)" if "k \<in> column_keys sc pk cs" for k
    using that assms(2,3) by (fastforce simp: rows_demand_def)
  moreover have "well_stored sc (\<lambda>k. Some (db k)) pk cs" using assms(1) r by (auto simp: rows_there_def)
  ultimately show "well_stored sc m pk cs" by (auto simp: well_stored_def column_keys_def)
qed

lemma generated_execute:
  assumes "stage_pair P (\<lambda>_. True) R (rows_demand rows) (\<lambda>w. rows_there rows (\<lambda>k. map_option snd (w k))) f g"
    and "stage_pair P R R' d (\<lambda>w. rows_there rows (\<lambda>k. map_option snd (w k))) f' g'"
    and "P t" "\<And>l. mset (order l) = mset l"
    and "\<And>sc pk cs c. (sc, pk, cs) \<in> set rows \<Longrightarrow> c \<in> set cs \<Longrightarrow> kPKeySize sc \<le> c"
    and compute: "\<And>t. P t \<Longrightarrow> R t \<Longrightarrow> compute t = Inl (Undefined ''signed overflow'') \<or> (\<exists>t'. compute t = Inr t' \<and> P t' \<and> R t')"
  shows "\<exists>txn. generate_keys order f f' t txn0 = Inr txn \<and>
    (\<forall>db. rows_there rows (\<lambda>k. Some (db k)) \<longrightarrow>
      (let r = Execute g compute g' t (TxnAdapter_new (fill_values db txn)) in
       r = Inl (Undefined ''signed overflow'') \<or> (\<exists>t' a'. r = Inr (True, t', a'))))"
proof -
  from generate_keys_step [OF assms(1-4), of txn0] obtain txn where
    txn: "generate_keys order f f' t txn0 = Inr txn" "\<And>db. ta_ok (TxnAdapter_new (fill_values db txn))"
    "\<And>db. covers (ta_view (TxnAdapter_new (fill_values db txn))) (rows_demand rows \<union> d)"
    "\<And>db. \<forall>(k, _)\<in>rows_demand rows \<union> d. map_option snd (ta_view (TxnAdapter_new (fill_values db txn)) k) = Some (db k)" by blast
  have "Execute g compute g' t a = Inl (Undefined ''signed overflow'') \<or> (\<exists>t' a'. Execute g compute g' t a = Inr (True, t', a'))"
    if db: "rows_there rows (\<lambda>k. Some (db k))" and a: "a = TxnAdapter_new (fill_values db txn)" for db a
  proof -
    have rows: "rows_there rows (\<lambda>k. map_option snd (ta_view a k))"
      unfolding a by (rule rows_there_filled [OF db txn(4) _ assms(5)]) auto
    have cov: "covers (ta_view a) (rows_demand rows)" "covers (ta_view a) d" using txn(3) [of db] unfolding a by simp_all
    have "ta_ok a" unfolding a by (rule txn(2))
    from stage_pairD(2) [OF assms(1,3) TrueI this cov(1) rows] obtain t1 a1 where
      1: "g t a = Inr (True, t1, a1)" "P t1" "R t1" "ta_ok a1" "ta_view a1 = ta_view a" by blast
    have "\<exists>t3 a3. g' t2 a1 = Inr (True, t3, a3)" if "P t2" "R t2" for t2
      using stage_pairD(2) [OF assms(2) that 1(4)] 1(5) cov(2) rows by auto
    with 1 compute [OF 1(2,3)] show ?thesis by (auto simp: Execute_def)
  qed
  with txn(1) show ?thesis by (auto simp: Let_def)
qed

text \<open>A store in which every value has the size its key asks for.\<close>

definition sample_db :: "Key \<Rightarrow> Value" where
  "sample_db k = (let sc = tpcc_schemas ! of_char (k ! 4) in
     replicate (if kGroupedColumns sc then row_size sc else type_size (ColumnTypes sc ! of_char (last k))) CHR 0x00)"

lemma sample_db_row:
  assumes "i < 9" "sc = tpcc_schemas ! i" "pkey_ok sc pk" "\<forall>c\<in>set cs. c < 256"
  shows "well_stored sc (\<lambda>k. Some (sample_db k)) pk cs"
proof -
  have i: "sc \<in> set tpcc_schemas" "kId sc = i" unfolding assms(2) using assms(1)
    by (auto simp: tpcc_schemas_def schema_defs less_Suc_eq numeral_eq_Suc)
  have "length pk = kPKeySize sc" "0 < kPKeySize sc" "ColumnTypes sc \<noteq> []"
    using schema_ok_tpcc [OF i(1)] pkey_ok_length [OF assms(3)] by (auto simp: schema_ok_def kNumColumns_def)
  then obtain x p where p: "pk = x # p" "scalar_type x = Int32Type"
    using assms(3) tpcc_first [OF i(1)] by (cases pk; cases "ColumnTypes sc"; cases "kPKeySize sc") (auto simp: pkey_ok_def)
  have "(storage_key sc pk @ r) ! 4 = char_of i" for r
    using p i(2) by (auto simp: storage_key_def nth_append simp del: le_encode.simps)
  from this this [of "[]"] show ?thesis using assms(1,2,4) by (auto simp: well_stored_def sample_db_def Let_def of_char_of)
qed

text \<open>
  C29: a generated New-Order transaction commits.  For every New-Order order, generating the key
  list succeeds, and when the rows the order refers to exist in the store (every value has the
  size of its row or column), executing the transaction on the values of exactly these keys
  commits; in particular no access misses a key, fails a type check or reads out of bounds.  The
  only other outcome is an overflow of the signed 32-bit arithmetic of \<^verbatim>\<open>Compute\<close>.
\<close>

theorem generated_new_order_commits:
  assumes "\<And>l. mset (order l) = mset l"
    and "t = NewOrderTxn_new w_id d_id c_id o_id datetime i_w_id ol"
  shows "\<exists>txn. generate_keys order (NewOrderTxn_Read TxnKeyGenStorageAdapter) (NewOrderTxn_Write TxnKeyGenStorageAdapter) t txn0 = Inr txn \<and>
    (\<forall>db. rows_there (new_order_rows t) (\<lambda>k. Some (db k)) \<longrightarrow>
      (let r = Execute (NewOrderTxn_Read TxnStorageAdapter) NewOrderTxn_Compute (NewOrderTxn_Write TxnStorageAdapter) t
          (TxnAdapter_new (fill_values db txn)) in
       r = Inl (Undefined ''signed overflow'') \<or> (\<exists>t' a'. r = Inr (True, t', a'))))"
proof -
  have "no_like t t" unfolding assms(2) by (simp add: NewOrderTxn_new_def no_like_def list_all_iff)
  then show ?thesis
    by (rule generated_execute [OF NewOrder_Read_pair NewOrder_Write_pair _ assms(1)])
      (auto simp: new_order_rows_def schema_defs dest: NewOrder_Compute_like)
qed
subsection \<open>Payment\<close>

definition pay_like :: "PaymentTxn \<Rightarrow> PaymentTxn \<Rightarrow> bool" where
  "pay_like t0 t \<longleftrightarrow> pay_w_id t = pay_w_id t0 \<and> pay_d_id t = pay_d_id t0 \<and> pay_c_w_id t = pay_c_w_id t0 \<and>
     pay_c_d_id t = pay_c_d_id t0 \<and> pay_c_id t = pay_c_id t0 \<and> pay_h_id t = pay_h_id t0 \<and> fst (pay_new_h_data t) = 0"

definition c_data_read :: "PaymentTxn \<Rightarrow> bool" where
  "c_data_read t \<longleftrightarrow> fst (pay_c_data t) = 250 \<and> length (snd (pay_c_data t)) = 250"

definition pay_customer_columns :: "nat list" where
  "pay_customer_columns = [Customer_FULL_NAME, Customer_ADDRESS, Customer_PHONE, Customer_SINCE, Customer_CREDIT,
     Customer_CREDIT_LIM, Customer_DISCOUNT, Customer_BALANCE, Customer_YTD_PAYMENT, Customer_PAYMENT_CNT, Customer_DATA]"

definition pay_customer_pkey :: "PaymentTxn \<Rightarrow> Scalar list" where
  "pay_customer_pkey t = [Int32Scalar (pay_c_w_id t), Int8Scalar (pay_c_d_id t), Int32Scalar (pay_c_id t)]"

definition pay_district_pkey :: "PaymentTxn \<Rightarrow> Scalar list" where
  "pay_district_pkey t = [Int32Scalar (pay_w_id t), Int8Scalar (pay_d_id t)]"

definition pay_warehouse_pkey :: "PaymentTxn \<Rightarrow> Scalar list" where
  "pay_warehouse_pkey t = [Int32Scalar (pay_w_id t)]"

definition payment_rows :: "PaymentTxn \<Rightarrow> (Schema \<times> Scalar list \<times> nat list) list" where
  "payment_rows t =
     [(WarehouseSchema, pay_warehouse_pkey t, [Warehouse_NAME, Warehouse_ADDRESS, Warehouse_YTD]),
      (DistrictSchema, pay_district_pkey t, [District_NAME, District_ADDRESS, District_YTD]),
      (CustomerSchema, pay_customer_pkey t, pay_customer_columns)]"

lemmas pay_pkeys = pay_customer_pkey_def pay_district_pkey_def pay_warehouse_pkey_def

lemma pay_read_warehouse_pair:
  "stage_pair (pay_like t0) (\<lambda>_. True) (\<lambda>_. True)
     (column_keys WarehouseSchema (pay_warehouse_pkey t0) [Warehouse_NAME, Warehouse_ADDRESS, Warehouse_YTD] \<times> {KeyRead})
     (row_there WarehouseSchema (pay_warehouse_pkey t0) [Warehouse_NAME, Warehouse_ADDRESS, Warehouse_YTD])
     (pay_read_warehouse TxnKeyGenStorageAdapter) (pay_read_warehouse TxnStorageAdapter)"
  unfolding pay_read_warehouse_def
  by (rule pair_select [OF schemas_ok(1)])
    (auto simp: pay_pkeys pkey_simps map_eq_Cons_conv res_at_def pay_like_def pay_fail_def)

lemma pay_read_district_pair:
  "stage_pair (pay_like t0) (\<lambda>_. True) (\<lambda>_. True)
     (column_keys DistrictSchema (pay_district_pkey t0) [District_NAME, District_ADDRESS, District_YTD] \<times> {KeyRead})
     (row_there DistrictSchema (pay_district_pkey t0) [District_NAME, District_ADDRESS, District_YTD])
     (pay_read_district TxnKeyGenStorageAdapter) (pay_read_district TxnStorageAdapter)"
  unfolding pay_read_district_def
  by (rule pair_select [OF schemas_ok(2)])
    (auto simp: pay_pkeys pkey_simps map_eq_Cons_conv res_at_def pay_like_def pay_fail_def)

lemma pay_read_customer_pair:
  "stage_pair (pay_like t0) (\<lambda>_. True) c_data_read
     (column_keys CustomerSchema (pay_customer_pkey t0) pay_customer_columns \<times> {KeyRead})
     (row_there CustomerSchema (pay_customer_pkey t0) pay_customer_columns)
     (pay_read_customer TxnKeyGenStorageAdapter) (pay_read_customer TxnStorageAdapter)"
  unfolding pay_read_customer_def pay_customer_columns_def [symmetric]
proof (rule pair_select [OF schemas_ok(3)])
  fix t vs
  assume t: "pay_like t0 t" and vs: "map scalar_type vs = map ((!) (ColumnTypes CustomerSchema)) pay_customer_columns" "list_all scalar_ok vs"
  have ty: "map ((!) (ColumnTypes CustomerSchema)) pay_customer_columns = [FixedTextType 34, FixedTextType 71, FixedTextType 16,
      Int64Type, FixedTextType 2, Int64Type, Int32Type, Int64Type, Int64Type, Int16Type, FixedTextType 250]"
    by (simp add: CustomerSchema_def pay_customer_columns_def)
  from vs(1) [unfolded ty] obtain b0 b1 b2 x3 b4 x5 x6 x7 x8 x9 b10 where
    v: "vs = [FixedTextScalar 34 b0, FixedTextScalar 71 b1, FixedTextScalar 16 b2, Int64Scalar x3, FixedTextScalar 2 b4,
      Int64Scalar x5, Int32Scalar x6, Int64Scalar x7, Int64Scalar x8, Int16Scalar x9, FixedTextScalar 250 b10]"
    by (auto simp: map_eq_Cons_conv)
  show "\<exists>t'. rbind (res_at vs 0) (\<lambda>r0. rbind (as_text r0) (\<lambda>v0.
        rbind (res_at vs 1) (\<lambda>r1. rbind (as_text r1) (\<lambda>v1.
        rbind (res_at vs 2) (\<lambda>r2. rbind (as_text r2) (\<lambda>v2.
        rbind (res_at vs 3) (\<lambda>r3. rbind (as_int64 r3) (\<lambda>v3.
        rbind (res_at vs 4) (\<lambda>r4. rbind (as_text r4) (\<lambda>v4.
        rbind (res_at vs 5) (\<lambda>r5. rbind (as_int64 r5) (\<lambda>v5.
        rbind (res_at vs 6) (\<lambda>r6. rbind (as_int32 r6) (\<lambda>v6.
        rbind (res_at vs 7) (\<lambda>r7. rbind (as_int64 r7) (\<lambda>v7.
        rbind (res_at vs 8) (\<lambda>r8. rbind (as_int64 r8) (\<lambda>v8.
        rbind (res_at vs 9) (\<lambda>r9. rbind (as_int16 r9) (\<lambda>v9.
        rbind (res_at vs 10) (\<lambda>r10. rbind (as_text r10) (\<lambda>v10.
          Inr (t\<lparr>pay_c_full_name := v0, pay_c_address := v1, pay_c_phone := v2, pay_c_since := v3, pay_c_credit := v4,
            pay_c_credit_lim := v5, pay_c_discount := v6, pay_c_balance := v7, pay_c_ytd_payment := v8,
            pay_c_payment_cnt := v9, pay_c_data := v10\<rparr>))))))))))))))))))))))) = Inr t' \<and> pay_like t0 t' \<and> c_data_read t'"
    using t vs(2) unfolding v by (simp add: res_at_def pay_like_def c_data_read_def)
qed (auto simp: pay_customer_pkey_def pay_customer_columns_def pkey_simps pay_like_def pay_fail_def)

lemma Payment_Read_pair:
  "stage_pair (pay_like t0) (\<lambda>_. True) c_data_read (rows_demand (payment_rows t0))
     (\<lambda>w. rows_there (payment_rows t0) (\<lambda>k. map_option snd (w k)))
     (PaymentTxn_Read TxnKeyGenStorageAdapter) (PaymentTxn_Read TxnStorageAdapter)"
  unfolding PaymentTxn_Read_def
  by (rule pair_weaken [OF pair_Cons [OF pay_read_warehouse_pair pair_Cons [OF pay_read_district_pair
      pair_Cons [OF pay_read_customer_pair pair_Nil]]]])
    (auto simp: rows_demand_def rows_there_def payment_rows_def)

lemma pay_update_warehouse_pair:
  "stage_pair (pay_like t0) R R (column_keys WarehouseSchema (pay_warehouse_pkey t0) [Warehouse_YTD] \<times> {KeyWrite})
     (row_there WarehouseSchema (pay_warehouse_pkey t0) [Warehouse_YTD])
     (pay_update_warehouse TxnKeyGenStorageAdapter) (pay_update_warehouse TxnStorageAdapter)"
  unfolding pay_update_warehouse_def
  by (rule pair_update [OF schemas_ok(1)])
    (auto simp: pay_pkeys pkey_simps ValidateType_def pay_like_def pay_fail_def)

lemma pay_update_district_pair:
  "stage_pair (pay_like t0) R R (column_keys DistrictSchema (pay_district_pkey t0) [District_YTD] \<times> {KeyWrite})
     (row_there DistrictSchema (pay_district_pkey t0) [District_YTD])
     (pay_update_district TxnKeyGenStorageAdapter) (pay_update_district TxnStorageAdapter)"
  unfolding pay_update_district_def
  by (rule pair_update [OF schemas_ok(2)])
    (auto simp: pay_pkeys pkey_simps ValidateType_def pay_like_def pay_fail_def)

abbreviation (input) "pay_customer_updates \<equiv> [Customer_BALANCE, Customer_YTD_PAYMENT, Customer_PAYMENT_CNT, Customer_DATA]"

lemma pay_update_customer_pair:
  "stage_pair (pay_like t0) c_data_read c_data_read (column_keys CustomerSchema (pay_customer_pkey t0) pay_customer_updates \<times> {KeyWrite})
     (row_there CustomerSchema (pay_customer_pkey t0) pay_customer_updates)
     (pay_update_customer TxnKeyGenStorageAdapter) (pay_update_customer TxnStorageAdapter)"
  unfolding pay_update_customer_def
  by (rule pair_update [OF schemas_ok(3)])
    (auto simp: pay_pkeys pkey_simps ValidateType_def pay_like_def pay_fail_def c_data_read_def)

definition history_pkey :: "PaymentTxn \<Rightarrow> Scalar list" where
  "history_pkey t = [Int32Scalar (pay_w_id t), Int8Scalar (pay_d_id t), Int32Scalar (pay_c_id t), Int32Scalar (pay_h_id t)]"

lemma history_insertable: "pay_like t0 t \<Longrightarrow> insertable HistorySchema (history_row t)"
  by (auto simp: history_row_def insertable_def pkey_simps pay_like_def)

lemma pay_insert_history_pair:
  "stage_pair (pay_like t0) R R {(storage_key HistorySchema (history_pkey t0), KeyWrite)} (\<lambda>_. True)
     (pay_insert_history TxnKeyGenStorageAdapter) (pay_insert_history TxnStorageAdapter)"
  unfolding pay_insert_history_def
  by (rule pair_insert [OF schemas_ok(4) _ history_insertable])
    (auto simp: HistorySchema_def history_row_def history_pkey_def pay_like_def)

definition payment_writes :: "PaymentTxn \<Rightarrow> demand" where
  "payment_writes t =
     (column_keys WarehouseSchema (pay_warehouse_pkey t) [Warehouse_YTD] \<union>
      column_keys DistrictSchema (pay_district_pkey t) [District_YTD] \<union>
      column_keys CustomerSchema (pay_customer_pkey t) pay_customer_updates \<union>
      {storage_key HistorySchema (history_pkey t)}) \<times> {KeyWrite}"

lemma Payment_Write_pair:
  "stage_pair (pay_like t0) c_data_read c_data_read (payment_writes t0)
     (\<lambda>w. rows_there (payment_rows t0) (\<lambda>k. map_option snd (w k)))
     (PaymentTxn_Write TxnKeyGenStorageAdapter) (PaymentTxn_Write TxnStorageAdapter)"
  unfolding PaymentTxn_Write_def
  by (rule pair_weaken [OF pair_Cons [OF pay_update_warehouse_pair pair_Cons [OF pay_update_district_pair
      pair_Cons [OF pay_update_customer_pair pair_Cons [OF pay_insert_history_pair pair_Nil]]]]])
    (auto simp: payment_writes_def rows_there_def payment_rows_def well_stored_def WarehouseSchema_def DistrictSchema_def
      CustomerSchema_def pay_customer_columns_def)

lemma Payment_Compute_like:
  assumes "pay_like t0 t" "c_data_read t"
  shows "PaymentTxn_Compute t = Inl (Undefined ''signed overflow'') \<or>
    (\<exists>t'. PaymentTxn_Compute t = Inr t' \<and> pay_like t0 t' \<and> c_data_read t')"
proof -
  have s: "(signed_result v :: 64 word result) = Inl (Undefined ''signed overflow'') \<or> (\<exists>x. signed_result v = Inr (x :: 64 word))" for v
    by (metis signed_result_cases)
  show ?thesis
    using s [of "sint (pay_w_ytd t) + sint (pay_amount t)"] s [of "sint (pay_d_ytd t) + sint (pay_amount t)"]
      s [of "sint (pay_c_balance t) - sint (pay_amount t)"] s [of "sint (pay_c_ytd_payment t) + sint (pay_amount t)"] assms
    by (elim disjE exE) (simp_all add: PaymentTxn_Compute_def pay_like_def c_data_read_def)
qed

lemma sample_rows:
  "rows_there (new_order_rows t) (\<lambda>k. Some (sample_db k))" "rows_there (payment_rows p) (\<lambda>k. Some (sample_db k))"
  unfolding rows_there_def new_order_rows_def payment_rows_def pay_customer_columns_def
  by (auto intro!: sample_db_row [of 0 WarehouseSchema] sample_db_row [of 1 DistrictSchema] sample_db_row [of 2 CustomerSchema]
      sample_db_row [of 7 ItemSchema] sample_db_row [of 8 StockSchema]
    simp: tpcc_schemas_def, auto simp: no_pkeys pay_pkeys pkey_simps)

theorem generated_new_order_commits_witness:
  "let t = NewOrderTxn_new 1 2 3 4 5 1 [\<lparr>ol_id = 0, ol_supply_w_id = 1, ol_item_id = 7, ol_quantity = 3\<rparr>] in
   \<exists>txn. generate_keys id (NewOrderTxn_Read TxnKeyGenStorageAdapter) (NewOrderTxn_Write TxnKeyGenStorageAdapter) t default_txn = Inr txn \<and>
     (let r = Execute (NewOrderTxn_Read TxnStorageAdapter) NewOrderTxn_Compute (NewOrderTxn_Write TxnStorageAdapter) t
          (TxnAdapter_new (fill_values sample_db txn)) in
      r = Inl (Undefined ''signed overflow'') \<or> (\<exists>t' a'. r = Inr (True, t', a')))"
  unfolding Let_def [of "NewOrderTxn_new _ _ _ _ _ _ _"]
  using generated_new_order_commits [of id, OF _ refl, of 1 2 3 4 5 1 "[\<lparr>ol_id = 0, ol_supply_w_id = 1, ol_item_id = 7, ol_quantity = 3\<rparr>]" default_txn]
    sample_rows(1) by auto

text \<open>
  C30: a generated Payment transaction commits.  For all arguments, generating the key list
  succeeds, and when the warehouse, district and customer it refers to exist in the store,
  executing the transaction on the values of exactly these keys commits, or overflows the signed
  64-bit arithmetic of \<^verbatim>\<open>Compute\<close>.
\<close>

theorem generated_payment_commits:
  assumes "\<And>l. mset (order l) = mset l"
    and "t = PaymentTxn_new w_id d_id c_w_id c_d_id c_id amt datetime h_id"
  shows "\<exists>txn. generate_keys order (PaymentTxn_Read TxnKeyGenStorageAdapter) (PaymentTxn_Write TxnKeyGenStorageAdapter) t txn0 = Inr txn \<and>
    (\<forall>db. rows_there (payment_rows t) (\<lambda>k. Some (db k)) \<longrightarrow>
      (let r = Execute (PaymentTxn_Read TxnStorageAdapter) PaymentTxn_Compute (PaymentTxn_Write TxnStorageAdapter) t
          (TxnAdapter_new (fill_values db txn)) in
       r = Inl (Undefined ''signed overflow'') \<or> (\<exists>t' a'. r = Inr (True, t', a'))))"
proof -
  have "pay_like t t" unfolding assms(2) by (simp add: PaymentTxn_new_def pay_like_def)
  then show ?thesis
    by (rule generated_execute [OF Payment_Read_pair Payment_Write_pair _ assms(1)])
      (auto simp: payment_rows_def pay_customer_columns_def schema_defs dest: Payment_Compute_like)
qed

theorem generated_payment_commits_witness:
  "\<exists>txn. generate_keys rev (PaymentTxn_Read TxnKeyGenStorageAdapter) (PaymentTxn_Write TxnKeyGenStorageAdapter)
      (PaymentTxn_new 1 2 1 2 3 100 5 6) default_txn = Inr txn \<and>
     (let r = Execute (PaymentTxn_Read TxnStorageAdapter) PaymentTxn_Compute (PaymentTxn_Write TxnStorageAdapter)
          (PaymentTxn_new 1 2 1 2 3 100 5 6) (TxnAdapter_new (fill_values sample_db txn)) in
      r = Inl (Undefined ''signed overflow'') \<or> (\<exists>t' a'. r = Inr (True, t', a')))"
  using generated_payment_commits [of rev, OF _ refl, of 1 2 1 2 3 100 5 6 default_txn] sample_rows(2) by auto

subsection \<open>What is lost\<close>

lemma stages_preserve:
  assumes "\<And>f t st ok t' st'. f \<in> set fs \<Longrightarrow> I t \<Longrightarrow> f t st = Inr (ok, t', st') \<Longrightarrow> I t'" "I t" "stages fs t st = Inr (ok, t', st')"
  shows "I t'"
  using assms
proof (induction fs arbitrary: t st ok t' st')
  case (Cons f fs)
  from Cons.prems(3) obtain ok1 t1 st1 ok2 where r: "f t st = Inr (ok1, t1, st1)" "stages fs t1 st1 = Inr (ok2, t', st')"
    by (auto simp: rbind_eq_Inr)
  have "I t1" using Cons.prems(1) [of f t st ok1 t1 st1] Cons.prems(2) r(1) by simp
  moreover have "\<And>g u w ok u' w'. g \<in> set fs \<Longrightarrow> I u \<Longrightarrow> g u w = Inr (ok, u', w') \<Longrightarrow> I u'"
    using Cons.prems(1) by (metis list.set_intros(2))
  ultimately show ?case using Cons.IH r(2) by blast
qed simp

lemma Payment_Read_like:
  assumes "pay_like t0 t" "PaymentTxn_Read ad t st = Inr (ok, t', st')"
  shows "pay_like t0 t'"
proof (rule stages_preserve [of _ "pay_like t0", OF _ assms(1) assms(2) [unfolded PaymentTxn_Read_def]])
  fix f t st ok t' st'
  assume "f \<in> set [pay_read_warehouse ad, pay_read_district ad, pay_read_customer ad]" "pay_like t0 t" "f t st = Inr (ok, t', st')"
  then show "pay_like t0 t'"
    by (auto simp: pay_read_warehouse_def pay_read_district_def pay_read_customer_def select_stage_def rbind_eq_Inr
        pay_like_def pay_fail_def split: if_splits)
qed

text \<open>
  A payment loses the text of its history row.  The scalar that \<^verbatim>\<open>Compute\<close> fills
  with the names of the warehouse and the district keeps the type of an empty text, and the check
  of an insertion compares the names of the types only.  Whatever the storage, the row that is
  written is 24 bytes short, and reading its column \<^verbatim>\<open>DATA\<close> reads past its end.
\<close>

theorem payment_history_short:
  assumes "PaymentTxn_Read ad (PaymentTxn_new w_id d_id c_w_id c_d_id c_id amt datetime h_id) st = Inr (ok, t1, st1)"
    and "PaymentTxn_Compute t1 = Inr t2"
  shows "\<exists>v. (\<forall>st. Table_Insert HistorySchema ad (history_row t2) st =
        ad_Insert ad (storage_key HistorySchema (history_pkey t2)) v st) \<and>
      length v + 24 = row_size HistorySchema \<and>
      snd (pay_new_h_data t2) = snd (pay_w_name t1) @ ''    '' @ snd (pay_d_name t1) \<and>
      decode_column HistorySchema v History_DATA = Inl (Undefined ''read past the end of a column'')"
proof -
  let ?t0 = "PaymentTxn_new w_id d_id c_w_id c_d_id c_id amt datetime h_id"
  have "pay_like ?t0 t1" using Payment_Read_like [OF _ assms(1), of ?t0] by (simp add: pay_like_def PaymentTxn_new_def)
  then have t2: "pay_like ?t0 t2" "snd (pay_new_h_data t2) = snd (pay_w_name t1) @ ''    '' @ snd (pay_d_name t1)"
    using assms(2) by (auto simp: PaymentTxn_Compute_def rbind_eq_Inr pay_like_def)
  let ?v = "concat (map scalar_prefix (drop (kPKeySize HistorySchema) (history_row t2)))"
  have k: "take (kPKeySize HistorySchema) (history_row t2) = history_pkey t2" "kGroupedColumns HistorySchema"
    by (simp_all add: HistorySchema_def history_row_def history_pkey_def)
  have len: "length ?v = 17" using t2(1) by (simp add: HistorySchema_def history_row_def scalar_prefix_def pay_like_def del: le_encode.simps)
  moreover have "column_offset HistorySchema History_DATA = 17" "row_size HistorySchema = 41" "kNumColumns HistorySchema = 9"
    by (simp_all add: column_offset_def row_size_def kNumColumns_def HistorySchema_def)
  ultimately have "length ?v + 24 = row_size HistorySchema"
    "decode_column HistorySchema ?v History_DATA = Inl (Undefined ''read past the end of a column'')"
    unfolding decode_column_def by (simp_all add: MakeScalar_def HistorySchema_def)
  then show ?thesis using Table_Insert_grouped [OF schemas_ok(4) k(2) history_insertable [OF t2(1)], of ad] t2(2)
    unfolding k(1) by (intro exI [of _ ?v]) simp
qed

text \<open>
  A selection returns scalars of the types of its columns.  For each of the nine tables,
  every primary key of the right types and every list of columns outside of it, when the entries
  of the transaction hold values of the size of the row or of the columns, selecting the columns
  does not fail, yields for each column a scalar of its type with as many bytes as the type has,
  and leaves what the transaction has read unchanged.
\<close>

theorem select_returns_column_types:
  assumes "sc \<in> set tpcc_schemas" "pkey_ok sc pkey" "ta_ok a"
    and "well_stored sc (\<lambda>k. map_option snd (ta_view a k)) pkey cs"
    and "cs \<noteq> []" "\<forall>c\<in>set cs. kPKeySize sc \<le> c \<and> c < kNumColumns sc"
  shows "\<exists>vs a'. Select sc TxnStorageAdapter pkey cs a = Inr (vs, a') \<and> ta_ok a' \<and> ta_view a' = ta_view a \<and>
    map scalar_type vs = map ((!) (ColumnTypes sc)) cs \<and> list_all scalar_ok vs"
  using txn_rows.Select_typed [of a "ta_view a", OF _ schema_ok_tpcc [OF assms(1)] assms(2,4-6)] assms(3) by auto

definition stock_entry :: KeyValueEntry where
  "stock_entry = \<lparr>kv_key = storage_key StockSchema [Int32Scalar 1, Int32Scalar 7],
     kv_entry = \<lparr>ve_value = replicate 300 CHR 0x00, ve_new_value = [], ve_type = KeyWrite, ve_metadata = None\<rparr>\<rparr>"

definition stock_adapter :: TxnAdapter where
  "stock_adapter = TxnAdapter_new (default_txn\<lparr>tx_keys := [stock_entry]\<rparr>)"

lemma stock_adapter_ok:
  "ta_ok stock_adapter"
  "ta_view stock_adapter (storage_key StockSchema [Int32Scalar 1, Int32Scalar 7]) = Some (KeyWrite, replicate 300 CHR 0x00)"
  using TxnAdapter_new_view(2) [of "default_txn\<lparr>tx_keys := [stock_entry]\<rparr>" stock_entry]
    TxnAdapter_new_view(1) [of "default_txn\<lparr>tx_keys := [stock_entry]\<rparr>"]
  by (simp_all add: stock_adapter_def stock_entry_def)

theorem select_returns_column_types_witness:
  "\<exists>vs a'. Select StockSchema TxnStorageAdapter [Int32Scalar 1, Int32Scalar 7] [Stock_QUANTITY, Stock_ALL_DIST] stock_adapter = Inr (vs, a') \<and>
     map scalar_type vs = [Int16Type, FixedTextType 240]"
  using select_returns_column_types [of StockSchema "[Int32Scalar 1, Int32Scalar 7]" stock_adapter "[Stock_QUANTITY, Stock_ALL_DIST]"]
    stock_adapter_ok
  by (force simp: tpcc_schemas_def pkey_simps well_stored_def row_size_def)

lemma select_stage_keygen:
  assumes "kg_ok a" "schema_ok sc" "pkey_ok sc (pkey t)" "cs \<noteq> []" "\<forall>c\<in>set cs. kPKeySize sc \<le> c"
  shows "\<exists>a'. select_stage sc TxnKeyGenStorageAdapter pkey cs assign missing t a = Inr (fst (missing t), snd (missing t), a') \<and> kg_ok a'"
  using Select_keygen [OF assms] by (auto simp: select_stage_def kg_step_def)

lemma pay_read_keygen:
  assumes "kg_ok a"
  shows "\<exists>a'. pay_read_warehouse TxnKeyGenStorageAdapter t a =
      Inr (fst (pay_fail ''Warehouse does not exist'' t), snd (pay_fail ''Warehouse does not exist'' t), a') \<and> kg_ok a'"
    and "\<exists>a'. pay_read_district TxnKeyGenStorageAdapter t a =
      Inr (fst (pay_fail ''District does not exist'' t), snd (pay_fail ''District does not exist'' t), a') \<and> kg_ok a'"
    and "\<exists>a'. pay_read_customer TxnKeyGenStorageAdapter t a =
      Inr (fst (pay_fail ''Customer does not exist'' t), snd (pay_fail ''Customer does not exist'' t), a') \<and> kg_ok a'"
  unfolding pay_read_warehouse_def pay_read_district_def pay_read_customer_def
  by (rule select_stage_keygen [OF assms schemas_ok(1)] select_stage_keygen [OF assms schemas_ok(2)]
    select_stage_keygen [OF assms schemas_ok(3)]; simp add: pkey_simps)+

lemma pay_fail_False: "fst (pay_fail e t) = False"
  by (simp add: pay_fail_def)

theorem payment_history_short_witness:
  "\<exists>t1 t2 v. PaymentTxn_Compute t1 = Inr t2 \<and> length v + 24 = row_size HistorySchema \<and>
     snd (pay_new_h_data t2) = ''    '' \<and>
     decode_column HistorySchema v History_DATA = Inl (Undefined ''read past the end of a column'')"
proof -
  let ?t = "PaymentTxn_new 1 2 1 2 3 100 5 6" and ?kg = TxnKeyGenStorageAdapter
  let ?tw = "snd (pay_fail ''Warehouse does not exist'' ?t)"
  let ?td = "snd (pay_fail ''District does not exist'' ?tw)"
  let ?tc = "snd (pay_fail ''Customer does not exist'' ?td)"
  have "kg_ok (KeyGenAdapter_new default_txn)" by (simp add: kg_ok_def KeyGenAdapter_new_def)
  from pay_read_keygen(1) [unfolded pay_fail_False, OF this] obtain a1 where
    a1: "pay_read_warehouse ?kg ?t (KeyGenAdapter_new default_txn) = Inr (False, ?tw, a1)" "kg_ok a1" by blast
  from pay_read_keygen(2) [unfolded pay_fail_False, OF a1(2)] obtain a2 where a2: "pay_read_district ?kg ?tw a1 = Inr (False, ?td, a2)" "kg_ok a2" by blast
  from pay_read_keygen(3) [unfolded pay_fail_False, OF a2(2)] obtain a3 where "pay_read_customer ?kg ?td a2 = Inr (False, ?tc, a3)" by blast
  with a1 a2 have r: "PaymentTxn_Read ?kg ?t (KeyGenAdapter_new default_txn) = Inr (False, ?tc, a3)" by (simp add: PaymentTxn_Read_def)
  obtain t2 where c: "PaymentTxn_Compute ?tc = Inr t2"
    by (simp add: PaymentTxn_Compute_def pay_fail_def PaymentTxn_new_def signed_result_def)
  from payment_history_short [OF r c] c show ?thesis by (auto simp: pay_fail_def PaymentTxn_new_def)
qed

text \<open>
  Within a transaction the second update of a row discards the first.  An update starts from
  the value the transaction has read, not from the value an earlier update has computed: after a
  successful update of a row, any further update of the row has the outcome it has without the
  first one.  A New-Order whose lines name the same stock row twice only takes the quantity of
  the last line.
\<close>

theorem second_update_discards_first:
  assumes "kGroupedColumns sc" "Table_Update sc TxnStorageAdapter pkey cs vs a = Inr (True, a1)"
  shows "Table_Update sc TxnStorageAdapter pkey cs' vs' a1 = Table_Update sc TxnStorageAdapter pkey cs' vs' a"
proof -
  obtain key f where key: "MakeStorageKey sc pkey = Inr key" and f: "Txn_Update key f a = Inr (True, a1)"
    using assms by (auto simp: Table_Update_def TxnStorageAdapter_def rbind_eq_Inr split: if_splits)
  from f obtain i v where i: "map_of (ta_index a) key = Some i" "i < length (tx_keys (ta_txn a))"
      "length (ta_index a) = length (tx_keys (ta_txn a))" "a1 = a\<lparr>ta_txn := set_new_value i v (ta_txn a)\<rparr>"
      "ve_type (kv_entry (tx_keys (ta_txn a) ! i)) = KeyWrite" "ve_value (kv_entry (tx_keys (ta_txn a) ! i)) \<noteq> []"
    by (auto simp: Txn_Update_def CheckIndexSize_def keys_at_def rbind_eq_Inr split: option.splits if_splits)
  have "Txn_Update key g a1 = Txn_Update key g a" for g
    using i by (simp add: Txn_Update_def CheckIndexSize_def keys_at_def set_new_value_def)
  with assms(1) key show ?thesis by (simp add: Table_Update_def TxnStorageAdapter_def)
qed

theorem second_update_discards_first_witness:
  "\<exists>a1. let upd = (\<lambda>q. Table_Update StockSchema TxnStorageAdapter [Int32Scalar 1, Int32Scalar 7] [Stock_QUANTITY] [Int16Scalar q]) in
    upd 5 stock_adapter = Inr (True, a1) \<and> upd 8 a1 = upd 8 stock_adapter"
proof -
  let ?upd = "\<lambda>q. Table_Update StockSchema TxnStorageAdapter [Int32Scalar 1, Int32Scalar 7] [Stock_QUANTITY] [Int16Scalar q]"
  have "\<exists>a1. ?upd 5 stock_adapter = Inr (True, a1) \<and> ta_ok a1 \<and> ta_view a1 = ta_view stock_adapter"
    by (rule Table_Update_view [OF stock_adapter_ok(1) schemas_ok(9)])
      (use stock_adapter_ok(2) in \<open>auto simp: pkey_simps well_stored_def column_keys_def row_size_def\<close>)
  then obtain a1 where a1: "?upd 5 stock_adapter = Inr (True, a1)" by blast
  from second_update_discards_first [OF _ a1, of "[Stock_QUANTITY]" "[Int16Scalar 8]"] a1 show ?thesis
    unfolding Let_def by (intro exI [of _ a1]) (simp add: StockSchema_def)
qed
end
