(* ===== verification/Janus.thy ===== *)
theory Janus
  imports Config "HOL-Library.Product_Lexorder"
begin

section \<open>Janus: horizon, quorums, coordinator and acceptor (\<^verbatim>\<open>module/janus/\<close>)\<close>

text \<open>
  The baseline protocol Janus: a coordinator collects, for every partition of a
  transaction, the transactions it depends on from the acceptors of that partition in all
  regions, and commits it with the union of these dependencies, directly when all acceptors agree
  and after a round of accepts otherwise.
\<close>

subsection \<open>The execution horizon (\<^verbatim>\<open>horizon.h\<close>)\<close>

record Horizon =
  hz_horizon :: uint64
  hz_buffered :: "uint64 set"

definition Horizon_new :: Horizon where
  "Horizon_new = \<lparr>hz_horizon = 0, hz_buffered = {}\<rparr>"

function advance_horizon :: "Horizon \<Rightarrow> Horizon" where
  "advance_horizon h =
     (if hz_horizon h + 1 \<in> hz_buffered h
      then advance_horizon (h\<lparr>hz_horizon := hz_horizon h + 1, hz_buffered := hz_buffered h - {hz_horizon h + 1}\<rparr>)
      else h)"
  by pat_completeness auto
termination
  by (relation "measure (\<lambda>h. card (hz_buffered h))") (auto simp: card_gt_0_iff intro!: diff_less)

declare advance_horizon.simps [simp del]

definition Horizon_Add :: "uint64 \<Rightarrow> Horizon \<Rightarrow> Horizon" where
  "Horizon_Add counter h =
     (if counter = hz_horizon h + 1 then advance_horizon (h\<lparr>hz_horizon := hz_horizon h + 1\<rparr>)
      else h\<lparr>hz_buffered := insert counter (hz_buffered h)\<rparr>)"

definition Horizon_contains :: "uint64 \<Rightarrow> Horizon \<Rightarrow> bool" where
  "Horizon_contains counter h \<longleftrightarrow> counter \<le> hz_horizon h \<or> counter \<in> hz_buffered h"

text \<open>Reading the hash map of the horizons at a new machine inserts an empty one.\<close>

type_synonym TxnHorizon = "MachineId \<rightharpoonup> Horizon"

definition horizon_at :: "MachineId \<Rightarrow> TxnHorizon \<Rightarrow> Horizon" where
  "horizon_at m t = (case t m of None \<Rightarrow> Horizon_new | Some h \<Rightarrow> h)"

definition TxnHorizon_Add :: "TxnId \<Rightarrow> TxnHorizon \<Rightarrow> TxnHorizon" where
  "TxnHorizon_Add i t = (let m = ucast (TXN_ID_GET_MACHINE_ID i) in
     t(m \<mapsto> Horizon_Add (TXN_ID_GET_COUNTER i) (horizon_at m t)))"

definition TxnHorizon_contains :: "TxnId \<Rightarrow> TxnHorizon \<Rightarrow> bool" where
  "TxnHorizon_contains i t = Horizon_contains (TXN_ID_GET_COUNTER i) (horizon_at (ucast (TXN_ID_GET_MACHINE_ID i)) t)"

text \<open>
  What the scheduler relies on: a growing set of executed transactions.  \<open>abs\<close> is the set a
  state stands for and \<open>ok\<close> an invariant of the reachable states.
\<close>

locale growing_set =
  fixes new :: 's and add :: "'a \<Rightarrow> 's \<Rightarrow> 's" and member :: "'a \<Rightarrow> 's \<Rightarrow> bool"
    and ok :: "'s \<Rightarrow> bool" and abs :: "'s \<Rightarrow> 'a set"
  assumes ok_new: "ok new" and ok_add: "ok s \<Longrightarrow> ok (add x s)"
    and abs_add: "ok s \<Longrightarrow> abs (add x s) = insert x (abs s)"
    and member_abs: "ok s \<Longrightarrow> member x s \<longleftrightarrow> x \<in> abs s"
begin

lemma ok_adds: "ok s \<Longrightarrow> ok (foldl (\<lambda>s x. add x s) s xs)"
  by (induction xs arbitrary: s) (simp_all add: ok_add)

lemma member_adds: "member x (foldl (\<lambda>s x. add x s) new xs) \<longleftrightarrow> x \<in> set xs \<union> abs new"
proof -
  have "ok s \<Longrightarrow> abs (foldl (\<lambda>s x. add x s) s xs) = set xs \<union> abs s" for s
    by (induction xs arbitrary: s) (simp_all add: ok_add abs_add)
  then show ?thesis using ok_new by (simp add: member_abs ok_adds)
qed

end

definition hz_ok :: "Horizon \<Rightarrow> bool" where
  "hz_ok h \<longleftrightarrow> hz_horizon h < 2 ^ 32 \<and> (\<forall>c\<in>hz_buffered h. c < 2 ^ 32)"

definition hz_set :: "Horizon \<Rightarrow> uint64 set" where
  "hz_set h = {c. Horizon_contains c h}"

lemma small_succ:
  fixes a :: uint64
  assumes "a < 2 ^ 32"
  shows "c \<le> a + 1 \<longleftrightarrow> c \<le> a \<or> c = a + 1"
proof -
  have "unat (a + 1) = Suc (unat a)"
    using assms by (simp add: word_less_nat_alt unat_word_ariths)
  then show ?thesis by (auto simp: word_le_nat_alt le_Suc_eq word_unat_eq_iff)
qed

lemma advance_horizon_spec:
  "hz_ok h \<Longrightarrow> hz_ok (advance_horizon h) \<and> hz_set (advance_horizon h) = hz_set h"
proof (induction h rule: advance_horizon.induct)
  case (1 h)
  show ?case
  proof (cases "hz_horizon h + 1 \<in> hz_buffered h")
    case True
    let ?h = "h\<lparr>hz_horizon := hz_horizon h + 1, hz_buffered := hz_buffered h - {hz_horizon h + 1}\<rparr>"
    have "hz_ok ?h" using 1(2) True by (auto simp: hz_ok_def)
    moreover have "hz_set ?h = hz_set h"
      using True 1(2) small_succ [of "hz_horizon h"] by (auto simp: hz_set_def Horizon_contains_def hz_ok_def)
    ultimately show ?thesis using 1(1) [OF True] True by (simp add: advance_horizon.simps [of h])
  next
    case False
    then show ?thesis using 1(2) by (simp add: advance_horizon.simps [of h])
  qed
qed

lemma Horizon_Add_spec:
  assumes "hz_ok h" "counter < 2 ^ 32"
  shows "hz_ok (Horizon_Add counter h) \<and> hz_set (Horizon_Add counter h) = insert counter (hz_set h)"
proof (cases "counter = hz_horizon h + 1")
  case True
  let ?h = "h\<lparr>hz_horizon := hz_horizon h + 1\<rparr>"
  have "hz_ok ?h" using assms True by (simp add: hz_ok_def)
  moreover have "hz_set ?h = insert counter (hz_set h)"
    using assms(1) True small_succ [of "hz_horizon h"] by (auto simp: hz_set_def Horizon_contains_def hz_ok_def)
  ultimately show ?thesis using advance_horizon_spec [of ?h] True by (simp add: Horizon_Add_def)
next
  case False
  then show ?thesis using assms by (auto simp: Horizon_Add_def hz_ok_def hz_set_def Horizon_contains_def)
qed

lemma counter_small: "TXN_ID_GET_COUNTER i < 2 ^ 32"
proof -
  have "unat (TXN_ID_GET_COUNTER i) = unat i div 2 ^ 32"
    by (simp add: TXN_ID_GET_COUNTER_def id_bits_defs drop_bit_eq_div unat_div)
  also have "\<dots> < 2 ^ 32" using unsigned_less [where ?'a = nat, of i] by (simp add: less_mult_imp_div_less)
  finally show ?thesis by (simp add: word_less_nat_alt)
qed

lemma txn_id_eqI:
  assumes "TXN_ID_GET_COUNTER i = TXN_ID_GET_COUNTER j"
    and "(ucast (TXN_ID_GET_MACHINE_ID i) :: MachineId) = ucast (TXN_ID_GET_MACHINE_ID j)"
  shows "i = j"
proof (rule bit_word_eqI)
  fix n assume n: "n < LENGTH(64)"
  show "bit i n \<longleftrightarrow> bit j n"
  proof (cases "n < 32")
    case True
    from arg_cong [OF assms(2), of "\<lambda>w. bit w n"] True show ?thesis
      by (simp add: TXN_ID_GET_MACHINE_ID_take bit_simps)
  next
    case False
    from arg_cong [OF assms(1), of "\<lambda>w. bit w (n - 32)"] False n show ?thesis
      by (simp add: TXN_ID_GET_COUNTER_def id_bits_defs bit_simps)
  qed
qed

interpretation executed: growing_set "Map.empty :: TxnHorizon" TxnHorizon_Add TxnHorizon_contains
  "\<lambda>t. \<forall>m. hz_ok (horizon_at m t)" "\<lambda>t. {i. TxnHorizon_contains i t}"
proof (unfold_locales, goal_cases)
  case 1
  then show ?case by (simp add: horizon_at_def Horizon_new_def hz_ok_def)
next
  case (2 s x)
  then show ?case using Horizon_Add_spec counter_small
    by (auto simp: TxnHorizon_Add_def Let_def horizon_at_def split: option.splits)
next
  case (3 s x)
  let ?m = "\<lambda>i. ucast (TXN_ID_GET_MACHINE_ID i) :: MachineId" and ?c = TXN_ID_GET_COUNTER
  have "Horizon_contains c (Horizon_Add (?c x) (horizon_at (?m x) s)) \<longleftrightarrow> c = ?c x \<or> Horizon_contains c (horizon_at (?m x) s)" for c
    using Horizon_Add_spec [of "horizon_at (?m x) s" "?c x"] 3 counter_small [of x] by (auto simp: hz_set_def)
  moreover have "horizon_at m (TxnHorizon_Add x s) =
      (if m = ?m x then Horizon_Add (?c x) (horizon_at (?m x) s) else horizon_at m s)" for m
    by (simp add: TxnHorizon_Add_def Let_def horizon_at_def)
  ultimately show ?case using txn_id_eqI [of _ x] by (auto simp: TxnHorizon_contains_def split: if_splits)
qed auto

text \<open>
  C16: the horizon of executed transactions, which keeps one counter per machine and a buffer of
  the ids that arrived early, stands for the set of the added ids: after adding any ids in any order it
  contains exactly these, and the ids with counter 0, which no server hands out.
\<close>
theorem horizon_refines_set:
  "TxnHorizon_contains i (foldl (\<lambda>t j. TxnHorizon_Add j t) Map.empty ids) \<longleftrightarrow>
     i \<in> set ids \<or> TXN_ID_GET_COUNTER i = 0"
proof -
  have "TxnHorizon_contains i Map.empty \<longleftrightarrow> TXN_ID_GET_COUNTER i = 0"
    by (simp add: TxnHorizon_contains_def horizon_at_def Horizon_new_def Horizon_contains_def)
  then show ?thesis using executed.member_adds [of i ids] by simp
qed

subsection \<open>Quorums (\<^verbatim>\<open>coordinator.h\<close>)\<close>

type_synonym Dependencies = "(TxnId \<times> uint64) set"

record Quorum =
  qu_num_replicas :: nat
  qu_count :: nat

definition Quorum_new :: "nat \<Rightarrow> Quorum" where
  "Quorum_new n = \<lparr>qu_num_replicas = n, qu_count = 0\<rparr>"

definition Quorum_Inc :: "Quorum \<Rightarrow> Quorum" where
  "Quorum_Inc q = q\<lparr>qu_count := qu_count q + 1\<rparr>"

definition Quorum_is_done :: "Quorum \<Rightarrow> bool" where
  "Quorum_is_done q \<longleftrightarrow> (qu_num_replicas q + 1) div 2 \<le> qu_count q"

record QuorumDeps =
  qd_deps :: Dependencies
  qd_num_replicas :: nat
  qd_is_fast_quorum :: bool
  qd_count :: nat

definition QuorumDeps_new :: "nat \<Rightarrow> QuorumDeps" where
  "QuorumDeps_new n = \<lparr>qd_deps = {}, qd_num_replicas = n, qd_is_fast_quorum = True, qd_count = 0\<rparr>"

definition QuorumDeps_is_done :: "QuorumDeps \<Rightarrow> bool" where
  "QuorumDeps_is_done q \<longleftrightarrow>
     (if qd_is_fast_quorum q then qd_count q = qd_num_replicas q else (qd_num_replicas q + 1) div 2 \<le> qd_count q)"

definition QuorumDeps_Add :: "Dependencies \<Rightarrow> QuorumDeps \<Rightarrow> QuorumDeps" where
  "QuorumDeps_Add deps q =
     (if QuorumDeps_is_done q then q
      else let q1 = (if qd_count q = 0 then q\<lparr>qd_deps := deps\<rparr>
          else if \<not> qd_is_fast_quorum q \<or> deps \<noteq> qd_deps q
          then q\<lparr>qd_is_fast_quorum := False, qd_deps := qd_deps q \<union> deps\<rparr> else q) in
        q1\<lparr>qd_count := qd_count q + 1\<rparr>)"

definition collect_deps :: "nat \<Rightarrow> Dependencies list \<Rightarrow> QuorumDeps" where
  "collect_deps n ds = foldl (\<lambda>q d. QuorumDeps_Add d q) (QuorumDeps_new n) ds"

lemma collect_deps_snoc [simp]:
  "collect_deps n [] = QuorumDeps_new n" "collect_deps n (ds @ [d]) = QuorumDeps_Add d (collect_deps n ds)"
  by (simp_all add: collect_deps_def)

lemma collect_deps_append_done:
  "QuorumDeps_is_done (collect_deps n ds) \<Longrightarrow> collect_deps n (ds @ es) = collect_deps n ds"
proof (induction es rule: rev_induct)
  case (snoc e es)
  then show ?case by (metis QuorumDeps_Add_def append.assoc collect_deps_snoc(2))
qed simp

definition quorum_inv :: "nat \<Rightarrow> Dependencies list \<Rightarrow> QuorumDeps \<Rightarrow> bool" where
  "quorum_inv n ds q \<longleftrightarrow> qd_num_replicas q = n \<and> qd_count q \<le> length ds \<and> qd_deps q = \<Union> (set (take (qd_count q) ds)) \<and>
     (\<not> QuorumDeps_is_done q \<longrightarrow> qd_count q = length ds) \<and>
     (qd_is_fast_quorum q \<longrightarrow> qd_count q \<le> n \<and> (\<forall>d\<in>set (take (qd_count q) ds). d = qd_deps q))"

lemma quorum_inv_collect: "quorum_inv n ds (collect_deps n ds)"
proof (induction ds rule: rev_induct)
  case Nil
  then show ?case by (simp add: quorum_inv_def QuorumDeps_new_def)
next
  case (snoc d ds)
  let ?q = "collect_deps n ds"
  show ?case
  proof (cases "QuorumDeps_is_done ?q")
    case True
    then have "QuorumDeps_Add d ?q = ?q" by (simp add: QuorumDeps_Add_def)
    with snoc True show ?thesis by (auto simp: quorum_inv_def)
  next
    case False
    with snoc have c: "qd_count ?q = length ds" "qd_num_replicas ?q = n" "qd_deps ?q = \<Union> (set ds)"
      and f: "qd_is_fast_quorum ?q \<Longrightarrow> length ds \<le> n \<and> (\<forall>e\<in>set ds. e = qd_deps ?q)"
      by (auto simp: quorum_inv_def)
    have less: "qd_is_fast_quorum ?q \<Longrightarrow> length ds < n" using False f c by (fastforce simp: QuorumDeps_is_done_def)
    let ?q' = "QuorumDeps_Add d ?q"
    have q': "qd_count ?q' = Suc (length ds)" "qd_num_replicas ?q' = n"
      using False c by (simp_all add: QuorumDeps_Add_def QuorumDeps_new_def Let_def)
    have "qd_deps ?q' = \<Union> (set (ds @ [d]))"
      using False c f by (cases ds) (auto simp: QuorumDeps_Add_def Let_def)
    moreover have "qd_is_fast_quorum ?q' \<Longrightarrow> \<forall>e\<in>set (ds @ [d]). e = qd_deps ?q'"
      using False c f by (cases ds) (auto simp: QuorumDeps_Add_def Let_def split: if_splits)
    moreover have "qd_is_fast_quorum ?q' \<Longrightarrow> Suc (length ds) \<le> n"
      using False c less by (auto simp: QuorumDeps_Add_def Let_def Suc_le_eq split: if_splits)
    ultimately show ?thesis using q' by (simp add: quorum_inv_def) metis
  qed
qed

lemma done_quorum:
  assumes "QuorumDeps_is_done (collect_deps n ds)" "0 < n"
  shows "\<exists>m. (n + 1) div 2 \<le> m \<and> m \<le> length ds \<and> qd_deps (collect_deps n ds) = \<Union> (set (take m ds))"
proof -
  have "(n + 1) div 2 \<le> qd_count (collect_deps n ds)"
    using assms quorum_inv_collect [of n ds] by (auto simp: QuorumDeps_is_done_def quorum_inv_def split: if_splits)
  then show ?thesis using quorum_inv_collect [of n ds] by (auto simp: quorum_inv_def)
qed

subsection \<open>The coordinator (\<^verbatim>\<open>coordinator.cpp\<close>)\<close>

datatype JanusPhase = PRE_ACCEPT | ACCEPT

record JanusDependency =
  jd_txn_id :: TxnId
  jd_target_partition :: uint32
  jd_participants_bitmap :: uint64

record CoordinatorTxnInfo =
  ci_txn_id :: TxnId
  ci_phase :: JanusPhase
  ci_sharded_deps :: "QuorumDeps option list"
  ci_quorums :: "Quorum option list"
  ci_participants :: "nat list"
  ci_destinations :: "MachineId list"

type_synonym Coordinator = "TxnId \<rightharpoonup> CoordinatorTxnInfo"

datatype CoordinatorOut =
    JcPreAccept Transaction "MachineId list"
  | JcAccept TxnId "JanusDependency list" "MachineId list"
  | JcCommit TxnId "JanusDependency list" "MachineId list"

definition StartNewTxn :: "Configuration \<Rightarrow> Transaction \<Rightarrow> Coordinator \<Rightarrow> (Coordinator \<times> CoordinatorOut list) result" where
  "StartNewTxn cf txn0 c =
     (case PopulateInvolvedPartitions (compute_partition (MakeSharder cf)) (of_nat (num_partitions cf)) txn0 of
        Inl (RuntimeError what) \<Rightarrow> if what = ''invalid_argument'' then Inr (c, []) else Inl (RuntimeError what)
      | Inl e \<Rightarrow> Inl e
      | Inr txn \<Rightarrow>
          if c (tx_id txn) \<noteq> None then Inl (CheckFailed ''inserted'')
          else let participants = ti_involved_partitions (tx_internal txn);
              destinations = concat (map (\<lambda>p. map (\<lambda>reg. MakeMachineId (of_nat reg) 0 (ucast p)) [0..<num_regions cf]) participants) in
            Inr (c(tx_id txn \<mapsto> \<lparr>ci_txn_id = tx_id txn, ci_phase = PRE_ACCEPT, ci_sharded_deps = replicate (num_partitions cf) None,
                ci_quorums = replicate (num_partitions cf) None, ci_participants = map unat participants,
                ci_destinations = destinations\<rparr>),
              [JcPreAccept txn destinations]))"

definition dep_msg :: "nat \<Rightarrow> TxnId \<times> uint64 \<Rightarrow> JanusDependency" where
  "dep_msg p d = \<lparr>jd_txn_id = fst d, jd_target_partition = of_nat p, jd_participants_bitmap = snd d\<rparr>"

text \<open>The dependencies of all partitions, each partition's in increasing order.\<close>

definition all_deps :: "QuorumDeps option list \<Rightarrow> JanusDependency list" where
  "all_deps sharded = concat (map (\<lambda>p. case sharded ! p of
       None \<Rightarrow> []
     | Some q \<Rightarrow> map (dep_msg p) (sorted_list_of_set (qd_deps q))) [0..<length sharded])"

definition CommitTxn :: "CoordinatorTxnInfo \<Rightarrow> Coordinator \<Rightarrow> Coordinator \<times> CoordinatorOut list" where
  "CommitTxn info c = (c(ci_txn_id info := None), [JcCommit (ci_txn_id info) (all_deps (ci_sharded_deps info)) (ci_destinations info)])"

fun deps_complete :: "nat list \<Rightarrow> QuorumDeps option list \<Rightarrow> bool \<Rightarrow> (bool \<times> bool) result" where
  "deps_complete [] sharded is_fast = Inr (True, is_fast)"
| "deps_complete (p # ps) sharded is_fast =
     (if length sharded \<le> p then Inl (CheckFailed ''p < sharded_deps.size()'')
      else case sharded ! p of
        None \<Rightarrow> Inr (False, is_fast)
      | Some q \<Rightarrow> if QuorumDeps_is_done q then deps_complete ps sharded (is_fast \<and> qd_is_fast_quorum q) else Inr (False, is_fast))"

definition from_partition :: "MachineId \<Rightarrow> nat" where
  "from_partition m = unat (snd (snd (UnpackMachineId m)))"

definition dep_pair :: "JanusDependency \<Rightarrow> TxnId \<times> uint64" where
  "dep_pair d = (jd_txn_id d, jd_participants_bitmap d)"

definition PreAcceptTxn :: "Configuration \<Rightarrow> MachineId \<Rightarrow> TxnId \<Rightarrow> bool \<Rightarrow> JanusDependency list \<Rightarrow> Coordinator \<Rightarrow>
    (Coordinator \<times> CoordinatorOut list) result" where
  "PreAcceptTxn cf from txn_id ok deps c =
     (if \<not> ok then Inl (CheckFailed ''pre_accept.ok()'')
      else case c txn_id of
        None \<Rightarrow> Inr (c, [])
      | Some info \<Rightarrow>
          if ci_phase info \<noteq> PRE_ACCEPT then Inr (c, [])
          else let p = from_partition from; sharded = ci_sharded_deps info in
            if length sharded \<le> p then Inl (CheckFailed ''from_partition < sharded_deps.size()'')
            else let quorum_deps = (case sharded ! p of None \<Rightarrow> QuorumDeps_new (num_regions cf) | Some q \<Rightarrow> q);
                sharded1 = sharded[p := Some (QuorumDeps_Add (dep_pair ` set deps) quorum_deps)];
                info1 = info\<lparr>ci_sharded_deps := sharded1\<rparr> in
              rbind (deps_complete (ci_participants info) sharded1 True) (\<lambda>(complete, is_fast).
                if \<not> complete then Inr (c(txn_id \<mapsto> info1), [])
                else if is_fast then Inr (CommitTxn info1 c)
                else Inr (c(txn_id \<mapsto> info1\<lparr>ci_phase := ACCEPT\<rparr>), [JcAccept txn_id (all_deps sharded1) (ci_destinations info)])))"

fun quorums_complete :: "nat list \<Rightarrow> Quorum option list \<Rightarrow> bool result" where
  "quorums_complete [] quorums = Inr True"
| "quorums_complete (p # ps) quorums =
     (if length quorums \<le> p then Inl (CheckFailed ''p < quorums.size()'')
      else case quorums ! p of
        None \<Rightarrow> Inr False
      | Some q \<Rightarrow> if Quorum_is_done q then quorums_complete ps quorums else Inr False)"

definition AcceptTxn :: "Configuration \<Rightarrow> MachineId \<Rightarrow> TxnId \<Rightarrow> bool \<Rightarrow> Coordinator \<Rightarrow> (Coordinator \<times> CoordinatorOut list) result" where
  "AcceptTxn cf from txn_id ok c =
     (if \<not> ok then Inl (CheckFailed ''accept.ok()'')
      else case c txn_id of
        None \<Rightarrow> Inr (c, [])
      | Some info \<Rightarrow>
          let p = from_partition from; quorums = ci_quorums info in
          if length quorums \<le> p then Inl (CheckFailed ''from_partition < quorums.size()'')
          else let quorum = (case quorums ! p of None \<Rightarrow> Quorum_new (num_regions cf) | Some q \<Rightarrow> q);
              quorums1 = quorums[p := Some (Quorum_Inc quorum)]; info1 = info\<lparr>ci_quorums := quorums1\<rparr> in
            rbind (quorums_complete (ci_participants info) quorums1) (\<lambda>complete.
              Inr (if complete then CommitTxn info1 c else (c(txn_id \<mapsto> info1), []))))"

datatype CoordinatorEvent =
    JcForwardTxn Transaction
  | JcPreAccepted MachineId TxnId bool "JanusDependency list"
  | JcAccepted MachineId TxnId bool

fun coordinator_step :: "Configuration \<Rightarrow> Coordinator \<Rightarrow> CoordinatorEvent \<Rightarrow> (Coordinator \<times> CoordinatorOut list) result" where
  "coordinator_step cf c (JcForwardTxn txn) = StartNewTxn cf txn c"
| "coordinator_step cf c (JcPreAccepted m i ok deps) = PreAcceptTxn cf m i ok deps c"
| "coordinator_step cf c (JcAccepted m i ok) = AcceptTxn cf m i ok c"

text \<open>The replies to the pre-accept of transaction \<open>i\<close> that came from partition \<open>p\<close>.\<close>

fun replies :: "TxnId \<Rightarrow> nat \<Rightarrow> CoordinatorEvent list \<Rightarrow> Dependencies list" where
  "replies i p [] = []"
| "replies i p (JcPreAccepted m j ok deps # evs) =
     (if j = i \<and> from_partition m = p then [dep_pair ` set deps] else []) @ replies i p evs"
| "replies i p (_ # evs) = replies i p evs"

lemma replies_append [simp]: "replies i p (xs @ ys) = replies i p xs @ replies i p ys"
  by (induction i p xs rule: replies.induct) auto

lemma deps_complete_True:
  "deps_complete ps sharded b = Inr (True, fast) \<Longrightarrow> \<forall>p\<in>set ps. \<exists>q. sharded ! p = Some q \<and> QuorumDeps_is_done q"
  by (induction ps sharded b rule: deps_complete.induct) (auto split: if_splits option.splits)

definition coord_inv :: "Configuration \<Rightarrow> TxnId \<Rightarrow> nat list \<Rightarrow> CoordinatorEvent list \<Rightarrow> Coordinator \<Rightarrow> bool" where
  "coord_inv cf i parts evs c \<longleftrightarrow> (\<forall>info. c i = Some info \<longrightarrow> ci_txn_id info = i \<and> ci_participants info = parts \<and>
     length (ci_sharded_deps info) = num_partitions cf \<and>
     (\<forall>p\<in>set parts. p < num_partitions cf \<and> ci_sharded_deps info ! p =
        (if replies i p evs = [] then None else Some (collect_deps (num_regions cf) (replies i p evs)))) \<and>
     (ci_phase info = ACCEPT \<longrightarrow> (\<forall>p\<in>set parts. replies i p evs \<noteq> [] \<and>
        QuorumDeps_is_done (collect_deps (num_regions cf) (replies i p evs)))))"

text \<open>What a commit message must carry for the partitions of the transaction.\<close>

definition commit_ok :: "Configuration \<Rightarrow> TxnId \<Rightarrow> nat list \<Rightarrow> CoordinatorEvent list \<Rightarrow> JanusDependency list \<Rightarrow> bool" where
  "commit_ok cf i parts evs ds \<longleftrightarrow> (\<forall>p\<in>set parts. QuorumDeps_is_done (collect_deps (num_regions cf) (replies i p evs)) \<and>
     dep_pair ` {d \<in> set ds. jd_target_partition d = of_nat p} = qd_deps (collect_deps (num_regions cf) (replies i p evs)))"

definition ids_ok :: "Coordinator \<Rightarrow> bool" where
  "ids_ok c \<longleftrightarrow> (\<forall>j info. c j = Some info \<longrightarrow> ci_txn_id info = j)"

lemma finite_replies: "D \<in> set (replies i p evs) \<Longrightarrow> finite D"
  by (induction i p evs rule: replies.induct) (auto split: if_splits)

lemma finite_collect: "\<forall>D\<in>set Ds. finite D \<Longrightarrow> finite (qd_deps (collect_deps n Ds))"
  using quorum_inv_collect [of n Ds] by (auto simp: quorum_inv_def dest: in_set_takeD)

lemma dep_pair_msg [simp]: "dep_pair (dep_msg p d) = d" "jd_target_partition (dep_msg p d) = of_nat p"
  by (simp_all add: dep_pair_def dep_msg_def)

lemma set_all_deps:
  "d \<in> set (all_deps sharded) \<longleftrightarrow>
     (\<exists>p<length sharded. \<exists>q. sharded ! p = Some q \<and> d \<in> dep_msg p ` set (sorted_list_of_set (qd_deps q)))"
proof -
  let ?l = "\<lambda>p. case sharded ! p of None \<Rightarrow> [] | Some q \<Rightarrow> map (dep_msg p) (sorted_list_of_set (qd_deps q))"
  have "d \<in> set (?l p) \<longleftrightarrow> (\<exists>q. sharded ! p = Some q \<and> d \<in> dep_msg p ` set (sorted_list_of_set (qd_deps q)))" for p
    by (cases "sharded ! p") auto
  moreover have "d \<in> set (all_deps sharded) \<longleftrightarrow> (\<exists>p<length sharded. d \<in> set (?l p))"
    by (auto simp only: all_deps_def set_concat set_map set_upt UN_iff bex_simps atLeastLessThan_iff)
  ultimately show ?thesis by simp
qed

lemma all_deps_of:
  assumes "p < length sharded" "sharded ! p = Some q" "finite (qd_deps q)" "length sharded < 2 ^ 32"
  shows "dep_pair ` {d \<in> set (all_deps sharded). jd_target_partition d = of_nat p} = qd_deps q"
proof (intro equalityI subsetI)
  fix x assume "x \<in> dep_pair ` {d \<in> set (all_deps sharded). jd_target_partition d = of_nat p}"
  then obtain d where d: "d \<in> set (all_deps sharded)" "jd_target_partition d = of_nat p" "x = dep_pair d" by blast
  from d(1) obtain r q' e where r: "r < length sharded" "sharded ! r = Some q'" "e \<in> set (sorted_list_of_set (qd_deps q'))"
    "d = dep_msg r e" unfolding set_all_deps by blast
  have "(of_nat r :: uint32) = of_nat p" using d(2) r(4) by simp
  then have "r = p" using r(1) assms(1,4) of_nat_word_inj [where ?'a = 32, of r p] by simp
  then show "x \<in> qd_deps q" using r d(3) assms(2,3) by simp
next
  fix x assume "x \<in> qd_deps q"
  then have "dep_msg p x \<in> set (all_deps sharded)" using assms(1-3) unfolding set_all_deps by auto
  then show "x \<in> dep_pair ` {d \<in> set (all_deps sharded). jd_target_partition d = of_nat p}"
    by (intro image_eqI [of _ _ "dep_msg p x"]) simp_all
qed

lemma commit_ok_mono:
  assumes "commit_ok cf i parts evs ds"
  shows "commit_ok cf i parts (evs @ evs') ds"
  using assms by (simp add: commit_ok_def collect_deps_append_done)

lemma commit_ok_all_deps:
  assumes "coord_inv cf i parts evs c" "c i = Some info" "num_partitions cf < 2 ^ 32"
    and "\<forall>p\<in>set parts. \<exists>q. ci_sharded_deps info ! p = Some q \<and> QuorumDeps_is_done q"
  shows "commit_ok cf i parts evs (all_deps (ci_sharded_deps info))"
  unfolding commit_ok_def
proof
  fix p assume p: "p \<in> set parts"
  with assms(4) obtain q where q: "ci_sharded_deps info ! p = Some q" "QuorumDeps_is_done q" by blast
  from assms(1,2) p have l: "length (ci_sharded_deps info) = num_partitions cf" "p < num_partitions cf"
    and e: "ci_sharded_deps info ! p = (if replies i p evs = [] then None else Some (collect_deps (num_regions cf) (replies i p evs)))"
    unfolding coord_inv_def by blast+
  from e q(1) have qe: "q = collect_deps (num_regions cf) (replies i p evs)" by (auto split: if_splits)
  have "finite (qd_deps q)" unfolding qe using finite_replies by (intro finite_collect) blast
  from all_deps_of [OF _ q(1) this] l assms(3) q(2)
  show "QuorumDeps_is_done (collect_deps (num_regions cf) (replies i p evs)) \<and>
    dep_pair ` {d \<in> set (all_deps (ci_sharded_deps info)). jd_target_partition d = of_nat p} =
      qd_deps (collect_deps (num_regions cf) (replies i p evs))" unfolding qe by simp
qed

lemma coord_inv_other:
  assumes "coord_inv cf i parts evs c" "c' i = c i" "\<And>p. replies i p [ev] = []"
  shows "coord_inv cf i parts (evs @ [ev]) c'"
  using assms by (simp add: coord_inv_def)

lemma coord_inv_add:
  fixes deps :: "JanusDependency list"
  assumes "coord_inv cf i parts evs c" "c i = Some info" "ci_phase info = PRE_ACCEPT"
    and "p < num_partitions cf" "from_partition m = p"
  defines "info1 \<equiv> info\<lparr>ci_sharded_deps := (ci_sharded_deps info)[p := Some (QuorumDeps_Add (dep_pair ` set deps)
    (case ci_sharded_deps info ! p of None \<Rightarrow> QuorumDeps_new (num_regions cf) | Some q \<Rightarrow> q))]\<rparr>"
  shows "coord_inv cf i parts (evs @ [JcPreAccepted m i ok deps]) (c(i \<mapsto> info1))"
proof -
  from assms(1,2) have old: "ci_txn_id info = i" "ci_participants info = parts" "length (ci_sharded_deps info) = num_partitions cf"
    "\<And>r. r \<in> set parts \<Longrightarrow> r < num_partitions cf \<and> ci_sharded_deps info ! r =
        (if replies i r evs = [] then None else Some (collect_deps (num_regions cf) (replies i r evs)))"
    unfolding coord_inv_def by blast+
  have "ci_sharded_deps info1 ! r = Some (collect_deps (num_regions cf) (replies i r evs @ [dep_pair ` set deps]))"
    if "r \<in> set parts" "r = p" for r
    using old(4) [OF that(1)] that(2) old(3) assms(4) by (auto simp: info1_def split: if_splits)
  moreover have "ci_sharded_deps info1 ! r = ci_sharded_deps info ! r" if "r \<noteq> p" for r
    using that by (simp add: info1_def)
  ultimately show ?thesis using old assms(3,5) by (auto simp: coord_inv_def info1_def)
qed

definition in_accept :: "TxnId \<Rightarrow> Coordinator \<Rightarrow> bool" where
  "in_accept i c \<longleftrightarrow> (\<forall>info. c i = Some info \<longrightarrow> ci_phase info = ACCEPT)"

text \<open>One step: the invariant is kept, a commit is complete, the phase only advances.\<close>

definition step_ok :: "Configuration \<Rightarrow> TxnId \<Rightarrow> nat list \<Rightarrow> CoordinatorEvent list \<Rightarrow> Coordinator \<Rightarrow> Coordinator \<Rightarrow> CoordinatorOut list \<Rightarrow> bool" where
  "step_ok cf i parts evs c c' outs \<longleftrightarrow> coord_inv cf i parts evs c' \<and> ids_ok c' \<and>
     (\<forall>ds dests. JcCommit i ds dests \<in> set outs \<longrightarrow> commit_ok cf i parts evs ds) \<and>
     (\<forall>ds dests. JcAccept i ds dests \<in> set outs \<longrightarrow> in_accept i c') \<and> (in_accept i c \<longrightarrow> in_accept i c')"

subsection \<open>The acceptor (\<^verbatim>\<open>acceptor.cpp\<close>)\<close>

record AcceptorTxnInfo =
  ai_txn :: Transaction
  ai_phase :: JanusPhase
  ai_highest_ballot :: int

record JanusAcceptor =
  ac_txns :: "TxnId \<rightharpoonup> AcceptorTxnInfo"
  ac_latest_writing_txns :: "Key \<rightharpoonup> TxnId \<times> uint64"

definition JanusAcceptor_new :: JanusAcceptor where
  "JanusAcceptor_new = \<lparr>ac_txns = Map.empty, ac_latest_writing_txns = Map.empty\<rparr>"

datatype AcceptorOut =
    JaPreAccepted TxnId bool "JanusDependency list" MachineId
  | JaAccepted TxnId bool MachineId
  | JaToScheduler TxnId "JanusDependency list" Transaction
  | JaFinished Transaction uint32 MachineId

text \<open>
  The literal \<^verbatim>\<open>1\<close> is an \<^verbatim>\<open>int\<close>: the shift is undefined from 32 on, and the sign bit spreads over the
  upper half of the 64-bit bitmap.
\<close>

definition shift_one :: "uint32 \<Rightarrow> uint64 result" where
  "shift_one p = (if unat p < 32 then Inr (scast (push_bit (unat p) 1 :: uint32)) else Inl (Undefined ''1 << p''))"

fun participants_bitmap :: "nat \<Rightarrow> uint32 list \<Rightarrow> uint64 \<Rightarrow> uint64 result" where
  "participants_bitmap n [] bitmap = Inr bitmap"
| "participants_bitmap n (p # ps) bitmap =
     (if n \<le> unat p then Inl (CheckFailed ''p < num_partitions'')
      else rbind (shift_one p) (\<lambda>b. participants_bitmap n ps (bitmap OR b)))"

text \<open>
  The dependencies are listed in the order in which they are found; the source collects them in an unordered
  map, and the theorems speak of the set of the answered dependencies only.
\<close>

fun pre_accept_keys :: "(Key \<Rightarrow> bool result) \<Rightarrow> TxnId \<Rightarrow> uint64 \<Rightarrow> KeyValueEntry list \<Rightarrow> (Key \<rightharpoonup> TxnId \<times> uint64) \<Rightarrow>
    (TxnId \<times> uint64) list \<Rightarrow> ((Key \<rightharpoonup> TxnId \<times> uint64) \<times> (TxnId \<times> uint64) list) result" where
  "pre_accept_keys is_local i bitmap [] latest deps = Inr (latest, deps)"
| "pre_accept_keys is_local i bitmap (kv # kvs) latest deps =
     rbind (is_local (kv_key kv)) (\<lambda>here.
       if \<not> here then pre_accept_keys is_local i bitmap kvs latest deps
       else pre_accept_keys is_local i bitmap kvs
         (if ve_type (kv_entry kv) = KeyWrite then latest(kv_key kv \<mapsto> (i, bitmap)) else latest)
         (case latest (kv_key kv) of
            None \<Rightarrow> deps
          | Some d \<Rightarrow> if fst d \<in> fst ` set deps then deps else deps @ [d]))"

definition pre_accept_new :: "Configuration \<Rightarrow> MachineId \<Rightarrow> Transaction \<Rightarrow> AcceptorTxnInfo \<Rightarrow> JanusAcceptor \<Rightarrow>
    (JanusAcceptor \<times> AcceptorOut list) result" where
  "pre_accept_new cf from txn info a =
     rbind (participants_bitmap (num_partitions cf) (ti_involved_partitions (tx_internal txn)) 0) (\<lambda>bitmap.
     rbind (pre_accept_keys (is_local_key (MakeSharder cf)) (tx_id txn) bitmap (tx_keys txn) (ac_latest_writing_txns a) []) (\<lambda>(latest, deps).
       Inr (\<lparr>ac_txns = (ac_txns a)(tx_id txn \<mapsto> info), ac_latest_writing_txns = latest\<rparr>,
         [JaPreAccepted (tx_id txn) True (map (dep_msg (cf_local_partition cf)) deps) from])))"

definition ProcessPreAccept :: "Configuration \<Rightarrow> MachineId \<Rightarrow> Transaction \<Rightarrow> int \<Rightarrow> JanusAcceptor \<Rightarrow> (JanusAcceptor \<times> AcceptorOut list) result" where
  "ProcessPreAccept cf from txn ballot a =
     (let i = tx_id txn in
      case ac_txns a i of
        Some info \<Rightarrow>
          if ballot < ai_highest_ballot info then Inr (a, [JaPreAccepted i False [] from])
          else pre_accept_new cf from txn (info\<lparr>ai_highest_ballot := ballot\<rparr>) a
      | None \<Rightarrow> pre_accept_new cf from txn \<lparr>ai_txn = txn, ai_phase = PRE_ACCEPT, ai_highest_ballot = ballot\<rparr> a)"

definition ProcessAccept :: "MachineId \<Rightarrow> TxnId \<Rightarrow> int \<Rightarrow> JanusAcceptor \<Rightarrow> JanusAcceptor \<times> AcceptorOut list" where
  "ProcessAccept from i ballot a =
     (case ac_txns a i of
        None \<Rightarrow> (a, [JaAccepted i False from])
      | Some info \<Rightarrow>
          if ballot < ai_highest_ballot info then (a, [JaAccepted i False from])
          else (a\<lparr>ac_txns := (ac_txns a)(i \<mapsto> info\<lparr>ai_phase := ACCEPT\<rparr>)\<rparr>, [JaAccepted i True from]))"

definition ProcessCommit :: "Configuration \<Rightarrow> TxnId \<Rightarrow> JanusDependency list \<Rightarrow> JanusAcceptor \<Rightarrow> JanusAcceptor \<times> AcceptorOut list" where
  "ProcessCommit cf i deps a =
     (case ac_txns a i of
        None \<Rightarrow> (a, [])
      | Some info \<Rightarrow>
          let txn = ai_txn info; coordinator = ti_coordinating_server (tx_internal txn);
            (coord_reg, coord_rep, _) = UnpackMachineId coordinator in
          (a\<lparr>ac_txns := (ac_txns a)(i := None)\<rparr>,
           if pc_execution_type (cf_config cf) \<noteq> NOOP then [JaToScheduler i deps txn]
           else if coord_reg = of_nat (cf_local_region cf) \<and> coord_rep = of_nat (cf_local_replica cf)
           then [JaFinished txn (of_nat (cf_local_partition cf)) coordinator] else []))"

datatype AcceptorEvent =
    JaPreAccept MachineId Transaction int
  | JaAccept MachineId TxnId int
  | JaCommit TxnId "JanusDependency list"

fun acceptor_step :: "Configuration \<Rightarrow> JanusAcceptor \<Rightarrow> AcceptorEvent \<Rightarrow> (JanusAcceptor \<times> AcceptorOut list) result" where
  "acceptor_step cf a (JaPreAccept m txn ballot) = ProcessPreAccept cf m txn ballot a"
| "acceptor_step cf a (JaAccept m i ballot) = Inr (ProcessAccept m i ballot a)"
| "acceptor_step cf a (JaCommit i deps) = Inr (ProcessCommit cf i deps a)"

end
