(* ===== verification/Janus_Correct.thy ===== *)
theory Janus_Correct
  imports Janus
begin

section \<open>Coordinator and acceptors of Janus together\<close>

text \<open>
  The runs of a coordinator: when it commits, every partition of the transaction has a complete
  quorum, and the commit message carries exactly the dependencies this quorum collected.  The
  replies of the acceptors: two transactions that write the same key are ordered by a dependency when
  the number of regions is odd.
\<close>

subsection \<open>Runs of a coordinator\<close>

lemma step_ok_other:
  assumes "coord_inv cf i parts evs c" "c' i = c i" "ids_ok c'" "\<And>p. replies i p [ev] = []"
    and "\<forall>ds dests. JcCommit i ds dests \<notin> set outs \<and> JcAccept i ds dests \<notin> set outs"
  shows "step_ok cf i parts (evs @ [ev]) c c' outs"
  using coord_inv_other [of cf i parts evs c c' ev] assms by (simp add: step_ok_def in_accept_def)

lemma ids_ok_upd: "ids_ok c \<Longrightarrow> ci_txn_id info = j \<Longrightarrow> ids_ok (c(j \<mapsto> info))" "ids_ok c \<Longrightarrow> ids_ok (c(j := None))"
  by (simp_all add: ids_ok_def)

lemma PreAccept_cases:
  assumes "PreAcceptTxn cf m j ok deps c = Inr (c', outs)" "ids_ok c"
  obtains "c' = c" "outs = []" "c j = None \<or> (\<exists>info. c j = Some info \<and> ci_phase info = ACCEPT)"
  | info info1 where "c j = Some info" "ci_phase info = PRE_ACCEPT" "from_partition m < length (ci_sharded_deps info)"
      "info1 = info\<lparr>ci_sharded_deps := (ci_sharded_deps info)[from_partition m := Some (QuorumDeps_Add (dep_pair ` set deps)
         (case ci_sharded_deps info ! from_partition m of None \<Rightarrow> QuorumDeps_new (num_regions cf) | Some q \<Rightarrow> q))]\<rparr>"
      "c' = c(j \<mapsto> info1) \<and> outs = [] \<or>
       (\<exists>fast. deps_complete (ci_participants info) (ci_sharded_deps info1) True = Inr (True, fast)) \<and>
       (c' = c(j := None) \<and> outs = [JcCommit j (all_deps (ci_sharded_deps info1)) (ci_destinations info)] \<or>
        c' = c(j \<mapsto> info1\<lparr>ci_phase := ACCEPT\<rparr>) \<and> outs = [JcAccept j (all_deps (ci_sharded_deps info1)) (ci_destinations info)])"
proof (cases "c j = None \<or> (\<exists>info. c j = Some info \<and> ci_phase info = ACCEPT)")
  case True
  then show ?thesis using assms(1) that(1) by (auto simp: PreAcceptTxn_def split: if_splits option.splits)
next
  case False
  then obtain info where info: "c j = Some info" "ci_phase info = PRE_ACCEPT" by (metis JanusPhase.exhaust option.exhaust)
  have l: "from_partition m < length (ci_sharded_deps info)"
    using assms(1) info by (auto simp: PreAcceptTxn_def Let_def split: if_splits)
  define info1 where "info1 = info\<lparr>ci_sharded_deps := (ci_sharded_deps info)[from_partition m := Some (QuorumDeps_Add (dep_pair ` set deps)
         (case ci_sharded_deps info ! from_partition m of None \<Rightarrow> QuorumDeps_new (num_regions cf) | Some q \<Rightarrow> q))]\<rparr>"
  have j: "ci_txn_id info1 = j" "ci_destinations info1 = ci_destinations info"
    using assms(2) info(1) by (simp_all add: ids_ok_def info1_def)
  have "rbind (deps_complete (ci_participants info) (ci_sharded_deps info1) True) (\<lambda>(complete, is_fast).
      if \<not> complete then Inr (c(j \<mapsto> info1), []) else if is_fast then Inr (CommitTxn info1 c)
      else Inr (c(j \<mapsto> info1\<lparr>ci_phase := ACCEPT\<rparr>), [JcAccept j (all_deps (ci_sharded_deps info1)) (ci_destinations info)])) = Inr (c', outs)"
    using assms(1) info l by (cases ok) (simp_all add: PreAcceptTxn_def Let_def info1_def cong: if_cong)
  then obtain complete fast where d: "deps_complete (ci_participants info) (ci_sharded_deps info1) True = Inr (complete, fast)"
    and r: "(if \<not> complete then Inr (c(j \<mapsto> info1), []) else if fast then Inr (CommitTxn info1 c)
      else Inr (c(j \<mapsto> info1\<lparr>ci_phase := ACCEPT\<rparr>), [JcAccept j (all_deps (ci_sharded_deps info1)) (ci_destinations info)])) = (Inr (c', outs) :: (Coordinator \<times> CoordinatorOut list) result)"
    by (auto simp: rbind_eq_Inr)
  show ?thesis
    by (rule that(2) [OF info l info1_def]) (use d r j in \<open>auto simp: CommitTxn_def split: if_splits\<close>)
qed

lemma step_PreAccept:
  assumes "coord_inv cf i parts evs c" "ids_ok c" "num_partitions cf < 2 ^ 32"
    and "PreAcceptTxn cf m j ok deps c = Inr (c', outs)"
  shows "step_ok cf i parts (evs @ [JcPreAccepted m j ok deps]) c c' outs"
proof (cases "j = i")
  case False
  from assms(4,2) show ?thesis
  proof (cases rule: PreAccept_cases)
    case (2 info info1)
    have "ids_ok c'" using 2(1,4,5) assms(2) by (auto simp: ids_ok_def split: if_splits)
    then show ?thesis using False 2(5) by (intro step_ok_other [OF assms(1)]) auto
  qed (use False assms(2) in \<open>auto intro!: step_ok_other [OF assms(1)]\<close>)
next
  case True
  let ?ev = "JcPreAccepted m i ok deps"
  from assms(4,2) show ?thesis
  proof (cases rule: PreAccept_cases)
    case 1
    have "coord_inv cf i parts (evs @ [?ev]) c"
      using assms(1) 1(3) True by (auto simp: coord_inv_def QuorumDeps_Add_def)
    then show ?thesis using 1 True assms(2) by (simp add: step_ok_def)
  next
    case (2 info info1)
    have np: "from_partition m < num_partitions cf" using 2(1,3) assms(1) True by (auto simp: coord_inv_def)
    have inv: "coord_inv cf i parts (evs @ [?ev]) (c(i \<mapsto> info1))"
      unfolding 2(4) using coord_inv_add [OF assms(1) _ 2(2) np refl] 2(1) True by blast
    have ids: "ci_txn_id info1 = i" using assms(2) 2(1,4) True by (simp add: ids_ok_def)
    have parts: "ci_participants info = parts" using assms(1) 2(1) True by (simp add: coord_inv_def)
    have pre: "\<not> in_accept i c" using 2(1,2) True by (simp add: in_accept_def)
    from 2(5) show ?thesis
    proof
      assume "c' = c(j \<mapsto> info1) \<and> outs = []"
      then show ?thesis using inv ids True assms(2) pre by (simp add: step_ok_def ids_ok_upd)
    next
      assume r: "(\<exists>fast. deps_complete (ci_participants info) (ci_sharded_deps info1) True = Inr (True, fast)) \<and>
       (c' = c(j := None) \<and> outs = [JcCommit j (all_deps (ci_sharded_deps info1)) (ci_destinations info)] \<or>
        c' = c(j \<mapsto> info1\<lparr>ci_phase := ACCEPT\<rparr>) \<and> outs = [JcAccept j (all_deps (ci_sharded_deps info1)) (ci_destinations info)])"
      then have all: "\<forall>p\<in>set parts. \<exists>q. ci_sharded_deps info1 ! p = Some q \<and> QuorumDeps_is_done q"
        using deps_complete_True parts by blast
      have cm: "commit_ok cf i parts (evs @ [?ev]) (all_deps (ci_sharded_deps info1))"
        by (rule commit_ok_all_deps [OF inv _ assms(3) all]) simp
      have acc: "coord_inv cf i parts (evs @ [?ev]) (c(i \<mapsto> info1\<lparr>ci_phase := ACCEPT\<rparr>))"
        using inv all by (fastforce simp: coord_inv_def split: if_splits)
      have non: "coord_inv cf i parts (evs @ [?ev]) (c(i := None))" by (simp add: coord_inv_def)
      from r show ?thesis using cm acc non ids assms(2) True pre by (auto simp: step_ok_def ids_ok_upd in_accept_def)
    qed
  qed
qed

lemma step_Accept:
  assumes "coord_inv cf i parts evs c" "ids_ok c" "num_partitions cf < 2 ^ 32"
    and "AcceptTxn cf m j ok c = Inr (c', outs)" "j = i \<Longrightarrow> in_accept i c"
  shows "step_ok cf i parts (evs @ [JcAccepted m j ok]) c c' outs"
proof (cases "c j")
  case None
  then show ?thesis using assms(2,4)
    by (intro step_ok_other [OF assms(1)]) (auto simp: AcceptTxn_def split: if_splits)
next
  case (Some info)
  then have id: "ci_txn_id info = j" using assms(2) by (simp add: ids_ok_def)
  from assms(4) Some obtain quorums where
    r: "c' = c(j \<mapsto> info\<lparr>ci_quorums := quorums\<rparr>) \<and> outs = [] \<or>
      c' = c(j := None) \<and> outs = [JcCommit j (all_deps (ci_sharded_deps info)) (ci_destinations info)]"
    by (auto simp: AcceptTxn_def Let_def result_simps CommitTxn_def id split: if_splits)
  have ids: "ids_ok c'" using r assms(2) id by (auto simp: ids_ok_def split: if_splits)
  show ?thesis
  proof (cases "j = i")
    case False
    then show ?thesis using r ids by (intro step_ok_other [OF assms(1)]) auto
  next
    case True
    have acc: "ci_phase info = ACCEPT" using assms(5) True Some by (simp add: in_accept_def)
    then have "\<forall>p\<in>set parts. \<exists>q. ci_sharded_deps info ! p = Some q \<and> QuorumDeps_is_done q"
      using assms(1) Some True by (simp add: coord_inv_def)
    from commit_ok_all_deps [OF assms(1) _ assms(3) this] Some True
    have cm: "commit_ok cf i parts (evs @ [JcAccepted m j ok]) (all_deps (ci_sharded_deps info))"
      by (simp add: commit_ok_def)
    have "coord_inv cf i parts (evs @ [JcAccepted m j ok]) c'"
      using r assms(1) Some True by (auto simp: coord_inv_def)
    then show ?thesis using r ids cm acc True by (auto simp: step_ok_def in_accept_def)
  qed
qed

lemma PopulateInvolvedPartitions_id:
  "PopulateInvolvedPartitions c n txn = Inr t \<Longrightarrow> tx_id t = tx_id txn"
  by (auto simp: PopulateInvolvedPartitions_def result_simps tx_id_def)

lemma StartNewTxn_cases:
  assumes "StartNewTxn cf txn c = Inr (c', outs)"
  obtains "c' = c" "outs = []"
  | T dests info where "PopulateInvolvedPartitions (compute_partition (MakeSharder cf)) (of_nat (num_partitions cf)) txn = Inr T"
      "c (tx_id txn) = None" "c' = c(tx_id txn \<mapsto> info)" "outs = [JcPreAccept T dests]"
      "ci_txn_id info = tx_id txn" "ci_phase info = PRE_ACCEPT" "ci_sharded_deps info = replicate (num_partitions cf) None"
      "ci_participants info = map unat (ti_involved_partitions (tx_internal T))"
proof (cases "PopulateInvolvedPartitions (compute_partition (MakeSharder cf)) (of_nat (num_partitions cf)) txn")
  case (Inl e)
  then show ?thesis using assms that(1) by (cases e) (auto simp: StartNewTxn_def split: if_splits)
next
  case (Inr T)
  note id = PopulateInvolvedPartitions_id [OF this]
  define dests where "dests = concat (map (\<lambda>p. map (\<lambda>reg. MakeMachineId (of_nat reg) 0 (ucast p)) [0..<num_regions cf])
    (ti_involved_partitions (tx_internal T)))"
  define info where "info = \<lparr>ci_txn_id = tx_id T, ci_phase = PRE_ACCEPT, ci_sharded_deps = replicate (num_partitions cf) None,
    ci_quorums = replicate (num_partitions cf) None, ci_participants = map unat (ti_involved_partitions (tx_internal T)),
    ci_destinations = dests\<rparr>"
  have n: "c (tx_id T) = None" using assms by (auto simp: StartNewTxn_def Inr split: if_splits)
  then have c': "c' = c(tx_id T \<mapsto> info)" "outs = [JcPreAccept T dests]"
    using assms by (simp_all add: StartNewTxn_def Inr Let_def info_def dests_def)
  show ?thesis by (rule that(2) [OF Inr, of info dests]) (use n c' id in \<open>simp_all add: info_def\<close>)
qed

lemma step_Start:
  assumes "coord_inv cf i parts evs c" "ids_ok c" "StartNewTxn cf txn c = Inr (c', outs)" "tx_id txn \<noteq> i"
  shows "step_ok cf i parts (evs @ [JcForwardTxn txn]) c c' outs"
  using assms(3)
proof (cases rule: StartNewTxn_cases)
  case 1
  then show ?thesis using assms(2) by (intro step_ok_other [OF assms(1)]) auto
next
  case (2 T dests info)
  then show ?thesis using assms(2,4) by (intro step_ok_other [OF assms(1)]) (auto simp: ids_ok_def)
qed

text \<open>
  Acceptors answer only accept requests that were sent to them, and a transaction is
  submitted once.
\<close>

definition coord_legal :: "Configuration \<Rightarrow> TxnId \<Rightarrow> Coordinator \<Rightarrow> CoordinatorEvent list \<Rightarrow> bool" where
  "coord_legal cf i c0 evs \<longleftrightarrow> (\<forall>t. JcForwardTxn t \<in> set evs \<longrightarrow> tx_id t \<noteq> i) \<and>
     (\<forall>xs m ok ys. evs = xs @ JcAccepted m i ok # ys \<longrightarrow>
        (\<exists>c outs ds dests. run_ops (coordinator_step cf) c0 xs = Inr (c, outs) \<and> JcAccept i ds dests \<in> set outs))"

lemma coordinator_run:
  assumes "run_ops (coordinator_step cf) c0 evs = Inr (c, outs)" "coord_inv cf i parts [] c0" "ids_ok c0"
    and "num_partitions cf < 2 ^ 32" "coord_legal cf i c0 evs"
  shows "coord_inv cf i parts evs c \<and> ids_ok c \<and>
    (\<forall>ds dests. JcCommit i ds dests \<in> set outs \<longrightarrow> commit_ok cf i parts evs ds) \<and>
    ((\<exists>ds dests. JcAccept i ds dests \<in> set outs) \<longrightarrow> in_accept i c)"
  using assms(1,5)
proof (induction evs arbitrary: c outs rule: rev_induct)
  case Nil
  then show ?case using assms(2,3) by simp
next
  case (snoc ev evs)
  from snoc.prems(1) obtain c1 o1 o2 where r: "run_ops (coordinator_step cf) c0 evs = Inr (c1, o1)"
    and s: "coordinator_step cf c1 ev = Inr (c, o2)" and o: "outs = o1 @ o2"
    by (auto simp: run_ops_snoc result_simps)
  have legal: "coord_legal cf i c0 evs" using snoc.prems(2) unfolding coord_legal_def by (metis Un_iff append_Cons append_assoc set_append)
  note IH = snoc.IH [OF r legal]
  have "step_ok cf i parts (evs @ [ev]) c1 c o2"
  proof (cases ev)
    case (JcForwardTxn t)
    then show ?thesis using s IH snoc.prems(2) by (intro step_Start [of cf i parts evs c1 t c o2, folded JcForwardTxn]) (auto simp: coord_legal_def)
  next
    case (JcPreAccepted m j ok deps)
    then show ?thesis using s IH step_PreAccept [OF _ _ assms(4), of i parts evs c1 m j ok deps c o2] by simp
  next
    case (JcAccepted m j ok)
    have "in_accept i c1" if "j = i"
    proof -
      have "evs @ [ev] = evs @ JcAccepted m i ok # []" using that JcAccepted by simp
      then have "\<exists>ds dests. JcAccept i ds dests \<in> set o1" using snoc.prems(2) r unfolding coord_legal_def by (metis Inr_inject prod.inject)
      then show ?thesis using IH by blast
    qed
    then show ?thesis using JcAccepted s IH step_Accept [OF _ _ assms(4), of i parts evs c1 m j ok c o2] by simp
  qed
  then show ?case using IH o commit_ok_mono [of cf i parts evs _ "[ev]"] by (auto simp: step_ok_def)
qed

text \<open>
  C12: a Janus coordinator commits a transaction only when, for every partition of the transaction, a
  complete quorum of acceptors has answered the pre-accept, and the commit message carries for that
  partition exactly the dependencies the quorum collected, whatever the interleaving
  with other transactions and whichever of the fast and the slow path is taken.
\<close>
theorem coordinator_commits_quorum_deps:
  assumes "StartNewTxn cf t c = Inr (c0, [JcPreAccept T dests])" and "ids_ok c" "num_partitions cf < 2 ^ 32"
    and "run_ops (coordinator_step cf) c0 evs = Inr (c1, outs)" and "coord_legal cf (tx_id t) c0 evs"
    and "JcCommit (tx_id t) ds dests' \<in> set outs"
    and "p \<in> set (ti_involved_partitions (tx_internal T))" "\<forall>q\<in>set (ti_involved_partitions (tx_internal T)). unat q < num_partitions cf"
  shows "QuorumDeps_is_done (collect_deps (num_regions cf) (replies (tx_id t) (unat p) evs)) \<and>
    dep_pair ` {d \<in> set ds. jd_target_partition d = p} = qd_deps (collect_deps (num_regions cf) (replies (tx_id t) (unat p) evs))"
  using assms(1)
proof (cases rule: StartNewTxn_cases)
  case (2 T' dests' info)
  let ?parts = "map unat (ti_involved_partitions (tx_internal T))"
  have "T' = T" using 2(4) by simp
  then have "coord_inv cf (tx_id t) ?parts [] c0"
    using 2(3,5-8) assms(8) by (auto simp: coord_inv_def)
  moreover have "ids_ok c0" using 2(3,5) assms(2) by (simp add: ids_ok_upd)
  ultimately have "commit_ok cf (tx_id t) ?parts evs ds"
    using coordinator_run [OF assms(4) _ _ assms(3,5)] assms(6) by blast
  then show ?thesis using assms(7) unfolding commit_ok_def by force
qed simp

subsection \<open>What an acceptor answers\<close>

definition accesses_at :: "Configuration \<Rightarrow> Key \<Rightarrow> Transaction \<Rightarrow> bool" where
  "accesses_at cf k t \<longleftrightarrow> is_local_key (MakeSharder cf) k = Inr True \<and> k \<in> kv_key ` set (tx_keys t)"

definition writes_at :: "Configuration \<Rightarrow> Key \<Rightarrow> Transaction \<Rightarrow> bool" where
  "writes_at cf k t \<longleftrightarrow> is_local_key (MakeSharder cf) k = Inr True \<and>
     (\<exists>kv\<in>set (tx_keys t). kv_key kv = k \<and> ve_type (kv_entry kv) = KeyWrite)"

lemma pre_accept_keys_spec:
  assumes "pre_accept_keys is_local i bitmap kvs latest deps = Inr (latest', deps')" "distinct (map kv_key kvs)"
  shows "fst ` set deps' = fst ` set deps \<union> {j. \<exists>kv\<in>set kvs. \<exists>b. is_local (kv_key kv) = Inr True \<and> latest (kv_key kv) = Some (j, b)} \<and>
    (\<forall>k. latest' k = (if \<exists>kv\<in>set kvs. kv_key kv = k \<and> is_local k = Inr True \<and> ve_type (kv_entry kv) = KeyWrite
       then Some (i, bitmap) else latest k))"
  using assms
proof (induction kvs arbitrary: latest deps)
  case (Cons kv kvs)
  from Cons.prems(1) obtain here where here: "is_local (kv_key kv) = Inr here" by (auto simp: rbind_eq_Inr)
  have notin: "kv_key x \<noteq> kv_key kv" if "x \<in> set kvs" for x using Cons.prems(2) that by (metis distinct.simps(2) image_eqI image_set list.simps(9))
  show ?case
  proof (cases here)
    case False
    with Cons.prems(1) here have "pre_accept_keys is_local i bitmap kvs latest deps = Inr (latest', deps')" by simp
    from Cons.IH [OF this] Cons.prems(2) False here show ?thesis by auto
  next
    case True
    define latest1 where "latest1 = (if ve_type (kv_entry kv) = KeyWrite then latest(kv_key kv \<mapsto> (i, bitmap)) else latest)"
    define deps1 where "deps1 = (case latest (kv_key kv) of None \<Rightarrow> deps | Some d \<Rightarrow> if fst d \<in> fst ` set deps then deps else deps @ [d])"
    have "pre_accept_keys is_local i bitmap kvs latest1 deps1 = Inr (latest', deps')"
      using Cons.prems(1) here True by (simp add: latest1_def deps1_def)
    from Cons.IH [OF this] Cons.prems(2)
    have d: "fst ` set deps' = fst ` set deps1 \<union> {j. \<exists>kv\<in>set kvs. \<exists>b. is_local (kv_key kv) = Inr True \<and> latest1 (kv_key kv) = Some (j, b)}"
      and l: "\<And>k. latest' k = (if \<exists>kv\<in>set kvs. kv_key kv = k \<and> is_local k = Inr True \<and> ve_type (kv_entry kv) = KeyWrite
       then Some (i, bitmap) else latest1 k)" by auto
    have "latest1 (kv_key x) = latest (kv_key x)" if "x \<in> set kvs" for x using notin [OF that] by (simp add: latest1_def)
    moreover have "fst ` set deps1 = fst ` set deps \<union> {j. \<exists>b. latest (kv_key kv) = Some (j, b)}"
      by (cases "latest (kv_key kv)") (force simp: deps1_def image_iff)+
    ultimately have "fst ` set deps' = fst ` set deps \<union>
        {j. \<exists>x\<in>set (kv # kvs). \<exists>b. is_local (kv_key x) = Inr True \<and> latest (kv_key x) = Some (j, b)}"
      unfolding d using here True by auto
    moreover have "latest' k = (if \<exists>x\<in>set (kv # kvs). kv_key x = k \<and> is_local k = Inr True \<and> ve_type (kv_entry x) = KeyWrite
       then Some (i, bitmap) else latest k)" for k
      unfolding l using here True by (auto simp: latest1_def)
    ultimately show ?thesis by blast
  qed
qed simp

text \<open>The last transaction of a history that was pre-accepted and writes a key.\<close>

fun last_writer :: "Configuration \<Rightarrow> Key \<Rightarrow> AcceptorEvent list \<Rightarrow> TxnId option \<Rightarrow> TxnId option" where
  "last_writer cf k [] w = w"
| "last_writer cf k (JaPreAccept m t b # evs) w = last_writer cf k evs (if writes_at cf k t then Some (tx_id t) else w)"
| "last_writer cf k (_ # evs) w = last_writer cf k evs w"

fun reply_to :: "TxnId \<Rightarrow> AcceptorOut list \<Rightarrow> JanusDependency list" where
  "reply_to i [] = []"
| "reply_to i (JaPreAccepted j ok ds m # os) = (if j = i then ds else []) @ reply_to i os"
| "reply_to i (_ # os) = reply_to i os"

lemma reply_to_append [simp]: "reply_to i (xs @ ys) = reply_to i xs @ reply_to i ys"
  by (induction i xs rule: reply_to.induct) auto

definition plain_event :: "AcceptorEvent \<Rightarrow> bool" where
  "plain_event ev \<longleftrightarrow> (case ev of JaPreAccept m t b \<Rightarrow> b = 0 \<and> distinct (map kv_key (tx_keys t)) | JaAccept m i b \<Rightarrow> b = 0 | _ \<Rightarrow> True)"

definition acceptor_inv :: "Configuration \<Rightarrow> (Key \<Rightarrow> TxnId option) \<Rightarrow> JanusAcceptor \<Rightarrow> bool" where
  "acceptor_inv cf W a \<longleftrightarrow> (\<forall>i info. ac_txns a i = Some info \<longrightarrow> ai_highest_ballot info = 0) \<and>
     (\<forall>k. is_local_key (MakeSharder cf) k = Inr True \<longrightarrow> map_option fst (ac_latest_writing_txns a k) = W k)"

lemma acceptor_pre_accept:
  assumes "ProcessPreAccept cf m t 0 a = Inr (a', outs)" "acceptor_inv cf W a" "distinct (map kv_key (tx_keys t))"
  shows "acceptor_inv cf (\<lambda>k. if writes_at cf k t then Some (tx_id t) else W k) a' \<and>
    (\<exists>ds. outs = [JaPreAccepted (tx_id t) True ds m] \<and> jd_txn_id ` set ds = {w. \<exists>k. accesses_at cf k t \<and> W k = Some w})"
proof -
  from assms(1,2) obtain info where "pre_accept_new cf m t info a = Inr (a', outs)" and b: "ai_highest_ballot info = 0"
    by (fastforce simp: ProcessPreAccept_def Let_def acceptor_inv_def split: option.splits if_splits)
  then obtain bitmap latest deps where
    k: "pre_accept_keys (is_local_key (MakeSharder cf)) (tx_id t) bitmap (tx_keys t) (ac_latest_writing_txns a) [] = Inr (latest, deps)"
    and a': "a' = \<lparr>ac_txns = (ac_txns a)(tx_id t \<mapsto> info), ac_latest_writing_txns = latest\<rparr>"
    and outs: "outs = [JaPreAccepted (tx_id t) True (map (dep_msg (cf_local_partition cf)) deps) m]"
    by (auto simp: pre_accept_new_def result_simps)
  note spec = pre_accept_keys_spec [OF k assms(3)]
  have W: "map_option fst (ac_latest_writing_txns a k) = W k" if "is_local_key (MakeSharder cf) k = Inr True" for k
    using assms(2) that by (simp add: acceptor_inv_def)
  have "jd_txn_id ` set (map (dep_msg (cf_local_partition cf)) deps) = fst ` set deps"
    by (simp add: image_image dep_msg_def)
  also have "\<dots> = {w. \<exists>k. accesses_at cf k t \<and> W k = Some w}"
  proof -
    have "(\<exists>kv\<in>set (tx_keys t). \<exists>b. is_local_key (MakeSharder cf) (kv_key kv) = Inr True \<and>
        ac_latest_writing_txns a (kv_key kv) = Some (w, b)) \<longleftrightarrow> (\<exists>k. accesses_at cf k t \<and> W k = Some w)" for w
      using W [symmetric] by (fastforce simp: accesses_at_def)
    then show ?thesis using spec by simp
  qed
  finally have ids: "jd_txn_id ` set (map (dep_msg (cf_local_partition cf)) deps) = {w. \<exists>k. accesses_at cf k t \<and> W k = Some w}" .
  have "acceptor_inv cf (\<lambda>k. if writes_at cf k t then Some (tx_id t) else W k) a'"
    using assms(2) spec b by (auto simp: acceptor_inv_def a' writes_at_def)
  then show ?thesis using ids outs by blast
qed

lemma acceptor_step_inv:
  assumes "acceptor_step cf a ev = Inr (a', outs)" "acceptor_inv cf W a" "plain_event ev"
  shows "acceptor_inv cf (\<lambda>k. last_writer cf k [ev] (W k)) a'"
proof (cases ev)
  case (JaPreAccept m t b)
  then show ?thesis using assms acceptor_pre_accept [of cf m t a a' outs W] by (auto simp: plain_event_def cong: if_cong)
next
  case (JaAccept m i b)
  then show ?thesis using assms by (auto simp: ProcessAccept_def acceptor_inv_def split: option.splits if_splits)
next
  case (JaCommit i ds)
  then show ?thesis using assms
    by (auto simp: ProcessCommit_def acceptor_inv_def Let_def split: option.splits if_splits prod.splits)
qed

lemma last_writer_append: "last_writer cf k (xs @ ys) w = last_writer cf k ys (last_writer cf k xs w)"
  by (induction cf k xs w rule: last_writer.induct) auto

lemma acceptor_run_inv:
  assumes "run_ops (acceptor_step cf) JanusAcceptor_new evs = Inr (a, outs)" "\<forall>ev\<in>set evs. plain_event ev"
  shows "acceptor_inv cf (\<lambda>k. last_writer cf k evs None) a"
  using assms
proof (induction evs arbitrary: a outs rule: rev_induct)
  case Nil
  then show ?case by (auto simp: acceptor_inv_def JanusAcceptor_new_def)
next
  case (snoc ev evs)
  then obtain a1 o1 o2 where "run_ops (acceptor_step cf) JanusAcceptor_new evs = Inr (a1, o1)"
    and s: "acceptor_step cf a1 ev = Inr (a, o2)" by (auto simp: run_ops_snoc result_simps)
  then have "acceptor_inv cf (\<lambda>k. last_writer cf k evs None) a1" using snoc by simp
  then show ?case using acceptor_step_inv [OF s] snoc.prems(2) by (simp add: last_writer_append)
qed

text \<open>
  C17: an acceptor of Janus that has seen only ballot 0, and transactions that name no key twice, answers
  a pre-accept with exactly the last writers, among the transactions it pre-accepted before, of the keys
  of its partition that the transaction accesses.
\<close>
theorem acceptor_dependencies:
  assumes "run_ops (acceptor_step cf) JanusAcceptor_new (evs @ [JaPreAccept m t 0]) = Inr (a, outs)"
    and "\<forall>ev\<in>set evs. plain_event ev" "distinct (map kv_key (tx_keys t))"
  shows "\<exists>outs' ds. outs = outs' @ [JaPreAccepted (tx_id t) True ds m] \<and>
    jd_txn_id ` set ds = {w. \<exists>k. accesses_at cf k t \<and> last_writer cf k evs None = Some w}"
proof -
  from assms(1) obtain a1 o1 o2 where r: "run_ops (acceptor_step cf) JanusAcceptor_new evs = Inr (a1, o1)"
    and s: "ProcessPreAccept cf m t 0 a1 = Inr (a, o2)" and o: "outs = o1 @ o2" by (auto simp: run_ops_snoc result_simps)
  show ?thesis using acceptor_pre_accept [OF s acceptor_run_inv [OF r assms(2)] assms(3)] o by blast
qed

lemma acceptor_reply:
  assumes "run_ops (acceptor_step cf) JanusAcceptor_new (xs @ JaPreAccept m t 0 # ys) = Inr (a, outs)"
    and "\<forall>ev\<in>set xs. plain_event ev" "distinct (map kv_key (tx_keys t))"
    and "accesses_at cf k t" "last_writer cf k xs None = Some w"
  shows "w \<in> jd_txn_id ` set (reply_to (tx_id t) outs)"
proof -
  from assms(1) obtain a1 o1 a2 o2 a3 o3 where r: "run_ops (acceptor_step cf) JanusAcceptor_new xs = Inr (a1, o1)"
    and s: "ProcessPreAccept cf m t 0 a1 = Inr (a2, o2)" and o: "outs = o1 @ o2 @ o3"
    by (auto simp: run_ops_append result_simps)
  obtain ds where "o2 = [JaPreAccepted (tx_id t) True ds m]" "w \<in> jd_txn_id ` set ds"
    using acceptor_pre_accept [OF s acceptor_run_inv [OF r assms(2)] assms(3)] assms(4,5) by blast
  then show ?thesis using o by auto
qed

subsection \<open>Transactions that write the same key\<close>

text \<open>
  A history of an acceptor in which two transactions that write \<open>k\<close> are both pre-accepted, and no
  other transaction writes \<open>k\<close>: the case in which the latest writer is always one of the two.
\<close>

definition conflict_history :: "Configuration \<Rightarrow> Key \<Rightarrow> Transaction \<Rightarrow> Transaction \<Rightarrow> AcceptorEvent list \<Rightarrow> bool" where
  "conflict_history cf k t1 t2 evs \<longleftrightarrow> (\<forall>ev\<in>set evs. plain_event ev) \<and>
     (\<forall>t\<in>{t1, t2}. writes_at cf k t \<and> (\<exists>m b. JaPreAccept m t b \<in> set evs)) \<and>
     (\<forall>m t b. JaPreAccept m t b \<in> set evs \<longrightarrow> writes_at cf k t \<longrightarrow> t \<in> {t1, t2})"

lemma conflict_history_commute: "conflict_history cf k t1 t2 evs \<longleftrightarrow> conflict_history cf k t2 t1 evs"
  by (auto simp: conflict_history_def)

lemma last_writer_source:
  "last_writer cf k evs w0 = Some w \<Longrightarrow> w0 = Some w \<or> (\<exists>m t b. JaPreAccept m t b \<in> set evs \<and> writes_at cf k t \<and> tx_id t = w)"
  by (induction cf k evs w0 rule: last_writer.induct) (fastforce split: if_splits)+

lemma last_writer_exists:
  "w0 \<noteq> None \<or> (\<exists>m t b. JaPreAccept m t b \<in> set evs \<and> writes_at cf k t) \<Longrightarrow> last_writer cf k evs w0 \<noteq> None"
  by (induction cf k evs w0 rule: last_writer.induct) (fastforce split: if_splits)+

definition pre_accepted_in :: "Transaction \<Rightarrow> AcceptorEvent list \<Rightarrow> bool" where
  "pre_accepted_in t evs \<longleftrightarrow> (\<exists>m b. JaPreAccept m t b \<in> set evs)"

lemma first_pre_accept:
  assumes "pre_accepted_in t evs"
  obtains xs m b ys where "evs = xs @ JaPreAccept m t b # ys" "\<not> pre_accepted_in t xs"
proof -
  from assms have "\<exists>ev\<in>set evs. \<exists>m b. ev = JaPreAccept m t b" by (auto simp: pre_accepted_in_def)
  from split_list_first_prop [OF this] show ?thesis using that by (fastforce simp: pre_accepted_in_def)
qed

lemma later_depends:
  assumes "run_ops (acceptor_step cf) JanusAcceptor_new (xs @ JaPreAccept m t2 b # ys) = Inr (a, outs)"
    and "conflict_history cf k t1 t2 (xs @ JaPreAccept m t2 b # ys)" "pre_accepted_in t1 xs" "\<not> pre_accepted_in t2 xs"
  shows "tx_id t1 \<in> jd_txn_id ` set (reply_to (tx_id t2) outs)"
proof -
  have w: "writes_at cf k t1" "writes_at cf k t2"
    and only: "\<And>m t b. JaPreAccept m t b \<in> set xs \<Longrightarrow> writes_at cf k t \<Longrightarrow> t = t1 \<or> t = t2"
    and plain: "\<forall>ev\<in>set xs. plain_event ev" "plain_event (JaPreAccept m t2 b)"
    using assms(2) by (auto simp: conflict_history_def)
  obtain w where "last_writer cf k xs None = Some w"
    using last_writer_exists [of None xs cf k] assms(3) w(1) unfolding pre_accepted_in_def by blast
  moreover from this have "w = tx_id t1"
    using last_writer_source [of cf k xs None w] only assms(4) unfolding pre_accepted_in_def by blast
  moreover have "accesses_at cf k t2" using w(2) by (auto simp: accesses_at_def writes_at_def)
  moreover have "b = 0" "distinct (map kv_key (tx_keys t2))" using plain(2) by (simp_all add: plain_event_def)
  ultimately show ?thesis using acceptor_reply assms(1) plain(1) by blast
qed

lemma conflict_replied:
  assumes "run_ops (acceptor_step cf) JanusAcceptor_new evs = Inr (a, outs)" "conflict_history cf k t1 t2 evs" "t1 \<noteq> t2"
  shows "tx_id t1 \<in> jd_txn_id ` set (reply_to (tx_id t2) outs) \<or> tx_id t2 \<in> jd_txn_id ` set (reply_to (tx_id t1) outs)"
proof -
  have "pre_accepted_in t1 evs" "pre_accepted_in t2 evs" using assms(2) by (auto simp: conflict_history_def pre_accepted_in_def)
  then obtain xs1 m1 b1 ys1 xs2 m2 b2 ys2 where
    s1: "evs = xs1 @ JaPreAccept m1 t1 b1 # ys1" "\<not> pre_accepted_in t1 xs1" and
    s2: "evs = xs2 @ JaPreAccept m2 t2 b2 # ys2" "\<not> pre_accepted_in t2 xs2" by (metis first_pre_accept)
  show ?thesis
  proof (cases "pre_accepted_in t2 xs1")
    case True
    then show ?thesis using later_depends [of cf xs1 m1 t1 b1 ys1 a outs k t2] assms s1 conflict_history_commute by blast
  next
    case False
    have "pre_accepted_in t1 xs2"
      using s1 s2 False assms(3)
      by (auto simp: append_eq_append_conv2 append_eq_Cons_conv Cons_eq_append_conv pre_accepted_in_def; blast)
    then show ?thesis using later_depends [of cf xs2 m2 t2 b2 ys2 a outs k t1] assms s2 by blast
  qed
qed

lemma quorums_meet:
  assumes "odd n" "distinct xs" "distinct ys" "set xs \<subseteq> {..<n}" "set ys \<subseteq> {..<n}"
    and "(n + 1) div 2 \<le> length xs" "(n + 1) div 2 \<le> length ys"
  shows "\<exists>r. r \<in> set xs \<and> r \<in> set ys"
proof (rule ccontr)
  assume "\<not> ?thesis"
  then have "card (set xs \<union> set ys) = length xs + length ys"
    using assms(2,3) by (subst card_Un_disjoint) (auto simp: distinct_card)
  moreover have "card (set xs \<union> set ys) \<le> n"
    using card_mono [of "{..<n}" "set xs \<union> set ys"] assms(4,5) by simp
  moreover have "n < 2 * ((n + 1) div 2)" using assms(1) by presburger
  ultimately show False using assms(6,7) by linarith
qed

text \<open>
  With further writers of the key an acceptor reports only the latest one, and the earlier ones are
  reached through its own answers: \<open>reported\<close> are the dependencies it has answered, from a
  transaction to those it depends on.
\<close>

definition reported :: "AcceptorOut list \<Rightarrow> (TxnId \<times> TxnId) set" where
  "reported outs = {(i, j). j \<in> jd_txn_id ` set (reply_to i outs)}"

lemma last_writer_split:
  assumes "last_writer cf k xs None = Some w"
  obtains xs' m t b zs where "xs = xs' @ JaPreAccept m t b # zs" "writes_at cf k t" "tx_id t = w"
    "\<And>m t b. JaPreAccept m t b \<in> set zs \<Longrightarrow> \<not> writes_at cf k t"
proof -
  have "\<exists>xs' m t b zs. xs = xs' @ JaPreAccept m t b # zs \<and> writes_at cf k t \<and> tx_id t = w \<and>
      (\<forall>m t b. JaPreAccept m t b \<in> set zs \<longrightarrow> \<not> writes_at cf k t)"
    using assms
  proof (induction xs rule: rev_induct)
    case (snoc ev xs)
    show ?case
    proof (cases "\<exists>m t b. ev = JaPreAccept m t b \<and> writes_at cf k t")
      case True
      with snoc.prems show ?thesis
        by (intro exI [of _ xs]) (auto simp: last_writer_append)
    next
      case False
      then have "last_writer cf k xs None = Some w"
        using snoc.prems by (cases ev) (auto simp: last_writer_append)
      from snoc.IH [OF this] obtain xs' m t b zs where "xs = xs' @ JaPreAccept m t b # zs" "writes_at cf k t" "tx_id t = w"
        "\<forall>m t b. JaPreAccept m t b \<in> set zs \<longrightarrow> \<not> writes_at cf k t" by blast
      then have "xs @ [ev] = xs' @ JaPreAccept m t b # (zs @ [ev])"
        "\<forall>m t b. JaPreAccept m t b \<in> set (zs @ [ev]) \<longrightarrow> \<not> writes_at cf k t" using False by auto
      with \<open>writes_at cf k t\<close> \<open>tx_id t = w\<close> show ?thesis by blast
    qed
  qed simp
  then show ?thesis using that by blast
qed

lemma writers_chain:
  assumes "run_ops (acceptor_step cf) JanusAcceptor_new (xs @ JaPreAccept m t2 b # ys) = Inr (a, outs)"
    and "\<forall>ev\<in>set (xs @ JaPreAccept m t2 b # ys). plain_event ev"
    and "writes_at cf k t1" "writes_at cf k t2" "pre_accepted_in t1 xs"
  shows "(tx_id t2, tx_id t1) \<in> (reported outs)\<^sup>+"
  using assms
proof (induction xs arbitrary: m t2 b ys rule: length_induct)
  case (1 xs)
  have plain: "\<forall>ev\<in>set xs. plain_event ev" "b = 0" "distinct (map kv_key (tx_keys t2))"
    using "1.prems"(2) by (auto simp: plain_event_def)
  obtain w where w: "last_writer cf k xs None = Some w"
    using last_writer_exists [of None xs cf k] "1.prems"(3,5) unfolding pre_accepted_in_def by blast
  have "accesses_at cf k t2" using "1.prems"(4) by (auto simp: accesses_at_def writes_at_def)
  then have link: "(tx_id t2, w) \<in> reported outs"
    using acceptor_reply [OF "1.prems"(1) [unfolded plain(2)] plain(1,3) _ w] by (simp add: reported_def)
  from w obtain xs' m' t b' zs where x: "xs = xs' @ JaPreAccept m' t b' # zs" "writes_at cf k t" "tx_id t = w"
    "\<And>m t b. JaPreAccept m t b \<in> set zs \<Longrightarrow> \<not> writes_at cf k t" by (rule last_writer_split) blast
  show ?case
  proof (cases "t = t1")
    case True
    with link x(3) show ?thesis by blast
  next
    case False
    then have "pre_accepted_in t1 xs'"
      using "1.prems"(3,5) x(1) x(4) by (auto simp: pre_accepted_in_def)
    then have "(tx_id t, tx_id t1) \<in> (reported outs)\<^sup>+"
      using "1.IH" [rule_format, of xs' m' t b' "zs @ JaPreAccept m t2 b # ys"] "1.prems" x(1,2) by simp
    with link x(3) show ?thesis by (metis trancl_into_trancl2)
  qed
qed

definition both_write :: "Configuration \<Rightarrow> Key \<Rightarrow> Transaction \<Rightarrow> Transaction \<Rightarrow> AcceptorEvent list \<Rightarrow> bool" where
  "both_write cf k t1 t2 evs \<longleftrightarrow> (\<forall>ev\<in>set evs. plain_event ev) \<and>
     (\<forall>t\<in>{t1, t2}. writes_at cf k t \<and> (\<exists>m b. JaPreAccept m t b \<in> set evs))"

lemma writers_linked:
  assumes "run_ops (acceptor_step cf) JanusAcceptor_new evs = Inr (a, outs)" "both_write cf k t1 t2 evs" "t1 \<noteq> t2"
  shows "(tx_id t2, tx_id t1) \<in> (reported outs)\<^sup>+ \<or> (tx_id t1, tx_id t2) \<in> (reported outs)\<^sup>+"
proof -
  have p: "pre_accepted_in t1 evs" "pre_accepted_in t2 evs" and plain: "\<forall>ev\<in>set evs. plain_event ev"
    and w: "writes_at cf k t1" "writes_at cf k t2" using assms(2) by (auto simp: both_write_def pre_accepted_in_def)
  from p obtain xs1 m1 b1 ys1 xs2 m2 b2 ys2 where
    s1: "evs = xs1 @ JaPreAccept m1 t1 b1 # ys1" "\<not> pre_accepted_in t1 xs1" and
    s2: "evs = xs2 @ JaPreAccept m2 t2 b2 # ys2" "\<not> pre_accepted_in t2 xs2" by (metis first_pre_accept)
  show ?thesis
  proof (cases "pre_accepted_in t2 xs1")
    case True
    then show ?thesis using writers_chain [of cf xs1 m1 t1 b1 ys1 a outs k t2] assms(1) plain w s1(1) by blast
  next
    case False
    have "pre_accepted_in t1 xs2"
      using s1 s2 False assms(3)
      by (auto simp: append_eq_append_conv2 append_eq_Cons_conv Cons_eq_append_conv pre_accepted_in_def; blast)
    then show ?thesis using writers_chain [of cf xs2 m2 t2 b2 ys2 a outs k t1] assms(1) plain w s2(1) by blast
  qed
qed

text \<open>The dependencies of a complete quorum contain the answers of a majority of the acceptors.\<close>

lemma quorum_answers:
  assumes "q = collect_deps n (map (\<lambda>r. dep_pair ` set (reply_to i (outs r))) rs)" "QuorumDeps_is_done q" "0 < n"
  obtains m where "(n + 1) div 2 \<le> m" "m \<le> length rs"
    "\<And>r w. r \<in> set (take m rs) \<Longrightarrow> (i, w) \<in> reported (outs r) \<Longrightarrow> w \<in> fst ` qd_deps q"
proof -
  obtain m where m: "(n + 1) div 2 \<le> m" "m \<le> length rs"
    "qd_deps q = \<Union> (set (take m (map (\<lambda>r. dep_pair ` set (reply_to i (outs r))) rs)))"
    using done_quorum [OF assms(2) [unfolded assms(1)] assms(3)] assms(1) by auto
  have "w \<in> fst ` qd_deps q" if "r \<in> set (take m rs)" "(i, w) \<in> reported (outs r)" for r w
    using that m(3) by (fastforce simp: reported_def take_map dep_pair_def image_iff)
  with m(1,2) show ?thesis using that by blast
qed

text \<open>
  C11: when the number of regions is odd, two transactions that write the same key never commit without
  a link between them.  Whatever the orders in which the acceptors of the key's partition pre-accept
  them, among any other transactions, and whichever replies reach the two coordinators first, there is
  an acceptor that answered both coordinators and whose answers lead, dependency by dependency, from one
  of the transactions to the other, the first dependency being one that the quorum of that transaction
  has collected.  If moreover no other transaction that the acceptors pre-accept writes the key, then
  the quorum of one transaction contains the other transaction itself.
\<close>
theorem janus_orders_conflicts:
  assumes "odd n" "t1 \<noteq> t2"
    and "\<forall>r<n. run_ops (acceptor_step (cf r)) JanusAcceptor_new (H r) = Inr (A r, outs r)"
    and "\<forall>r<n. both_write (cf r) k t1 t2 (H r)"
    and "distinct rs1" "set rs1 \<subseteq> {..<n}" "distinct rs2" "set rs2 \<subseteq> {..<n}"
    and "q1 = collect_deps n (map (\<lambda>r. dep_pair ` set (reply_to (tx_id t1) (outs r))) rs1)" "QuorumDeps_is_done q1"
    and "q2 = collect_deps n (map (\<lambda>r. dep_pair ` set (reply_to (tx_id t2) (outs r))) rs2)" "QuorumDeps_is_done q2"
  shows "(\<exists>r\<in>set rs1 \<inter> set rs2.
      (\<exists>w\<in>fst ` qd_deps q2. (w, tx_id t1) \<in> (reported (outs r))\<^sup>*) \<or>
      (\<exists>w\<in>fst ` qd_deps q1. (w, tx_id t2) \<in> (reported (outs r))\<^sup>*)) \<and>
    ((\<forall>r<n. \<forall>m t b. JaPreAccept m t b \<in> set (H r) \<and> writes_at (cf r) k t \<longrightarrow> t \<in> {t1, t2}) \<longrightarrow>
      tx_id t1 \<in> fst ` qd_deps q2 \<or> tx_id t2 \<in> fst ` qd_deps q1)"
proof -
  have n: "0 < n" using assms(1) by (cases n) auto
  obtain m1 where m1: "(n + 1) div 2 \<le> m1" "m1 \<le> length rs1"
    and d1: "\<And>r w. r \<in> set (take m1 rs1) \<Longrightarrow> (tx_id t1, w) \<in> reported (outs r) \<Longrightarrow> w \<in> fst ` qd_deps q1"
    by (rule quorum_answers [OF assms(9,10) n]) blast
  obtain m2 where m2: "(n + 1) div 2 \<le> m2" "m2 \<le> length rs2"
    and d2: "\<And>r w. r \<in> set (take m2 rs2) \<Longrightarrow> (tx_id t2, w) \<in> reported (outs r) \<Longrightarrow> w \<in> fst ` qd_deps q2"
    by (rule quorum_answers [OF assms(11,12) n]) blast
  obtain r where r: "r \<in> set (take m1 rs1)" "r \<in> set (take m2 rs2)"
    using quorums_meet [of n "take m1 rs1" "take m2 rs2"] assms(1,5-8) m1 m2 set_take_subset [of m1 rs1]
      set_take_subset [of m2 rs2] by fastforce
  then have rn: "r < n" "r \<in> set rs1 \<inter> set rs2" using assms(6) set_take_subset [of m1 rs1] set_take_subset [of m2 rs2] by auto
  have "(tx_id t2, tx_id t1) \<in> (reported (outs r))\<^sup>+ \<or> (tx_id t1, tx_id t2) \<in> (reported (outs r))\<^sup>+"
    using writers_linked assms(2-4) rn(1) by blast
  then have "(\<exists>w\<in>fst ` qd_deps q2. (w, tx_id t1) \<in> (reported (outs r))\<^sup>*) \<or>
      (\<exists>w\<in>fst ` qd_deps q1. (w, tx_id t2) \<in> (reported (outs r))\<^sup>*)"
    using d1 [OF r(1)] d2 [OF r(2)] tranclD by metis
  moreover have "tx_id t1 \<in> fst ` qd_deps q2 \<or> tx_id t2 \<in> fst ` qd_deps q1"
    if "\<forall>r<n. \<forall>m t b. JaPreAccept m t b \<in> set (H r) \<and> writes_at (cf r) k t \<longrightarrow> t \<in> {t1, t2}"
  proof -
    have "conflict_history (cf r) k t1 t2 (H r)"
      using that assms(4) rn(1) unfolding conflict_history_def both_write_def by blast
    then have "(tx_id t2, tx_id t1) \<in> reported (outs r) \<or> (tx_id t1, tx_id t2) \<in> reported (outs r)"
      using conflict_replied assms(2,3) rn(1) unfolding reported_def by blast
    then show ?thesis using d1 [OF r(1)] d2 [OF r(2)] by blast
  qed
  ultimately show ?thesis using rn(2) by blast
qed

subsection \<open>Examples\<close>

text \<open>\<open>n\<close> regions of one machine each, and transactions that write some of the keys 1 to 3.\<close>

definition jn_config :: "nat \<Rightarrow> nat \<Rightarrow> Configuration" where
  "jn_config n r = \<lparr>cf_config = sample_config (replicate n (sample_region [''a''])) 1 SimplePartitioning,
     cf_local_address = ''a'', cf_local_region = r, cf_local_replica = 0, cf_local_partition = 0,
     cf_local_machine_id = 0, cf_all_addresses = Map.empty, cf_all_machine_ids = [], cf_replication_order = []\<rparr>"

definition jn_txn :: "TxnId \<Rightarrow> Key list \<Rightarrow> Transaction" where
  "jn_txn i ks = default_txn\<lparr>tx_keys := map (\<lambda>k. sample_kv k KeyWrite 0) ks,
     tx_internal := default_internal\<lparr>ti_id := i, ti_involved_partitions := [0]\<rparr>\<rparr>"

lemma jn_config_sel [simp]: "num_partitions (jn_config n r) = 1" "num_regions (jn_config n r) = n" "cf_local_partition (jn_config n r) = 0"
  by (simp_all add: jn_config_def num_partitions_def num_regions_def sample_config_def)

lemma jn_compute [simp]:
  "compute_partition (MakeSharder (jn_config n r)) ''1'' = Inr 0" "compute_partition (MakeSharder (jn_config n r)) ''2'' = Inr 0"
  "compute_partition (MakeSharder (jn_config n r)) ''3'' = Inr 0"
  by (simp_all add: jn_config_def sample_config_def compute_partition_def MakeSharder_def num_partitions_def
      SimpleSharder_compute_partition_def stoll_def parse_int_def isspace_def is_digit_def signed_modulo_int_def signed_divide_int_def)

lemma jn_local [simp]:
  "is_local_key (MakeSharder (jn_config n r)) ''1'' = Inr True" "is_local_key (MakeSharder (jn_config n r)) ''2'' = Inr True"
  "is_local_key (MakeSharder (jn_config n r)) ''3'' = Inr True"
  by (simp_all add: is_local_key_def) (simp_all add: MakeSharder_def)

lemma jn_txn_sel [simp]: "tx_id (jn_txn i ks) = i" "ti_involved_partitions (tx_internal (jn_txn i ks)) = [0]"
  "tx_keys (jn_txn i ks) = map (\<lambda>k. sample_kv k KeyWrite 0) ks"
  by (simp_all add: jn_txn_def tx_id_def default_internal_def)

lemma jn_shift [simp]: "shift_one 0 = Inr 1"
  by (simp add: shift_one_def)

lemma jn_keys [simp]: "kv_key (sample_kv k ty m) = k" "ve_type (kv_entry (sample_kv k ty m)) = ty"
  by (simp_all add: sample_kv_def)

lemmas jn_simps = JanusAcceptor_new_def ProcessPreAccept_def pre_accept_new_def dep_msg_def dep_pair_def
  collect_deps_def QuorumDeps_new_def QuorumDeps_Add_def QuorumDeps_is_done_def conflict_history_def plain_event_def writes_at_def

definition jn_pre :: "Transaction \<Rightarrow> AcceptorEvent" where
  "jn_pre t = JaPreAccept 0 t 0"

lemma jn_two_keys:
  "(\<And>k. A k \<longleftrightarrow> k = a \<or> k = b) \<Longrightarrow> L a = Some w1 \<Longrightarrow> L b = None \<Longrightarrow> (\<exists>k. A k \<and> L k = Some w) \<longleftrightarrow> w = w1"
  by auto

theorem acceptor_dependencies_witness:
  "\<exists>a outs' ds. run_ops (acceptor_step (jn_config 3 0)) JanusAcceptor_new ([jn_pre (jn_txn 1 [''1'']), jn_pre (jn_txn 2 [''2''])] @ [JaPreAccept 0 (jn_txn 3 [''1'', ''3'']) 0]) =
     Inr (a, outs' @ [JaPreAccepted 3 True ds 0]) \<and> jd_txn_id ` set ds = {w. w = 1}"
proof -
  let ?evs = "[jn_pre (jn_txn 1 [''1'']), jn_pre (jn_txn 2 [''2''])]" and ?t = "jn_txn 3 [''1'', ''3'']" and ?cf = "jn_config 3 0"
  obtain a outs where r: "run_ops (acceptor_step ?cf) JanusAcceptor_new (?evs @ [JaPreAccept 0 ?t 0]) = Inr (a, outs)"
    by (simp add: jn_simps jn_pre_def)
  have p: "\<forall>ev\<in>set ?evs. plain_event ev" by (simp add: plain_event_def jn_pre_def)
  have d: "distinct (map kv_key (tx_keys ?t))" by simp
  obtain outs' ds where "outs = outs' @ [JaPreAccepted (tx_id ?t) True ds 0]"
    "jd_txn_id ` set ds = {w. \<exists>k. accesses_at ?cf k ?t \<and> last_writer ?cf k ?evs None = Some w}"
    using acceptor_dependencies [of ?cf ?evs 0 ?t a outs, OF r p d] by (elim exE conjE) (rule that)
  moreover have "(\<exists>k. accesses_at ?cf k ?t \<and> last_writer ?cf k ?evs None = Some w) \<longleftrightarrow> w = 1" for w
  proof -
    have "accesses_at ?cf k ?t \<longleftrightarrow> k = ''1'' \<or> k = ''3''" for k using jn_local [of 3 0] by (auto simp: accesses_at_def)
    moreover have "last_writer ?cf ''1'' ?evs None = Some 1" "last_writer ?cf ''3'' ?evs None = None"
      by (simp_all add: jn_pre_def writes_at_def)
    ultimately show ?thesis by (rule jn_two_keys)
  qed
  ultimately show ?thesis using r by (intro exI [of _ a] exI [of _ outs'] exI [of _ ds]) simp
qed

definition jn_t1 :: Transaction where "jn_t1 = jn_txn 1 [''1'', ''2'']"
definition jn_t2 :: Transaction where "jn_t2 = jn_txn 2 [''1'', ''3'']"
definition jn_t3 :: Transaction where "jn_t3 = jn_txn 3 [''2'', ''3'']"

definition jn_history :: "nat \<Rightarrow> AcceptorEvent list" where
  "jn_history r = map jn_pre ([[jn_t3, jn_t1, jn_t2], [jn_t1, jn_t2, jn_t3], [jn_t3, jn_t2, jn_t1], [jn_t2, jn_t1, jn_t3]] ! r)"

definition jn_outs :: "nat \<Rightarrow> nat \<Rightarrow> AcceptorOut list" where
  "jn_outs n r = (case run_ops (acceptor_step (jn_config n r)) JanusAcceptor_new (jn_history r) of Inr (a, outs) \<Rightarrow> outs | Inl _ \<Rightarrow> [])"

definition jn_quorum :: "nat \<Rightarrow> TxnId \<Rightarrow> nat list \<Rightarrow> QuorumDeps" where
  "jn_quorum n i rs = collect_deps n (map (\<lambda>r. dep_pair ` set (reply_to i (jn_outs n r))) rs)"

lemma less4: "(\<forall>r<4. P (r :: nat)) \<longleftrightarrow> P 0 \<and> P 1 \<and> P 2 \<and> P 3"
  by (auto simp: numeral_eq_Suc less_Suc_eq)

lemma jn_txns_sel [simp]: "tx_id jn_t1 = 1" "tx_id jn_t2 = 2" "tx_id jn_t3 = 3"
  "ti_involved_partitions (tx_internal jn_t1) = [0]" "ti_involved_partitions (tx_internal jn_t2) = [0]" "ti_involved_partitions (tx_internal jn_t3) = [0]"
  "tx_keys jn_t1 = map (\<lambda>k. sample_kv k KeyWrite 0) [''1'', ''2'']" "tx_keys jn_t2 = map (\<lambda>k. sample_kv k KeyWrite 0) [''1'', ''3'']"
  "tx_keys jn_t3 = map (\<lambda>k. sample_kv k KeyWrite 0) [''2'', ''3'']"
  by (simp_all add: jn_t1_def jn_t2_def jn_t3_def)

lemma jn_run: "\<forall>r<4. \<exists>a. run_ops (acceptor_step (jn_config n r)) JanusAcceptor_new (jn_history r) = Inr (a, jn_outs n r)"
  unfolding less4 jn_outs_def jn_history_def jn_pre_def by (intro conjI) (simp_all add: jn_simps)

lemma jn_conflict: "\<forall>r<4. conflict_history (jn_config n r) ''1'' jn_t1 jn_t2 (jn_history r)"
  unfolding less4 jn_history_def jn_pre_def by (intro conjI) (auto simp: jn_simps)

lemma jn_replies:
  "map (\<lambda>r. dep_pair ` set (reply_to 1 (jn_outs n r))) [0, 1, 2, 3] = [{(3, 1)}, {}, {(3, 1), (2, 1)}, {(2, 1)}]"
  "map (\<lambda>r. dep_pair ` set (reply_to 2 (jn_outs n r))) [0, 1, 2, 3] = [{(3, 1), (1, 1)}, {(1, 1)}, {(3, 1)}, {}]"
  unfolding jn_outs_def jn_history_def jn_pre_def by (simp_all add: jn_simps insert_commute)

lemma jn_collect:
  "QuorumDeps_is_done (collect_deps 4 [{(3, 1)}, {}])" "qd_deps (collect_deps 4 [{(3, 1)}, {}]) = {(3, 1)}"
  "QuorumDeps_is_done (collect_deps 3 [{(3, 1), (1, 1)}, {(1, 1)}])" "QuorumDeps_is_done (collect_deps 3 [{}, {(3, 1), (2, 1)}])"
  by (simp_all add: collect_deps_def QuorumDeps_new_def QuorumDeps_Add_def QuorumDeps_is_done_def)

theorem janus_orders_conflicts_witness:
  "(1 \<in> fst ` qd_deps (jn_quorum 3 2 [0, 1]) \<or> 2 \<in> fst ` qd_deps (jn_quorum 3 1 [1, 2])) \<and>
   (\<exists>r\<in>{1}. (\<exists>w\<in>fst ` qd_deps (jn_quorum 3 2 [0, 1]). (w, 1) \<in> (reported (jn_outs 3 r))\<^sup>*) \<or>
     (\<exists>w\<in>fst ` qd_deps (jn_quorum 3 1 [1, 2]). (w, 2) \<in> (reported (jn_outs 3 r))\<^sup>*))"
proof -
  have "odd (3 :: nat)" by simp
  have ne: "jn_t1 \<noteq> jn_t2" using jn_txns_sel(1,2) by force
  obtain A where "\<forall>r<4. run_ops (acceptor_step (jn_config 3 r)) JanusAcceptor_new (jn_history r) = Inr (A r, jn_outs 3 r)"
    using jn_run [of 3] by metis
  then have r: "\<forall>r<3. run_ops (acceptor_step (jn_config 3 r)) JanusAcceptor_new (jn_history r) = Inr (A r, jn_outs 3 r)" by simp
  have c: "\<forall>r<3. conflict_history (jn_config 3 r) ''1'' jn_t1 jn_t2 (jn_history r)" using jn_conflict [of 3] by simp
  then have b: "\<forall>r<3. both_write (jn_config 3 r) ''1'' jn_t1 jn_t2 (jn_history r)"
    and o: "\<forall>r<3. \<forall>m t b. JaPreAccept m t b \<in> set (jn_history r) \<and> writes_at (jn_config 3 r) ''1'' t \<longrightarrow> t \<in> {jn_t1, jn_t2}"
    unfolding conflict_history_def both_write_def by blast+
  have q: "QuorumDeps_is_done (jn_quorum 3 1 [1, 2])" "QuorumDeps_is_done (jn_quorum 3 2 [0, 1])"
    using jn_replies [of 3] jn_collect by (simp_all add: jn_quorum_def)
  have i: "set [1, 2] \<inter> set [0, 1 :: nat] = {1}" by auto
  show ?thesis
    using janus_orders_conflicts [OF \<open>odd 3\<close> ne r b, of "[1, 2]" "[0, 1]" "jn_quorum 3 1 [1, 2]" "jn_quorum 3 2 [0, 1]"] q o
    unfolding i by (simp add: jn_quorum_def)
qed

text \<open>
  C39: with four regions \<^verbatim>\<open>is_done\<close> accepts two replies as a quorum of the slow path, two such quorums need
  not meet, and two transactions that write the same key can both get a complete quorum with no
  dependency between them, although every acceptor pre-accepted both.
\<close>
theorem even_regions_lose_conflicts:
  "list_all (\<lambda>r. conflict_history (jn_config 4 r) ''1'' jn_t1 jn_t2 (jn_history r) \<and>
      (\<exists>a. run_ops (acceptor_step (jn_config 4 r)) JanusAcceptor_new (jn_history r) = Inr (a, jn_outs 4 r))) [0..<4] \<and>
   QuorumDeps_is_done (jn_quorum 4 (tx_id jn_t1) [0, 1]) \<and> QuorumDeps_is_done (jn_quorum 4 (tx_id jn_t2) [2, 3]) \<and>
   tx_id jn_t2 \<notin> fst ` qd_deps (jn_quorum 4 (tx_id jn_t1) [0, 1]) \<and> tx_id jn_t1 \<notin> fst ` qd_deps (jn_quorum 4 (tx_id jn_t2) [2, 3])"
proof -
  have q: "jn_quorum 4 1 [0, 1] = collect_deps 4 [{(3, 1)}, {}]" "jn_quorum 4 2 [2, 3] = collect_deps 4 [{(3, 1)}, {}]"
    using jn_replies [of 4] by (simp_all add: jn_quorum_def)
  have "\<forall>r\<in>set [0..<4]. conflict_history (jn_config 4 r) ''1'' jn_t1 jn_t2 (jn_history r) \<and>
      (\<exists>a. run_ops (acceptor_step (jn_config 4 r)) JanusAcceptor_new (jn_history r) = Inr (a, jn_outs 4 r))"
    using jn_run [of 4] jn_conflict [of 4] by (metis atLeastLessThan_iff set_upt)
  then have "list_all (\<lambda>r. conflict_history (jn_config 4 r) ''1'' jn_t1 jn_t2 (jn_history r) \<and>
      (\<exists>a. run_ops (acceptor_step (jn_config 4 r)) JanusAcceptor_new (jn_history r) = Inr (a, jn_outs 4 r))) [0..<4]"
    by (subst list_all_iff)
  then show ?thesis unfolding jn_txns_sel q by (intro conjI) (assumption, simp_all add: jn_collect)
qed

text \<open>
  Five transactions in three regions: 1, 2 and 3 write key 1, 3 and 4 key 2, 2 and 5 key 3.
\<close>

definition jl_history :: "nat \<Rightarrow> AcceptorEvent list" where
  "jl_history r = (let a = jn_txn 1 [''1'']; w = jn_txn 2 [''1'', ''3'']; b = jn_txn 3 [''1'', ''2''];
       x = jn_txn 4 [''2'']; y = jn_txn 5 [''3''] in
     map jn_pre ([[y, x, a, w, b], [y, w, a, x, b], [w, b, a, x, y]] ! r))"

definition jl_outs :: "nat \<Rightarrow> AcceptorOut list" where
  "jl_outs r = (case run_ops (acceptor_step (jn_config 3 r)) JanusAcceptor_new (jl_history r) of Inr (a, outs) \<Rightarrow> outs | Inl _ \<Rightarrow> [])"

definition jl_quorum :: "TxnId \<Rightarrow> nat list \<Rightarrow> QuorumDeps" where
  "jl_quorum i rs = collect_deps 3 (map (\<lambda>r. dep_pair ` set (reply_to i (jl_outs r))) rs)"

lemma jl_replies:
  "map (\<lambda>r. dep_pair ` set (reply_to 1 (jl_outs r))) [0, 1] = [{}, {(2, 1)}]"
  "map (\<lambda>r. dep_pair ` set (reply_to 2 (jl_outs r))) [1, 2] = [{(5, 1)}, {}]"
  "map (\<lambda>r. dep_pair ` set (reply_to 3 (jl_outs r))) [0, 2] = [{(2, 1), (4, 1)}, {(2, 1)}]"
  "map (\<lambda>r. dep_pair ` set (reply_to 4 (jl_outs r))) [0, 1, 2] = [{}, {}, {(3, 1)}]"
  "map (\<lambda>r. dep_pair ` set (reply_to 5 (jl_outs r))) [0, 1, 2] = [{}, {}, {(2, 1)}]"
  unfolding jl_outs_def jl_history_def jn_pre_def Let_def by (simp_all add: jn_simps insert_commute)

text \<open>
  The link of a chain that is reported by an acceptor outside the quorum of its transaction is lost: with three
  regions the transactions 1 and 3 write the same key and both have complete quorums, but following the
  collected dependencies 1 leads only to 2 and 5, and 3 only to 2, 4, 5 and itself.  Acceptors that report
  only the latest writer do not order them.
\<close>

lemma latest_writer_loses_conflict:
  "QuorumDeps_is_done (jl_quorum 1 [0, 1]) \<and> fst ` qd_deps (jl_quorum 1 [0, 1]) = {2} \<and>
   QuorumDeps_is_done (jl_quorum 2 [1, 2]) \<and> fst ` qd_deps (jl_quorum 2 [1, 2]) = {5} \<and>
   QuorumDeps_is_done (jl_quorum 3 [0, 2]) \<and> fst ` qd_deps (jl_quorum 3 [0, 2]) = {2, 4} \<and>
   QuorumDeps_is_done (jl_quorum 4 [0, 1, 2]) \<and> fst ` qd_deps (jl_quorum 4 [0, 1, 2]) = {3} \<and>
   QuorumDeps_is_done (jl_quorum 5 [0, 1, 2]) \<and> fst ` qd_deps (jl_quorum 5 [0, 1, 2]) = {2}"
  unfolding jl_quorum_def jl_replies
  by (simp add: collect_deps_def QuorumDeps_new_def QuorumDeps_Add_def QuorumDeps_is_done_def)

definition jn_client_txn :: Transaction where
  "jn_client_txn = default_txn\<lparr>tx_keys := [sample_kv ''1'' KeyWrite 0], tx_internal := default_internal\<lparr>ti_id := 1\<rparr>\<rparr>"

definition jn_prepared :: Transaction where
  "jn_prepared = upd_internal (\<lambda>i. i\<lparr>ti_involved_partitions := [0], ti_active_partitions := [0]\<rparr>) jn_client_txn"

lemma jn_populate: "PopulateInvolvedPartitions (compute_partition (MakeSharder (jn_config n r))) 1 jn_client_txn = Inr jn_prepared"
  by (simp add: PopulateInvolvedPartitions_def jn_client_txn_def jn_prepared_def default_internal_def upd_internal_def
      raised_def [of "[True]"])

lemma jn_start: "\<exists>c0. StartNewTxn (jn_config 1 0) jn_client_txn Map.empty = Inr (c0, [JcPreAccept jn_prepared [0]]) \<and>
  (\<exists>c1. run_ops (coordinator_step (jn_config 1 0)) c0 [JcPreAccepted 0 1 True []] = Inr (c1, [JcCommit 1 [] [0]]))"
proof -
  define info where "info = \<lparr>ci_txn_id = 1, ci_phase = PRE_ACCEPT, ci_sharded_deps = [None], ci_quorums = [None],
    ci_participants = [0], ci_destinations = [0 :: MachineId]\<rparr>"
  have i: "tx_id jn_prepared = 1" "ti_involved_partitions (tx_internal jn_prepared) = [0]"
    by (simp_all add: jn_client_txn_def jn_prepared_def upd_internal_def tx_id_def default_internal_def)
  have m: "MakeMachineId 0 0 0 = (0 :: MachineId)" "from_partition 0 = 0"
    by (simp_all add: from_partition_def UnpackMachineId_def machine_id_defs id_bits_defs)
  have "StartNewTxn (jn_config 1 0) jn_client_txn Map.empty = Inr ([1 \<mapsto> info], [JcPreAccept jn_prepared [0]])"
    using jn_populate [of 1 0] i m(1) by (simp add: StartNewTxn_def Let_def info_def)
  moreover have "PreAcceptTxn (jn_config 1 0) 0 1 True [] [1 \<mapsto> info] = Inr (Map.empty, [JcCommit 1 [] [0]])"
    by (simp add: PreAcceptTxn_def m(2) info_def CommitTxn_def all_deps_def QuorumDeps_new_def QuorumDeps_Add_def QuorumDeps_is_done_def)
  ultimately show ?thesis by auto
qed

theorem coordinator_commits_quorum_deps_witness:
  "\<exists>c0 c1. StartNewTxn (jn_config 1 0) jn_client_txn Map.empty = Inr (c0, [JcPreAccept jn_prepared [0]]) \<and>
     run_ops (coordinator_step (jn_config 1 0)) c0 [JcPreAccepted 0 1 True []] = Inr (c1, [JcCommit 1 [] [0]]) \<and>
     QuorumDeps_is_done (collect_deps 1 (replies 1 0 [JcPreAccepted 0 1 True []]))"
proof -
  obtain c0 c1 where s: "StartNewTxn (jn_config 1 0) jn_client_txn Map.empty = Inr (c0, [JcPreAccept jn_prepared [0]])"
    and r: "run_ops (coordinator_step (jn_config 1 0)) c0 [JcPreAccepted 0 1 True []] = Inr (c1, [JcCommit 1 [] [0]])"
    using jn_start by blast
  have i: "tx_id jn_client_txn = 1" "ti_involved_partitions (tx_internal jn_prepared) = [0]"
    by (simp_all add: jn_client_txn_def jn_prepared_def upd_internal_def tx_id_def default_internal_def)
  have l: "coord_legal (jn_config 1 0) (tx_id jn_client_txn) c0 [JcPreAccepted 0 1 True []]"
    by (simp add: coord_legal_def Cons_eq_append_conv)
  show ?thesis
    using coordinator_commits_quorum_deps [OF s _ _ r l, of "[]" "[0]" 0] s r i by (auto simp: ids_ok_def)
qed

end
