(* ===== verification/Tarjan.thy ===== *)
theory Tarjan
  imports Janus
begin

section \<open>Strongly connected components of the transactions of Janus\<close>

text \<open>
  The search for strongly connected components in the graph of committed transactions
  (\<^verbatim>\<open>tarjan.cpp\<close>).  A stack is a list whose head is its top.  The search ends because a visited vertex
  keeps its discovery number (a natural number, where the source has an \<^verbatim>\<open>int\<close>) until the search is over; a member of a component depends only on executed
  transactions and on members of this and of earlier components.  The mark of the root of a
  component is not reset, so that components may be larger than the strongly connected ones.
\<close>

subsection \<open>Finding strongly connected components\<close>

record Vertex =
  vx_txn_id :: TxnId
  vx_is_local :: bool
  vx_deps :: "JanusDependency list"
  vx_disc :: nat
  vx_low :: nat
  vx_missing_deps :: int
  vx_on_stack :: bool

definition Vertex_new :: "TxnId \<Rightarrow> bool \<Rightarrow> JanusDependency list \<Rightarrow> Vertex" where
  "Vertex_new i is_local deps = \<lparr>vx_txn_id = i, vx_is_local = is_local, vx_deps = deps, vx_disc = 0, vx_low = 0,
     vx_missing_deps = 0, vx_on_stack = False\<rparr>"

type_synonym Graph = "TxnId \<rightharpoonup> Vertex"
type_synonym SCC = "(TxnId \<times> bool) list"

record TarjanSCCsFinder =
  tj_graph :: Graph
  tj_stack :: "TxnId list"
  tj_sccs :: "SCC list"
  tj_missing_deps :: "(TxnId \<times> JanusDependency) list"
  tj_id_counter :: nat

definition TarjanSCCsFinder_new :: "Graph \<Rightarrow> TarjanSCCsFinder" where
  "TarjanSCCsFinder_new g = \<lparr>tj_graph = g, tj_stack = [], tj_sccs = [], tj_missing_deps = [], tj_id_counter = 0\<rparr>"

definition enter_vertex :: "TxnId \<Rightarrow> Vertex \<Rightarrow> TarjanSCCsFinder \<Rightarrow> TarjanSCCsFinder" where
  "enter_vertex v vx s = (let c = tj_id_counter s + 1 in
     s\<lparr>tj_id_counter := c, tj_graph := (tj_graph s)(v \<mapsto> vx\<lparr>vx_disc := c, vx_low := c, vx_on_stack := True\<rparr>),
       tj_stack := v # tj_stack s\<rparr>)"

definition lower :: "TxnId \<Rightarrow> nat \<Rightarrow> TarjanSCCsFinder \<Rightarrow> TarjanSCCsFinder" where
  "lower v l s = (case tj_graph s v of None \<Rightarrow> s
     | Some vx \<Rightarrow> s\<lparr>tj_graph := (tj_graph s)(v \<mapsto> vx\<lparr>vx_low := min (vx_low vx) l\<rparr>)\<rparr>)"

definition add_missing :: "TxnId \<Rightarrow> JanusDependency \<Rightarrow> TarjanSCCsFinder \<Rightarrow> TarjanSCCsFinder" where
  "add_missing n d s = (if n \<in> fst ` set (tj_missing_deps s) then s else s\<lparr>tj_missing_deps := tj_missing_deps s @ [(n, d)]\<rparr>)"

text \<open>
  The members above the root leave the stack and lose their mark; the root leaves the stack and keeps
  the mark.
\<close>

fun pop_members :: "TxnId \<Rightarrow> TxnId list \<Rightarrow> Graph \<Rightarrow> SCC \<Rightarrow> (TxnId list \<times> Graph \<times> SCC) result" where
  "pop_members v [] g scc = Inl (Undefined ''stack_.back()'')"
| "pop_members v (w # st) g scc =
     (if w = v then Inr (w # st, g, scc)
      else case g w of
        None \<Rightarrow> Inl (CheckFailed ''member_it != graph_.end()'')
      | Some wx \<Rightarrow> pop_members v st (g(w \<mapsto> wx\<lparr>vx_on_stack := False\<rparr>)) (scc @ [(vx_txn_id wx, vx_is_local wx)]))"

definition close_vertex :: "TxnId \<Rightarrow> TarjanSCCsFinder \<Rightarrow> TarjanSCCsFinder result" where
  "close_vertex v s =
     (if tj_missing_deps s \<noteq> [] then Inr s
      else case tj_graph s v of
        None \<Rightarrow> Inl (Undefined ''v'')
      | Some vx \<Rightarrow>
          if vx_disc vx \<noteq> vx_low vx then Inr s
          else rbind (pop_members v (tj_stack s) (tj_graph s) []) (\<lambda>(st, g, scc).
            Inr (s\<lparr>tj_graph := g, tj_stack := tl st, tj_sccs := tj_sccs s @ [sort (scc @ [(vx_txn_id vx, vx_is_local vx)])]\<rparr>)))"

record TarjanResult =
  tr_sccs :: "SCC list"
  tr_missing_deps :: "JanusDependency list"
  tr_unready :: "TxnId set"

text \<open>The missing dependencies are listed in the order \<open>iter\<close> of the unordered map.\<close>

fun reset_discs :: "TxnId list \<Rightarrow> Graph \<Rightarrow> Graph result" where
  "reset_discs [] g = Inr g"
| "reset_discs (w # st) g =
     (case g w of
        None \<Rightarrow> Inl (CheckFailed ''it != graph_.end()'')
      | Some wx \<Rightarrow> reset_discs st (g(w \<mapsto> wx\<lparr>vx_disc := 0\<rparr>)))"

definition Finalize :: "((TxnId \<times> JanusDependency) list \<Rightarrow> (TxnId \<times> JanusDependency) list) \<Rightarrow> TarjanSCCsFinder \<Rightarrow>
    (TarjanSCCsFinder \<times> TarjanResult) result" where
  "Finalize iter s =
     rbind (reset_discs (tj_stack s) (tj_graph s)) (\<lambda>g.
       Inr (\<lparr>tj_graph = g, tj_stack = [], tj_sccs = [], tj_missing_deps = [], tj_id_counter = 0\<rparr>,
         \<lparr>tr_sccs = tj_sccs s, tr_missing_deps = map snd (iter (tj_missing_deps s)), tr_unready = set (tj_stack s)\<rparr>))"

definition fresh :: "TarjanSCCsFinder \<Rightarrow> TxnId set" where
  "fresh s = {v. \<exists>vx. tj_graph s v = Some vx \<and> vx_disc vx = 0}"

lemma fresh_enter: "tj_graph s v = Some vx \<Longrightarrow> fresh (enter_vertex v vx s) = fresh s - {v}"
  by (auto simp: fresh_def enter_vertex_def Let_def)

lemma fresh_lower [simp]: "fresh (lower v l s) = fresh s"
  by (auto simp: fresh_def lower_def split: option.splits)

lemma fresh_missing [simp]: "fresh (add_missing n d s) = fresh s"
  by (auto simp: fresh_def add_missing_def)

lemma pop_members_spec:
  assumes "pop_members v st g scc = Inr (st', g', scc')"
  shows "\<exists>ms. st = ms @ st' \<and> st' \<noteq> [] \<and> hd st' = v \<and> v \<notin> set ms \<and>
    g' = (\<lambda>w. if w \<in> set ms then map_option (\<lambda>x. x\<lparr>vx_on_stack := False\<rparr>) (g w) else g w) \<and>
    scc' = scc @ map (\<lambda>w. (vx_txn_id (the (g w)), vx_is_local (the (g w)))) ms"
  using assms
proof (induction st arbitrary: g scc)
  case (Cons w st)
  show ?case
  proof (cases "w = v")
    case False
    with Cons.prems obtain wx where wx: "g w = Some wx" by (auto split: option.splits)
    then have "pop_members v st (g(w \<mapsto> wx\<lparr>vx_on_stack := False\<rparr>)) (scc @ [(vx_txn_id wx, vx_is_local wx)]) = Inr (st', g', scc')"
      using Cons.prems False by simp
    from Cons.IH [OF this] obtain ms where ms: "st = ms @ st'" "st' \<noteq> []" "hd st' = v" "v \<notin> set ms"
      "g' = (\<lambda>x. if x \<in> set ms then map_option (\<lambda>x. x\<lparr>vx_on_stack := False\<rparr>) ((g(w \<mapsto> wx\<lparr>vx_on_stack := False\<rparr>)) x)
         else (g(w \<mapsto> wx\<lparr>vx_on_stack := False\<rparr>)) x)"
      "scc' = scc @ [(vx_txn_id wx, vx_is_local wx)] @ map (\<lambda>x. (vx_txn_id (the ((g(w \<mapsto> wx\<lparr>vx_on_stack := False\<rparr>)) x)),
         vx_is_local (the ((g(w \<mapsto> wx\<lparr>vx_on_stack := False\<rparr>)) x)))) ms" by auto
    then show ?thesis using wx False
      by (intro exI [of _ "w # ms"]) (auto simp: fun_eq_iff)
  qed (use Cons.prems in \<open>auto intro: exI [of _ "[]"]\<close>)
qed simp

lemma fresh_close: "close_vertex v s = Inr s' \<Longrightarrow> fresh s' = fresh s"
proof (cases "tj_missing_deps s \<noteq> [] \<or> (\<exists>vx. tj_graph s v = Some vx \<and> vx_disc vx \<noteq> vx_low vx)")
  case False
  assume "close_vertex v s = Inr s'"
  with False obtain st g scc where "pop_members v (tj_stack s) (tj_graph s) [] = Inr (st, g, scc)" "tj_graph s' = g"
    by (auto simp: close_vertex_def rbind_eq_Inr split: option.splits)
  with pop_members_spec [OF this(1)] show ?thesis by (auto simp: fresh_def split: if_splits)
qed (auto simp: close_vertex_def split: if_splits)

lemma card_fresh_enter: "tj_graph s v = Some vx \<Longrightarrow> vx_disc vx = 0 \<Longrightarrow> card (fresh (enter_vertex v vx s)) < card (fresh s)"
  unfolding fresh_enter by (intro card_Diff1_less) (auto simp: fresh_def)

function FindSCCs :: "TxnHorizon \<Rightarrow> TxnId \<Rightarrow> TarjanSCCsFinder \<Rightarrow> TarjanSCCsFinder result"
  and visit_deps :: "TxnHorizon \<Rightarrow> TxnId \<Rightarrow> JanusDependency list \<Rightarrow> TarjanSCCsFinder \<Rightarrow> TarjanSCCsFinder result" where
  "FindSCCs h v s =
     (case tj_graph s v of
        None \<Rightarrow> Inl (Undefined ''v'')
      | Some vx \<Rightarrow>
          if vx_disc vx \<noteq> 0 \<or> TxnHorizon_contains v h then Inr s
          else rbind (visit_deps h v (vx_deps vx) (enter_vertex v vx s)) (close_vertex v))"
| "visit_deps h v [] s = Inr s"
| "visit_deps h v (d # ds) s =
     (let n = jd_txn_id d in
      if n = v \<or> TxnHorizon_contains n h then visit_deps h v ds s
      else case tj_graph s n of
        None \<Rightarrow> visit_deps h v ds (add_missing n d s)
      | Some nx \<Rightarrow>
          if vx_disc nx = 0
          then rbind (FindSCCs h n s) (\<lambda>s1. visit_deps h v ds (lower v (case tj_graph s1 n of Some nx1 \<Rightarrow> vx_low nx1 | None \<Rightarrow> 0) s1))
          else visit_deps h v ds (if vx_on_stack nx then lower v (vx_disc nx) s else s))"
  by pat_completeness auto
termination
proof -
  have mono: "FindSCCs_visit_deps_dom (Inl (h, v, s)) \<Longrightarrow> FindSCCs h v s = Inr s' \<Longrightarrow> fresh s' \<subseteq> fresh s"
    "FindSCCs_visit_deps_dom (Inr (h, v, ds, s)) \<Longrightarrow> visit_deps h v ds s = Inr s' \<Longrightarrow> fresh s' \<subseteq> fresh s" for h v s ds s'
  proof (induction h v s and h v ds s arbitrary: s' and s' rule: FindSCCs_visit_deps.pinduct)
    case (1 h v s)
    show ?case
    proof (cases "tj_graph s v")
      case (Some vx)
      then show ?thesis
        using 1 by (auto simp: FindSCCs.psimps rbind_eq_Inr fresh_enter dest!: fresh_close split: if_splits)
    qed (use 1 in \<open>auto simp: FindSCCs.psimps\<close>)
  next
    case (2 h v s)
    then show ?case by (simp add: visit_deps.psimps)
  next
    case (3 h v d ds s)
    let ?n = "jd_txn_id d"
    note ps = visit_deps.psimps(2) [OF 3(1)]
    show ?case
    proof (cases "?n = v \<or> TxnHorizon_contains ?n h")
      case True
      then show ?thesis using 3(2) [OF refl] 3(7) by (simp add: ps Let_def)
    next
      case False
      show ?thesis
      proof (cases "tj_graph s ?n")
        case None
        then show ?thesis using 3(3) [OF refl False] 3(7) False by (simp add: ps Let_def)
      next
        case (Some nx)
        show ?thesis
        proof (cases "vx_disc nx = 0")
          case True
          then obtain s1 where "FindSCCs h ?n s = Inr s1"
            "visit_deps h v ds (lower v (case tj_graph s1 ?n of Some nx1 \<Rightarrow> vx_low nx1 | None \<Rightarrow> 0) s1) = Inr s'"
            using 3(7) Some False by (auto simp: ps Let_def rbind_eq_Inr)
          then show ?thesis using 3(4) [OF refl False Some True] 3(5) [OF refl False Some True] by force
        next
          case no: False
          then have "visit_deps h v ds (if vx_on_stack nx then lower v (vx_disc nx) s else s) = Inr s'"
            using 3(7) Some False by (simp add: ps Let_def)
          from 3(6) [OF refl False Some no this] show ?thesis by (auto split: if_splits)
        qed
      qed
    qed
  qed
  show ?thesis
    by (relation "inv_image (less_than <*lex*> less_than) (case_sum (\<lambda>(h, v, s). (card (fresh s), 0 :: nat))
        (\<lambda>(h, v, ds, s). (card (fresh s), Suc (length ds))))")
      (auto simp: card_fresh_enter le_less [symmetric] intro!: card_mono dest: mono(1))
qed

declare FindSCCs.simps [simp del]

subsection \<open>The search succeeds and respects the dependencies\<close>

definition deps_of :: "Graph \<Rightarrow> TxnId \<Rightarrow> JanusDependency list" where
  "deps_of g w = (case g w of None \<Rightarrow> [] | Some x \<Rightarrow> vx_deps x)"

definition disc_of :: "Graph \<Rightarrow> TxnId \<Rightarrow> nat" where
  "disc_of g w = (case g w of None \<Rightarrow> 0 | Some x \<Rightarrow> vx_disc x)"

definition low_of :: "Graph \<Rightarrow> TxnId \<Rightarrow> nat" where
  "low_of g w = (case g w of None \<Rightarrow> 0 | Some x \<Rightarrow> vx_low x)"

definition scc_ids :: "SCC list \<Rightarrow> TxnId set" where
  "scc_ids sccs = (\<Union>scc\<in>set sccs. fst ` set scc)"

text \<open>
  The transactions on which a member of a component depends are executed, or in this component, or in
  an earlier one, or among the transactions \<open>D\<close> that were dispatched before.
\<close>

lemma scc_ids_set: "scc_ids sccs = set (map fst (concat sccs))"
  by (auto simp: scc_ids_def)

definition dep_closed :: "TxnHorizon \<Rightarrow> TxnId set \<Rightarrow> Graph \<Rightarrow> SCC list \<Rightarrow> bool" where
  "dep_closed h D g sccs \<longleftrightarrow> (\<forall>pre scc post. sccs = pre @ scc # post \<longrightarrow>
     (\<forall>w\<in>fst ` set scc. \<forall>d\<in>set (deps_of g w). jd_txn_id d = w \<or> TxnHorizon_contains (jd_txn_id d) h \<or>
        jd_txn_id d \<in> scc_ids (pre @ [scc]) \<or> jd_txn_id d \<in> D))"

definition tj_inv :: "TxnHorizon \<Rightarrow> TxnId set \<Rightarrow> TarjanSCCsFinder \<Rightarrow> bool" where
  "tj_inv h D s \<longleftrightarrow> (\<forall>w x. tj_graph s w = Some x \<longrightarrow> vx_txn_id x = w) \<and> distinct (tj_stack s @ map fst (concat (tj_sccs s))) \<and>
     (fresh s \<union> set (tj_stack s) \<union> scc_ids (tj_sccs s)) \<inter> D = {} \<and> scc_ids (tj_sccs s) \<subseteq> dom (tj_graph s) - fresh s \<and>
     (\<forall>w\<in>set (tj_stack s). \<exists>x. tj_graph s w = Some x \<and> vx_disc x \<noteq> 0 \<and> vx_on_stack x \<and> vx_disc x \<le> tj_id_counter s) \<and>
     dom (tj_graph s) \<subseteq> fresh s \<union> set (tj_stack s) \<union> scc_ids (tj_sccs s) \<union> D \<and>
     dep_closed h D (tj_graph s) (tj_sccs s)"

definition frame :: "TxnId set \<Rightarrow> TarjanSCCsFinder \<Rightarrow> TarjanSCCsFinder \<Rightarrow> bool" where
  "frame X s s' \<longleftrightarrow> (\<forall>w. w \<notin> fresh s \<longrightarrow> w \<notin> X \<longrightarrow> tj_graph s' w = tj_graph s w) \<and>
     (\<forall>w. w \<notin> fresh s \<longrightarrow> disc_of (tj_graph s') w = disc_of (tj_graph s) w) \<and>
     deps_of (tj_graph s') = deps_of (tj_graph s) \<and> dom (tj_graph s') = dom (tj_graph s) \<and> fresh s' \<subseteq> fresh s \<and>
     (tj_missing_deps s \<noteq> [] \<longrightarrow> tj_missing_deps s' \<noteq> []) \<and> tj_id_counter s \<le> tj_id_counter s'"

definition dep_ok :: "TxnHorizon \<Rightarrow> TxnId list \<Rightarrow> nat \<Rightarrow> TarjanSCCsFinder \<Rightarrow> TxnId \<Rightarrow> TxnId \<Rightarrow> bool" where
  "dep_ok h st l s w n \<longleftrightarrow> n = w \<or> TxnHorizon_contains n h \<or> n \<notin> dom (tj_graph s) \<and> tj_missing_deps s \<noteq> [] \<or>
     n \<in> dom (tj_graph s) \<and> n \<notin> fresh s \<and> (n \<in> set st \<longrightarrow> l \<le> disc_of (tj_graph s) n)"

definition all_ok :: "TxnHorizon \<Rightarrow> TxnId list \<Rightarrow> nat \<Rightarrow> TarjanSCCsFinder \<Rightarrow> TxnId set \<Rightarrow> bool" where
  "all_ok h st l s W \<longleftrightarrow> (\<forall>w\<in>W. \<forall>d\<in>set (deps_of (tj_graph s) w). dep_ok h st l s w (jd_txn_id d))"

definition find_post :: "TxnHorizon \<Rightarrow> TxnId set \<Rightarrow> TxnId \<Rightarrow> TarjanSCCsFinder \<Rightarrow> TarjanSCCsFinder \<Rightarrow> bool" where
  "find_post h D v s s' \<longleftrightarrow> tj_inv h D s' \<and> frame {} s s' \<and> v \<notin> fresh s' \<and>
     (\<exists>new. tj_stack s' = new @ tj_stack s \<and> set new \<subseteq> fresh s \<and> all_ok h (tj_stack s) (low_of (tj_graph s') v) s' (set new))"

definition visit_pre :: "TxnHorizon \<Rightarrow> TxnId set \<Rightarrow> TxnId list \<Rightarrow> TxnId set \<Rightarrow> TxnId \<Rightarrow> TarjanSCCsFinder \<Rightarrow> bool" where
  "visit_pre h D st F v s \<longleftrightarrow> tj_inv h D s \<and> fresh s \<subseteq> F \<and>
     (\<exists>new. tj_stack s = new @ v # st \<and> set new \<subseteq> F \<and> all_ok h st (low_of (tj_graph s) v) s (set new))"

lemma frame_refl: "frame X s s"
  by (simp add: frame_def)

lemma frame_trans:
  assumes "frame X s s1" "frame X s1 s2"
  shows "frame X s s2"
proof -
  have f: "w \<notin> fresh s1" if "w \<notin> fresh s" for w using assms(1) that by (auto simp: frame_def)
  have "tj_graph s2 w = tj_graph s w" if "w \<notin> fresh s" "w \<notin> X" for w
    using assms f [OF that(1)] that by (simp add: frame_def)
  moreover have "disc_of (tj_graph s2) w = disc_of (tj_graph s) w" if "w \<notin> fresh s" for w
    using assms f [OF that] that by (simp add: frame_def)
  moreover have "fresh s2 \<subseteq> fresh s" using assms unfolding frame_def by blast
  ultimately show ?thesis using assms by (simp add: frame_def)
qed

lemma dep_ok_mono:
  assumes "dep_ok h st l s w n" "frame X s s'" "l' \<le> l"
  shows "dep_ok h st l' s' w n"
  using assms by (auto simp: dep_ok_def frame_def)

lemma all_ok_mono: "all_ok h st l s W \<Longrightarrow> frame X s s' \<Longrightarrow> l' \<le> l \<Longrightarrow> all_ok h st l' s' W"
  using dep_ok_mono by (fastforce simp: all_ok_def frame_def)

lemma stack_not_fresh: "tj_inv h D s \<Longrightarrow> w \<in> set (tj_stack s) \<Longrightarrow> w \<notin> fresh s \<and> w \<in> dom (tj_graph s)"
  by (fastforce simp: tj_inv_def fresh_def)

lemma lower_inv:
  assumes "tj_inv h D s" "v \<in> dom (tj_graph s)" "v \<notin> fresh s"
  shows "tj_inv h D (lower v l s) \<and> frame {v} s (lower v l s) \<and> tj_stack (lower v l s) = tj_stack s \<and>
    low_of (tj_graph (lower v l s)) v = min (low_of (tj_graph s) v) l"
proof -
  obtain x where x: "tj_graph s v = Some x" using assms(2) by blast
  have d: "deps_of (tj_graph (lower v l s)) = deps_of (tj_graph s)" "dom (tj_graph (lower v l s)) = dom (tj_graph s)"
    "disc_of (tj_graph (lower v l s)) = disc_of (tj_graph s)"
    using x by (auto simp: deps_of_def disc_of_def lower_def fun_eq_iff)
  have "dep_closed h D (tj_graph (lower v l s)) (tj_sccs s)" using assms(1) by (simp add: tj_inv_def dep_closed_def d)
  moreover have sel: "tj_stack (lower v l s) = tj_stack s" "tj_sccs (lower v l s) = tj_sccs s"
    "tj_id_counter (lower v l s) = tj_id_counter s" "tj_missing_deps (lower v l s) = tj_missing_deps s"
    using x by (simp_all add: lower_def)
  moreover have "(\<forall>w y. tj_graph (lower v l s) w = Some y \<longrightarrow> vx_txn_id y = w) \<and>
     (\<forall>w\<in>set (tj_stack s). \<exists>x. tj_graph (lower v l s) w = Some x \<and> vx_disc x \<noteq> 0 \<and> vx_on_stack x \<and> vx_disc x \<le> tj_id_counter s)"
    using assms(1) x by (auto simp: tj_inv_def lower_def)
  ultimately have "tj_inv h D (lower v l s)" using assms(1) d(2) by (auto simp: tj_inv_def)
  moreover have "frame {v} s (lower v l s)" unfolding frame_def fresh_lower d sel using x by (simp add: lower_def)
  ultimately show ?thesis using x sel by (simp add: low_of_def lower_def)
qed

lemma missing_inv: "tj_inv h D s \<Longrightarrow> tj_inv h D (add_missing n d s) \<and> frame {} s (add_missing n d s) \<and>
    tj_stack (add_missing n d s) = tj_stack s \<and> tj_graph (add_missing n d s) = tj_graph s \<and> tj_missing_deps (add_missing n d s) \<noteq> []"
  using fresh_missing [of n d s] by (auto simp: tj_inv_def add_missing_def frame_def)

lemma frame_weaken: "frame {} s s' \<Longrightarrow> frame X s s'"
  by (simp add: frame_def)

lemma enter_pre:
  assumes "tj_inv h D s" "tj_graph s v = Some x" "vx_disc x = 0"
  shows "visit_pre h D (tj_stack s) (fresh s) v (enter_vertex v x s) \<and> frame {} s (enter_vertex v x s) \<and>
    disc_of (tj_graph (enter_vertex v x s)) v = tj_id_counter s + 1"
proof -
  let ?s = "enter_vertex v x s"
  have v: "v \<in> fresh s" "v \<notin> set (tj_stack s)" using assms stack_not_fresh [OF assms(1), of v] by (auto simp: fresh_def)
  have g: "tj_graph ?s = (tj_graph s)(v \<mapsto> x\<lparr>vx_disc := tj_id_counter s + 1, vx_low := tj_id_counter s + 1, vx_on_stack := True\<rparr>)"
    and sel: "tj_stack ?s = v # tj_stack s" "tj_sccs ?s = tj_sccs s" "tj_id_counter ?s = tj_id_counter s + 1"
      "tj_missing_deps ?s = tj_missing_deps s" by (simp_all add: enter_vertex_def Let_def)
  have d: "deps_of (tj_graph ?s) = deps_of (tj_graph s)" "dom (tj_graph ?s) = dom (tj_graph s)"
    using assms(2) by (auto simp: g deps_of_def)
  have "dep_closed h D (tj_graph ?s) (tj_sccs ?s)" using assms(1) by (simp add: tj_inv_def dep_closed_def d sel)
  moreover have "\<forall>w y. tj_graph ?s w = Some y \<longrightarrow> vx_txn_id y = w" using assms(1,2) by (auto simp: tj_inv_def g)
  moreover have "\<forall>w\<in>set (tj_stack ?s). \<exists>y. tj_graph ?s w = Some y \<and> vx_disc y \<noteq> 0 \<and> vx_on_stack y \<and> vx_disc y \<le> tj_id_counter ?s"
  proof
    fix w assume w: "w \<in> set (tj_stack ?s)"
    show "\<exists>y. tj_graph ?s w = Some y \<and> vx_disc y \<noteq> 0 \<and> vx_on_stack y \<and> vx_disc y \<le> tj_id_counter ?s"
    proof (cases "w = v")
      case False
      then obtain y where "tj_graph s w = Some y \<and> vx_disc y \<noteq> 0 \<and> vx_on_stack y \<and> vx_disc y \<le> tj_id_counter s"
        using w assms(1) by (auto simp: sel tj_inv_def)
      then show ?thesis using False by (simp add: g sel)
    qed (simp add: g sel)
  qed
  moreover have "dom (tj_graph ?s) \<subseteq> fresh ?s \<union> set (tj_stack ?s) \<union> scc_ids (tj_sccs ?s) \<union> D"
    using assms(1) unfolding fresh_enter [OF assms(2)] d sel by (auto simp: tj_inv_def)
  moreover have "distinct (tj_stack ?s @ map fst (concat (tj_sccs ?s)))"
  proof -
    have "v \<notin> scc_ids (tj_sccs s)" using assms(1) v(1) by (auto simp: tj_inv_def)
    then show ?thesis using assms(1) v(2) by (simp add: tj_inv_def sel scc_ids_set)
  qed
  moreover have "(fresh ?s \<union> set (tj_stack ?s) \<union> scc_ids (tj_sccs ?s)) \<inter> D = {}"
    using assms(1) v(1) unfolding fresh_enter [OF assms(2)] sel by (auto simp: tj_inv_def)
  moreover have "scc_ids (tj_sccs ?s) \<subseteq> dom (tj_graph ?s) - fresh ?s"
    using assms(1) unfolding fresh_enter [OF assms(2)] sel d by (auto simp: tj_inv_def)
  ultimately have "tj_inv h D ?s" unfolding tj_inv_def by blast
  moreover have "frame {} s ?s" unfolding frame_def fresh_enter [OF assms(2)] d sel using v(1) by (auto simp: g disc_of_def)
  ultimately show ?thesis using fresh_enter [OF assms(2)] by (auto simp: visit_pre_def sel all_ok_def disc_of_def g)
qed

lemma pop_members_total:
  "v \<in> set st \<Longrightarrow> set st \<subseteq> dom g \<Longrightarrow> \<exists>st' g' scc'. pop_members v st g scc = Inr (st', g', scc')"
proof (induction st arbitrary: g scc)
  case (Cons w st)
  show ?case
  proof (cases "w = v")
    case False
    obtain x where "g w = Some x" using Cons.prems(2) by auto
    moreover have "\<exists>st' g' scc'. pop_members v st (g(w \<mapsto> x\<lparr>vx_on_stack := False\<rparr>)) (scc @ [(vx_txn_id x, vx_is_local x)]) = Inr (st', g', scc')"
      using Cons.prems False by (intro Cons.IH) auto
    ultimately show ?thesis using False by simp
  qed simp
qed simp

lemma scc_ids_snoc: "scc_ids (sccs @ [scc]) = scc_ids sccs \<union> fst ` set scc"
  by (auto simp: scc_ids_def)

lemma dep_closed_snoc:
  assumes "dep_closed h D g sccs"
    and "\<And>w d. w \<in> fst ` set scc \<Longrightarrow> d \<in> set (deps_of g w) \<Longrightarrow> jd_txn_id d = w \<or> TxnHorizon_contains (jd_txn_id d) h \<or>
       jd_txn_id d \<in> scc_ids (sccs @ [scc]) \<or> jd_txn_id d \<in> D"
  shows "dep_closed h D g (sccs @ [scc])"
  unfolding dep_closed_def
proof (intro allI impI)
  fix pre s post assume e: "sccs @ [scc] = pre @ s # post"
  show "\<forall>w\<in>fst ` set s. \<forall>d\<in>set (deps_of g w). jd_txn_id d = w \<or> TxnHorizon_contains (jd_txn_id d) h \<or>
    jd_txn_id d \<in> scc_ids (pre @ [s]) \<or> jd_txn_id d \<in> D"
  proof (cases post rule: rev_cases)
    case Nil
    then show ?thesis using e assms(2) by auto
  next
    case (snoc post' y)
    then show ?thesis using e assms(1) by (auto simp: dep_closed_def)
  qed
qed

lemma distinct_move:
  "distinct ys \<Longrightarrow> distinct ((xs @ v # st) @ L) \<Longrightarrow> set ys = insert v (set xs) \<Longrightarrow> distinct (st @ L @ ys)"
  by auto

lemma close_post:
  assumes "visit_pre h D (tj_stack s) (fresh s) v s2" "frame {} s s2" "tj_inv h D s" "v \<in> fresh s"
    and "disc_of (tj_graph s2) v = tj_id_counter s + 1"
    and "\<forall>d\<in>set (deps_of (tj_graph s2) v). dep_ok h (tj_stack s) (low_of (tj_graph s2) v) s2 v (jd_txn_id d)"
  shows "\<exists>s'. close_vertex v s2 = Inr s' \<and> find_post h D v s s'"
proof -
  obtain new where st: "tj_stack s2 = new @ v # tj_stack s" and inv: "tj_inv h D s2"
    and ok: "all_ok h (tj_stack s) (low_of (tj_graph s2) v) s2 (set new)" and nf: "set new \<subseteq> fresh s" using assms(1) by (auto simp: visit_pre_def)
  have ok': "all_ok h (tj_stack s) (low_of (tj_graph s2) v) s2 (set (new @ [v]))" using ok assms(6) by (auto simp: all_ok_def)
  obtain x where x: "tj_graph s2 v = Some x" "vx_disc x \<noteq> 0" and vf: "v \<notin> fresh s2"
    using stack_not_fresh [OF inv, of v] st by (auto simp: fresh_def)
  show ?thesis
  proof (cases "tj_missing_deps s2 \<noteq> [] \<or> vx_disc x \<noteq> vx_low x")
    case True
    then have "close_vertex v s2 = Inr s2" using x by (simp add: close_vertex_def)
    then show ?thesis using inv assms(2,4) vf ok' st nf by (auto simp: find_post_def intro!: exI [of _ "new @ [v]"])
  next
    case False
    have "set (tj_stack s2) \<subseteq> dom (tj_graph s2)" using stack_not_fresh [OF inv] by blast
    then obtain st' g' scc' where p: "pop_members v (tj_stack s2) (tj_graph s2) [] = Inr (st', g', scc')"
      using pop_members_total [of v "tj_stack s2" "tj_graph s2" "[]"] st by auto
    have dist: "distinct (new @ v # tj_stack s)" using inv st by (auto simp: tj_inv_def)
    from pop_members_spec [OF p] obtain ms where ms: "tj_stack s2 = ms @ st'" "st' \<noteq> []" "hd st' = v" "v \<notin> set ms"
      "g' = (\<lambda>w. if w \<in> set ms then map_option (\<lambda>x. x\<lparr>vx_on_stack := False\<rparr>) (tj_graph s2 w) else tj_graph s2 w)"
      "scc' = map (\<lambda>w. (vx_txn_id (the (tj_graph s2 w)), vx_is_local (the (tj_graph s2 w)))) ms" by auto
    have "new @ v # tj_stack s = ms @ v # tl st'" using ms(1-3) st by (cases st') simp_all
    moreover have "v \<notin> set new" "v \<notin> set (tj_stack s)" using dist by simp_all
    ultimately have "new = ms \<and> tj_stack s = tl st'" using append_Cons_eq_iff [of v new "tj_stack s" ms "tl st'"] by blast
    then have mst: "ms = new" "tl st' = tj_stack s" by simp_all
    define scc where "scc = sort (scc' @ [(vx_txn_id x, vx_is_local x)])"
    define s' where "s' = s2\<lparr>tj_graph := g', tj_stack := tj_stack s, tj_sccs := tj_sccs s2 @ [scc]\<rparr>"
    have c: "close_vertex v s2 = Inr s'" using False x p mst(2) by (simp add: close_vertex_def s'_def scc_def)
    have id: "vx_txn_id y = w" if "tj_graph s2 w = Some y" for w y using inv that by (simp add: tj_inv_def)
    have idn: "vx_txn_id (the (tj_graph s2 w)) = w" if "w \<in> set new" for w
      using stack_not_fresh [OF inv, of w] that st id by auto
    then have ids: "fst ` set scc = insert v (set new)" using id [OF x(1)] ms(6) mst(1) by (auto simp: scc_def image_image)
    have g: "deps_of g' = deps_of (tj_graph s2)" "disc_of g' = disc_of (tj_graph s2)" "dom g' = dom (tj_graph s2)"
      by (auto simp: ms(5) deps_of_def disc_of_def fun_eq_iff dom_def split: option.splits)
    have outside: "g' w = tj_graph s2 w" if "w \<notin> set new" for w using that by (simp add: ms(5) mst(1))
    have fr: "fresh s' = fresh s2" using fresh_close [OF c] .
    have low: "low_of (tj_graph s2) v = tj_id_counter s + 1" using False assms(5) x by (simp add: low_of_def disc_of_def)
    have dep: "jd_txn_id d = w \<or> TxnHorizon_contains (jd_txn_id d) h \<or> jd_txn_id d \<in> scc_ids (tj_sccs s2 @ [scc]) \<or> jd_txn_id d \<in> D"
      if "w \<in> fst ` set scc" "d \<in> set (deps_of g' w)" for w d
    proof -
      have "dep_ok h (tj_stack s) (low_of (tj_graph s2) v) s2 w (jd_txn_id d)" using ok' that ids g(1) by (auto simp: all_ok_def)
      moreover have "jd_txn_id d \<notin> set (tj_stack s)" if "tj_id_counter s + 1 \<le> disc_of (tj_graph s2) (jd_txn_id d)"
      proof
        assume n: "jd_txn_id d \<in> set (tj_stack s)"
        then have "disc_of (tj_graph s) (jd_txn_id d) \<le> tj_id_counter s" using assms(3) by (fastforce simp: tj_inv_def disc_of_def)
        moreover have "jd_txn_id d \<notin> fresh s" using n stack_not_fresh [OF assms(3)] by blast
        ultimately show False using assms(2) that by (simp add: frame_def)
      qed
      ultimately have "jd_txn_id d = w \<or> TxnHorizon_contains (jd_txn_id d) h \<or>
          jd_txn_id d \<in> dom (tj_graph s2) \<and> jd_txn_id d \<notin> fresh s2 \<and> jd_txn_id d \<notin> set (tj_stack s)"
        using False low by (auto simp: dep_ok_def)
      then show ?thesis using inv ids st by (auto simp: tj_inv_def scc_ids_snoc)
    qed
    have "dep_closed h D g' (tj_sccs s2)" using inv by (simp add: tj_inv_def dep_closed_def g)
    then have "dep_closed h D g' (tj_sccs s2 @ [scc])" using dep by (rule dep_closed_snoc)
    moreover have "\<forall>w y. g' w = Some y \<longrightarrow> vx_txn_id y = w" using id by (auto simp: ms(5) split: if_splits)
    moreover have "g' w = tj_graph s2 w" if "w \<in> set (tj_stack s)" for w using outside that dist by auto
    moreover have "dom g' \<subseteq> fresh s2 \<union> set (tj_stack s) \<union> scc_ids (tj_sccs s2 @ [scc]) \<union> D"
      using inv st ids unfolding g(3) scc_ids_snoc by (auto simp: tj_inv_def)
    moreover have "set (tj_stack s) \<subseteq> set (tj_stack s2)" using st by auto
    moreover have "\<forall>w\<in>set (tj_stack s2). \<exists>x. tj_graph s2 w = Some x \<and> vx_disc x \<noteq> 0 \<and> vx_on_stack x \<and> vx_disc x \<le> tj_id_counter s2"
      using inv by (simp add: tj_inv_def)
    moreover have "distinct (tj_stack s @ map fst (concat (tj_sccs s2 @ [scc])))"
    proof -
      have e: "map fst (scc' @ [(vx_txn_id x, vx_is_local x)]) = new @ [v]"
        using idn id [OF x(1)] by (simp add: ms(6) mst(1) map_idI)
      have "mset (map fst scc) = mset (map fst (scc' @ [(vx_txn_id x, vx_is_local x)]))" by (simp add: scc_def)
      then have "mset (map fst scc) = mset (new @ [v])" unfolding e .
      then have "distinct (map fst scc)" using dist mset_eq_imp_distinct_iff [of "map fst scc" "new @ [v]"] by simp
      moreover have "distinct ((new @ v # tj_stack s) @ map fst (concat (tj_sccs s2)))" using inv unfolding tj_inv_def st by (elim conjE)
      moreover have "set (map fst scc) = insert v (set new)" using ids by simp
      ultimately have "distinct (tj_stack s @ map fst (concat (tj_sccs s2)) @ map fst scc)" by (rule distinct_move)
      then show ?thesis by (simp only: concat_append map_append concat.simps append_Nil2)
    qed
    moreover have "(fresh s2 \<union> set (tj_stack s) \<union> scc_ids (tj_sccs s2 @ [scc])) \<inter> D = {}"
      using inv ids st unfolding scc_ids_snoc by (auto simp: tj_inv_def)
    moreover have "scc_ids (tj_sccs s2 @ [scc]) \<subseteq> dom g' - fresh s2"
      using inv ids st stack_not_fresh [OF inv] unfolding scc_ids_snoc g(3) by (auto simp: tj_inv_def)
    ultimately have "tj_inv h D s'" unfolding tj_inv_def fr unfolding s'_def by (simp add: subset_iff)
    moreover have "frame {} s s'"
    proof -
      have "g' w = tj_graph s2 w" if "w \<notin> fresh s" for w using outside that nf by blast
      then show ?thesis using assms(2) g unfolding frame_def fr unfolding s'_def by simp
    qed
    ultimately show ?thesis using c vf fr by (auto simp: find_post_def s'_def all_ok_def)
  qed
qed

lemma visit_step:
  assumes "visit_pre h D st F v s" "frame {v} s s1" "tj_inv h D s1" "tj_stack s1 = new1 @ tj_stack s" "set new1 \<subseteq> F"
    and "low_of (tj_graph s1) v \<le> low_of (tj_graph s) v" "all_ok h st (low_of (tj_graph s1) v) s1 (set new1)"
  shows "visit_pre h D st F v s1"
proof -
  obtain new where new: "tj_stack s = new @ v # st" "set new \<subseteq> F" "all_ok h st (low_of (tj_graph s) v) s (set new)"
    using assms(1) by (auto simp: visit_pre_def)
  have "all_ok h st (low_of (tj_graph s1) v) s1 (set (new1 @ new))"
    using all_ok_mono [OF new(3) assms(2,6)] assms(7) by (auto simp: all_ok_def)
  moreover have "fresh s1 \<subseteq> F" using assms(1,2) by (auto simp: visit_pre_def frame_def)
  ultimately show ?thesis using assms(3-5) new by (auto simp: visit_pre_def intro!: exI [of _ "new1 @ new"])
qed

definition visit_post :: "TxnHorizon \<Rightarrow> TxnId set \<Rightarrow> TxnId list \<Rightarrow> TxnId set \<Rightarrow> TxnId \<Rightarrow> JanusDependency list \<Rightarrow>
    TarjanSCCsFinder \<Rightarrow> TarjanSCCsFinder \<Rightarrow> bool" where
  "visit_post h D st F v ds s s' \<longleftrightarrow> visit_pre h D st F v s' \<and> frame {v} s s' \<and> low_of (tj_graph s') v \<le> low_of (tj_graph s) v \<and>
     (\<forall>d\<in>set ds. dep_ok h st (low_of (tj_graph s') v) s' v (jd_txn_id d))"

lemma visit_post_Cons:
  assumes "visit_post h D st F v ds s1 s'" "frame {v} s s1" "low_of (tj_graph s1) v \<le> low_of (tj_graph s) v"
    and "dep_ok h st (low_of (tj_graph s1) v) s1 v (jd_txn_id d)"
  shows "visit_post h D st F v (d # ds) s s'"
  using assms frame_trans [of "{v}" s s1 s'] dep_ok_mono [OF assms(4), of "{v}" s'] by (auto simp: visit_post_def)

lemma frame_enter_trans:
  assumes "frame {} s s1" "frame {v} s1 s2" "v \<in> fresh s"
  shows "frame {} s s2"
proof -
  have "frame {v} s s2" using frame_trans [OF frame_weaken [OF assms(1)] assms(2)] .
  then show ?thesis using assms(3) by (auto simp: frame_def)
qed

lemma visit_known:
  assumes "visit_pre h D st F v s" "tj_graph s n = Some x" "vx_disc x \<noteq> 0" "s1 = (if vx_on_stack x then lower v (vx_disc x) s else s)"
  shows "visit_pre h D st F v s1 \<and> frame {v} s s1 \<and> low_of (tj_graph s1) v \<le> low_of (tj_graph s) v \<and>
    dep_ok h st (low_of (tj_graph s1) v) s1 v n"
proof -
  have inv: "tj_inv h D s" and v: "v \<in> dom (tj_graph s)" "v \<notin> fresh s" and st: "set st \<subseteq> set (tj_stack s)"
    using assms(1) stack_not_fresh [of h D s v] by (auto simp: visit_pre_def)
  note l = lower_inv [OF inv v, of "vx_disc x"]
  have s1: "tj_inv h D s1 \<and> frame {v} s s1 \<and> tj_stack s1 = tj_stack s \<and> low_of (tj_graph s1) v \<le> low_of (tj_graph s) v"
    using l inv by (auto simp: assms(4) frame_refl)
  have d: "disc_of (tj_graph s1) n = vx_disc x" "n \<notin> fresh s" using s1 assms(2,3) by (auto simp: frame_def fresh_def disc_of_def)
  have "vx_on_stack x" if "n \<in> set st" using that st inv assms(2) by (fastforce simp: tj_inv_def)
  moreover have "low_of (tj_graph s1) v \<le> disc_of (tj_graph s1) n" if "vx_on_stack x"
    unfolding d(1) using l that by (simp add: assms(4))
  ultimately have "n \<in> set st \<longrightarrow> low_of (tj_graph s1) v \<le> disc_of (tj_graph s1) n" by blast
  then have "dep_ok h st (low_of (tj_graph s1) v) s1 v n" using s1 d assms(2) by (auto simp: dep_ok_def frame_def)
  then show ?thesis using s1 visit_step [OF assms(1), of s1 "[]"] by (simp add: all_ok_def)
qed

lemma visit_found:
  assumes "visit_pre h D st F v s" "find_post h D n s s0" "n \<in> fresh s" "s1 = lower v (low_of (tj_graph s0) n) s0"
  shows "visit_pre h D st F v s1 \<and> frame {v} s s1 \<and> low_of (tj_graph s1) v \<le> low_of (tj_graph s) v \<and>
    dep_ok h st (low_of (tj_graph s1) v) s1 v n"
proof -
  have inv: "tj_inv h D s" and v: "v \<in> dom (tj_graph s)" "v \<notin> fresh s" and st: "set st \<subseteq> set (tj_stack s)" and F: "fresh s \<subseteq> F"
    using assms(1) stack_not_fresh [of h D s v] by (auto simp: visit_pre_def)
  obtain new where f: "tj_inv h D s0" "frame {} s s0" "n \<notin> fresh s0" "tj_stack s0 = new @ tj_stack s" "set new \<subseteq> fresh s"
    "all_ok h (tj_stack s) (low_of (tj_graph s0) n) s0 (set new)" using assms(2) by (auto simp: find_post_def)
  have v0: "v \<in> dom (tj_graph s0)" "v \<notin> fresh s0" "low_of (tj_graph s0) v = low_of (tj_graph s) v"
    using f(2) v by (auto simp: frame_def low_of_def)
  note l = lower_inv [OF f(1) v0(1,2), of "low_of (tj_graph s0) n", folded assms(4)]
  have fr: "frame {v} s s1" using frame_trans [OF frame_weaken [OF f(2)]] l by blast
  have "all_ok h (tj_stack s) (low_of (tj_graph s1) v) s1 (set new)" using all_ok_mono [OF f(6)] l by auto
  then have "all_ok h st (low_of (tj_graph s1) v) s1 (set new)" using st by (auto simp: all_ok_def dep_ok_def)
  moreover have "dep_ok h st (low_of (tj_graph s1) v) s1 v n"
  proof -
    have "n \<in> dom (tj_graph s)" using assms(3) by (auto simp: fresh_def)
    then have "n \<in> dom (tj_graph s1)" using fr by (simp add: frame_def)
    moreover have "n \<notin> fresh s1" using f(3) by (simp add: assms(4))
    moreover have "n \<notin> set st" using assms(3) st stack_not_fresh [OF inv] by blast
    ultimately show ?thesis by (simp add: dep_ok_def)
  qed
  moreover have "tj_stack s1 = new @ tj_stack s" "tj_inv h D s1" "low_of (tj_graph s1) v \<le> low_of (tj_graph s) v" "set new \<subseteq> F"
    using l f(4,5) v0(3) F by auto
  ultimately show ?thesis using visit_step [OF assms(1) fr, of new] fr by blast
qed

lemma search_post:
  "tj_inv h D s \<Longrightarrow> v \<in> fresh s \<Longrightarrow> \<not> TxnHorizon_contains v h \<Longrightarrow> \<exists>s'. FindSCCs h v s = Inr s' \<and> find_post h D v s s'"
  "visit_pre h D st F v s \<Longrightarrow> \<exists>s'. visit_deps h v ds s = Inr s' \<and> visit_post h D st F v ds s s'"
proof (induction h v s and h v ds s arbitrary: and st F rule: FindSCCs_visit_deps.induct)
  case (1 h v s)
  then obtain x where x: "tj_graph s v = Some x" "vx_disc x = 0" by (auto simp: fresh_def)
  let ?s1 = "enter_vertex v x s"
  from enter_pre [OF 1(2) x] have e: "visit_pre h D (tj_stack s) (fresh s) v ?s1" "frame {} s ?s1"
    "disc_of (tj_graph ?s1) v = tj_id_counter s + 1" by auto
  from 1(1) [OF x(1) _ e(1)] 1(4) x obtain s2 where s2: "visit_deps h v (vx_deps x) ?s1 = Inr s2"
    "visit_post h D (tj_stack s) (fresh s) v (vx_deps x) ?s1 s2" by blast
  have v1: "v \<notin> fresh ?s1" using fresh_enter [OF x(1)] by simp
  have fr: "frame {v} ?s1 s2" using s2(2) by (simp add: visit_post_def)
  have "disc_of (tj_graph s2) v = tj_id_counter s + 1" using fr v1 e(3) by (simp add: frame_def)
  moreover have "deps_of (tj_graph s2) v = vx_deps x" using fr e(2) x by (simp add: frame_def deps_of_def)
  ultimately show ?case
    using close_post [of h D s v s2] s2 1(2-4) x frame_enter_trans [OF e(2) fr 1(3)] by (simp add: FindSCCs.simps visit_post_def)
next
  case (2 h v s)
  then show ?case by (simp add: visit_post_def frame_refl)
next
  case (3 h v d ds s)
  let ?n = "jd_txn_id d"
  show ?case
  proof (cases "?n = v \<or> TxnHorizon_contains ?n h")
    case True
    then have "dep_ok h st (low_of (tj_graph s) v) s v ?n" by (auto simp: dep_ok_def)
    moreover have "visit_deps h v (d # ds) s = visit_deps h v ds s" using True by (simp add: Let_def)
    ultimately show ?thesis using 3(1) [OF refl True 3(6)] visit_post_Cons [OF _ frame_refl order_refl] by metis
  next
    case no: False
    show ?thesis
    proof (cases "tj_graph s ?n")
      case None
      note m = missing_inv [of h D s ?n d]
      have "tj_inv h D s" using 3(6) by (simp add: visit_pre_def)
      with m None have p: "visit_pre h D st F v (add_missing ?n d s)" "frame {v} s (add_missing ?n d s)"
        "dep_ok h st (low_of (tj_graph (add_missing ?n d s)) v) (add_missing ?n d s) v ?n"
        using visit_step [OF 3(6), of "add_missing ?n d s" "[]"] by (auto simp: frame_weaken all_ok_def dep_ok_def)
      have eq: "visit_deps h v (d # ds) s = visit_deps h v ds (add_missing ?n d s)" using no None by (simp add: Let_def)
      have "low_of (tj_graph (add_missing ?n d s)) v \<le> low_of (tj_graph s) v" using m \<open>tj_inv h D s\<close> by simp
      then show ?thesis unfolding eq using 3(2) [OF refl no None p(1)] visit_post_Cons p by blast
    next
      case (Some x)
      show ?thesis
      proof (cases "vx_disc x = 0")
        case True
        then have f: "?n \<in> fresh s" "tj_inv h D s" using Some 3(6) by (auto simp: fresh_def visit_pre_def)
        from 3(3) [OF refl no Some True f(2,1)] no obtain s0 where s0: "FindSCCs h ?n s = Inr s0" "find_post h D ?n s s0" by blast
        note p = visit_found [OF 3(6) s0(2) f(1) refl]
        let ?s1 = "lower v (low_of (tj_graph s0) ?n) s0"
        have eq: "visit_deps h v (d # ds) s = visit_deps h v ds ?s1" using no Some True s0(1) by (simp add: Let_def low_of_def)
        obtain s' where "visit_deps h v ds ?s1 = Inr s'" "visit_post h D st F v ds ?s1 s'"
          using 3(4) [OF refl no Some True s0(1), folded low_of_def] p by blast
        then show ?thesis unfolding eq using visit_post_Cons p by blast
      next
        case nz: False
        note p = visit_known [OF 3(6) Some nz refl]
        let ?s1 = "if vx_on_stack x then lower v (vx_disc x) s else s"
        have eq: "visit_deps h v (d # ds) s = visit_deps h v ds ?s1" using no Some nz by (simp add: Let_def)
        obtain s' where "visit_deps h v ds ?s1 = Inr s'" "visit_post h D st F v ds ?s1 s'"
          using 3(5) [OF refl no Some nz] p by blast
        then show ?thesis unfolding eq using visit_post_Cons p by blast
      qed
    qed
  qed
qed

lemma reset_discs_total:
  "set st \<subseteq> dom g \<Longrightarrow> \<exists>g'. reset_discs st g = Inr g' \<and> dom g' = dom g"
proof (induction st arbitrary: g)
  case (Cons w st)
  obtain x where x: "g w = Some x" using Cons.prems by auto
  moreover have "\<exists>g'. reset_discs st (g(w \<mapsto> x\<lparr>vx_disc := 0\<rparr>)) = Inr g' \<and> dom g' = dom (g(w \<mapsto> x\<lparr>vx_disc := 0\<rparr>))"
    using Cons.prems by (intro Cons.IH) auto
  moreover have "dom (g(w \<mapsto> x\<lparr>vx_disc := 0\<rparr>)) = dom g" using x by auto
  ultimately show ?case by simp
qed simp

definition ids_match :: "Graph \<Rightarrow> bool" where
  "ids_match g \<longleftrightarrow> (\<forall>w x. g w = Some x \<longrightarrow> vx_txn_id x = w)"

lemma new_inv: "ids_match g \<Longrightarrow> tj_inv h {w. disc_of g w \<noteq> 0} (TarjanSCCsFinder_new g)"
  by (auto simp: ids_match_def tj_inv_def TarjanSCCsFinder_new_def dep_closed_def fresh_def disc_of_def scc_ids_def)

lemma search_result:
  assumes "ids_match g" "v \<in> dom g"
  shows "\<exists>s. FindSCCs h v (TarjanSCCsFinder_new g) = Inr s \<and> tj_inv h {w. disc_of g w \<noteq> 0} s \<and>
    deps_of (tj_graph s) = deps_of g \<and> dom (tj_graph s) = dom g"
proof (cases "v \<in> fresh (TarjanSCCsFinder_new g) \<and> \<not> TxnHorizon_contains v h")
  case True
  then show ?thesis using search_post(1) [OF new_inv [OF assms(1)]] by (fastforce simp: find_post_def frame_def TarjanSCCsFinder_new_def)
next
  case False
  then have "FindSCCs h v (TarjanSCCsFinder_new g) = Inr (TarjanSCCsFinder_new g)"
    using assms(2) by (auto simp: FindSCCs.simps fresh_def TarjanSCCsFinder_new_def)
  then show ?thesis using new_inv [OF assms(1)] by (simp add: TarjanSCCsFinder_new_def)
qed

lemma reset_discs_spec:
  assumes "reset_discs st g = Inr g'"
  shows "(\<forall>w. disc_of g' w = 0 \<longrightarrow> disc_of g w = 0 \<or> w \<in> set st) \<and> (ids_match g \<longrightarrow> ids_match g') \<and> dom g' = dom g"
  using assms
proof (induction st arbitrary: g)
  case (Cons w st)
  then obtain x where x: "g w = Some x" by (auto split: option.splits)
  define g1 where "g1 = g(w \<mapsto> x\<lparr>vx_disc := 0\<rparr>)"
  have r: "reset_discs st g1 = Inr g'" using Cons.prems x by (simp add: g1_def)
  have "ids_match g \<longrightarrow> ids_match g1" "dom g1 = dom g" "\<forall>u. disc_of g1 u = 0 \<longrightarrow> disc_of g u = 0 \<or> u = w"
    using x by (auto simp: ids_match_def disc_of_def g1_def)
  moreover from this Cons.IH [OF r] have "\<forall>u. disc_of g' u = 0 \<longrightarrow> disc_of g u = 0 \<or> u \<in> set (w # st)"
    by (metis list.set_intros)
  ultimately show ?case using Cons.IH [OF r] by simp
qed simp

lemma count_sets:
  "A \<subseteq> (F \<union> S) \<inter> G \<Longrightarrow> F0 = G - D \<Longrightarrow> E \<inter> F = {} \<Longrightarrow> E \<subseteq> G \<Longrightarrow> E \<inter> D = {} \<Longrightarrow> (F \<union> S) \<inter> D = {} \<Longrightarrow> S \<inter> E = {} \<Longrightarrow>
     A \<union> E \<subseteq> F0 \<and> A \<inter> E = {}"
  by blast

text \<open>A search moves every member of a component out of the unvisited vertices, and no other.\<close>

lemma search_counts:
  assumes "ids_match g" "FindSCCs h v (TarjanSCCsFinder_new g) = Inr s" "Finalize iter s = Inr (s', r)"
  shows "card (fresh s') + length (concat (tr_sccs r)) \<le> card (fresh (TarjanSCCsFinder_new g)) \<and>
    s' = TarjanSCCsFinder_new (tj_graph s') \<and> ids_match (tj_graph s')"
proof -
  let ?D = "{w. disc_of g w \<noteq> 0}" and ?E = "scc_ids (tj_sccs s)"
  have "v \<in> dom g" using assms(2) by (auto simp: FindSCCs.simps TarjanSCCsFinder_new_def split: option.splits)
  then have inv: "tj_inv h ?D s" and dom: "dom (tj_graph s) = dom g" using search_result [OF assms(1), of v h] assms(2) by auto
  obtain g' where g': "reset_discs (tj_stack s) (tj_graph s) = Inr g'" "tj_graph s' = g'" "s' = TarjanSCCsFinder_new g'" "tr_sccs r = tj_sccs s"
    using assms(3) by (auto simp: Finalize_def rbind_eq_Inr TarjanSCCsFinder_new_def)
  note rs = reset_discs_spec [OF g'(1)]
  have fresh_disc: "fresh f = {w \<in> dom (tj_graph f). disc_of (tj_graph f) w = 0}" for f
    by (auto simp: fresh_def disc_of_def dom_def)
  have "fresh s' \<subseteq> (fresh s \<union> set (tj_stack s)) \<inter> dom g"
    using rs dom unfolding fresh_disc g'(2) by auto
  moreover have "fresh (TarjanSCCsFinder_new g) = dom g - ?D"
    unfolding fresh_disc by (auto simp: TarjanSCCsFinder_new_def)
  moreover have "?E \<inter> fresh s = {}" "?E \<subseteq> dom g" "?E \<inter> ?D = {}" "(fresh s \<union> set (tj_stack s)) \<inter> ?D = {}"
    using inv dom unfolding tj_inv_def by blast+
  moreover have "set (tj_stack s) \<inter> ?E = {}" using inv unfolding tj_inv_def scc_ids_set by simp
  ultimately have "fresh s' \<union> ?E \<subseteq> fresh (TarjanSCCsFinder_new g) \<and> fresh s' \<inter> ?E = {}" by (rule count_sets)
  then have "card (fresh s') + card ?E \<le> card (fresh (TarjanSCCsFinder_new g))"
    by (subst card_Un_disjoint [symmetric]) (auto intro: card_mono)
  moreover have "card ?E = length (concat (tj_sccs s))"
    using inv distinct_card [of "map fst (concat (tj_sccs s))"] by (simp add: tj_inv_def scc_ids_set)
  moreover have "ids_match (tj_graph s)" using inv by (simp add: tj_inv_def ids_match_def)
  ultimately show ?thesis using g' rs by simp
qed

lemma reset_discs_zero:
  "reset_discs st g = Inr g' \<Longrightarrow> disc_of g w = 0 \<or> w \<in> set st \<Longrightarrow> disc_of g' w = 0"
  by (induction st g rule: reset_discs.induct) (auto simp: disc_of_def split: option.splits)

lemma reset_discs_other: "reset_discs st g = Inr g' \<Longrightarrow> w \<notin> set st \<Longrightarrow> g' w = g w"
  by (induction st g rule: reset_discs.induct) (auto split: option.splits)

lemma fresh_disc: "fresh f = {w \<in> dom (tj_graph f). disc_of (tj_graph f) w = 0}"
  by (auto simp: fresh_def disc_of_def dom_def)

text \<open>After a search exactly the members of its components count as visited.\<close>

lemma search_fresh:
  assumes "tj_inv h {w. disc_of g w \<noteq> 0} s" "dom (tj_graph s) = dom g" "reset_discs (tj_stack s) (tj_graph s) = Inr g'"
  shows "fresh (TarjanSCCsFinder_new g') = fresh (TarjanSCCsFinder_new g) - scc_ids (tj_sccs s)"
proof -
  let ?D = "{w. disc_of g w \<noteq> 0}" and ?E = "scc_ids (tj_sccs s)"
  note rs = reset_discs_spec [OF assms(3)]
  have "fresh (TarjanSCCsFinder_new g') = {w \<in> dom g. disc_of g' w = 0}"
    unfolding fresh_disc using rs assms(2) by (simp add: TarjanSCCsFinder_new_def)
  also have "\<dots> = (fresh s \<union> set (tj_stack s)) \<inter> dom g"
    using rs reset_discs_zero [OF assms(3)] assms(2) unfolding fresh_disc [of s] by auto
  also have "\<dots> = dom g - ?D - ?E"
  proof -
    have "set (tj_stack s) \<inter> ?E = {}" using assms(1) unfolding tj_inv_def scc_ids_set by simp
    moreover have "(fresh s \<union> set (tj_stack s)) \<inter> ?D = {}" "?E \<inter> fresh s = {}"
      "dom g \<subseteq> fresh s \<union> set (tj_stack s) \<union> ?E \<union> ?D"
      using assms(1,2) unfolding tj_inv_def by blast+
    ultimately show ?thesis by blast
  qed
  also have "dom g - ?D = fresh (TarjanSCCsFinder_new g)"
    unfolding fresh_disc by (auto simp: TarjanSCCsFinder_new_def)
  finally show ?thesis .
qed

text \<open>
  C14: the search for components ends on every graph, from every vertex of it, also when dependencies
  are missing or cyclic: none of its checks fails, and it leaves the finder ready for the next search, with the
  same vertices.  Of the vertices that were unvisited before, exactly the members of its components count as visited
  afterwards; the vertices it has met without putting them into a component can be searched again.
\<close>
theorem scc_search_terminates:
  assumes "ids_match g" "v \<in> dom g"
  shows "\<exists>s s' r. FindSCCs h v (TarjanSCCsFinder_new g) = Inr s \<and> Finalize iter s = Inr (s', r) \<and>
    s' = TarjanSCCsFinder_new (tj_graph s') \<and> dom (tj_graph s') = dom g \<and>
    fresh s' = fresh (TarjanSCCsFinder_new g) - scc_ids (tr_sccs r)"
proof -
  obtain s where s: "FindSCCs h v (TarjanSCCsFinder_new g) = Inr s" "tj_inv h {w. disc_of g w \<noteq> 0} s" "dom (tj_graph s) = dom g"
    using search_result [OF assms] by blast
  have "set (tj_stack s) \<subseteq> dom (tj_graph s)" using stack_not_fresh [OF s(2)] by blast
  then obtain g' where "reset_discs (tj_stack s) (tj_graph s) = Inr g'" "dom g' = dom (tj_graph s)"
    using reset_discs_total by blast
  moreover from search_fresh [OF s(2,3) this(1)] have
    "fresh (TarjanSCCsFinder_new g') = fresh (TarjanSCCsFinder_new g) - scc_ids (tj_sccs s)" .
  ultimately show ?thesis using s by (simp add: Finalize_def TarjanSCCsFinder_new_def)
qed

text \<open>
  C13: the components come in an order that respects the dependencies: a member of a component depends
  only on itself, on executed transactions, on members of the same or of an earlier component, and on
  transactions that an earlier search has put into a component.  So no transaction is
  dispatched while one of its dependencies is unknown or still waits.
\<close>
theorem sccs_respect_dependencies:
  assumes "ids_match g" "v \<in> dom g"
    and "FindSCCs h v (TarjanSCCsFinder_new g) = Inr s" "Finalize iter s = Inr (s', r)"
  shows "dep_closed h {w. disc_of g w \<noteq> 0} g (tr_sccs r)"
proof -
  have "tj_inv h {w. disc_of g w \<noteq> 0} s" "deps_of (tj_graph s) = deps_of g"
    using search_result [OF assms(1,2), of h] assms(3) by auto
  moreover have "tr_sccs r = tj_sccs s" using assms(4) by (auto simp: Finalize_def rbind_eq_Inr)
  ultimately show ?thesis by (simp add: tj_inv_def dep_closed_def)
qed

subsection \<open>The mark of a root\<close>

text \<open>A vertex that was visited and carries the mark of the vertices on the stack.\<close>

definition marked :: "Graph \<Rightarrow> TxnId \<Rightarrow> bool" where
  "marked g w \<longleftrightarrow> (\<exists>x. g w = Some x \<and> vx_on_stack x \<and> vx_disc x \<noteq> 0)"

definition mark_inv :: "TarjanSCCsFinder \<Rightarrow> bool" where
  "mark_inv s \<longleftrightarrow> ids_match (tj_graph s) \<and> distinct (tj_stack s) \<and> (\<forall>w\<in>set (tj_stack s). marked (tj_graph s) w) \<and>
     (\<forall>scc\<in>set (tj_sccs s). \<exists>w\<in>fst ` set scc. w \<notin> set (tj_stack s) \<and> marked (tj_graph s) w)"

lemma mark_inv_enter:
  assumes "mark_inv s" "tj_graph s v = Some vx" "vx_disc vx = 0"
  shows "mark_inv (enter_vertex v vx s)"
proof -
  have v: "\<not> marked (tj_graph s) v" using assms(2,3) by (simp add: marked_def)
  have "marked (tj_graph (enter_vertex v vx s)) w \<longleftrightarrow> w = v \<or> marked (tj_graph s) w" for w
    by (simp add: marked_def enter_vertex_def Let_def)
  moreover have "tj_stack (enter_vertex v vx s) = v # tj_stack s" "tj_sccs (enter_vertex v vx s) = tj_sccs s"
    by (simp_all add: enter_vertex_def Let_def)
  moreover have "ids_match (tj_graph (enter_vertex v vx s))"
    using assms(1,2) by (auto simp: mark_inv_def ids_match_def enter_vertex_def Let_def)
  ultimately show ?thesis using assms(1) v unfolding mark_inv_def by (auto; metis)
qed

lemma mark_inv_lower: "mark_inv s \<Longrightarrow> mark_inv (lower v l s)"
proof -
  assume s: "mark_inv s"
  have "marked (tj_graph (lower v l s)) = marked (tj_graph s)"
    by (auto simp: marked_def lower_def fun_eq_iff split: option.splits)
  moreover have "ids_match (tj_graph (lower v l s))"
    using s by (auto simp: mark_inv_def ids_match_def lower_def split: option.splits)
  moreover have "tj_stack (lower v l s) = tj_stack s" "tj_sccs (lower v l s) = tj_sccs s"
    by (simp_all add: lower_def split: option.splits)
  ultimately show ?thesis using s by (simp add: mark_inv_def)
qed

lemma mark_inv_missing: "mark_inv s \<Longrightarrow> mark_inv (add_missing n d s)"
  by (simp add: mark_inv_def add_missing_def)

lemma mark_inv_close:
  assumes "mark_inv s" "close_vertex v s = Inr s'"
  shows "mark_inv s'"
proof (cases "s' = s")
  case False
  with assms(2) obtain vx st g scc where vx: "tj_graph s v = Some vx"
    and p: "pop_members v (tj_stack s) (tj_graph s) [] = Inr (st, g, scc)"
    and s': "s' = s\<lparr>tj_graph := g, tj_stack := tl st, tj_sccs := tj_sccs s @ [sort (scc @ [(vx_txn_id vx, vx_is_local vx)])]\<rparr>"
    by (auto simp: close_vertex_def rbind_eq_Inr split: if_splits option.splits)
  from pop_members_spec [OF p] obtain ms where ms: "tj_stack s = ms @ st" "st \<noteq> []" "hd st = v"
    "g = (\<lambda>w. if w \<in> set ms then map_option (\<lambda>x. x\<lparr>vx_on_stack := False\<rparr>) (tj_graph s w) else tj_graph s w)" by blast
  then obtain st' where st: "st = v # st'" by (cases st) auto
  have d: "distinct (ms @ v # st')" and i: "ids_match (tj_graph s)" using assms(1) ms(1) st by (simp_all add: mark_inv_def)
  have keep: "marked g w = marked (tj_graph s) w" if "w \<notin> set ms" for w using that by (simp add: ms(4) marked_def)
  have stk: "\<forall>w\<in>set (ms @ v # st'). marked (tj_graph s) w" using assms(1) ms(1) st by (simp add: mark_inv_def)
  have old: "\<forall>c\<in>set (tj_sccs s). \<exists>w\<in>fst ` set c. w \<notin> set (ms @ v # st') \<and> marked (tj_graph s) w"
    using assms(1) unfolding mark_inv_def ms(1) st by (elim conjE)
  have "vx_txn_id vx = v" using i vx by (simp add: ids_match_def)
  then have "\<exists>w\<in>fst ` set (sort (scc @ [(vx_txn_id vx, vx_is_local vx)])). w \<notin> set st' \<and> marked g w"
    using d stk keep [of v] by (intro bexI [of _ v]) auto
  moreover have "\<exists>w\<in>fst ` set c. w \<notin> set st' \<and> marked g w" if "c \<in> set (tj_sccs s)" for c
  proof -
    from bspec [OF old that] obtain w where "w \<in> fst ` set c" "w \<notin> set (ms @ v # st')" "marked (tj_graph s) w" by blast
    with keep [of w] show ?thesis by auto
  qed
  moreover have "\<forall>w\<in>set st'. marked g w" using d stk keep by auto
  moreover have "ids_match g" using i by (auto simp: ids_match_def ms(4))
  ultimately show ?thesis using d st by (simp add: mark_inv_def s')
qed (use assms(1) in simp)

lemma search_marks:
  "mark_inv s \<Longrightarrow> FindSCCs h v s = Inr s' \<Longrightarrow> mark_inv s'"
  "mark_inv s \<Longrightarrow> visit_deps h v ds s = Inr s' \<Longrightarrow> mark_inv s'"
proof (induction h v s and h v ds s arbitrary: s' and s' rule: FindSCCs_visit_deps.induct)
  case (1 h v s)
  show ?case
  proof (cases "tj_graph s v")
    case (Some vx)
    show ?thesis
    proof (cases "vx_disc vx \<noteq> 0 \<or> TxnHorizon_contains v h")
      case False
      then obtain s2 where "visit_deps h v (vx_deps vx) (enter_vertex v vx s) = Inr s2" "close_vertex v s2 = Inr s'"
        using 1(3) Some by (auto simp: FindSCCs.simps rbind_eq_Inr)
      then show ?thesis using 1(1) [OF Some False] mark_inv_enter [OF 1(2) Some] mark_inv_close False by blast
    qed (use 1 Some in \<open>simp add: FindSCCs.simps\<close>)
  qed (use 1 in \<open>simp add: FindSCCs.simps\<close>)
next
  case (2 h v s)
  then show ?case by simp
next
  case (3 h v d ds s)
  let ?n = "jd_txn_id d"
  show ?case
  proof (cases "?n = v \<or> TxnHorizon_contains ?n h")
    case True
    then show ?thesis using 3(1) [OF refl True 3(6)] 3(7) by (simp add: Let_def)
  next
    case no: False
    show ?thesis
    proof (cases "tj_graph s ?n")
      case None
      then show ?thesis using 3(2) [OF refl no None mark_inv_missing [OF 3(6)]] 3(7) no by (simp add: Let_def)
    next
      case (Some x)
      show ?thesis
      proof (cases "vx_disc x = 0")
        case True
        then obtain s1 where s1: "FindSCCs h ?n s = Inr s1"
          "visit_deps h v ds (lower v (case tj_graph s1 ?n of Some nx1 \<Rightarrow> vx_low nx1 | None \<Rightarrow> 0) s1) = Inr s'"
          using 3(7) Some no by (auto simp: Let_def rbind_eq_Inr)
        from 3(3) [OF refl no Some True 3(6) s1(1)] have "mark_inv s1" .
        from 3(4) [OF refl no Some True s1(1) mark_inv_lower [OF this] s1(2)] show ?thesis .
      next
        case nz: False
        then have "visit_deps h v ds (if vx_on_stack x then lower v (vx_disc x) s else s) = Inr s'"
          using 3(7) Some no by (simp add: Let_def)
        moreover have "mark_inv (if vx_on_stack x then lower v (vx_disc x) s else s)" using 3(6) mark_inv_lower by simp
        ultimately show ?thesis using 3(5) [OF refl no Some nz] by blast
      qed
    qed
  qed
qed

lemma mark_inv_new: "ids_match g \<Longrightarrow> mark_inv (TarjanSCCsFinder_new g)"
  by (simp add: mark_inv_def TarjanSCCsFinder_new_def)

subsection \<open>An example\<close>

definition tj_dep :: "TxnId \<Rightarrow> JanusDependency" where
  "tj_dep i = \<lparr>jd_txn_id = i, jd_target_partition = 0, jd_participants_bitmap = 1\<rparr>"

text \<open>
  Three transactions without a cycle: the first depends on the other two, and the second on the third.
\<close>

definition tj_sample :: Graph where
  "tj_sample = [4294967296 \<mapsto> Vertex_new 4294967296 True [tj_dep 12884901888, tj_dep 8589934592],
     8589934592 \<mapsto> Vertex_new 8589934592 True [tj_dep 12884901888], 12884901888 \<mapsto> Vertex_new 12884901888 True []]"

lemma tj_sample_ids: "ids_match tj_sample" "4294967296 \<in> dom tj_sample"
  by (auto simp: ids_match_def tj_sample_def Vertex_new_def split: if_splits)

lemma tj_not_executed:
  "\<not> TxnHorizon_contains 4294967296 Map.empty" "\<not> TxnHorizon_contains 8589934592 Map.empty" "\<not> TxnHorizon_contains 12884901888 Map.empty"
  by (simp_all add: TxnHorizon_contains_def horizon_at_def Horizon_new_def Horizon_contains_def TXN_ID_GET_COUNTER_def id_bits_defs)

lemma tj_sample_search:
  "\<exists>s. FindSCCs Map.empty 4294967296 (TarjanSCCsFinder_new tj_sample) = Inr s \<and> tj_stack s = [] \<and> tj_missing_deps s = [] \<and>
     tj_sccs s = [[(12884901888, True)], [(4294967296, True), (8589934592, True)]]"
  by (simp add: FindSCCs.simps tj_sample_def TarjanSCCsFinder_new_def Vertex_new_def tj_dep_def tj_not_executed enter_vertex_def
      close_vertex_def lower_def)

text \<open>
  C40: the mark of the root of a component is never reset.  After every search, on every graph, each of the
  components found has a member that still carries \<^verbatim>\<open>on_stack\<close> (its root), although the stack is empty; the member keeps a
  discovery number, so a later visit takes it for a vertex on the stack and lowers \<^verbatim>\<open>low\<close> by it.  On three transactions
  without a cycle this gives two components instead of three, and the transaction with the smaller id precedes its
  dependency in the merged one.
\<close>
theorem scc_root_keeps_mark:
  assumes "ids_match g" "FindSCCs h v (TarjanSCCsFinder_new g) = Inr s" "Finalize iter s = Inr (s', r)"
  shows "tj_stack s' = [] \<and>
    (\<forall>scc\<in>set (tr_sccs r). \<exists>w\<in>fst ` set scc. \<exists>x. tj_graph s' w = Some x \<and> vx_on_stack x \<and> vx_disc x \<noteq> 0) \<and>
    (\<exists>s s' r. FindSCCs Map.empty 4294967296 (TarjanSCCsFinder_new tj_sample) = Inr s \<and> Finalize iter s = Inr (s', r) \<and>
      tr_sccs r = [[(12884901888, True)], [(4294967296, True), (8589934592, True)]] \<and>
      map jd_txn_id (deps_of tj_sample 4294967296) = [12884901888, 8589934592] \<and>
      map jd_txn_id (deps_of tj_sample 8589934592) = [12884901888] \<and> deps_of tj_sample 12884901888 = [])"
proof (intro conjI)
  from assms(3) obtain g' where g': "reset_discs (tj_stack s) (tj_graph s) = Inr g'"
    and s': "tj_graph s' = g'" "tj_stack s' = []" "tr_sccs r = tj_sccs s"
    by (auto simp: Finalize_def rbind_eq_Inr)
  show "tj_stack s' = []" by (rule s'(2))
  have m: "mark_inv s" using search_marks(1) [OF mark_inv_new [OF assms(1)] assms(2)] .
  show "\<forall>scc\<in>set (tr_sccs r). \<exists>w\<in>fst ` set scc. \<exists>x. tj_graph s' w = Some x \<and> vx_on_stack x \<and> vx_disc x \<noteq> 0"
  proof
    fix scc assume "scc \<in> set (tr_sccs r)"
    moreover have "\<forall>scc\<in>set (tr_sccs r). \<exists>w\<in>fst ` set scc. w \<notin> set (tj_stack s) \<and> marked (tj_graph s) w"
      using m unfolding mark_inv_def s'(3) by (elim conjE)
    ultimately obtain w where w: "w \<in> fst ` set scc" "w \<notin> set (tj_stack s)" "marked (tj_graph s) w" by blast
    with reset_discs_other [OF g' w(2)] s'(1) show
      "\<exists>w\<in>fst ` set scc. \<exists>x. tj_graph s' w = Some x \<and> vx_on_stack x \<and> vx_disc x \<noteq> 0" unfolding marked_def by metis
  qed
  obtain s where "FindSCCs Map.empty 4294967296 (TarjanSCCsFinder_new tj_sample) = Inr s" "tj_stack s = []"
    "tj_sccs s = [[(12884901888, True)], [(4294967296, True), (8589934592, True)]]" using tj_sample_search by blast
  then show "\<exists>s s' r. FindSCCs Map.empty 4294967296 (TarjanSCCsFinder_new tj_sample) = Inr s \<and> Finalize iter s = Inr (s', r) \<and>
      tr_sccs r = [[(12884901888, True)], [(4294967296, True), (8589934592, True)]] \<and>
      map jd_txn_id (deps_of tj_sample 4294967296) = [12884901888, 8589934592] \<and>
      map jd_txn_id (deps_of tj_sample 8589934592) = [12884901888] \<and> deps_of tj_sample 12884901888 = []"
    by (simp add: Finalize_def) (simp add: deps_of_def tj_sample_def Vertex_new_def tj_dep_def)
qed

theorem scc_root_keeps_mark_witness:
  "\<exists>s s' r. FindSCCs Map.empty 4294967296 (TarjanSCCsFinder_new tj_sample) = Inr s \<and> Finalize id s = Inr (s', r) \<and>
     tj_stack s' = [] \<and> (\<exists>x. tj_graph s' 12884901888 = Some x \<and> vx_on_stack x)"
proof -
  obtain s where s: "FindSCCs Map.empty 4294967296 (TarjanSCCsFinder_new tj_sample) = Inr s" "tj_stack s = []"
    "tj_sccs s = [[(12884901888, True)], [(4294967296, True), (8589934592, True)]]" using tj_sample_search by blast
  then obtain s' r where f: "Finalize id s = Inr (s', r)" "tr_sccs r = tj_sccs s" by (simp add: Finalize_def)
  from scc_root_keeps_mark [OF tj_sample_ids(1) s(1) f(1)] f(2) s(3) have
    "tj_stack s' = []" "\<exists>x. tj_graph s' 12884901888 = Some x \<and> vx_on_stack x" by auto
  with s(1) f(1) show ?thesis by blast
qed

theorem scc_search_terminates_witness:
  "\<exists>s s' r. FindSCCs Map.empty 4294967296 (TarjanSCCsFinder_new tj_sample) = Inr s \<and> Finalize id s = Inr (s', r) \<and>
    s' = TarjanSCCsFinder_new (tj_graph s') \<and> dom (tj_graph s') = dom tj_sample \<and>
    fresh s' = fresh (TarjanSCCsFinder_new tj_sample) - scc_ids (tr_sccs r)"
  using scc_search_terminates [OF tj_sample_ids, of Map.empty id] .

theorem sccs_respect_dependencies_witness:
  "dep_closed Map.empty {w. disc_of tj_sample w \<noteq> 0} tj_sample [[(12884901888, True)], [(4294967296, True), (8589934592, True)]]"
proof -
  obtain s where s: "FindSCCs Map.empty 4294967296 (TarjanSCCsFinder_new tj_sample) = Inr s" "tj_stack s = []"
    "tj_sccs s = [[(12884901888, True)], [(4294967296, True), (8589934592, True)]]" using tj_sample_search by blast
  then obtain s' r where "Finalize id s = Inr (s', r)" "tr_sccs r = tj_sccs s" by (simp add: Finalize_def)
  then show ?thesis using sccs_respect_dependencies [OF tj_sample_ids s(1), of id s' r] s(3) by simp
qed

end
