(* ===== verification/Janus_Scheduler.thy ===== *)
theory Janus_Scheduler
  imports Tarjan
begin

section \<open>The scheduler of Janus\<close>

text \<open>
  The scheduler (\<^verbatim>\<open>janus/scheduler.cpp\<close>) keeps the graph of committed transactions, inquires other
  partitions about missing dependencies, and sends the components it finds to the workers in turn.
  The last element of the list of ready transactions is the back of the vector.  The orders in which
  unordered containers are traversed are the arguments \<open>iter\<close> and \<open>ord\<close>.  The work list of
  \<^verbatim>\<open>CheckPendingTxns\<close> is a partial function; a run that would not end has no value.
\<close>

subsection \<open>State\<close>

type_synonym PendingIndex = "TxnId \<rightharpoonup> TxnId set"

definition PendingIndex_Add :: "TxnId \<Rightarrow> TxnId \<Rightarrow> PendingIndex \<Rightarrow> bool \<times> PendingIndex" where
  "PendingIndex_Add ancestor descendant index =
     (case index ancestor of
        None \<Rightarrow> (True, index(ancestor \<mapsto> {descendant}))
      | Some ds \<Rightarrow> (False, index(ancestor \<mapsto> insert descendant ds)))"

definition PendingIndex_Remove :: "TxnId \<Rightarrow> PendingIndex \<Rightarrow> TxnId set option \<times> PendingIndex" where
  "PendingIndex_Remove ancestor index =
     (case index ancestor of None \<Rightarrow> (None, index) | Some ds \<Rightarrow> (Some ds, index(ancestor := None)))"

record JanusScheduler =
  js_txns :: "TxnId \<rightharpoonup> Transaction"
  js_sccs_finder :: TarjanSCCsFinder
  js_execution_horizon :: TxnHorizon
  js_pending_txns :: PendingIndex
  js_pending_inquiries :: "TxnId \<rightharpoonup> MachineId list"
  js_current_worker :: nat

definition JanusScheduler_new :: JanusScheduler where
  "JanusScheduler_new = \<lparr>js_txns = Map.empty, js_sccs_finder = TarjanSCCsFinder_new Map.empty, js_execution_horizon = Map.empty,
     js_pending_txns = Map.empty, js_pending_inquiries = Map.empty, js_current_worker = 0\<rparr>"

abbreviation js_graph :: "JanusScheduler \<Rightarrow> Graph" where
  "js_graph s \<equiv> tj_graph (js_sccs_finder s)"

definition upd_graph :: "(Graph \<Rightarrow> Graph) \<Rightarrow> JanusScheduler \<Rightarrow> JanusScheduler" where
  "upd_graph f s = s\<lparr>js_sccs_finder := (js_sccs_finder s)\<lparr>tj_graph := f (js_graph s)\<rparr>\<rparr>"

record JanusInquiryResult =
  jr_txn_id :: TxnId
  jr_executed :: bool
  jr_deps :: "JanusDependency list"

datatype SchedulerOut =
    JsInquiryResponse MachineId "JanusInquiryResult list"
  | JsInquire MachineId "TxnId list"
  | JsDispatch nat Transaction

subsection \<open>Inquiries\<close>

fun inquiry_results :: "MachineId \<Rightarrow> TxnId list \<Rightarrow> JanusScheduler \<Rightarrow> JanusScheduler \<times> JanusInquiryResult list \<times> bool" where
  "inquiry_results from [] s = (s, [], True)"
| "inquiry_results from (i # is) s =
     (case js_graph s i of
        None \<Rightarrow>
          if TxnHorizon_contains i (js_execution_horizon s)
          then (let (s', rs, all_processed) = inquiry_results from is s in
            (s', \<lparr>jr_txn_id = i, jr_executed = True, jr_deps = []\<rparr> # rs, all_processed))
          else (let (s', rs, all_processed) = inquiry_results from is
              (s\<lparr>js_pending_inquiries := (js_pending_inquiries s)
                 (i \<mapsto> (case js_pending_inquiries s i of None \<Rightarrow> [] | Some ms \<Rightarrow> ms) @ [from])\<rparr>) in
            (s', rs, False))
      | Some x \<Rightarrow> (let (s', rs, all_processed) = inquiry_results from is s in
          (s', \<lparr>jr_txn_id = i, jr_executed = False, jr_deps = vx_deps x\<rparr> # rs, all_processed)))"

definition ProcessInquiry :: "MachineId \<Rightarrow> TxnId list \<Rightarrow> JanusScheduler \<Rightarrow> JanusScheduler \<times> SchedulerOut list \<times> bool" where
  "ProcessInquiry from ids s = (let (s', rs, all_processed) = inquiry_results from ids s in
     (s', if rs = [] then [] else [JsInquiryResponse from rs], all_processed))"

fun answer_pending :: "TxnId \<Rightarrow> MachineId list \<Rightarrow> JanusScheduler \<Rightarrow> (JanusScheduler \<times> SchedulerOut list) result" where
  "answer_pending i [] s = Inr (s, [])"
| "answer_pending i (m # ms) s = (let (s1, o1, all_processed) = ProcessInquiry m [i] s in
     if \<not> all_processed then Inl (CheckFailed ''ProcessInquiry(move(env))'')
     else rbind (answer_pending i ms s1) (\<lambda>(s2, o2). Inr (s2, o1 @ o2)))"

definition CheckPendingInquiry :: "TxnId \<Rightarrow> JanusScheduler \<Rightarrow> (JanusScheduler \<times> SchedulerOut list) result" where
  "CheckPendingInquiry i s =
     (case js_pending_inquiries s i of
        None \<Rightarrow> Inr (s, [])
      | Some ms \<Rightarrow> rbind (answer_pending i ms s) (\<lambda>(s1, outs).
          Inr (s1\<lparr>js_pending_inquiries := (js_pending_inquiries s1)(i := None)\<rparr>, outs)))"

subsection \<open>Dispatching components\<close>

fun dispatch_members :: "nat \<Rightarrow> (TxnId \<times> bool) list \<Rightarrow> JanusScheduler \<Rightarrow> (JanusScheduler \<times> SchedulerOut list) result" where
  "dispatch_members workers [] s = Inr (s, [])"
| "dispatch_members workers ((i, is_local) # ms) s =
     (if \<not> is_local
      then dispatch_members workers ms
        (upd_graph (\<lambda>g. g(i := None)) (s\<lparr>js_execution_horizon := TxnHorizon_Add i (js_execution_horizon s)\<rparr>))
      else case js_txns s i of
        None \<Rightarrow> Inl (CheckFailed ''Could not find transaction'')
      | Some txn \<Rightarrow>
          if workers = 0 then Inl (Undefined ''% workers_.size()'')
          else rbind (dispatch_members workers ms
              (s\<lparr>js_txns := (js_txns s)(i := None), js_current_worker := (js_current_worker s + 1) mod workers\<rparr>))
            (\<lambda>(s', outs). Inr (s', JsDispatch (js_current_worker s) txn # outs)))"

definition DispatchSCCs :: "nat \<Rightarrow> SCC list \<Rightarrow> JanusScheduler \<Rightarrow> (JanusScheduler \<times> SchedulerOut list) result" where
  "DispatchSCCs workers sccs s = dispatch_members workers (concat sccs) s"

record SchedulerEnv =
  se_config :: Configuration
  se_num_workers :: nat
  se_missing_order :: "(TxnId \<times> JanusDependency) list \<Rightarrow> (TxnId \<times> JanusDependency) list"
  se_pending_order :: "TxnId set \<Rightarrow> TxnId list"

fun inquire_missing :: "Configuration \<Rightarrow> TxnId \<Rightarrow> JanusDependency list \<Rightarrow> PendingIndex \<Rightarrow> TxnId list list \<Rightarrow>
    (PendingIndex \<times> TxnId list list) result" where
  "inquire_missing cf v [] index envs = Inr (index, envs)"
| "inquire_missing cf v (d # ds) index envs =
     (let (added, index') = PendingIndex_Add (jd_txn_id d) v index; part = unat (jd_target_partition d) in
      if \<not> added then inquire_missing cf v ds index' envs
      else rbind (shift_one (of_nat (cf_local_partition cf))) (\<lambda>b.
        if jd_participants_bitmap d AND b \<noteq> 0 then inquire_missing cf v ds index' envs
        else if length envs \<le> part then Inl (Undefined ''envs[part]'')
        else inquire_missing cf v ds index' (envs[part := envs ! part @ [jd_txn_id d]])))"

definition inquire_messages :: "Configuration \<Rightarrow> TxnId list list \<Rightarrow> SchedulerOut list" where
  "inquire_messages cf envs =
     concat (map (\<lambda>i. if envs ! i = [] then []
         else [JsInquire (MakeMachineId (of_nat (cf_local_region cf)) (of_nat (cf_local_replica cf)) (of_nat i)) (envs ! i)])
       [0..<length envs])"

definition FindAndResolveSCCs :: "SchedulerEnv \<Rightarrow> TxnId \<Rightarrow> JanusScheduler \<Rightarrow> TxnId list \<Rightarrow>
    (JanusScheduler \<times> TxnId list \<times> TxnId set \<times> SchedulerOut list) result" where
  "FindAndResolveSCCs e v s ready =
     rbind (FindSCCs (js_execution_horizon s) v (js_sccs_finder s)) (\<lambda>f1.
     rbind (Finalize (se_missing_order e) f1) (\<lambda>(f2, r).
       let s1 = upd_graph (\<lambda>g. case g v of None \<Rightarrow> g
             | Some x \<Rightarrow> g(v \<mapsto> x\<lparr>vx_missing_deps := int (length (tr_missing_deps r))\<rparr>)) (s\<lparr>js_sccs_finder := f2\<rparr>) in
       rbind (inquire_missing (se_config e) v (tr_missing_deps r) (js_pending_txns s1)
           (replicate (num_partitions (se_config e)) [])) (\<lambda>(index, envs).
       rbind (DispatchSCCs (se_num_workers e) (tr_sccs r) (s1\<lparr>js_pending_txns := index\<rparr>)) (\<lambda>(s2, outs).
         Inr (s2, ready @ map fst (concat (tr_sccs r)), tr_unready r, inquire_messages (se_config e) envs @ outs)))))"

fun check_descendants :: "SchedulerEnv \<Rightarrow> TxnId list \<Rightarrow> TxnId set \<Rightarrow> JanusScheduler \<Rightarrow> TxnId list \<Rightarrow>
    (JanusScheduler \<times> TxnId list \<times> SchedulerOut list) result" where
  "check_descendants e [] unready s ready = Inr (s, ready, [])"
| "check_descendants e (p # ps) unready s ready =
     (case js_graph s p of
        None \<Rightarrow> check_descendants e ps unready s ready
      | Some x \<Rightarrow>
          if vx_disc x \<noteq> 0 then check_descendants e ps unready s ready
          else let s1 = upd_graph (\<lambda>g. g(p \<mapsto> x\<lparr>vx_missing_deps := vx_missing_deps x - 1\<rparr>)) s in
            if p \<in> unready \<or> 0 < vx_missing_deps x - 1 then check_descendants e ps unready s1 ready
            else rbind (FindAndResolveSCCs e p s1 ready) (\<lambda>(s2, ready', new_unready, o1).
              rbind (check_descendants e ps (unready \<union> new_unready) s2 ready') (\<lambda>(s3, ready'', o2).
                Inr (s3, ready'', o1 @ o2))))"

partial_function (option) CheckPendingTxns ::
    "SchedulerEnv \<Rightarrow> TxnId list \<Rightarrow> JanusScheduler \<Rightarrow> SchedulerOut list \<Rightarrow> (JanusScheduler \<times> SchedulerOut list) result option" where
  "CheckPendingTxns e ready s outs =
     (if ready = [] then Some (Inr (s, outs))
      else case PendingIndex_Remove (last ready) (js_pending_txns s) of
        (None, index) \<Rightarrow> CheckPendingTxns e (butlast ready) s outs
      | (Some ps, index) \<Rightarrow>
          (case check_descendants e (se_pending_order e ps) {} (s\<lparr>js_pending_txns := index\<rparr>) (butlast ready) of
             Inl err \<Rightarrow> Some (Inl err)
           | Inr (s', ready', outs') \<Rightarrow> CheckPendingTxns e ready' s' (outs @ outs')))"

subsection \<open>Handlers\<close>

definition resolve_and_check :: "SchedulerEnv \<Rightarrow> TxnId \<Rightarrow> JanusScheduler \<Rightarrow> SchedulerOut list \<Rightarrow>
    (JanusScheduler \<times> SchedulerOut list) result option" where
  "resolve_and_check e i s outs =
     (case FindAndResolveSCCs e i s [] of
        Inl err \<Rightarrow> Some (Inl err)
      | Inr (s1, ready, unready, o1) \<Rightarrow> CheckPendingTxns e ready s1 (outs @ o1))"

definition ProcessTransaction :: "SchedulerEnv \<Rightarrow> Transaction \<Rightarrow> JanusDependency list \<Rightarrow> JanusScheduler \<Rightarrow>
    (JanusScheduler \<times> SchedulerOut list) result option" where
  "ProcessTransaction e txn deps s =
     (let i = tx_id txn; s1 = (if js_txns s i = None then s\<lparr>js_txns := (js_txns s)(i \<mapsto> txn)\<rparr> else s) in
      if js_graph s1 i \<noteq> None then Some (Inl (CheckFailed ''inserted''))
      else case CheckPendingInquiry i (upd_graph (\<lambda>g. g(i \<mapsto> Vertex_new i True deps)) s1) of
        Inl err \<Rightarrow> Some (Inl err)
      | Inr (s2, outs) \<Rightarrow> resolve_and_check e i s2 outs)"

fun process_inquiry_results :: "SchedulerEnv \<Rightarrow> JanusInquiryResult list \<Rightarrow> JanusScheduler \<Rightarrow> SchedulerOut list \<Rightarrow>
    (JanusScheduler \<times> SchedulerOut list) result option" where
  "process_inquiry_results e [] s outs = Some (Inr (s, outs))"
| "process_inquiry_results e (r # rs) s outs =
     (let i = jr_txn_id r in
      case (if jr_executed r
          then CheckPendingTxns e [i] (s\<lparr>js_execution_horizon := TxnHorizon_Add i (js_execution_horizon s)\<rparr>) outs
          else resolve_and_check e i
            (upd_graph (\<lambda>g. if g i = None then g(i \<mapsto> Vertex_new i False (jr_deps r)) else g) s) outs) of
        None \<Rightarrow> None
      | Some (Inl err) \<Rightarrow> Some (Inl err)
      | Some (Inr (s', outs')) \<Rightarrow> process_inquiry_results e rs s' outs')"

definition worker_finished :: "TxnId \<Rightarrow> JanusScheduler \<Rightarrow> JanusScheduler" where
  "worker_finished i s =
     upd_graph (\<lambda>g. g(i := None)) (s\<lparr>js_execution_horizon := TxnHorizon_Add i (js_execution_horizon s)\<rparr>)"

datatype SchedulerEvent =
    JsCommit Transaction "JanusDependency list"
  | JsInquiry MachineId "TxnId list"
  | JsInquiryResult "JanusInquiryResult list"
  | JsFinished TxnId

fun janus_scheduler_step :: "SchedulerEnv \<Rightarrow> JanusScheduler \<Rightarrow> SchedulerEvent \<Rightarrow> (JanusScheduler \<times> SchedulerOut list) result option" where
  "janus_scheduler_step e s (JsCommit txn deps) = ProcessTransaction e txn deps s"
| "janus_scheduler_step e s (JsInquiry from ids) = (let (s', outs, all_processed) = ProcessInquiry from ids s in Some (Inr (s', outs)))"
| "janus_scheduler_step e s (JsInquiryResult rs) = process_inquiry_results e rs s []"
| "janus_scheduler_step e s (JsFinished i) = Some (Inr (worker_finished i s, []))"

subsection \<open>Every handler returns\<close>

definition js_idle :: "JanusScheduler \<Rightarrow> bool" where
  "js_idle s \<longleftrightarrow> js_sccs_finder s = TarjanSCCsFinder_new (js_graph s) \<and> ids_match (js_graph s)"

definition waiting :: "JanusScheduler \<Rightarrow> TxnId set" where
  "waiting s = fresh (js_sccs_finder s)"

lemma upd_graph_sel [simp]: "js_graph (upd_graph f s) = f (js_graph s)" "js_txns (upd_graph f s) = js_txns s"
  "js_pending_txns (upd_graph f s) = js_pending_txns s"
  by (simp_all add: upd_graph_def)

lemma waiting_graph: "waiting s = {w. \<exists>x. js_graph s w = Some x \<and> vx_disc x = 0}"
  by (simp add: waiting_def fresh_def)

lemma js_idle_upd: "js_idle s \<Longrightarrow> ids_match (f (js_graph s)) \<Longrightarrow> js_idle (upd_graph f s)"
  by (cases "js_sccs_finder s") (auto simp: js_idle_def upd_graph_def TarjanSCCsFinder_new_def)

lemma js_idle_other: "js_sccs_finder s' = js_sccs_finder s \<Longrightarrow> js_idle s \<Longrightarrow> js_idle s'"
  by (simp add: js_idle_def)

lemma ids_match_upd: "ids_match g \<Longrightarrow> vx_txn_id x = i \<Longrightarrow> ids_match (g(i \<mapsto> x))" "ids_match g \<Longrightarrow> ids_match (g(i := None))"
  by (auto simp: ids_match_def)

lemma dispatch_members_keeps:
  "dispatch_members n ms s = Inr (s', outs) \<Longrightarrow> js_idle s \<Longrightarrow> js_idle s' \<and> waiting s' \<subseteq> waiting s"
proof (induction n ms s arbitrary: s' outs rule: dispatch_members.induct)
  case (2 n i is_local ms s)
  show ?case
  proof (cases is_local)
    case False
    let ?s = "upd_graph (\<lambda>g. g(i := None)) (s\<lparr>js_execution_horizon := TxnHorizon_Add i (js_execution_horizon s)\<rparr>)"
    have "js_idle (s\<lparr>js_execution_horizon := TxnHorizon_Add i (js_execution_horizon s)\<rparr>)" using 2(4) by (simp add: js_idle_def)
    then have "js_idle ?s" using 2(4) by (intro js_idle_upd) (simp_all add: js_idle_def ids_match_upd)
    moreover have "waiting ?s \<subseteq> waiting s" by (auto simp: waiting_graph split: if_splits)
    ultimately show ?thesis using 2(1) [of s' outs] 2(3) False by auto
  next
    case True
    let ?s = "s\<lparr>js_txns := (js_txns s)(i := None), js_current_worker := (js_current_worker s + 1) mod n\<rparr>"
    from 2(3) True obtain txn os where t: "js_txns s i = Some txn" "n \<noteq> 0" "dispatch_members n ms ?s = Inr (s', os)"
      by (auto simp: rbind_eq_Inr split: option.splits if_splits)
    have "js_idle ?s" "waiting ?s = waiting s" using 2(4) by (simp_all add: js_idle_def waiting_def)
    then show ?thesis using 2(2) [of txn s' os] t True by simp
  qed
qed simp

lemma resolve_measure:
  assumes "FindAndResolveSCCs e v s ready = Inr (s', ready', unready, outs)" "js_idle s"
  shows "js_idle s' \<and> card (waiting s') + length ready' \<le> card (waiting s) + length ready"
proof -
  from assms(1) obtain f1 f2 r index envs o2 where
    f: "FindSCCs (js_execution_horizon s) v (js_sccs_finder s) = Inr f1" "Finalize (se_missing_order e) f1 = Inr (f2, r)"
    and d: "dispatch_members (se_num_workers e) (concat (tr_sccs r)) ((upd_graph (\<lambda>g. case g v of None \<Rightarrow> g
             | Some x \<Rightarrow> g(v \<mapsto> x\<lparr>vx_missing_deps := int (length (tr_missing_deps r))\<rparr>)) (s\<lparr>js_sccs_finder := f2\<rparr>))
             \<lparr>js_pending_txns := index\<rparr>) = Inr (s', o2)"
    and r: "ready' = ready @ map fst (concat (tr_sccs r))"
    unfolding FindAndResolveSCCs_def DispatchSCCs_def Let_def by (force simp: rbind_eq_Inr)
  let ?u = "\<lambda>g. case g v of None \<Rightarrow> g | Some x \<Rightarrow> g(v \<mapsto> x\<lparr>vx_missing_deps := int (length (tr_missing_deps r))\<rparr>)"
  let ?s1 = "(upd_graph ?u (s\<lparr>js_sccs_finder := f2\<rparr>))\<lparr>js_pending_txns := index\<rparr>"
  have s: "js_sccs_finder s = TarjanSCCsFinder_new (js_graph s)" "ids_match (js_graph s)" using assms(2) by (simp_all add: js_idle_def)
  have c: "card (fresh f2) + length (concat (tr_sccs r)) \<le> card (waiting s)" "f2 = TarjanSCCsFinder_new (tj_graph f2)" "ids_match (tj_graph f2)"
    using search_counts [OF s(2), of "js_execution_horizon s" v f1 "se_missing_order e" f2 r] f s(1) by (simp_all add: waiting_def)
  have "ids_match (?u (tj_graph f2))" using c(3) by (auto simp: ids_match_def split: option.splits)
  then have "js_idle (upd_graph ?u (s\<lparr>js_sccs_finder := f2\<rparr>))" using c(2,3)
    by (intro js_idle_upd) (simp_all add: js_idle_def cong: option.case_cong)
  then have i: "js_idle ?s1" by (rule js_idle_other [rotated]) simp
  have "waiting ?s1 = fresh f2"
    unfolding waiting_def fresh_def upd_graph_def by (auto split: option.splits if_splits)
  then have "js_idle s' \<and> waiting s' \<subseteq> fresh f2" using dispatch_members_keeps [OF d i] by simp
  then have "js_idle s'" "card (waiting s') \<le> card (fresh f2)" by (auto intro: card_mono)
  then show ?thesis using c(1) r by simp
qed

lemma descendants_measure:
  "check_descendants e ps unready s ready = Inr (s', ready', outs) \<Longrightarrow> js_idle s \<Longrightarrow>
     js_idle s' \<and> card (waiting s') + length ready' \<le> card (waiting s) + length ready"
proof (induction e ps unready s ready arbitrary: s' ready' outs rule: check_descendants.induct)
  case (2 e p ps unready s ready)
  show ?case
  proof (cases "js_graph s p")
    case None
    then show ?thesis using 2(1) [OF None] 2(5,6) by simp
  next
    case (Some x)
    show ?thesis
    proof (cases "vx_disc x = 0")
      case False
      then show ?thesis using 2(2) [OF Some False] 2(5,6) Some by simp
    next
      case True
      define s1 where "s1 = upd_graph (\<lambda>g. g(p \<mapsto> x\<lparr>vx_missing_deps := vx_missing_deps x - 1\<rparr>)) s"
      have "ids_match (js_graph s)" using 2(6) by (simp add: js_idle_def)
      then have i: "js_idle s1" unfolding s1_def using 2(6) Some by (intro js_idle_upd ids_match_upd) (simp_all add: ids_match_def)
      have w: "waiting s1 = waiting s" using Some True by (auto simp: waiting_graph s1_def split: if_splits)
      have nd: "\<not> vx_disc x \<noteq> 0" using True by simp
      show ?thesis
      proof (cases "p \<in> unready \<or> 0 < vx_missing_deps x - 1")
        case skip: True
        then have "check_descendants e ps unready s1 ready = Inr (s', ready', outs)" using 2(5) Some True by (simp add: Let_def s1_def)
        then show ?thesis using 2(3) [OF Some nd refl skip, folded s1_def] i w by simp
      next
        case run: False
        then obtain s2 r2 u2 o1 o2 where r: "FindAndResolveSCCs e p s1 ready = Inr (s2, r2, u2, o1)"
          "check_descendants e ps (unready \<union> u2) s2 r2 = Inr (s', ready', o2)"
          using 2(5) Some True by (auto simp: Let_def s1_def rbind_eq_Inr)
        note m = resolve_measure [OF r(1) i]
        show ?thesis using 2(4) [OF Some nd refl run r(1) [unfolded s1_def] refl refl refl r(2)] m w by simp
      qed
    qed
  qed
qed simp

definition returns :: "(JanusScheduler \<times> SchedulerOut list) result option \<Rightarrow> bool" where
  "returns r \<longleftrightarrow> (case r of None \<Rightarrow> False | Some (Inl err) \<Rightarrow> True | Some (Inr (s, outs)) \<Rightarrow> js_idle s)"

lemma CheckPendingTxns_returns: "js_idle s \<Longrightarrow> returns (CheckPendingTxns e ready s outs)"
proof (induction "card (waiting s) + length ready" arbitrary: s ready outs rule: less_induct)
  case less
  show ?case
  proof (cases "ready = []")
    case True
    then show ?thesis using less.prems by (simp add: CheckPendingTxns.simps returns_def)
  next
    case False
    then have l: "length (butlast ready) < length ready" by simp
    show ?thesis
    proof (cases "js_pending_txns s (last ready)")
      case None
      then have "CheckPendingTxns e ready s outs = CheckPendingTxns e (butlast ready) s outs"
        using False by (subst CheckPendingTxns.simps) (simp add: PendingIndex_Remove_def)
      then show ?thesis using less.hyps [of s "butlast ready"] less.prems l by simp
    next
      case (Some ps)
      let ?s = "s\<lparr>js_pending_txns := (js_pending_txns s)(last ready := None)\<rparr>"
      have i: "js_idle ?s" "waiting ?s = waiting s" using less.prems by (simp_all add: js_idle_def waiting_def)
      have e: "CheckPendingTxns e ready s outs = (case check_descendants e (se_pending_order e ps) {} ?s (butlast ready) of
             Inl err \<Rightarrow> Some (Inl err)
           | Inr (s', ready', outs') \<Rightarrow> CheckPendingTxns e ready' s' (outs @ outs'))"
        using False Some by (subst CheckPendingTxns.simps) (simp add: PendingIndex_Remove_def)
      show ?thesis
      proof (cases "check_descendants e (se_pending_order e ps) {} ?s (butlast ready)")
        case (Inl err)
        then show ?thesis unfolding e by (simp add: returns_def)
      next
        case (Inr y)
        obtain s' r' o' where y: "y = (s', r', o')" by (cases y)
        have m: "js_idle s'" "card (waiting s') + length r' \<le> card (waiting s) + length (butlast ready)"
          using descendants_measure [OF Inr [unfolded y] i(1)] i(2) by simp_all
        then have "card (waiting s') + length r' < card (waiting s) + length ready" using l by linarith
        then show ?thesis unfolding e Inr y using less.hyps [of s' r'] m(1) by simp
      qed
    qed
  qed
qed

lemma resolve_and_check_returns: "js_idle s \<Longrightarrow> returns (resolve_and_check e i s outs)"
proof (cases "FindAndResolveSCCs e i s []")
  case (Inr y)
  assume "js_idle s"
  obtain s' r' u o' where "y = (s', r', u, o')" by (cases y)
  then show ?thesis using Inr resolve_measure [of e i s "[]" s' r' u o'] \<open>js_idle s\<close> CheckPendingTxns_returns
    by (simp add: resolve_and_check_def)
qed (simp add: resolve_and_check_def returns_def)

lemma inquiry_keeps: "js_sccs_finder (fst (inquiry_results m is s)) = js_sccs_finder s"
proof (induction m "is" s rule: inquiry_results.induct)
  case (2 m i "is" s)
  show ?case
  proof (cases "js_graph s i")
    case None
    then show ?thesis using 2(1,2) [OF None] by (simp add: split_def Let_def)
  next
    case (Some x)
    then show ?thesis using 2(3) [OF Some] by (simp add: split_def Let_def)
  qed
qed simp

lemma answer_keeps: "answer_pending i ms s = Inr (s', outs) \<Longrightarrow> js_sccs_finder s' = js_sccs_finder s"
proof (induction ms arbitrary: s s' outs)
  case (Cons m ms)
  obtain s1 rs al where p: "inquiry_results m [i] s = (s1, rs, al)" by (metis prod_cases3)
  have f: "js_sccs_finder s1 = js_sccs_finder s" using inquiry_keeps [of m "[i]" s] unfolding p by simp
  have "answer_pending i (m # ms) s = (if \<not> al then Inl (CheckFailed ''ProcessInquiry(move(env))'')
     else rbind (answer_pending i ms s1) (\<lambda>(s2, o2). Inr (s2, (if rs = [] then [] else [JsInquiryResponse m rs]) @ o2)))"
    by (simp only: answer_pending.simps ProcessInquiry_def p Let_def prod.case)
  then obtain o2 where "answer_pending i ms s1 = Inr (s', o2)" using Cons.prems
    by (cases "answer_pending i ms s1") (auto split: if_splits)
  then show ?case using Cons.IH f by simp
qed simp

lemma ProcessTransaction_returns: "js_idle s \<Longrightarrow> returns (ProcessTransaction e txn deps s)"
proof -
  assume s: "js_idle s"
  let ?i = "tx_id txn"
  define s1 where "s1 = (if js_txns s ?i = None then s\<lparr>js_txns := (js_txns s)(?i \<mapsto> txn)\<rparr> else s)"
  define s2 where "s2 = upd_graph (\<lambda>g. g(?i \<mapsto> Vertex_new ?i True deps)) s1"
  have "js_idle s1" using s by (simp add: s1_def js_idle_def)
  then have i2: "js_idle s2" unfolding s2_def by (intro js_idle_upd ids_match_upd) (simp_all add: js_idle_def Vertex_new_def)
  have pt: "ProcessTransaction e txn deps s = (if js_graph s1 ?i \<noteq> None then Some (Inl (CheckFailed ''inserted''))
      else case CheckPendingInquiry ?i s2 of Inl err \<Rightarrow> Some (Inl err) | Inr (s2, outs) \<Rightarrow> resolve_and_check e ?i s2 outs)"
    unfolding ProcessTransaction_def Let_def s1_def s2_def by (rule refl)
  have i3: "js_idle s3" if c: "CheckPendingInquiry ?i s2 = Inr (s3, outs)" for s3 outs
  proof (cases "js_pending_inquiries s2 ?i")
    case (Some ms)
    then obtain s4 where "answer_pending ?i ms s2 = Inr (s4, outs)" "s3 = s4\<lparr>js_pending_inquiries := (js_pending_inquiries s4)(?i := None)\<rparr>"
      using c by (auto simp: CheckPendingInquiry_def rbind_eq_Inr)
    then have "js_sccs_finder s3 = js_sccs_finder s2" using answer_keeps by simp
    then show ?thesis using i2 js_idle_other by blast
  qed (use c i2 in \<open>simp add: CheckPendingInquiry_def\<close>)
  show ?thesis
  proof (cases "js_graph s1 ?i = None")
    case True
    show ?thesis
    proof (cases "CheckPendingInquiry ?i s2")
      case (Inr y)
      then show ?thesis using True i3 [of "fst y" "snd y"] resolve_and_check_returns unfolding pt by (simp add: split_def)
    qed (simp add: pt True returns_def)
  qed (simp add: pt returns_def)
qed

lemma inquiry_results_returns: "js_idle s \<Longrightarrow> returns (process_inquiry_results e rs s outs)"
proof (induction rs arbitrary: s outs)
  case Nil
  then show ?case by (simp add: returns_def)
next
  case (Cons r rs)
  let ?i = "jr_txn_id r"
  let ?g = "\<lambda>g. if g ?i = None then g(?i \<mapsto> Vertex_new ?i False (jr_deps r)) else g"
  define x where "x = (if jr_executed r
          then CheckPendingTxns e [?i] (s\<lparr>js_execution_horizon := TxnHorizon_Add ?i (js_execution_horizon s)\<rparr>) outs
          else resolve_and_check e ?i (upd_graph ?g s) outs)"
  have "js_idle (upd_graph ?g s)" using Cons.prems by (intro js_idle_upd) (auto simp: js_idle_def ids_match_def Vertex_new_def)
  moreover have "js_idle (s\<lparr>js_execution_horizon := TxnHorizon_Add ?i (js_execution_horizon s)\<rparr>)" using Cons.prems by (simp add: js_idle_def)
  ultimately have "returns x" unfolding x_def using CheckPendingTxns_returns resolve_and_check_returns by simp
  moreover have "process_inquiry_results e (r # rs) s outs = (case x of None \<Rightarrow> None
      | Some (Inl err) \<Rightarrow> Some (Inl err) | Some (Inr (s', outs')) \<Rightarrow> process_inquiry_results e rs s' outs')"
    by (simp add: x_def Let_def)
  ultimately have eq: "returns x" "process_inquiry_results e (r # rs) s outs = (case x of None \<Rightarrow> None
      | Some (Inl err) \<Rightarrow> Some (Inl err) | Some (Inr (s', outs')) \<Rightarrow> process_inquiry_results e rs s' outs')" by blast+
  show ?case
  proof (cases x)
    case (Some y)
    show ?thesis
    proof (cases y)
      case (Inr z)
      then have "js_idle (fst z)" using eq(1) Some by (simp add: returns_def split_def)
      then have "returns (process_inquiry_results e rs (fst z) (snd z))" by (rule Cons.IH)
      then show ?thesis unfolding eq(2) Some Inr by (simp add: split_def)
    qed (simp only: eq(2) Some option.case sum.case returns_def)
  qed (use eq(1) in \<open>simp add: returns_def\<close>)
qed

text \<open>
  C15: every handler of the scheduler returns, with a new state or with a failed check, whatever the graph of dependencies and whatever the orders in
  which unordered containers are traversed: the work list of \<^verbatim>\<open>CheckPendingTxns\<close> ends, because each transaction
  that joins it leaves the unvisited vertices, and the finder is ready for the next message unless a check failed.  With the
  initial state this covers every sequence of messages.
\<close>
theorem scheduler_returns:
  "js_idle JanusScheduler_new \<and> (js_idle s \<longrightarrow>
     (\<exists>r. janus_scheduler_step e s ev = Some r \<and> (\<forall>s' outs. r = Inr (s', outs) \<longrightarrow> js_idle s')))"
proof -
  have ret: "\<exists>r. x = Some r \<and> (\<forall>s' outs. r = Inr (s', outs) \<longrightarrow> js_idle s')" if "returns x" for x
    using that by (auto simp: returns_def split: option.splits sum.splits)
  have "returns (janus_scheduler_step e s ev)" if s: "js_idle s"
  proof (cases ev)
    case (JsInquiry m ids)
    then show ?thesis using s inquiry_keeps [of m ids s]
      by (cases "inquiry_results m ids s") (auto simp: ProcessInquiry_def returns_def js_idle_def)
  next
    case (JsFinished i)
    have "js_idle (s\<lparr>js_execution_horizon := TxnHorizon_Add i (js_execution_horizon s)\<rparr>)" using s by (simp add: js_idle_def)
    then have "js_idle (worker_finished i s)" unfolding worker_finished_def
      using s by (intro js_idle_upd ids_match_upd) (simp_all add: js_idle_def)
    then show ?thesis using JsFinished by (simp add: returns_def)
  qed (use s ProcessTransaction_returns inquiry_results_returns in simp_all)
  moreover have "js_idle JanusScheduler_new"
    by (simp add: js_idle_def JanusScheduler_new_def TarjanSCCsFinder_new_def ids_match_def)
  ultimately show ?thesis using ret by blast
qed

definition js_sample_env :: SchedulerEnv where
  "js_sample_env = \<lparr>se_config = \<lparr>cf_config = sample_config [sample_region [''a'']] 1 NoPartitioning,
     cf_local_address = ''a'', cf_local_region = 0, cf_local_replica = 0, cf_local_partition = 0,
     cf_local_machine_id = 0, cf_all_addresses = Map.empty, cf_all_machine_ids = [], cf_replication_order = []\<rparr>,
     se_num_workers = 1, se_missing_order = id, se_pending_order = sorted_list_of_set\<rparr>"

theorem scheduler_returns_witness:
  "\<exists>r. janus_scheduler_step js_sample_env JanusScheduler_new (JsCommit default_txn [tj_dep 4294967296]) = Some r"
  using scheduler_returns [of JanusScheduler_new js_sample_env "JsCommit default_txn [tj_dep 4294967296]"] by blast

end
