(* ===== verification/Spec2Isabelle.thy ===== *)
theory Spec2Isabelle
  imports DDR_Resolver Paxos Remaster Batcher Multi_Home_Orderer Forwarder Tpcc_Correct Janus_Correct Janus_Scheduler
begin

text \<open>
  \<^bold>\<open>A model of the Detock transaction engine.\<close>

  Detock executes multi-region transactions deterministically.  A client's transaction
  reaches a \<^verbatim>\<open>Server\<close>, is classified as single-home or multi-home by the home regions of
  its keys, is batched, ordered in per-region logs, replicated, and finally handed to
  the scheduler of every partition, whose lock manager decides when a worker may run it
  against the storage.  The theories follow that decomposition.

  \<^bold>\<open>Prelude.\<close>  Errors (exceptions, failed checks, undefined accesses) and the result type,
  runs of operations, and generic facts on lists, maps and words.

  \<^bold>\<open>Ids\<close> (\<^verbatim>\<open>common/types.h\<close>).  Machine and transaction ids as bit fields of machine words,
  records, lock modes, lock-table keys.  Packing and unpacking are inverse, lock-table
  keys are unambiguous.

  \<^bold>\<open>Text\<close> (\<^verbatim>\<open>common/string_utils.cpp\<close>, \<^verbatim>\<open>common/rolling_window.h\<close>).  Tokenizing against a
  reference definition, parsing of numbers, the rolling average.

  \<^bold>\<open>Logs\<close> (\<^verbatim>\<open>common/async_log.h\<close>, \<^verbatim>\<open>common/batch_log.cpp\<close>, the local log of
  \<^verbatim>\<open>module/log_manager.cpp\<close>).  In-order delivery, agreement of the delivered batches with
  the decided slots in whatever order the messages arrive, the replication condition.

  \<^bold>\<open>Log_Manager\<close> (\<^verbatim>\<open>module/log_manager.cpp\<close>).  The handlers that compose the local log and
  the batch logs, replicate the local order and feed the scheduler; the emitted
  transactions of each region follow its slots whatever the arrival order.

  \<^bold>\<open>Multi_Home_Orderer\<close> (\<^verbatim>\<open>module/multi_home_orderer.cpp\<close>).  Multi-home transactions are batched
  per region and released in the order of the global Paxos.  The orderers of two regions
  release the transactions they share in the same order.

  \<^bold>\<open>Server\<close> (\<^verbatim>\<open>module/server.cpp\<close>, \<^verbatim>\<open>common/rate_limiter.h\<close>).  Client requests, the rate limiter and the
  collection of the sub-transactions.  A transaction is answered at most once, and exactly
  when its last partition has reported, with the merge of the reports; the rate limiter
  keeps its rate, and grants nothing when the limit is one per second.

  \<^bold>\<open>Forwarder\<close> (\<^verbatim>\<open>module/forwarder.cpp\<close>).  The masters of the keys are read locally or asked from
  the other partitions, and the transaction is routed by them.  It is sent on exactly once, with the
  masters the partitions of its keys know, in whatever order the answers arrive.

  \<^bold>\<open>Batcher\<close> (\<^verbatim>\<open>module/sequencer.cpp\<close>, \<^verbatim>\<open>batcher.cpp\<close>).  Batching of the transactions of a
  region; a machine proposes itself once per batch, its batches are numbered without a gap
  and are the same for all receivers, which is what the local log relies on, unless a batch is
  delayed.

  \<^bold>\<open>Txn\<close> (\<^verbatim>\<open>common/proto_utils.cpp\<close>).  Transactions; the sub-transaction of a partition is
  given exactly, including when there is none; splitting by partition and merging of the
  sub-transactions that exist gives back the keys of their partitions, and the outcome of a
  merge.

  \<^bold>\<open>Config\<close> (\<^verbatim>\<open>common/configuration.cpp\<close>, \<^verbatim>\<open>common/sharder.cpp\<close>).  Construction of a
  configuration, machine ids, the five sharders behind one interface (locale
  \<open>partitioner\<close>).

  \<^bold>\<open>Lock_State, Lock_Manager\<close> (\<^verbatim>\<open>rma_lock_manager.cpp\<close>, \<^verbatim>\<open>old_lock_manager.cpp\<close>).  One lock
  and its two implementations (interpretations of the locale \<open>fifo_lock\<close>), mutual exclusion,
  first come first served, refinement of one by the other.  A lock is held in the modes its
  holders asked for, read off the history of requests alone (\<open>requested\<close>); the lock managers
  are families of such histories (\<open>key_history\<close>): isolation of ready transactions, exactness of a
  release, absence of deadlock when the locks are requested atomically in log order.

  \<^bold>\<open>DDR, DDR_Resolver\<close> (\<^verbatim>\<open>ddr_lock_manager.cpp\<close>).  The dependency-graph lock manager and
  the deadlock resolver: search for strongly connected components, stability check and
  relinking of the waited-by lists.

  \<^bold>\<open>Paxos\<close> (\<^verbatim>\<open>paxos/\<close>, \<^verbatim>\<open>module/consensus.cpp\<close>).  The fixed-leader multi-Paxos that orders
  batches and multi-home transactions: each slot is committed once, with the proposed
  value, after a majority.

  \<^bold>\<open>Storage\<close> (\<^verbatim>\<open>common/concurrent_hash_map.h\<close>, \<^verbatim>\<open>storage/\<close>).  The sharded hash map and
  the storage interface (locale \<open>kv_store\<close>), metadata initializers and data generators.

  \<^bold>\<open>Execution\<close> (\<^verbatim>\<open>execution/execution.cpp\<close>, \<^verbatim>\<open>execution/key_value.cpp\<close>).  Applying buffered
  writes through the storage interface (locale \<open>record_store\<close>) and the key-value
  interpreter with its commit and abort conditions.

  \<^bold>\<open>Tables, Table_Access\<close> (\<^verbatim>\<open>execution/tpcc/table.h\<close>, \<^verbatim>\<open>scalar.h\<close>, \<^verbatim>\<open>types.h\<close>,
  \<^verbatim>\<open>storage_adapter.cpp\<close>).  Typed tables over byte strings and the three storage adapters
  (locales \<open>row_reader\<close> and \<open>row_store\<close>): encodings, storage keys, what each table operation
  does on each adapter.

  \<^bold>\<open>Tpcc, Tpcc_Correct\<close> (\<^verbatim>\<open>execution/tpcc/\<close>, \<^verbatim>\<open>execution/tpcc.cpp\<close>).  The nine schemas, the
  five transactions and the engine; inserted rows are read back, and a transaction commits on
  the keys that were generated for it.

  \<^bold>\<open>Worker\<close> (\<^verbatim>\<open>txn_holder.cpp\<close>, \<^verbatim>\<open>worker.cpp\<close>, the counter check of \<^verbatim>\<open>remaster_manager.h\<close>).
  The phases of a dispatched transaction: reading, waiting for the other partitions,
  executing and reporting; a transaction waits for as many reads as there are other partitions,
  and an abort at one partition aborts the transaction at all.

  \<^bold>\<open>Remaster\<close> (\<^verbatim>\<open>simple_remaster_manager.cpp\<close>).  The queues in front of the lock manager while
  masters move; transactions of one log are admitted in log order.

  \<^bold>\<open>Janus, Janus_Correct\<close> (\<^verbatim>\<open>module/janus/\<close>).  The baseline protocol: the horizon of executed
  transactions as a growing set (locale \<open>growing_set\<close>), the quorums, the coordinator and the
  acceptors.  A commit carries the dependencies of complete quorums.  If the number of regions is odd,
  two writers of a key are linked by the answers of an acceptor in both quorums, and directly if no
  other transaction writes the key; with four regions they need not be, and with a third writer the
  link can lead through an answer that no quorum collects (\<open>latest_writer_loses_conflict\<close>).

  \<^bold>\<open>Tarjan, Janus_Scheduler\<close> (\<^verbatim>\<open>module/janus/tarjan.cpp\<close>, \<^verbatim>\<open>scheduler.cpp\<close>).  The search for strongly
  connected components and the scheduler around it.  The search and every handler of the scheduler
  end, exactly the members of the components found count as visited afterwards, and the components
  come in an order that respects the dependencies.  The root of every component keeps its mark, which
  can merge components.

  \<^bold>\<open>Conventions.\<close>  Machine integers that are packed, shifted or reduced are words of
  their width; counters that cannot overflow in practice are natural numbers, and the
  theories say so where they use them.  A container whose iteration order the standard
  leaves open is traversed in an order given as an argument.  Compile-time switches
  (\<^verbatim>\<open>LOCK_MANAGER_DDR\<close>, \<^verbatim>\<open>REMASTER_PROTOCOL_COUNTERLESS\<close>) are boolean arguments.  Messages
  sent by a handler are its output list.  Loops are total recursive functions, except for the work
  list of the Janus scheduler, which is a partial function shown to return; no fuel is used.

  \<^bold>\<open>Not modelled.\<close>  Sockets, polling and threads (\<^verbatim>\<open>connection/\<close>, \<^verbatim>\<open>module/base/\<close>), metrics
  and statistics, clock synchronization, the generators of benchmark load (\<^verbatim>\<open>workload/\<close>) and
  the client tools (\<^verbatim>\<open>service/\<close>, \<^verbatim>\<open>tools/\<close>) are input and output only.  The
  dispatch loop of the Detock scheduler, the per-key remaster manager, the MovR engine and the worker
  of the Janus baseline are not modelled.
\<close>

end
